(* ===== verification/Prelude.thy ===== *)
theory Prelude
  imports Main "HOL-Library.Word" "HOL-Library.Monad_Syntax"
begin

text \<open>
  Shared by every other theory: the machine types, the exception type of the
  results, byte strings and their little-endian reading and writing (the helpers
  \<^verbatim>\<open>write_le\<close>, \<^verbatim>\<open>read_le\<close>, \<^verbatim>\<open>write_u32\<close>, \<^verbatim>\<open>read_u32\<close> that the source repeats in
  each file), the lexicographic order of byte strings, the callback loop that all
  scans share, and the contract of fixed-width record codecs.
\<close>

unbundle bit_operations_syntax

type_synonym u8 = "8 word"
type_synonym u16 = "16 word"
type_synonym u32 = "32 word"
type_synonym u64 = "64 word"
type_synonym i64 = "64 word"
type_synonym bytes = "u8 list"

text \<open>The exceptions the code throws; what a function throws is the left part of a sum.\<close>

datatype exn = Runtime_error string | Invalid_argument string | Length_error

text \<open>A step on a state that may throw, followed by what runs when it does not.\<close>

definition and_then :: "(exn + 'a) \<times> 's \<Rightarrow> ('a \<Rightarrow> 's \<Rightarrow> (exn + 'b) \<times> 's) \<Rightarrow> (exn + 'b) \<times> 's" where
  "and_then r f = (case r of (Inl ex, s) \<Rightarrow> (Inl ex, s) | (Inr a, s) \<Rightarrow> f a s)"

lemma and_then_simps [simp]:
  "and_then (Inl ex, s) f = (Inl ex, s)" "and_then (Inr a, s) f = f a s"
  by (simp_all add: and_then_def)

named_theorems codec_simps "lengths and round trips of the byte encodings"
named_theorems sorted_simps "facts about strictly sorted lists"

section \<open>Little-endian integers\<close>

text \<open>The template helpers of event.cpp, at any width: \<open>sizeof(T)\<close> is \<open>LENGTH('a) div 8\<close>.\<close>

definition write_le :: "'a::len word \<Rightarrow> bytes" where
  "write_le v = map (\<lambda>i. ucast (drop_bit (8 * i) v)) [0..<LENGTH('a) div 8]"

text \<open>On \<open>int64_t\<close> the shift of the same template is arithmetic.\<close>

definition write_le_signed :: "'a::len word \<Rightarrow> bytes" where
  "write_le_signed v = map (\<lambda>i. ucast (signed_drop_bit (8 * i) v)) [0..<LENGTH('a) div 8]"

definition read_le :: "bytes \<Rightarrow> 'a::len word" where
  "read_le p = foldl (\<lambda>v i. v OR push_bit (8 * i) (ucast (p ! i))) 0 [0..<LENGTH('a) div 8]"

definition write_u32 :: "u32 \<Rightarrow> bytes" where
  "write_u32 v = [ucast (v AND 0xFF), ucast (drop_bit 8 v AND 0xFF),
                  ucast (drop_bit 16 v AND 0xFF), ucast (drop_bit 24 v AND 0xFF)]"

definition read_u32 :: "bytes \<Rightarrow> u32" where
  "read_u32 p = ucast (p ! 0) OR push_bit 8 (ucast (p ! 1))
             OR push_bit 16 (ucast (p ! 2)) OR push_bit 24 (ucast (p ! 3))"

definition write_u64 :: "u64 \<Rightarrow> bytes" where
  "write_u64 v = map (\<lambda>i. ucast (drop_bit (8 * i) v AND 0xFF)) [0..<8]"

definition read_u64 :: "bytes \<Rightarrow> u64" where
  "read_u64 p = foldl (\<lambda>v i. v OR push_bit (8 * i) (ucast (p ! i))) 0 [0..<8]"

lemma bit_u8_less: "bit (x :: u8) n \<Longrightarrow> n < 8"
  by (auto dest: bit_imp_le_length)

lemma length_write_le [simp, codec_simps]: "length (write_le (v :: 'a::len word)) = LENGTH('a) div 8"
  by (simp add: write_le_def)

lemma length_write_u32 [simp, codec_simps]: "length (write_u32 v) = 4"
  by (simp add: write_u32_def)

lemma length_write_u64 [simp, codec_simps]: "length (write_u64 v) = 8"
  by (simp add: write_u64_def)

lemma bit_write_le:
  "i < LENGTH('a) div 8 \<Longrightarrow> bit (write_le (v :: 'a::len word) ! i) n \<longleftrightarrow> n < 8 \<and> bit v (8 * i + n)"
  by (auto simp: write_le_def bit_simps add.commute)

lemma bit_read_le_upto:
  "bit (foldl (\<lambda>v i. v OR push_bit (8 * i) (ucast ((p :: bytes) ! i))) (0 :: 'a::len word) [0..<k]) n
     \<longleftrightarrow> n < 8 * k \<and> n < LENGTH('a) \<and> bit (p ! (n div 8)) (n mod 8)"
proof (induction k)
  case 0
  then show ?case by simp
next
  case (Suc k)
  have "8 * k \<le> n \<Longrightarrow> bit (p ! k) (n - 8 * k) \<Longrightarrow> n div 8 = k \<and> n mod 8 = n - 8 * k"
  proof -
    assume le: "8 * k \<le> n" and b: "bit (p ! k) (n - 8 * k)"
    from b have "n - 8 * k < 8" by (rule bit_u8_less)
    with le obtain r where "n = 8 * k + r" "r < 8"
      by (metis add_diff_inverse_nat not_less)
    then show ?thesis by simp
  qed
  moreover have "n < 8 * Suc k \<Longrightarrow> \<not> n < 8 * k \<Longrightarrow> n div 8 = k \<and> n mod 8 = n - 8 * k"
  proof -
    assume "n < 8 * Suc k" "\<not> n < 8 * k"
    then obtain r where "n = 8 * k + r" "r < 8"
      by (metis add_diff_inverse_nat mult_Suc_right nat_add_left_cancel_less add.commute)
    then show ?thesis by simp
  qed
  ultimately show ?case using Suc.IH
    by (auto simp: bit_simps dest: bit_u8_less)
qed

lemma bit_read_le:
  "bit (read_le p :: 'a::len word) n
     \<longleftrightarrow> n < 8 * (LENGTH('a) div 8) \<and> n < LENGTH('a) \<and> bit (p ! (n div 8)) (n mod 8)"
  unfolding read_le_def by (rule bit_read_le_upto)

lemma read_le_write_le [codec_simps]:
  assumes "8 * (LENGTH('a) div 8) = LENGTH('a)"
  shows "read_le (write_le (v :: 'a::len word) @ r) = v"
proof (rule bit_word_eqI)
  fix n assume n: "n < LENGTH('a)"
  have i: "n div 8 < LENGTH('a) div 8" using n assms by linarith
  have "bit ((write_le v @ r) ! (n div 8)) (n mod 8) = bit v n"
    using bit_write_le [OF i, of v "n mod 8"] i by (simp add: nth_append)
  then show "bit (read_le (write_le v @ r) :: 'a word) n = bit v n"
    using n assms by (simp add: bit_read_le)
qed

lemma write_le_read_le [codec_simps]:
  assumes "8 * (LENGTH('a) div 8) = LENGTH('a)" and "LENGTH('a) div 8 \<le> length p"
  shows "write_le (read_le p :: 'a::len word) = take (LENGTH('a) div 8) p"
proof (rule nth_equalityI)
  show "length (write_le (read_le p :: 'a word)) = length (take (LENGTH('a) div 8) p)"
    using assms by simp
next
  fix i assume "i < length (write_le (read_le p :: 'a word))"
  then have i: "i < LENGTH('a) div 8" by simp
  show "write_le (read_le p :: 'a word) ! i = take (LENGTH('a) div 8) p ! i"
  proof (rule bit_word_eqI)
    fix n assume "n < LENGTH(8)"
    then have n: "n < 8" by simp
    have "8 * i + n < LENGTH('a)" using i n assms by linarith
    then show "bit (write_le (read_le p :: 'a word) ! i) n = bit (take (LENGTH('a) div 8) p ! i) n"
      using i n assms(1) by (simp add: bit_write_le bit_read_le)
  qed
qed

lemma write_le_signed_eq:
  assumes "8 * (LENGTH('a) div 8) = LENGTH('a)"
  shows "write_le_signed (v :: 'a::len word) = write_le v"
proof -
  have "ucast (signed_drop_bit (8 * i) v) = (ucast (drop_bit (8 * i) v) :: u8)"
    if "i < LENGTH('a) div 8" for i
  proof (rule bit_word_eqI)
    fix n assume "n < LENGTH(8)"
    then have "8 * i + n < LENGTH('a)" using that assms by simp
    moreover have "n < LENGTH('a)" using calculation by linarith
    ultimately show "bit (ucast (signed_drop_bit (8 * i) v) :: u8) n = bit (ucast (drop_bit (8 * i) v) :: u8) n"
      using \<open>n < LENGTH(8)\<close>
      by (auto simp: bit_simps min_def le_less)
  qed
  then show ?thesis by (simp add: write_le_signed_def write_le_def)
qed

lemma ucast_and_255: "(ucast (x AND 0xFF) :: u8) = ucast (x :: 'a::len word)"
proof (rule bit_word_eqI)
  fix n assume "n < LENGTH(8)"
  then have n: "n < 8" by simp
  have "(0xFF :: 'a word) = mask 8" by (simp add: mask_eq_exp_minus_1)
  then have "bit (0xFF :: 'a word) n \<longleftrightarrow> n < LENGTH('a)" using n
    by (simp only: bit_mask_iff) auto
  then show "bit (ucast (x AND 0xFF) :: u8) n = bit (ucast x :: u8) n"
    by (auto simp: bit_simps dest: bit_imp_le_length)
qed

lemma upt_4: "[0..<4] = [0, 1, 2, 3::nat]" by (simp add: upt_rec)
lemma upt_8: "[0..<8] = [0, 1, 2, 3, 4, 5, 6, 7::nat]" by (simp add: upt_rec)

lemma write_u32_eq_le: "write_u32 v = write_le v"
  by (simp add: write_u32_def write_le_def ucast_and_255 upt_4)

lemma write_u64_eq_le: "write_u64 v = write_le v"
  by (simp add: write_u64_def write_le_def ucast_and_255)

lemma read_u32_eq_le: "read_u32 p = read_le p"
  by (simp add: read_u32_def read_le_def upt_4 or.assoc)

lemma read_u64_eq_le: "read_u64 p = read_le p"
  by (simp add: read_u64_def read_le_def)

lemma read_write_u32 [simp, codec_simps]: "read_u32 (write_u32 v @ r) = v"
  by (simp add: read_u32_eq_le write_u32_eq_le read_le_write_le)

lemma read_write_u32' [simp, codec_simps]: "read_u32 (write_u32 v) = v"
  using read_write_u32 [of v "[]"] by simp

lemma read_write_u64 [simp, codec_simps]: "read_u64 (write_u64 v @ r) = v"
  by (simp add: read_u64_eq_le write_u64_eq_le read_le_write_le)

lemma read_write_u64' [simp, codec_simps]: "read_u64 (write_u64 v) = v"
  using read_write_u64 [of v "[]"] by simp

lemma read_u32_append: "4 \<le> length p \<Longrightarrow> read_u32 (p @ q) = read_u32 p"
proof -
  assume "4 \<le> length p"
  then have "(p @ q) ! i = p ! i" if "i \<le> 3" for i using that by (simp add: nth_append)
  then show ?thesis by (simp add: read_u32_def)
qed

lemma write_read_u32: "4 \<le> length p \<Longrightarrow> write_u32 (read_u32 p) = take 4 p"
  by (simp add: read_u32_eq_le write_u32_eq_le write_le_read_le)

lemma write_read_u64: "8 \<le> length p \<Longrightarrow> write_u64 (read_u64 p) = take 8 p"
  by (simp add: read_u64_eq_le write_u64_eq_le write_le_read_le)

lemma unat_word_of_nat:
  "n < 2 ^ LENGTH('a) \<Longrightarrow> unat (word_of_nat n :: 'a::len word) = n"
  by (simp add: unsigned_of_nat take_bit_nat_eq_self)

section \<open>The byte order of memcmp\<close>

fun memcmp_less :: "bytes \<Rightarrow> bytes \<Rightarrow> bool" where
  "memcmp_less (x # xs) (y # ys) = (x < y \<or> (x = y \<and> memcmp_less xs ys))"
| "memcmp_less [] (y # ys) = True"
| "memcmp_less xs [] = False"

lemma memcmp_less_append:
  "length a = length c \<Longrightarrow> memcmp_less (a @ b) (c @ d) \<longleftrightarrow> memcmp_less a c \<or> (a = c \<and> memcmp_less b d)"
  by (induction a c rule: list_induct2) auto

lemma memcmp_less_irrefl [simp]: "\<not> memcmp_less a a"
  by (induction a) auto

text \<open>The number a big-endian byte string stands for.\<close>

definition be_val :: "bytes \<Rightarrow> nat" where
  "be_val xs = foldl (\<lambda>a b. a * 256 + unat b) 0 xs"

lemma be_val_foldl: "foldl (\<lambda>a b. a * 256 + unat (b :: u8)) n xs = n * 256 ^ length xs + be_val xs"
proof (induction xs arbitrary: n)
  case Nil
  then show ?case by (simp add: be_val_def)
next
  case (Cons x xs)
  show ?case
    using Cons.IH [of "n * 256 + unat x"] Cons.IH [of "unat x"]
    by (simp add: be_val_def algebra_simps)
qed

lemma be_val_Cons: "be_val (x # xs) = unat x * 256 ^ length xs + be_val xs"
  using be_val_foldl [of "unat x" xs] by (simp add: be_val_def)

lemma be_val_less: "be_val xs < 256 ^ length xs"
proof (induction xs)
  case Nil
  then show ?case by (simp add: be_val_def)
next
  case (Cons x xs)
  have "unat x < 256" using unsigned_less [of x] by simp
  then have "unat x * 256 ^ length xs + be_val xs < (unat x + 1) * 256 ^ length xs"
    using Cons.IH by simp
  also have "\<dots> \<le> 256 * 256 ^ length xs"
    using \<open>unat x < 256\<close> by (intro mult_right_mono) auto
  finally show ?case by (simp add: be_val_Cons)
qed

lemma memcmp_less_be_val:
  "length xs = length ys \<Longrightarrow> memcmp_less xs ys \<longleftrightarrow> be_val xs < be_val ys"
proof (induction xs ys rule: list_induct2)
  case Nil
  then show ?case by simp
next
  case (Cons x xs y ys)
  let ?B = "256 ^ length ys :: nat"
  have xs: "be_val xs < ?B" and ys: "be_val ys < ?B"
    using be_val_less [of xs] be_val_less [of ys] Cons.hyps by simp_all
  have lt: "unat a * ?B + m < unat b * ?B + k"
    if "unat (a :: u8) < unat (b :: u8)" "m < ?B" for a b m k
  proof -
    have "unat a * ?B + m < (unat a + 1) * ?B" using that by simp
    also have "\<dots> \<le> unat b * ?B" using that by (intro mult_right_mono) auto
    finally show ?thesis by simp
  qed
  consider "unat x < unat y" | "unat y < unat x" | "x = y"
    by (metis linorder_neqE_nat word_unat_eq_iff)
  then show ?case
  proof cases
    case 1
    with lt [OF this xs] show ?thesis by (simp add: be_val_Cons Cons.hyps word_less_nat_alt)
  next
    case 2
    with lt [OF this ys, of "be_val xs"] show ?thesis
      by (auto simp add: be_val_Cons Cons.hyps word_less_nat_alt)
  next
    case 3
    then show ?thesis using Cons.IH by (simp add: be_val_Cons Cons.hyps)
  qed
qed

lemma be_val_append: "be_val (xs @ ys) = be_val xs * 256 ^ length ys + be_val ys"
  using be_val_foldl [of "be_val xs" ys] by (simp add: be_val_def)

text \<open>Reading the little-endian bytes backwards gives the number itself.\<close>

lemma take_bit_unat_self: "take_bit LENGTH('a) (unat (v :: 'a::len word)) = unat v"
  using unsigned_less [of v] by (simp add: take_bit_nat_eq_self)

lemma be_val_rev_bytes:
  "be_val (rev (map (\<lambda>i. ucast (drop_bit (8 * i) v) :: u8) [0..<k])) = take_bit (8 * k) (unat v)"
proof (induction k)
  case 0
  then show ?case by (simp add: be_val_def)
next
  case (Suc k)
  have b: "unat (ucast (drop_bit (8 * k) v) :: u8) = take_bit 8 (drop_bit (8 * k) (unat v))"
    by (simp add: unsigned_ucast_eq unsigned_drop_bit_eq unsigned_take_bit_eq take_bit_unat_self)
  have "be_val (rev (map (\<lambda>i. ucast (drop_bit (8 * i) v) :: u8) [0..<Suc k]))
      = unat (ucast (drop_bit (8 * k) v) :: u8) * 256 ^ k
        + be_val (rev (map (\<lambda>i. ucast (drop_bit (8 * i) v) :: u8) [0..<k]))"
    by (simp add: be_val_Cons)
  also have "\<dots> = push_bit (8 * k) (take_bit 8 (drop_bit (8 * k) (unat v))) + take_bit (8 * k) (unat v)"
    by (simp add: b Suc.IH push_bit_eq_mult power_mult)
  also have "\<dots> = take_bit (8 * Suc k) (unat v)"
  proof -
    have "take_bit (8 * Suc k) (unat v) = take_bit (8 * k + 8) (unat v)" by (simp add: add.commute)
    also have "\<dots> = push_bit (8 * k) (take_bit 8 (drop_bit (8 * k) (unat v))) + take_bit (8 * k) (unat v)"
      using bits_ident [of "8 * k" "take_bit (8 * k + 8) (unat v)"]
      by (simp add: drop_bit_take_bit)
    finally show ?thesis by simp
  qed
  finally show ?case .
qed

lemma be_val_rev_write_le:
  assumes "8 * (LENGTH('a) div 8) = LENGTH('a)"
  shows "be_val (rev (write_le (v :: 'a::len word))) = unat v"
  unfolding write_le_def be_val_rev_bytes assms by (rule take_bit_unat_self)

section \<open>Scans with a callback that may stop\<close>

text \<open>
  Every scan of the source calls \<^verbatim>\<open>cb(e)\<close> on one event after another until the
  callback returns false. The callback's captured variables are the state \<open>'s\<close>.
  \<open>run_cb\<close> is that loop over an explicit list; the first component tells whether
  the callback asked to continue.
\<close>

fun run_cb :: "('e \<Rightarrow> 's \<Rightarrow> bool \<times> 's) \<Rightarrow> 'e list \<Rightarrow> 's \<Rightarrow> bool \<times> 's" where
  "run_cb cb [] s = (True, s)"
| "run_cb cb (e # es) s =
     (case cb e s of (True, s') \<Rightarrow> run_cb cb es s' | (False, s') \<Rightarrow> (False, s'))"

lemma run_cb_append:
  "run_cb cb (xs @ ys) s =
     (case run_cb cb xs s of (True, s') \<Rightarrow> run_cb cb ys s' | (False, s') \<Rightarrow> (False, s'))"
  by (induction xs arbitrary: s) (auto split: prod.splits bool.splits)

lemma run_cb_collect: "run_cb (\<lambda>e s. (True, s @ [f e])) es s = (True, s @ map f es)"
  by (induction es arbitrary: s) simp_all

section \<open>Fixed-width codecs\<close>

text \<open>
  A record type written as \<open>w\<close> bytes; \<open>ok\<close> are the values that have an encoding of
  their own. Whole arrays of such records are read back record by record.
\<close>

primrec decode_records :: "(bytes \<Rightarrow> 'a) \<Rightarrow> nat \<Rightarrow> nat \<Rightarrow> bytes \<Rightarrow> 'a list" where
  "decode_records dec w 0 p = []"
| "decode_records dec w (Suc n) p = dec p # decode_records dec w n (drop w p)"

locale record_codec =
  fixes enc :: "'a \<Rightarrow> bytes" and dec :: "bytes \<Rightarrow> 'a" and w :: nat and ok :: "'a \<Rightarrow> bool"
  assumes enc_length: "length (enc x) = w"
    and dec_enc: "ok x \<Longrightarrow> dec (enc x @ r) = x"
    and enc_dec: "w \<le> length p \<Longrightarrow> enc (dec p) = take w p"
    and dec_ok: "ok (dec p)"
begin

lemma length_concat_enc: "length (concat (map enc xs)) = w * length xs"
  by (induction xs) (auto simp: enc_length)

lemma decode_records_concat:
  "list_all ok xs \<Longrightarrow> decode_records dec w (length xs) (concat (map enc xs) @ r) = xs"
proof (induction xs)
  case Nil
  then show ?case by simp
next
  case (Cons x xs)
  have "dec (enc x @ (concat (map enc xs) @ r)) = x" using Cons.prems dec_enc by simp
  moreover have "drop w (enc x @ (concat (map enc xs) @ r)) = concat (map enc xs) @ r"
    by (simp add: enc_length)
  ultimately show ?case using Cons by simp
qed

lemma decode_records_ok: "list_all ok (decode_records dec w n p)"
  by (induction n arbitrary: p) (auto simp: dec_ok)

lemma concat_decode_records:
  "w * n \<le> length p \<Longrightarrow> concat (map enc (decode_records dec w n p)) = take (w * n) p"
proof (induction n arbitrary: p)
  case 0
  then show ?case by simp
next
  case (Suc n)
  from Suc.prems have "w * n \<le> length (drop w p)" and "w \<le> length p" by simp_all
  then show ?case using Suc.IH [of "drop w p"]
    by (simp add: enc_dec take_add [symmetric])
qed

lemma enc_inj: "ok x \<Longrightarrow> ok y \<Longrightarrow> enc x = enc y \<Longrightarrow> x = y"
  using dec_enc [of x "[]"] dec_enc [of y "[]"] by simp

end

lemma length_decode_records [simp]: "length (decode_records dec w n p) = n"
  by (induction n arbitrary: p) auto

end
