(* ===== verification/Keys.thy ===== *)
theory Keys
  imports Prelude
begin

text \<open>
  The primary key of an event (core/key.hpp): its order (the defaulted
  \<^verbatim>\<open>operator<=>\<close>, lexicographic over the members), its 20-byte big-endian encoding,
  and the fact the encoding is made for: comparing encoded keys byte by byte is
  comparing keys.
\<close>

record key =
  key_symbol_id :: u32
  key_timestamp_ns :: u64
  key_sequence_id :: u64

text \<open>
  The defaulted comparison goes through the members in their order of declaration. The
  order is that of the library's class for the record, so that sorting, maps and
  minima over keys use the code's comparison; an extension of the record compares its
  further fields last.
\<close>

definition key_less :: "'a :: ord key_scheme \<Rightarrow> 'a key_scheme \<Rightarrow> bool" where
  "key_less a b \<longleftrightarrow>
     key_symbol_id a < key_symbol_id b \<or>
     (key_symbol_id a = key_symbol_id b \<and>
      (key_timestamp_ns a < key_timestamp_ns b \<or>
       (key_timestamp_ns a = key_timestamp_ns b \<and>
        (key_sequence_id a < key_sequence_id b \<or>
         (key_sequence_id a = key_sequence_id b \<and> key.more a < key.more b)))))"

instantiation key_ext :: (linorder) linorder
begin

definition less_key_ext :: "'a key_ext \<Rightarrow> 'a key_ext \<Rightarrow> bool" where
  "less_key_ext a b \<longleftrightarrow> key_less a b"

definition less_eq_key_ext :: "'a key_ext \<Rightarrow> 'a key_ext \<Rightarrow> bool" where
  "less_eq_key_ext a b \<longleftrightarrow> a = b \<or> key_less a b"

instance
  by standard (auto simp: less_key_ext_def less_eq_key_ext_def key_less_def intro: key.equality)

end

lemma key_less_iff:
  "(a :: key) < b \<longleftrightarrow>
     key_symbol_id a < key_symbol_id b \<or>
     (key_symbol_id a = key_symbol_id b \<and>
      (key_timestamp_ns a < key_timestamp_ns b \<or>
       (key_timestamp_ns a = key_timestamp_ns b \<and> key_sequence_id a < key_sequence_id b)))"
  by (simp add: less_key_ext_def key_less_def)

definition key_kEncodedSize :: nat where
  "key_kEncodedSize = 20"

text \<open>A value-initialised key.\<close>

definition default_key :: key where
  "default_key = \<lparr>key_symbol_id = 0, key_timestamp_ns = 0, key_sequence_id = 0\<rparr>"

definition key_encode :: "key \<Rightarrow> bytes" where
  "key_encode k =
     [ucast (drop_bit 24 (key_symbol_id k) AND 0xFF),
      ucast (drop_bit 16 (key_symbol_id k) AND 0xFF),
      ucast (drop_bit 8 (key_symbol_id k) AND 0xFF),
      ucast (key_symbol_id k AND 0xFF),
      ucast (drop_bit 56 (key_timestamp_ns k) AND 0xFF),
      ucast (drop_bit 48 (key_timestamp_ns k) AND 0xFF),
      ucast (drop_bit 40 (key_timestamp_ns k) AND 0xFF),
      ucast (drop_bit 32 (key_timestamp_ns k) AND 0xFF),
      ucast (drop_bit 24 (key_timestamp_ns k) AND 0xFF),
      ucast (drop_bit 16 (key_timestamp_ns k) AND 0xFF),
      ucast (drop_bit 8 (key_timestamp_ns k) AND 0xFF),
      ucast (key_timestamp_ns k AND 0xFF),
      ucast (drop_bit 56 (key_sequence_id k) AND 0xFF),
      ucast (drop_bit 48 (key_sequence_id k) AND 0xFF),
      ucast (drop_bit 40 (key_sequence_id k) AND 0xFF),
      ucast (drop_bit 32 (key_sequence_id k) AND 0xFF),
      ucast (drop_bit 24 (key_sequence_id k) AND 0xFF),
      ucast (drop_bit 16 (key_sequence_id k) AND 0xFF),
      ucast (drop_bit 8 (key_sequence_id k) AND 0xFF),
      ucast (key_sequence_id k AND 0xFF)]"

definition key_decode :: "bytes \<Rightarrow> key" where
  "key_decode b =
     \<lparr>key_symbol_id =
        push_bit 24 (ucast (b ! 0)) OR push_bit 16 (ucast (b ! 1))
        OR push_bit 8 (ucast (b ! 2)) OR ucast (b ! 3),
      key_timestamp_ns =
        push_bit 56 (ucast (b ! 4)) OR push_bit 48 (ucast (b ! 5))
        OR push_bit 40 (ucast (b ! 6)) OR push_bit 32 (ucast (b ! 7))
        OR push_bit 24 (ucast (b ! 8)) OR push_bit 16 (ucast (b ! 9))
        OR push_bit 8 (ucast (b ! 10)) OR ucast (b ! 11),
      key_sequence_id =
        push_bit 56 (ucast (b ! 12)) OR push_bit 48 (ucast (b ! 13))
        OR push_bit 40 (ucast (b ! 14)) OR push_bit 32 (ucast (b ! 15))
        OR push_bit 24 (ucast (b ! 16)) OR push_bit 16 (ucast (b ! 17))
        OR push_bit 8 (ucast (b ! 18)) OR ucast (b ! 19)\<rparr>"

text \<open>Big-endian is little-endian read backwards, field by field.\<close>

lemma key_encode_eq:
  "key_encode k = rev (write_le (key_symbol_id k)) @ rev (write_le (key_timestamp_ns k))
     @ rev (write_le (key_sequence_id k))"
  by (simp add: key_encode_def write_le_def ucast_and_255 upt_4 upt_8)

lemma be32_eq:
  assumes "4 \<le> length p"
  shows "push_bit 24 (ucast (p ! 0)) OR push_bit 16 (ucast (p ! 1))
        OR push_bit 8 (ucast (p ! 2)) OR ucast (p ! 3) = (read_le (rev (take 4 p)) :: u32)"
  using assms by (simp add: read_le_def upt_4 rev_nth ac_simps)

lemma be64_eq:
  assumes "8 \<le> length p"
  shows "push_bit 56 (ucast (p ! 0)) OR push_bit 48 (ucast (p ! 1))
        OR push_bit 40 (ucast (p ! 2)) OR push_bit 32 (ucast (p ! 3))
        OR push_bit 24 (ucast (p ! 4)) OR push_bit 16 (ucast (p ! 5))
        OR push_bit 8 (ucast (p ! 6)) OR ucast (p ! 7) = (read_le (rev (take 8 p)) :: u64)"
  using assms by (simp add: read_le_def upt_8 rev_nth ac_simps)

lemma key_decode_eq:
  assumes "20 \<le> length b"
  shows "key_decode b =
    \<lparr>key_symbol_id = read_le (rev (take 4 b)),
     key_timestamp_ns = read_le (rev (take 8 (drop 4 b))),
     key_sequence_id = read_le (rev (take 8 (drop 12 b)))\<rparr>"
  using assms be32_eq [of b] be64_eq [of "drop 4 b"] be64_eq [of "drop 12 b"]
  by (simp add: key_decode_def)

lemma length_key_encode [simp, codec_simps]: "length (key_encode k) = 20"
  by (simp add: key_encode_def)

lemma rev_read_le_self:
  assumes "8 * (LENGTH('a) div 8) = LENGTH('a)"
  shows "read_le (write_le (v :: 'a::len word)) = v"
  using read_le_write_le [OF assms, of v "[]"] by simp

lemma key_decode_encode: "key_decode (key_encode k @ r) = k"
  by (simp add: key_decode_eq) (simp add: key_encode_eq rev_read_le_self)

lemma key_encode_decode: "20 \<le> length b \<Longrightarrow> key_encode (key_decode b) = take 20 b"
proof -
  assume "20 \<le> length b"
  moreover have "take 20 b = take 4 b @ take 8 (drop 4 b) @ take 8 (drop 12 b)"
    using take_add [of 4 16 b] take_add [of 8 8 "drop 4 b"] by (simp add: drop_drop)
  ultimately show ?thesis by (simp add: key_decode_eq key_encode_eq write_le_read_le)
qed

interpretation key_codec: record_codec key_encode key_decode 20 "\<lambda>_. True"
  by unfold_locales (simp_all add: key_decode_encode key_encode_decode)

text \<open>Encoded keys compare like keys.\<close>

lemma memcmp_be:
  assumes "8 * (LENGTH('a) div 8) = LENGTH('a)"
  shows "memcmp_less (rev (write_le (v :: 'a::len word))) (rev (write_le w)) \<longleftrightarrow> v < w"
  by (simp add: memcmp_less_be_val be_val_rev_write_le [OF assms] word_less_nat_alt)

lemma write_le_inj:
  assumes "8 * (LENGTH('a) div 8) = LENGTH('a)"
  shows "write_le (v :: 'a::len word) = write_le w \<longleftrightarrow> v = w"
  by (metis rev_read_le_self [OF assms])

lemma memcmp_key_encode: "memcmp_less (key_encode a) (key_encode b) \<longleftrightarrow> a < b"
  by (auto simp: key_encode_eq memcmp_less_append memcmp_be write_le_inj key_less_iff)

section \<open>Properties\<close>

text \<open>The big-endian encoding of keys can be compared byte by byte: it orders keys like the
  key comparison by symbol, time and sequence number, and decoding gives the key back.\<close>

theorem key_encode_order:
  "(memcmp_less (key_encode a) (key_encode b) \<longleftrightarrow> a < b) \<and> key_decode (key_encode a @ rest) = a \<and>
   length (key_encode a) = key_kEncodedSize"
  by (simp add: memcmp_key_encode key_decode_encode key_kEncodedSize_def)

end
