(* ===== verification/Events.thy ===== *)
theory Events
  imports Keys
begin

text \<open>
  The event record (core/event.hpp, core/event.cpp): its 65-byte little-endian
  encoding and decoding, its key, and the names of the event types.

  \<^verbatim>\<open>EventType\<close> is an enumeration with the underlying type \<^verbatim>\<open>uint8_t\<close>, and decoding
  casts any byte to it, so an object of the type may hold a byte that has no
  enumerator; \<open>Unnamed b\<close> stands for those.
\<close>

datatype event_type = Trade | Quote | Add | Modify | Cancel | Tombstone | Unnamed u8

text \<open>The two directions of \<^verbatim>\<open>static_cast\<close>.\<close>

definition event_type_to_byte :: "event_type \<Rightarrow> u8" where
  "event_type_to_byte t =
     (case t of Trade \<Rightarrow> 0 | Quote \<Rightarrow> 1 | Add \<Rightarrow> 2 | Modify \<Rightarrow> 3 | Cancel \<Rightarrow> 4
      | Tombstone \<Rightarrow> 0xFF | Unnamed b \<Rightarrow> b)"

definition event_type_of_byte :: "u8 \<Rightarrow> event_type" where
  "event_type_of_byte b =
     (if b = 0 then Trade else if b = 1 then Quote else if b = 2 then Add
      else if b = 3 then Modify else if b = 4 then Cancel
      else if b = 0xFF then Tombstone else Unnamed b)"

text \<open>A value of the enumeration is either an enumerator or another byte, never both.\<close>

definition event_type_wf :: "event_type \<Rightarrow> bool" where
  "event_type_wf t \<longleftrightarrow> event_type_of_byte (event_type_to_byte t) = t"

lemma event_type_to_of_byte [simp]: "event_type_to_byte (event_type_of_byte b) = b"
  by (simp add: event_type_to_byte_def event_type_of_byte_def)

lemma event_type_wf_of_byte [simp]: "event_type_wf (event_type_of_byte b)"
  by (simp add: event_type_wf_def)

lemma event_type_wf_named [simp]:
  "event_type_wf Trade" "event_type_wf Quote" "event_type_wf Add"
  "event_type_wf Modify" "event_type_wf Cancel" "event_type_wf Tombstone"
  by (simp_all add: event_type_wf_def event_type_to_byte_def event_type_of_byte_def)

record event =
  timestamp_ns :: u64
  symbol_id :: u32
  sequence_id :: u64
  event_type :: event_type
  price_ticks :: i64
  bid_px_ticks :: i64
  ask_px_ticks :: i64
  quantity :: u32
  bid_qty :: u32
  ask_qty :: u32
  order_id :: u64

definition event_kEncodedSize :: nat where
  "event_kEncodedSize = 65"

definition event_key :: "event \<Rightarrow> key" where
  "event_key e = \<lparr>key_symbol_id = symbol_id e, key_timestamp_ns = timestamp_ns e,
                   key_sequence_id = sequence_id e\<rparr>"

definition event_wf :: "event \<Rightarrow> bool" where
  "event_wf e \<longleftrightarrow> event_type_wf (event_type e)"

definition event_encode :: "event \<Rightarrow> bytes" where
  "event_encode e =
     write_le (timestamp_ns e) @
     write_le (symbol_id e) @
     write_le (sequence_id e) @
     [event_type_to_byte (event_type e)] @
     write_le_signed (price_ticks e) @
     write_le_signed (bid_px_ticks e) @
     write_le_signed (ask_px_ticks e) @
     write_le (quantity e) @
     write_le (bid_qty e) @
     write_le (ask_qty e) @
     write_le (order_id e)"

definition event_decode :: "bytes \<Rightarrow> event" where
  "event_decode p =
     \<lparr>timestamp_ns = read_le p,
      symbol_id = read_le (drop 8 p),
      sequence_id = read_le (drop 12 p),
      event_type = event_type_of_byte (p ! 20),
      price_ticks = read_le (drop 21 p),
      bid_px_ticks = read_le (drop 29 p),
      ask_px_ticks = read_le (drop 37 p),
      quantity = read_le (drop 45 p),
      bid_qty = read_le (drop 49 p),
      ask_qty = read_le (drop 53 p),
      order_id = read_le (drop 57 p)\<rparr>"

definition parse_event_type :: "string \<Rightarrow> exn + event_type" where
  "parse_event_type s =
     (if s = ''trade'' then Inr Trade
      else if s = ''quote'' then Inr Quote
      else if s = ''add'' then Inr Add
      else if s = ''modify'' then Inr Modify
      else if s = ''cancel'' then Inr Cancel
      else if s = ''tombstone'' then Inr Tombstone
      else Inl (Invalid_argument (''unknown event_type: '' @ s)))"

fun event_type_name :: "event_type \<Rightarrow> string" where
  "event_type_name Trade = ''trade''"
| "event_type_name Quote = ''quote''"
| "event_type_name Add = ''add''"
| "event_type_name Modify = ''modify''"
| "event_type_name Cancel = ''cancel''"
| "event_type_name Tombstone = ''tombstone''"
| "event_type_name (Unnamed b) = ''unknown''"

lemma length_event_encode [simp, codec_simps]: "length (event_encode e) = 65"
  by (simp add: event_encode_def write_le_signed_eq)

lemma event_decode_encode:
  assumes "event_wf e"
  shows "event_decode (event_encode e @ r) = e"
  using assms
  by (simp add: event_decode_def event_encode_def write_le_signed_eq read_le_write_le
      nth_append event_wf_def event_type_wf_def)

lemma event_encode_decode:
  assumes "65 \<le> length p"
  shows "event_encode (event_decode p) = take 65 p"
proof -
  have nth: "[p ! 20] = take 1 (drop 20 p)"
    using assms by (simp add: take_Suc_conv_app_nth [of 0, simplified])
  have s: "take (n + m) (drop k p) = take n (drop k p) @ take m (drop (k + n) p)" for n m k
    by (simp only: take_add drop_drop add.commute [of n k])
  have "take 65 p = take 8 (drop 0 p) @ take 4 (drop 8 p) @ take 8 (drop 12 p) @ take 1 (drop 20 p)
      @ take 8 (drop 21 p) @ take 8 (drop 29 p) @ take 8 (drop 37 p) @ take 4 (drop 45 p)
      @ take 4 (drop 49 p) @ take 4 (drop 53 p) @ take 8 (drop 57 p)"
    using s [of 8 57 0] s [of 4 53 8] s [of 8 45 12] s [of 1 44 20] s [of 8 36 21] s [of 8 28 29]
      s [of 8 20 37] s [of 4 16 45] s [of 4 12 49] s [of 4 8 53] by simp
  then show ?thesis
    using assms by (simp add: event_encode_def event_decode_def write_le_signed_eq write_le_read_le nth)
qed

lemma event_wf_decode [simp]: "event_wf (event_decode p)"
  by (simp add: event_wf_def event_decode_def)

interpretation event_codec: record_codec event_encode event_decode 65 event_wf
  by unfold_locales (simp_all add: event_decode_encode event_encode_decode)

lemma parse_event_type_name:
  "event_type_name t \<noteq> ''unknown'' \<Longrightarrow> parse_event_type (event_type_name t) = Inr t"
  by (cases t) (simp_all add: parse_event_type_def)

lemma event_type_name_parse: "parse_event_type s = Inr t \<Longrightarrow> event_type_name t = s"
  by (auto simp: parse_event_type_def split: if_splits)

text \<open>The part of a sequence of events a range scan is about.\<close>

definition in_range :: "key \<Rightarrow> key \<Rightarrow> event \<Rightarrow> bool" where
  "in_range lo hi e \<longleftrightarrow> lo \<le> event_key e \<and> event_key e \<le> hi"

abbreviation sorted_events :: "event list \<Rightarrow> bool" where
  "sorted_events es \<equiv> sorted_wrt (<) (map event_key es)"

text \<open>In a sorted list a range is a contiguous part.\<close>

lemma sorted_takeWhile_filter:
  "sorted_events es \<Longrightarrow> takeWhile (\<lambda>e. event_key e \<le> hi) es = filter (\<lambda>e. event_key e \<le> hi) es"
proof (induction es)
  case (Cons x xs)
  then have "\<forall>y \<in> set xs. event_key x < event_key y" by simp
  then have "\<not> event_key x \<le> hi \<Longrightarrow> y \<in> set xs \<Longrightarrow> \<not> event_key y \<le> hi" for y
    using less_le_trans less_imp_le by blast
  then have "\<not> event_key x \<le> hi \<Longrightarrow> filter (\<lambda>e. event_key e \<le> hi) xs = []" by (simp add: filter_empty_conv)
  then show ?case using Cons by auto
qed simp

lemma sorted_dropWhile_filter:
  "sorted_events es \<Longrightarrow> dropWhile (\<lambda>e. event_key e < lo) es = filter (\<lambda>e. lo \<le> event_key e) es"
proof (induction es)
  case (Cons x xs)
  then have "\<forall>y \<in> set xs. event_key x < event_key y" by simp
  then have "lo \<le> event_key x \<Longrightarrow> y \<in> set xs \<Longrightarrow> lo \<le> event_key y" for y
    using le_less_trans less_imp_le by blast
  then have "lo \<le> event_key x \<Longrightarrow> filter (\<lambda>e. lo \<le> event_key e) xs = xs" by (simp add: filter_id_conv)
  then show ?case using Cons by (auto simp: not_less)
qed simp

lemma sorted_events_filter: "sorted_events es \<Longrightarrow> sorted_events (filter P es)"
  by (induction es) auto

lemma range_filter:
  assumes "sorted_events es"
  shows "takeWhile (\<lambda>e. event_key e \<le> hi) (dropWhile (\<lambda>e. event_key e < lo) es) = filter (in_range lo hi) es"
proof -
  have "in_range lo hi = (\<lambda>e. lo \<le> event_key e \<and> event_key e \<le> hi)" by (simp add: fun_eq_iff in_range_def)
  then show ?thesis
    by (simp add: sorted_dropWhile_filter [OF assms] sorted_takeWhile_filter [OF sorted_events_filter [OF assms]])
qed

lemma sorted_events_distinct: "sorted_events es \<Longrightarrow> distinct (map event_key es)"
  by (induction es) auto

section \<open>The interface of a scan\<close>

text \<open>
  What every container of events promises about its range scan: the callback is run
  over the events of the range in key order, until it asks to stop. The code scans
  memtables, blocks and tables through it; \<open>ret\<close> is how a container's scan returns.
\<close>

locale scan_source =
  fixes holds :: "'t \<Rightarrow> event list \<Rightarrow> bool"
    and scan :: "'t \<Rightarrow> key \<Rightarrow> key \<Rightarrow> (event \<Rightarrow> 's \<Rightarrow> bool \<times> 's) \<Rightarrow> 's \<Rightarrow> 'r"
    and ret :: "'s \<Rightarrow> 'r"
  assumes holds_sorted: "holds t es \<Longrightarrow> sorted_events es"
    and scan_run: "holds t es \<Longrightarrow> scan t lo hi cb s = ret (snd (run_cb cb (filter (in_range lo hi) es) s))"
begin

text \<open>A callback that never stops is folded over the whole range.\<close>

lemma scan_fold:
  assumes "holds t es" and "\<And>e s. cb e s = (True, f e s)"
  shows "scan t lo hi cb s = ret (fold f (filter (in_range lo hi) es) s)"
proof -
  have "run_cb cb xs s = (True, fold f xs s)" for xs s
    by (induction xs arbitrary: s) (simp_all add: assms(2))
  then show ?thesis by (simp add: scan_run [OF assms(1)])
qed

text \<open>What every call of the callback keeps, the scan keeps.\<close>

lemma scan_keeps:
  assumes "holds t es" and "P s"
    and "\<And>e s. e \<in> set es \<Longrightarrow> in_range lo hi e \<Longrightarrow> P s \<Longrightarrow> P (snd (cb e s))"
  shows "\<exists>s'. scan t lo hi cb s = ret s' \<and> P s'"
proof -
  have "P (snd (run_cb cb xs s))" if "set xs \<subseteq> {e \<in> set es. in_range lo hi e}" "P s" for xs s
    using that by (induction xs arbitrary: s) (auto simp: assms(3) split: prod.splits bool.splits dest: assms(3))
  then show ?thesis using scan_run [OF assms(1)] assms(2) by auto
qed

text \<open>An empty range calls nothing.\<close>

lemma scan_empty: "holds t es \<Longrightarrow> hi < lo \<Longrightarrow> scan t lo hi cb s = ret s"
proof -
  assume h: "holds t es" and "hi < lo"
  then have "filter (in_range lo hi) es = []" by (auto simp: filter_empty_conv in_range_def)
  then show ?thesis by (simp add: scan_run [OF h])
qed

end

text \<open>Concrete events the witnesses are stated on.\<close>

definition sample_event :: "u64 \<Rightarrow> u64 \<Rightarrow> event_type \<Rightarrow> event" where
  "sample_event ts seq t =
     \<lparr>timestamp_ns = ts, symbol_id = 1, sequence_id = seq, event_type = t, price_ticks = 100,
      bid_px_ticks = 99, ask_px_ticks = 101, quantity = 5, bid_qty = 6, ask_qty = 7, order_id = 42\<rparr>"

lemma sample_event_wf [simp]: "event_wf (sample_event ts seq t) = event_type_wf t"
  by (simp add: event_wf_def sample_event_def)

lemma sample_event_key [simp]:
  "event_key (sample_event ts seq t) = \<lparr>key_symbol_id = 1, key_timestamp_ns = ts, key_sequence_id = seq\<rparr>"
  by (simp add: event_key_def sample_event_def)

lemma sample_event_type [simp]: "event_type (sample_event ts seq t) = t"
  by (simp add: sample_event_def)

section \<open>Properties\<close>

text \<open>Encoding an event and decoding the 65 bytes gives the event back, whatever its field
  values; and every 65 bytes are the encoding of what they decode to, so the two formats
  determine each other.\<close>

theorem event_codec_exact:
  assumes "event_wf e" and "length p = event_kEncodedSize"
  shows "event_decode (event_encode e) = e \<and> length (event_encode e) = event_kEncodedSize \<and>
    event_encode (event_decode p) = p"
  using event_decode_encode [OF assms(1), of "[]"] event_encode_decode [of p] assms(2)
  by (simp add: event_kEncodedSize_def)

lemma event_codec_exact_witness:
  "let e = sample_event 7 8 (event_type_of_byte 0x2A)\<lparr>price_ticks := - 5\<rparr>; p = replicate 65 0xFF in
   event_decode (event_encode e) = e \<and> length (event_encode e) = event_kEncodedSize \<and>
   event_encode (event_decode p) = p"
  unfolding Let_def by (rule event_codec_exact) (simp_all add: event_wf_def sample_event_def event_kEncodedSize_def)

text \<open>Parsing an event type and printing it are inverse to each other on the six names; any
  other text is refused with an error that quotes it, and a byte without a name prints as
  unknown, which does not parse.\<close>

theorem event_type_names:
  "(parse_event_type s = Inr t \<longleftrightarrow> event_type_name t = s \<and> s \<noteq> ''unknown'') \<and>
   (parse_event_type s = Inl ex \<longleftrightarrow>
      s \<notin> {''trade'', ''quote'', ''add'', ''modify'', ''cancel'', ''tombstone''} \<and>
      ex = Invalid_argument (''unknown event_type: '' @ s))"
proof
  show "parse_event_type s = Inr t \<longleftrightarrow> event_type_name t = s \<and> s \<noteq> ''unknown''"
  proof -
    have u: "parse_event_type ''unknown'' = Inl (Invalid_argument (''unknown event_type: '' @ ''unknown''))"
      by (simp add: parse_event_type_def)
    show ?thesis using parse_event_type_name [of t] event_type_name_parse [of s t] u by (metis Inl_Inr_False)
  qed
  show "parse_event_type s = Inl ex \<longleftrightarrow>
      s \<notin> {''trade'', ''quote'', ''add'', ''modify'', ''cancel'', ''tombstone''} \<and>
      ex = Invalid_argument (''unknown event_type: '' @ s)"
  proof (cases "s \<in> {''trade'', ''quote'', ''add'', ''modify'', ''cancel'', ''tombstone''}")
    case True
    then have "\<exists>t. parse_event_type s = Inr t"
      unfolding insert_iff empty_iff by (elim disjE) (simp_all add: parse_event_type_def)
    then show ?thesis using True by force
  next
    case False
    then have "parse_event_type s = Inl (Invalid_argument (''unknown event_type: '' @ s))"
      unfolding insert_iff de_Morgan_disj by (simp add: parse_event_type_def)
    then show ?thesis using False by force
  qed
qed

end
