(* ===== verification/Crc32c.thy ===== *)
theory Crc32c
  imports Prelude
begin

text \<open>
  CRC32C (util/crc32c.hpp): the lookup table, the byte loop with its seed, the
  chaining law the WAL relies on, the bitwise algorithm the table stands for, and
  what the checksum detects: any change of a single byte.
\<close>

definition crc_poly :: u32 where
  "crc_poly = 0x82F63B78"

text \<open>One round of the inner loop of the table's initialiser.\<close>

definition crc_bit :: "u32 \<Rightarrow> u32" where
  "crc_bit crc = (if crc AND 1 \<noteq> 0 then drop_bit 1 crc XOR crc_poly else drop_bit 1 crc)"

definition crc32c_table :: "u32 list" where
  "crc32c_table = map (\<lambda>i. (crc_bit ^^ 8) (word_of_nat i)) [0..<256]"

definition crc_step :: "u32 \<Rightarrow> u8 \<Rightarrow> u32" where
  "crc_step crc b = drop_bit 8 crc XOR crc32c_table ! unat ((crc XOR ucast b) AND 0xFF)"

definition crc32c :: "bytes \<Rightarrow> u32 \<Rightarrow> u32" where
  "crc32c data seed = foldl crc_step (seed XOR 0xFFFFFFFF) data XOR 0xFFFFFFFF"

text \<open>Chaining: the finalised checksum of a prefix, passed as the seed, continues the stream.\<close>

lemma crc32c_append: "crc32c (a @ b) seed = crc32c b (crc32c a seed)"
  by (simp add: crc32c_def xor.assoc)

subsection \<open>The table is the bitwise algorithm\<close>

lemma crc_bit_odd: "crc_bit c = (if odd c then drop_bit 1 c XOR crc_poly else drop_bit 1 c)"
  by (simp add: crc_bit_def and_one_eq mod_2_eq_odd)

lemma odd_xor: "odd (a XOR b :: u32) \<longleftrightarrow> odd a \<noteq> odd b"
  using bit_xor_iff [of a b 0] by (simp add: bit_0)

lemma crc_bit_linear: "crc_bit (a XOR b) = crc_bit a XOR crc_bit b"
  using odd_xor [of a b]
  by (cases "odd a"; cases "odd b")
    (simp_all add: crc_bit_odd drop_bit_xor xor.assoc xor.left_commute xor.commute)

lemma crc_bits_linear: "(crc_bit ^^ n) (a XOR b) = (crc_bit ^^ n) a XOR (crc_bit ^^ n) b"
  by (induction n) (simp_all add: crc_bit_linear)

lemma crc_bit_even: "even c \<Longrightarrow> crc_bit c = drop_bit 1 c"
  by (simp add: crc_bit_odd)

lemma crc_bits_zero_low:
  "take_bit n c = 0 \<Longrightarrow> (crc_bit ^^ n) c = drop_bit n c"
proof (induction n arbitrary: c)
  case 0
  then show ?case by simp
next
  case (Suc n)
  have e: "even c" using Suc.prems by (metis even_take_bit_eq even_zero nat.distinct(1))
  have "take_bit n (drop_bit 1 c) = 0"
    using Suc.prems by (metis One_nat_def drop_bit_of_0 drop_bit_take_bit diff_Suc_1)
  then have "(crc_bit ^^ n) (drop_bit 1 c) = drop_bit n (drop_bit 1 c)" by (rule Suc.IH)
  then show ?case using e by (simp add: funpow_swap1 crc_bit_even del: funpow.simps) (simp add: funpow_swap1 crc_bit_even)
qed

text \<open>The reference: eight bit rounds on the register with the byte mixed in.\<close>

definition crc_step_bitwise :: "u32 \<Rightarrow> u8 \<Rightarrow> u32" where
  "crc_step_bitwise crc b = (crc_bit ^^ 8) (crc XOR ucast b)"

lemma and_255_take_bit: "x AND 0xFF = take_bit 8 (x :: u32)"
  by (simp add: take_bit_eq_mask mask_eq_exp_minus_1)

lemma crc_step_eq_bitwise: "crc_step crc b = crc_step_bitwise crc b"
proof -
  let ?x = "crc XOR ucast b"
  let ?lo = "take_bit 8 ?x"
  let ?hi = "?x XOR ?lo"
  have "unat ?lo < 256" 
  proof -
    have "take_bit 8 (unat ?x) < 2 ^ 8" by (rule take_bit_nat_less_exp)
    then show ?thesis by (simp add: unsigned_take_bit_eq del: take_bit_xor)
  qed
  then have "crc32c_table ! unat ?lo = (crc_bit ^^ 8) ?lo"
    by (simp add: crc32c_table_def)
  moreover have "(crc_bit ^^ 8) ?hi = drop_bit 8 ?hi"
    by (rule crc_bits_zero_low) (simp add: take_bit_xor)
  moreover have "drop_bit 8 ?hi = drop_bit 8 crc"
    by (rule bit_word_eqI) (auto simp: bit_simps dest: bit_u8_less)
  moreover have "(crc_bit ^^ 8) ?x = (crc_bit ^^ 8) ?hi XOR (crc_bit ^^ 8) ?lo"
    by (simp add: xor.assoc flip: crc_bits_linear)
  ultimately show ?thesis
    by (simp add: crc_step_def crc_step_bitwise_def and_255_take_bit)
qed

subsection \<open>What the checksum detects\<close>

lemma bit_crc_bit_31: "bit (crc_bit c) 31 \<longleftrightarrow> odd c"
proof -
  have "bit crc_poly 31" by (simp add: crc_poly_def bit_numeral_rec)
  moreover have "\<not> bit c 32" by (auto dest: bit_imp_le_length)
  ultimately show ?thesis by (simp add: crc_bit_odd bit_simps)
qed

lemma crc_bit_inj: "crc_bit a = crc_bit b \<Longrightarrow> a = b"
proof -
  assume eq: "crc_bit a = crc_bit b"
  then have par: "odd a \<longleftrightarrow> odd b" using bit_crc_bit_31 by metis
  have "drop_bit 1 a = drop_bit 1 b"
  proof (cases "odd a")
    case True
    then have "drop_bit 1 a XOR crc_poly = drop_bit 1 b XOR crc_poly"
      using eq par by (simp add: crc_bit_odd)
    then have "(drop_bit 1 a XOR crc_poly) XOR crc_poly = (drop_bit 1 b XOR crc_poly) XOR crc_poly"
      by simp
    then show ?thesis by (simp only: xor.assoc xor_self_eq xor.right_neutral)
  next
    case False
    then show ?thesis using eq par by (simp add: crc_bit_odd)
  qed
  moreover have "take_bit 1 a = take_bit 1 b" using par by (simp add: take_bit_Suc odd_iff_mod_2_eq_one mod2_eq_if)
  ultimately show "a = b" by (metis bits_ident)
qed

lemma crc_bits_inj: "(crc_bit ^^ n) a = (crc_bit ^^ n) b \<Longrightarrow> a = b"
  by (induction n) (auto dest: crc_bit_inj)

lemma crc_step_inj: "crc_step a x = crc_step b x \<Longrightarrow> a = b"
proof -
  assume "crc_step a x = crc_step b x"
  then have "a XOR ucast x = b XOR ucast x"
    by (auto simp: crc_step_eq_bitwise crc_step_bitwise_def dest: crc_bits_inj)
  then have "(a XOR ucast x) XOR ucast x = (b XOR ucast x) XOR ucast x" by simp
  then show ?thesis by (simp only: xor.assoc xor_self_eq xor.right_neutral)
qed

lemma crc_foldl_inj: "foldl crc_step a xs = foldl crc_step b xs \<Longrightarrow> a = b"
  by (induction xs arbitrary: a b) (auto dest: crc_step_inj)

text \<open>The first bytes of a string as one word, lowest byte first.\<close>

definition le_word :: "bytes \<Rightarrow> nat \<Rightarrow> u32" where
  "le_word p k = foldl (\<lambda>v i. v OR push_bit (8 * i) (ucast (p ! i))) 0 [0..<k]"

lemma bit_le_word:
  "bit (le_word p k) n \<longleftrightarrow> n < 8 * k \<and> n < 32 \<and> bit (p ! (n div 8)) (n mod 8)"
  using bit_read_le_upto [where 'a = 32, of p k n] by (simp add: le_word_def)

lemma le_word_Suc: "le_word p (Suc k) = le_word p k XOR push_bit (8 * k) (ucast (p ! k))"
proof -
  have "le_word p (Suc k) = le_word p k OR push_bit (8 * k) (ucast (p ! k))"
    by (simp add: le_word_def)
  also have "\<dots> = le_word p k XOR push_bit (8 * k) (ucast (p ! k))"
    by (rule bit_word_eqI) (auto simp: bit_simps bit_le_word)
  finally show ?thesis .
qed

lemma crc_foldl_le_word:
  "k \<le> 4 \<Longrightarrow> k \<le> length p \<Longrightarrow> foldl crc_step c (take k p) = (crc_bit ^^ (8 * k)) (c XOR le_word p k)"
proof (induction k)
  case 0
  then show ?case by (simp add: le_word_def)
next
  case (Suc k)
  let ?b = "ucast (p ! k) :: u32"
  have "take_bit (8 * k) (push_bit (8 * k) ?b) = 0" by (simp add: take_bit_push_bit)
  moreover have "drop_bit (8 * k) (push_bit (8 * k) ?b) = ?b"
    using Suc.prems by (intro bit_word_eqI) (auto simp: bit_simps dest: bit_u8_less)
  ultimately have b: "(crc_bit ^^ (8 * k)) (push_bit (8 * k) ?b) = ?b"
    by (simp add: crc_bits_zero_low)
  have "foldl crc_step c (take (Suc k) p) = crc_step (foldl crc_step c (take k p)) (p ! k)"
    using Suc.prems by (simp add: take_Suc_conv_app_nth)
  also have "\<dots> = (crc_bit ^^ 8) ((crc_bit ^^ (8 * k)) (c XOR le_word p k) XOR ?b)"
    unfolding crc_step_eq_bitwise [of "foldl crc_step c (take k p)"] crc_step_bitwise_def
    using Suc by simp
  also have "\<dots> = (crc_bit ^^ 8) ((crc_bit ^^ (8 * k)) (c XOR le_word p (Suc k)))"
    by (simp add: le_word_Suc crc_bits_linear b xor.assoc)
  also have "\<dots> = (crc_bit ^^ (8 * Suc k)) (c XOR le_word p (Suc k))"
    by (simp only: mult_Suc_right funpow_add comp_apply)
  finally show ?case .
qed

lemma le_word_inj:
  assumes "length a = length b" and "length a \<le> 4" and "le_word a (length a) = le_word b (length b)"
  shows "a = b"
proof (rule nth_equalityI)
  show "length a = length b" by fact
next
  fix i assume i: "i < length a"
  show "a ! i = b ! i"
  proof (rule bit_word_eqI)
    fix n assume "n < LENGTH(8)"
    then have n: "n < 8" by simp
    have "bit (le_word a (length a)) (8 * i + n) = bit (le_word b (length b)) (8 * i + n)"
      using assms(3) by simp
    moreover have "8 * i + n < 8 * length a" "8 * i + n < 32" using i n assms(2) by linarith+
    ultimately show "bit (a ! i) n = bit (b ! i) n"
      using n assms(1) by (simp add: bit_le_word)
  qed
qed

text \<open>A change inside any window of at most four bytes changes the checksum.\<close>

lemma crc32c_burst:
  assumes "length a = length b" and "length a \<le> 4"
    and "crc32c (p @ a @ s) seed = crc32c (p @ b @ s) seed"
  shows "a = b"
proof -
  let ?c = "foldl crc_step (seed XOR 0xFFFFFFFF) p"
  let ?f = "\<lambda>x. foldl crc_step (foldl crc_step ?c x) s"
  have "?f a XOR 0xFFFFFFFF = ?f b XOR 0xFFFFFFFF"
    using assms(3) by (simp add: crc32c_def)
  then have "(?f a XOR 0xFFFFFFFF) XOR 0xFFFFFFFF = (?f b XOR 0xFFFFFFFF) XOR 0xFFFFFFFF" by simp
  then have "?f a = ?f b" by (simp only: xor.assoc xor_self_eq xor.right_neutral)
  then have "foldl crc_step ?c a = foldl crc_step ?c b" by (rule crc_foldl_inj)
  then have "?c XOR le_word a (length a) = ?c XOR le_word b (length b)"
    using crc_foldl_le_word [of "length a" a ?c] crc_foldl_le_word [of "length b" b ?c] assms(1,2)
    by (auto dest: crc_bits_inj)
  then have "?c XOR (?c XOR le_word a (length a)) = ?c XOR (?c XOR le_word b (length b))" by simp
  then have "le_word a (length a) = le_word b (length b)"
    by (simp only: xor.assoc [symmetric] xor_self_eq xor.left_neutral)
  then show "a = b" using assms(1,2) by (rule le_word_inj [rotated -1])
qed

section \<open>Properties\<close>

text \<open>C40: The table-driven checksum is the bit-by-bit CRC of the polynomial, for every seed,
  and the checksum of a prefix passed as the seed continues the stream, as the header's
  comment on chaining says.\<close>

theorem crc32c_reference:
  "crc32c data seed = foldl crc_step_bitwise (seed XOR 0xFFFFFFFF) data XOR 0xFFFFFFFF \<and>
   crc32c (data @ more) seed = crc32c more (crc32c data seed)"
proof -
  have "crc_step = crc_step_bitwise" by (intro ext) (rule crc_step_eq_bitwise)
  then show ?thesis by (simp add: crc32c_append) (simp add: crc32c_def)
qed

text \<open>Two byte strings that differ only inside a window of at most four bytes never have
  the same checksum, whatever precedes and follows the window.\<close>

theorem crc32c_detects_burst:
  assumes "length a = length b" and "length a \<le> 4" and "a \<noteq> b"
  shows "crc32c (p @ a @ s) seed \<noteq> crc32c (p @ b @ s) seed"
  using crc32c_burst [OF assms(1,2)] assms(3) by blast

lemma crc32c_detects_burst_witness:
  "crc32c ([1, 2] @ [3, 4] @ [5]) 0 \<noteq> crc32c ([1, 2] @ [3, 6] @ [5]) 0"
  by (rule crc32c_detects_burst) simp_all

end
