(* ===== verification/Block.thy ===== *)
theory Block
  imports Events Crc32c
begin

text \<open>
  The data block of a sorted table (table/block.hpp, table/block.cpp): the builder that
  fills a block up to a target size, its encoding with the key range and a checksum, the
  decoder that verifies it, and the scan of a decoded block. Sizes are natural numbers: a
  block stays far below the range of \<^verbatim>\<open>size_t\<close>; the fields that the source cuts to 32
  bits are cut here.
\<close>

record block_meta =
  bm_min_key :: key
  bm_max_key :: key
  bm_record_count :: u32
  bm_encoded_size :: u32

record block_builder =
  target_bytes :: nat
  bb_events :: "event list"

record block =
  block_meta :: block_meta
  block_events :: "event list"

definition block_builder_new :: "nat \<Rightarrow> block_builder" where
  "block_builder_new target = \<lparr>target_bytes = target, bb_events = []\<rparr>"

definition block_add :: "event \<Rightarrow> block_builder \<Rightarrow> bool \<times> block_builder" where
  "block_add e b =
     (let current_size = 4 + length (bb_events b) * event_kEncodedSize + key_kEncodedSize * 2 + 4
      in if bb_events b \<noteq> [] \<and> current_size + event_kEncodedSize > target_bytes b
         then (False, b)
         else (True, b\<lparr>bb_events := bb_events b @ [e]\<rparr>))"

definition block_empty :: "block_builder \<Rightarrow> bool" where
  "block_empty b \<longleftrightarrow> bb_events b = []"

text \<open>The loop that widens the key range event by event.\<close>

definition widen :: "event \<Rightarrow> key \<times> key \<Rightarrow> key \<times> key" where
  "widen e r =
     (let (min_k, max_k) = r;
          min_k' = (if event_key e < min_k then event_key e else min_k);
          max_k' = (if event_key e > max_k then event_key e else max_k)
      in (min_k', max_k'))"

definition block_finish :: "block_builder \<Rightarrow> bytes" where
  "block_finish b =
     (let es = bb_events b in
      if es = [] then []
      else let (min_k, max_k) = fold widen es (event_key (hd es), event_key (last es));
               buf = write_u32 (word_of_nat (length es)) @ concat (map event_encode es)
                     @ key_encode min_k @ key_encode max_k;
               chk = crc32c buf 0
           in buf @ write_u32 chk)"

definition block_reset :: "block_builder \<Rightarrow> block_builder" where
  "block_reset b = b\<lparr>bb_events := []\<rparr>"

definition block_decode :: "bytes \<Rightarrow> exn + block" where
  "block_decode data =
     (if length data < 4 + key_kEncodedSize * 2 + 4 then Inl (Runtime_error ''block too small'')
      else let count = read_u32 data;
               expected = 4 + unat count * event_kEncodedSize + key_kEncodedSize * 2 + 4
           in if length data < expected then Inl (Runtime_error ''block size mismatch'')
              else let stored_crc = read_u32 (drop (expected - 4) data);
                       computed_crc = crc32c (take (expected - 4) data) 0
                   in if stored_crc \<noteq> computed_crc then Inl (Runtime_error ''block checksum mismatch'')
                      else let p = 4 + unat count * event_kEncodedSize
                           in Inr \<lparr>block_meta =
                                \<lparr>bm_min_key = key_decode (drop p data),
                                 bm_max_key = key_decode (drop (p + key_kEncodedSize) data),
                                 bm_record_count = count,
                                 bm_encoded_size = word_of_nat expected\<rparr>,
                              block_events =
                                decode_records event_decode event_kEncodedSize (unat count) (drop 4 data)\<rparr>)"

fun block_scan_loop :: "event list \<Rightarrow> key \<Rightarrow> key \<Rightarrow> (event \<Rightarrow> 's \<Rightarrow> bool \<times> 's) \<Rightarrow> 's \<Rightarrow> 's" where
  "block_scan_loop [] lo hi cb s = s"
| "block_scan_loop (e # es) lo hi cb s =
     (let k = event_key e in
      if k < lo then block_scan_loop es lo hi cb s
      else if k > hi then s
      else case cb e s of (cont, s') \<Rightarrow> if \<not> cont then s' else block_scan_loop es lo hi cb s')"

definition block_scan :: "block \<Rightarrow> key \<Rightarrow> key \<Rightarrow> (event \<Rightarrow> 's \<Rightarrow> bool \<times> 's) \<Rightarrow> 's \<Rightarrow> 's" where
  "block_scan b start end cb s = block_scan_loop (block_events b) start end cb s"

section \<open>The builder\<close>

lemma fold_widen:
  "fold widen es (a, b) = (foldl min a (map event_key es), foldl max b (map event_key es))"
proof (induction es arbitrary: a b)
  case (Cons e es)
  have "widen e (a, b) = (min a (event_key e), max b (event_key e))"
    by (auto simp: widen_def min_def max_def)
  then show ?case by (simp add: Cons.IH)
qed simp

lemma foldl_min_le: "\<forall>k \<in> set ks. a \<le> k \<Longrightarrow> foldl min a ks = (a :: 'k::linorder)"
  by (induction ks) (auto simp: min_absorb1)

lemma foldl_max_ge: "\<forall>k \<in> set ks. k \<le> a \<Longrightarrow> foldl max a ks = (a :: 'k::linorder)"
  by (induction ks) (auto simp: max_absorb1)

text \<open>In ascending order the first and the last event have the smallest and the largest key.\<close>

lemma sorted_last_max:
  assumes "sorted_wrt (<) ks" and "k \<in> set ks"
  shows "(k :: 'k::linorder) \<le> last ks"
  using assms by (induction ks rule: rev_induct) (auto simp: sorted_wrt_append less_imp_le)

lemma widen_sorted:
  assumes "sorted_events es" and "es \<noteq> []"
  shows "fold widen es (event_key (hd es), event_key (last es)) = (event_key (hd es), event_key (last es))"
proof -
  have "\<forall>k \<in> set (map event_key es). event_key (hd es) \<le> k"
    using assms by (cases es) (auto simp: less_imp_le)
  moreover have "\<forall>k \<in> set (map event_key es). k \<le> event_key (last es)"
    using sorted_last_max [OF assms(1)] assms(2) by (simp add: last_map)
  ultimately show ?thesis unfolding fold_widen by (simp only: foldl_min_le foldl_max_ge)
qed

text \<open>The block's bytes without the checksum.\<close>

definition block_body :: "event list \<Rightarrow> key \<Rightarrow> key \<Rightarrow> bytes" where
  "block_body es lo hi = write_u32 (word_of_nat (length es)) @ concat (map event_encode es) @ key_encode lo @ key_encode hi"

lemma length_concat_events [simp, codec_simps]: "length (concat (map event_encode es)) = 65 * length es"
  by (rule event_codec.length_concat_enc)

lemma length_block_body [simp, codec_simps]: "length (block_body es lo hi) = 44 + 65 * length es"
  by (simp add: block_body_def)

lemma block_finish_eq:
  "bb_events b \<noteq> [] \<Longrightarrow> block_finish b =
     (let es = bb_events b; (lo, hi) = fold widen es (event_key (hd es), event_key (last es))
      in block_body es lo hi @ write_u32 (crc32c (block_body es lo hi) 0))"
  by (simp add: block_finish_def block_body_def Let_def split: prod.splits)

definition encoded_block_size :: "event list \<Rightarrow> nat" where
  "encoded_block_size es = (if es = [] then 0 else 48 + 65 * length es)"

lemma length_block_finish: "length (block_finish b) = encoded_block_size (bb_events b)"
proof (cases "bb_events b = []")
  case True
  then show ?thesis by (simp add: block_finish_def encoded_block_size_def)
next
  case False
  then show ?thesis by (simp add: block_finish_eq encoded_block_size_def Let_def split: prod.splits)
qed

section \<open>Decoding\<close>

lemma block_decode_body:
  assumes "length es < 2 ^ 32" and "list_all event_wf es"
  shows "block_decode (block_body es lo hi @ write_u32 c @ post) =
    (if c \<noteq> crc32c (block_body es lo hi) 0 then Inl (Runtime_error ''block checksum mismatch'')
     else Inr \<lparr>block_meta = \<lparr>bm_min_key = lo, bm_max_key = hi, bm_record_count = word_of_nat (length es),
                            bm_encoded_size = word_of_nat (48 + 65 * length es)\<rparr>,
               block_events = es\<rparr>)"
proof -
  let ?data = "block_body es lo hi @ write_u32 c @ post"
  have cnt: "read_u32 ?data = word_of_nat (length es)" by (simp add: block_body_def)
  have n: "unat (word_of_nat (length es) :: u32) = length es"
    using assms(1) by (simp add: unat_word_of_nat)
  have d4: "drop 4 ?data = concat (map event_encode es) @ (key_encode lo @ key_encode hi @ write_u32 c @ post)"
    by (simp add: block_body_def)
  have ev: "decode_records event_decode 65 (length es) (drop 4 ?data) = es"
    unfolding d4 by (rule event_codec.decode_records_concat [OF assms(2)])
  have dl: "drop (4 + length es * 65) ?data = key_encode lo @ (key_encode hi @ write_u32 c @ post)"
    by (simp add: block_body_def mult.commute)
  have dh: "drop (4 + length es * 65 + 20) ?data = key_encode hi @ (write_u32 c @ post)"
    by (simp add: block_body_def mult.commute)
  have dc: "drop (4 + length es * 65 + 20 * 2) ?data = write_u32 c @ post"
    by (simp add: block_body_def mult.commute)
  have tc: "take (4 + length es * 65 + 20 * 2) ?data = block_body es lo hi"
    by simp
  have len: "length ?data = 48 + 65 * length es + length post" by simp
  show ?thesis
    unfolding block_decode_def cnt Let_def n event_kEncodedSize_def key_kEncodedSize_def len ev
      diff_add_inverse2 dc tc dl dh key_decode_encode read_write_u32
    by (simp add: mult.commute)
qed

lemma block_decode_finish:
  assumes "es = bb_events b" and "es \<noteq> []" and "length es < 2 ^ 32" and "list_all event_wf es"
    and "sorted_events es"
  shows "block_decode (block_finish b @ post) =
    Inr \<lparr>block_meta = \<lparr>bm_min_key = event_key (hd es), bm_max_key = event_key (last es),
                       bm_record_count = word_of_nat (length es),
                       bm_encoded_size = word_of_nat (48 + 65 * length es)\<rparr>,
         block_events = es\<rparr>"
proof -
  have "block_finish b = block_body es (event_key (hd es)) (event_key (last es))
      @ write_u32 (crc32c (block_body es (event_key (hd es)) (event_key (last es))) 0)"
    using block_finish_eq [of b] assms(2)
    unfolding assms(1) [symmetric] Let_def widen_sorted [OF assms(5,2)] by simp
  then show ?thesis
    by (simp only: append_assoc block_decode_body [OF assms(3,4)] not_True_eq_False if_False simp_thms)
qed

section \<open>Scanning\<close>

definition block_holds :: "block \<Rightarrow> event list \<Rightarrow> bool" where
  "block_holds b es \<longleftrightarrow> block_events b = es \<and> sorted_events es"

lemma block_scan_loop_spec:
  "sorted_events es \<Longrightarrow> block_scan_loop es lo hi cb s = snd (run_cb cb (filter (in_range lo hi) es) s)"
proof (induction es arbitrary: s)
  case (Cons e es)
  have "filter (in_range lo hi) es = []" if "hi < event_key e"
    using Cons.prems that by (fastforce simp: filter_empty_conv in_range_def)
  moreover have "in_range lo hi e \<longleftrightarrow> \<not> event_key e < lo \<and> \<not> hi < event_key e"
    by (simp add: in_range_def not_less)
  ultimately show ?case using Cons.IH Cons.prems
    by (auto simp: Let_def split: prod.splits bool.splits)
qed simp

interpretation block_scan: scan_source block_holds block_scan "\<lambda>s. s"
  by unfold_locales (auto simp: block_holds_def block_scan_def block_scan_loop_spec)

section \<open>Damage\<close>

lemma block_decode_mismatch:
  assumes "length body = 44 + 65 * n" and "n < 2 ^ 32" and "read_u32 body = word_of_nat n"
    and "c \<noteq> crc32c body 0"
  shows "block_decode (body @ write_u32 c @ post) = Inl (Runtime_error ''block checksum mismatch'')"
proof -
  have cnt: "read_u32 (body @ write_u32 c @ post) = word_of_nat n"
    using assms(1,3) by (simp add: read_u32_append)
  have n: "unat (word_of_nat n :: u32) = n" using assms(2) by (simp add: unat_word_of_nat)
  have len: "length (body @ write_u32 c @ post) = 48 + 65 * n + length post" using assms(1) by simp
  have b: "4 + n * 65 + 20 * 2 = length body" using assms(1) by simp
  show ?thesis
    unfolding block_decode_def cnt Let_def n event_kEncodedSize_def key_kEncodedSize_def len diff_add_inverse2 b
    using assms(1,4) by simp
qed

text \<open>The encoding of a builder's events: a body with their count, then its checksum.\<close>

lemma block_finish_shape:
  assumes "bb_events b \<noteq> []"
  obtains body where "block_finish b = body @ write_u32 (crc32c body 0)"
    and "length body = 44 + 65 * length (bb_events b)" and "read_u32 body = word_of_nat (length (bb_events b))"
proof -
  obtain lo hi where "fold widen (bb_events b) (event_key (hd (bb_events b)), event_key (last (bb_events b))) = (lo, hi)"
    by fastforce
  then have "block_finish b = block_body (bb_events b) lo hi @ write_u32 (crc32c (block_body (bb_events b) lo hi) 0)"
    using assms by (simp add: block_finish_eq Let_def)
  then show ?thesis by (rule that) (simp_all add: block_body_def)
qed

section \<open>Properties\<close>

text \<open>Decoding what the builder writes for events in ascending order gives the events
  back, with their number, the smallest and the largest key and the encoded size, whatever
  bytes follow the block.\<close>

theorem block_roundtrip:
  assumes "bb_events b \<noteq> []" and "length (bb_events b) < 2 ^ 32" and "list_all event_wf (bb_events b)"
    and "sorted_events (bb_events b)"
  shows "block_decode (block_finish b @ post) =
    Inr \<lparr>block_meta = \<lparr>bm_min_key = event_key (hd (bb_events b)), bm_max_key = event_key (last (bb_events b)),
                       bm_record_count = word_of_nat (length (bb_events b)),
                       bm_encoded_size = word_of_nat (length (block_finish b))\<rparr>,
         block_events = bb_events b\<rparr>"
  using block_decode_finish [OF refl assms, of post] assms(1)
  unfolding length_block_finish encoded_block_size_def by simp

lemma block_roundtrip_witness:
  "let b = \<lparr>target_bytes = 65536, bb_events = [sample_event 10 1 Trade, sample_event 20 2 Quote]\<rparr> in
   block_decode (block_finish b @ [7]) =
    Inr \<lparr>block_meta = \<lparr>bm_min_key = event_key (hd (bb_events b)), bm_max_key = event_key (last (bb_events b)),
                       bm_record_count = word_of_nat (length (bb_events b)),
                       bm_encoded_size = word_of_nat (length (block_finish b))\<rparr>,
         block_events = bb_events b\<rparr>"
  unfolding Let_def by (rule block_roundtrip) (simp_all add: key_less_iff)

text \<open>A stored block in which up to four neighbouring bytes of the events or of the key
  range, or of the checksum itself, have changed is rejected with the checksum error.\<close>

theorem block_corruption_detected:
  assumes "bb_events b \<noteq> []" and "length (bb_events b) < 2 ^ 32"
    and "block_finish b = p @ a @ q" and "length a' = length a" and "length a \<le> 4" and "a' \<noteq> a"
    and "4 \<le> length p" and "length p + length a \<le> length (block_finish b) - 4 \<or> length (block_finish b) - 4 = length p"
  shows "block_decode (p @ a' @ q @ post) = Inl (Runtime_error ''block checksum mismatch'')"
proof -
  obtain body where fin: "block_finish b = body @ write_u32 (crc32c body 0)"
    and len: "length body = 44 + 65 * length (bb_events b)" and cnt: "read_u32 body = word_of_nat (length (bb_events b))"
    using block_finish_shape [OF assms(1)] .
  have split: "body @ write_u32 (crc32c body 0) = p @ a @ q" using fin assms(3) by simp
  have lf: "length (block_finish b) - 4 = length body" using fin by simp
  show ?thesis
  proof (cases "length p + length a \<le> length body")
    case True
    then obtain q1 where body: "body = p @ a @ q1" and q: "q = q1 @ write_u32 (crc32c body 0)"
      using split by (auto simp: append_eq_append_conv2)
    have "crc32c (p @ a' @ q1) 0 \<noteq> crc32c body 0"
      using crc32c_burst [of a' a p q1 0] assms(4,5,6) unfolding body by auto
    moreover have "length (p @ a' @ q1) = 44 + 65 * length (bb_events b)"
      using len assms(4) by (simp add: body)
    moreover have "read_u32 (p @ a' @ q1) = word_of_nat (length (bb_events b))"
      using cnt assms(7) by (simp add: body read_u32_append)
    ultimately show ?thesis
      using block_decode_mismatch [of "p @ a' @ q1" "length (bb_events b)" "crc32c body 0" post] assms(2) q
      by simp
  next
    case False
    then have p: "length p = length body" using assms(8) lf by simp
    then have "p = body" and aq: "write_u32 (crc32c body 0) = a @ q"
      using append_eq_append_conv [THEN iffD1, OF disjI1 split] by auto
    have l4: "length (a' @ q) = 4" using arg_cong [OF aq, of length] assms(4) by simp
    then have w: "write_u32 (read_u32 (a' @ q)) = a' @ q" using write_read_u32 [of "a' @ q"] by simp
    have "read_u32 (a' @ q) \<noteq> crc32c body 0"
    proof
      assume "read_u32 (a' @ q) = crc32c body 0"
      then have "a' @ q = a @ q" using w aq by simp
      then show False using assms(6) by simp
    qed
    then show ?thesis
      using block_decode_mismatch [OF len assms(2) cnt, of "read_u32 (a' @ q)" post] \<open>p = body\<close>
      unfolding w by simp
  qed
qed

lemma block_corruption_detected_witness:
  "let b = \<lparr>target_bytes = 65536, bb_events = [sample_event 10 1 Trade]\<rparr>;
       p = take 30 (block_finish b); a = take 2 (drop 30 (block_finish b)); q = drop 32 (block_finish b)
   in block_decode (p @ map (\<lambda>x. x + 1) a @ q @ []) = Inl (Runtime_error ''block checksum mismatch'')"
proof -
  let ?b = "\<lparr>target_bytes = 65536, bb_events = [sample_event 10 1 Trade]\<rparr>"
  have l: "length (block_finish ?b) = 113" by (simp add: length_block_finish encoded_block_size_def)
  have "map (\<lambda>x. x + 1) xs \<noteq> (xs :: bytes)" if "xs \<noteq> []" for xs using that by (cases xs) auto
  then have ne: "map (\<lambda>x. x + 1) (take 2 (drop 30 (block_finish ?b))) \<noteq> take 2 (drop 30 (block_finish ?b))"
    using l by simp
  have "drop 32 (block_finish ?b) = drop 2 (drop 30 (block_finish ?b))" by simp
  then have sp: "block_finish ?b = take 30 (block_finish ?b) @ take 2 (drop 30 (block_finish ?b)) @ drop 32 (block_finish ?b)"
    by (simp only: append_take_drop_id)
  show ?thesis
    unfolding Let_def by (rule block_corruption_detected [OF _ _ sp _ _ ne]) (simp_all add: l)
qed

text \<open>Filling an empty builder takes events in order until one would push the encoded
  block over the target size; the block written is never larger than the target, except
  for the single event a block always takes.\<close>

theorem block_builder_fills:
  "\<exists>n. bb_events (fold (\<lambda>e b. snd (block_add e b)) es (block_builder_new t)) = take n es \<and>
     length (block_finish (fold (\<lambda>e b. snd (block_add e b)) es (block_builder_new t))) \<le> max t 113 \<and>
     (length es \<le> n \<or> t < 48 + 65 * Suc n)"
proof -
  let ?fill = "\<lambda>es b. fold (\<lambda>e b. snd (block_add e b)) es b"
  have full: "?fill es b = b" if "bb_events b \<noteq> []" "target_bytes b < 48 + 65 * Suc (length (bb_events b))" for es b
    using that by (induction es) (simp_all add: block_add_def event_kEncodedSize_def key_kEncodedSize_def)
  have gen: "\<exists>n. bb_events (?fill es b) = bb_events b @ take n es \<and>
      encoded_block_size (bb_events (?fill es b)) \<le> max (target_bytes b) 113 \<and>
      (length es \<le> n \<or> target_bytes b < 48 + 65 * Suc (length (bb_events b) + n))"
    if "encoded_block_size (bb_events b) \<le> max (target_bytes b) 113" for b
    using that
  proof (induction es arbitrary: b)
    case (Cons e es)
    show ?case
    proof (cases "bb_events b \<noteq> [] \<and> target_bytes b < 48 + 65 * Suc (length (bb_events b))")
      case True
      then show ?thesis using full [of b "e # es"] Cons.prems by (intro exI [of _ 0]) simp
    next
      case False
      let ?b1 = "b\<lparr>bb_events := bb_events b @ [e]\<rparr>"
      have add: "snd (block_add e b) = ?b1"
        using False by (auto simp: block_add_def event_kEncodedSize_def key_kEncodedSize_def Let_def)
      have "encoded_block_size (bb_events ?b1) \<le> max (target_bytes ?b1) 113"
        using False by (auto simp: encoded_block_size_def)
      from Cons.IH [OF this] obtain n where n: "bb_events (?fill es ?b1) = bb_events ?b1 @ take n es"
        "encoded_block_size (bb_events (?fill es ?b1)) \<le> max (target_bytes ?b1) 113"
        "length es \<le> n \<or> target_bytes ?b1 < 48 + 65 * Suc (length (bb_events ?b1) + n)" by blast
      have "?fill (e # es) b = ?fill es ?b1" by (simp add: add)
      then show ?thesis using n by (intro exI [of _ "Suc n"]) simp
    qed
  qed simp
  show ?thesis using gen [of "block_builder_new t"]
    by (simp add: block_builder_new_def encoded_block_size_def length_block_finish)
qed

end
