(* ===== verification/Index.thy ===== *)
theory Index
  imports Keys
begin

text \<open>
  The index of a sorted table (table/index.hpp, table/index.cpp): one entry per block with
  the block's first key, its offset and its size; the binary search for the block of a key,
  the blocks of a key range, and the encoding.
\<close>

record index_entry =
  ie_first_key :: key
  ie_block_offset :: u64
  ie_block_size :: u32

definition index_kEncodedSize :: nat where
  "index_kEncodedSize = 32"

type_synonym index_block = "index_entry list"

definition index_add :: "key \<Rightarrow> u64 \<Rightarrow> u32 \<Rightarrow> index_block \<Rightarrow> index_block" where
  "index_add first_key offset sz entries =
     entries @ [\<lparr>ie_first_key = first_key, ie_block_offset = offset, ie_block_size = sz\<rparr>]"

text \<open>The search loop, which the source has twice.\<close>

function index_search :: "index_block \<Rightarrow> key \<Rightarrow> nat \<Rightarrow> nat \<Rightarrow> nat" where
  "index_search entries q lo hi =
     (if lo + 1 < hi
      then let mid = (lo + hi) div 2
           in if ie_first_key (entries ! mid) \<le> q then index_search entries q mid hi
              else index_search entries q lo mid
      else lo)"
  by pat_completeness auto
termination
  by (relation "measure (\<lambda>(entries, q, lo, hi). hi - lo)") auto

declare index_search.simps [simp del]

definition find_first_block :: "index_block \<Rightarrow> key \<Rightarrow> nat option" where
  "find_first_block entries q =
     (if entries = [] then None else Some (index_search entries q 0 (length entries)))"

text \<open>The collecting loop over the entry numbers from the starting block on.\<close>

fun blocks_loop :: "index_block \<Rightarrow> key \<Rightarrow> nat list \<Rightarrow> nat list \<Rightarrow> nat list" where
  "blocks_loop entries end [] result = result"
| "blocks_loop entries end (i # is) result =
     (if ie_first_key (entries ! i) > end then result
      else blocks_loop entries end is (result @ [i]))"

definition blocks_in_range :: "index_block \<Rightarrow> key \<Rightarrow> key \<Rightarrow> nat list" where
  "blocks_in_range entries start end =
     (if entries = [] then []
      else let first = index_search entries start 0 (length entries)
           in blocks_loop entries end [first..<length entries] [])"

definition index_entry_encode :: "index_entry \<Rightarrow> bytes" where
  "index_entry_encode e =
     key_encode (ie_first_key e) @ write_u64 (ie_block_offset e) @ write_u32 (ie_block_size e)"

definition index_entry_decode :: "bytes \<Rightarrow> index_entry" where
  "index_entry_decode p =
     \<lparr>ie_first_key = key_decode p, ie_block_offset = read_u64 (drop 20 p), ie_block_size = read_u32 (drop 28 p)\<rparr>"

definition index_encode :: "index_block \<Rightarrow> bytes" where
  "index_encode entries = write_u32 (word_of_nat (length entries)) @ concat (map index_entry_encode entries)"

definition index_decode :: "bytes \<Rightarrow> exn + index_block" where
  "index_decode data =
     (if length data < 4 then Inl (Runtime_error ''index block too small'')
      else let count = read_u32 data
           in if length data < 4 + unat count * index_kEncodedSize
              then Inl (Runtime_error ''index block truncated'')
              else Inr (decode_records index_entry_decode index_kEncodedSize (unat count) (drop 4 data)))"

section \<open>Searching\<close>

abbreviation sorted_index :: "index_block \<Rightarrow> bool" where
  "sorted_index entries \<equiv> sorted_wrt (<) (map ie_first_key entries)"

lemma sorted_index_less:
  "sorted_index entries \<Longrightarrow> i < j \<Longrightarrow> j < length entries \<Longrightarrow> ie_first_key (entries ! i) < ie_first_key (entries ! j)"
  by (simp add: sorted_wrt_iff_nth_less)

lemma index_search_bounds:
  assumes "lo < hi" and "hi \<le> length entries"
    and "lo = 0 \<or> ie_first_key (entries ! lo) \<le> q"
    and "hi = length entries \<or> q < ie_first_key (entries ! hi)"
  shows "index_search entries q lo hi < length entries \<and>
    (index_search entries q lo hi = 0 \<or> ie_first_key (entries ! index_search entries q lo hi) \<le> q) \<and>
    (Suc (index_search entries q lo hi) = length entries \<or>
     q < ie_first_key (entries ! Suc (index_search entries q lo hi)))"
  using assms
proof (induction entries q lo hi rule: index_search.induct)
  case (1 entries q lo hi)
  show ?case
  proof (cases "lo + 1 < hi")
    case True
    let ?mid = "(lo + hi) div 2"
    have m: "lo < ?mid" "?mid < hi" using True by auto
    show ?thesis
    proof (cases "ie_first_key (entries ! ?mid) \<le> q")
      case le: True
      then have "index_search entries q lo hi = index_search entries q ?mid hi"
        using True by (subst index_search.simps) (simp add: Let_def)
      then show ?thesis using "1.IH"(1) [OF True refl le] "1.prems" m le by simp
    next
      case gt: False
      then have "index_search entries q lo hi = index_search entries q lo ?mid"
        using True by (subst index_search.simps) (simp add: Let_def)
      then show ?thesis using "1.IH"(2) [OF True refl gt] "1.prems" m gt by (simp add: not_le)
    qed
  next
    case False
    then have "Suc lo = hi" using "1.prems"(1) by simp
    moreover have "index_search entries q lo hi = lo" using False by (subst index_search.simps) simp
    ultimately show ?thesis using "1.prems" by auto
  qed
qed

lemma index_search_cut:
  assumes "sorted_index entries" and "i < length entries"
  shows "index_search entries q 0 (length entries) \<le> i \<longleftrightarrow> Suc i = length entries \<or> q < ie_first_key (entries ! Suc i)"
proof -
  let ?r = "index_search entries q 0 (length entries)"
  have r: "?r < length entries" "?r = 0 \<or> ie_first_key (entries ! ?r) \<le> q"
      "Suc ?r = length entries \<or> q < ie_first_key (entries ! Suc ?r)"
    using index_search_bounds [of 0 "length entries" entries q] assms(2) by (metis gr_implies_not0 gr0I order_refl)+
  show ?thesis
  proof (cases "?r \<le> i")
    case True
    then have "Suc i = length entries \<or> q < ie_first_key (entries ! Suc i)"
      using r(3) assms sorted_index_less [OF assms(1), of "Suc ?r" "Suc i"]
      by (cases "?r = i") (auto dest: less_trans)
    then show ?thesis using True by simp
  next
    case False
    then have "ie_first_key (entries ! Suc i) \<le> ie_first_key (entries ! ?r)"
      using r(1) sorted_index_less [OF assms(1), of "Suc i" ?r] by (cases "Suc i = ?r") auto
    then have "\<not> q < ie_first_key (entries ! Suc i)" using r(2) False by auto
    moreover have "Suc i \<noteq> length entries" using False r(1) by simp
    ultimately show ?thesis using False by simp
  qed
qed

lemma blocks_loop_eq:
  "blocks_loop entries end is result = result @ takeWhile (\<lambda>i. ie_first_key (entries ! i) \<le> end) is"
  by (induction "is" arbitrary: result) (auto simp: not_less)

lemma takeWhile_upt_filter:
  assumes "\<And>i j. a \<le> i \<Longrightarrow> i \<le> j \<Longrightarrow> j < n \<Longrightarrow> P j \<Longrightarrow> P i"
  shows "takeWhile P [a..<n] = filter P [a..<n]"
  using assms
proof (induction "n - a" arbitrary: a)
  case (Suc d)
  then have an: "[a..<n] = a # [Suc a..<n]" by (simp add: upt_conv_Cons)
  have IH: "takeWhile P [Suc a..<n] = filter P [Suc a..<n]"
    using Suc.hyps Suc.prems by (intro Suc.hyps(1)) auto
  have "filter P [Suc a..<n] = []" if "\<not> P a"
  proof -
    have "\<not> P j" if "Suc a \<le> j" "j < n" for j
      using Suc.prems [of a j] that \<open>\<not> P a\<close> by auto
    then show ?thesis by (simp add: filter_empty_conv)
  qed
  then show ?case using IH by (simp add: an)
qed simp

lemma filter_ge_upt: "filter (\<lambda>i. r \<le> i \<and> P i) [0..<n] = filter P [r..<n]"
proof (cases "r \<le> n")
  case True
  then have "[0..<n] = [0..<r] @ [r..<n]" using upt_add_eq_append [of 0 r "n - r"] by simp
  moreover have "filter (\<lambda>i. r \<le> i \<and> P i) [0..<r] = []" by (simp add: filter_empty_conv)
  moreover have "filter (\<lambda>i. r \<le> i \<and> P i) [r..<n] = filter P [r..<n]" by (intro filter_cong) auto
  ultimately show ?thesis by simp
next
  case False
  then show ?thesis by (auto simp: filter_empty_conv)
qed

lemma blocks_in_range_eq:
  assumes "sorted_index entries"
  shows "blocks_in_range entries lo hi =
    filter (\<lambda>i. ie_first_key (entries ! i) \<le> hi \<and>
                (Suc i = length entries \<or> lo < ie_first_key (entries ! Suc i))) [0..<length entries]"
proof (cases "entries = []")
  case True
  then show ?thesis by (simp add: blocks_in_range_def)
next
  case False
  let ?r = "index_search entries lo 0 (length entries)" and ?n = "length entries"
  let ?P = "\<lambda>i. ie_first_key (entries ! i) \<le> hi"
  have "takeWhile ?P [?r..<?n] = filter ?P [?r..<?n]"
  proof (rule takeWhile_upt_filter)
    fix i j assume "i \<le> j" "j < ?n" "?P j"
    then show "?P i" using sorted_index_less [OF assms, of i j] by (cases "i = j") auto
  qed
  then have "blocks_in_range entries lo hi = filter (\<lambda>i. ?r \<le> i \<and> ?P i) [0..<?n]"
    using False by (simp add: blocks_in_range_def Let_def blocks_loop_eq filter_ge_upt)
  also have "\<dots> = filter (\<lambda>i. ?P i \<and> (Suc i = ?n \<or> lo < ie_first_key (entries ! Suc i))) [0..<?n]"
    using index_search_cut [OF assms] by (intro filter_cong) auto
  finally show ?thesis .
qed

lemma find_first_block_eq:
  assumes "sorted_index entries" and "entries \<noteq> []"
  shows "find_first_block entries q =
    Some (length (takeWhile (\<lambda>k. k \<le> q) (map ie_first_key entries)) - 1)"
proof -
  let ?r = "index_search entries q 0 (length entries)" and ?n = "length entries"
  let ?keys = "map ie_first_key entries"
  have r: "?r < ?n" "?r = 0 \<or> ie_first_key (entries ! ?r) \<le> q"
      "Suc ?r = ?n \<or> q < ie_first_key (entries ! Suc ?r)"
    using index_search_bounds [of 0 ?n entries q] assms(2) by auto
  have "?r = length (takeWhile (\<lambda>k. k \<le> q) ?keys) - 1"
  proof (cases "ie_first_key (entries ! ?r) \<le> q")
    case True
    have "takeWhile (\<lambda>k. k \<le> q) ?keys = take (Suc ?r) ?keys"
    proof (rule takeWhile_eq_take_P_nth)
      fix i assume "i < Suc ?r" "i < length ?keys"
      then show "?keys ! i \<le> q"
        using True r(1) sorted_index_less [OF assms(1), of i ?r] by (cases "i = ?r") auto
    next
      assume "Suc ?r < length ?keys"
      then show "\<not> ?keys ! Suc ?r \<le> q" using r(3) by simp
    qed
    then show ?thesis using r(1) by simp
  next
    case False
    then have "?r = 0" using r(2) by simp
    then have "takeWhile (\<lambda>k. k \<le> q) ?keys = []" using False assms(2) by (cases entries) auto
    then show ?thesis using \<open>?r = 0\<close> by simp
  qed
  then show ?thesis using assms(2) by (simp add: find_first_block_def)
qed

section \<open>The encoding\<close>

interpretation index_codec: record_codec index_entry_encode index_entry_decode 32 "\<lambda>_. True"
proof (unfold_locales, goal_cases)
  case (1 x)
  show ?case by (simp add: index_entry_encode_def)
next
  case (2 x r)
  show ?case by (simp add: index_entry_encode_def index_entry_decode_def key_decode_encode)
next
  case (3 p)
  then have "take 32 p = take 20 p @ take 8 (drop 20 p) @ take 4 (drop 28 p)"
    using take_add [of 20 12 p] take_add [of 8 4 "drop 20 p"] by simp
  then show ?case using 3
    by (simp add: index_entry_encode_def index_entry_decode_def key_encode_decode write_read_u64 write_read_u32)
next
  case (4 p)
  show ?case by simp
qed

lemma length_index_encode [simp, codec_simps]: "length (index_encode entries) = 4 + 32 * length entries"
  by (simp add: index_encode_def index_codec.length_concat_enc)

lemma index_decode_encode:
  assumes "length entries < 2 ^ 32"
  shows "index_decode (index_encode entries @ post) = Inr entries"
proof -
  have "read_u32 (index_encode entries @ post) = word_of_nat (length entries)" by (simp add: index_encode_def)
  moreover have "unat (word_of_nat (length entries) :: u32) = length entries"
    using assms by (simp add: unat_word_of_nat)
  moreover have "drop 4 (index_encode entries @ post) = concat (map index_entry_encode entries) @ post"
    by (simp add: index_encode_def)
  ultimately show ?thesis
    using index_codec.decode_records_concat [of entries post]
    by (simp add: index_decode_def index_kEncodedSize_def Let_def list_all_iff mult.commute)
qed

lemma index_decode_sound:
  assumes "index_decode data = Inr entries"
  shows "length entries = unat (read_u32 data) \<and> index_encode entries = take (4 + 32 * length entries) data"
proof -
  let ?n = "unat (read_u32 data)"
  have len: "4 + ?n * 32 \<le> length data" and e: "entries = decode_records index_entry_decode 32 ?n (drop 4 data)"
    using assms by (auto simp: index_decode_def index_kEncodedSize_def Let_def split: if_splits)
  have "concat (map index_entry_encode entries) = take (32 * ?n) (drop 4 data)"
    unfolding e using len by (intro index_codec.concat_decode_records) simp
  moreover have "write_u32 (word_of_nat ?n) = take 4 data"
    using len write_read_u32 [of data] by simp
  ultimately show ?thesis by (simp add: index_encode_def e take_add)
qed

section \<open>Properties\<close>

text \<open>In an index whose first keys ascend, the binary search finds the last block whose
  first key does not exceed the key asked for (the first block when there is none).\<close>

theorem index_find_first:
  assumes "sorted_index entries" and "entries \<noteq> []"
  shows "find_first_block entries q =
    Some (length (takeWhile (\<lambda>k. k \<le> q) (map ie_first_key entries)) - 1)"
  by (rule find_first_block_eq [OF assms])

definition sample_index :: index_block where
  "sample_index =
     [\<lparr>ie_first_key = \<lparr>key_symbol_id = 1, key_timestamp_ns = 10, key_sequence_id = 1\<rparr>,
       ie_block_offset = 0, ie_block_size = 113\<rparr>,
      \<lparr>ie_first_key = \<lparr>key_symbol_id = 1, key_timestamp_ns = 20, key_sequence_id = 2\<rparr>,
       ie_block_offset = 113, ie_block_size = 178\<rparr>]"

lemma index_find_first_witness:
  "find_first_block sample_index \<lparr>key_symbol_id = 1, key_timestamp_ns = 25, key_sequence_id = 1\<rparr> =
    Some (length (takeWhile (\<lambda>k. k \<le> \<lparr>key_symbol_id = 1, key_timestamp_ns = 25, key_sequence_id = 1\<rparr>)
      (map ie_first_key sample_index)) - 1)"
  by (rule index_find_first) (simp_all add: sample_index_def key_less_iff)

text \<open>In an index whose first keys ascend, the blocks returned for a range are exactly
  those that can hold a key of it: the ones that start at or below its end and whose
  successor, if any, starts above its beginning.\<close>

theorem index_blocks_in_range:
  assumes "sorted_index entries"
  shows "blocks_in_range entries lo hi =
    filter (\<lambda>i. ie_first_key (entries ! i) \<le> hi \<and>
                (Suc i = length entries \<or> lo < ie_first_key (entries ! Suc i))) [0..<length entries]"
  by (rule blocks_in_range_eq [OF assms])

lemma index_blocks_in_range_witness:
  "let lo = \<lparr>key_symbol_id = 1, key_timestamp_ns = 12, key_sequence_id = 0\<rparr>;
       hi = \<lparr>key_symbol_id = 1, key_timestamp_ns = 15, key_sequence_id = 9\<rparr>
   in blocks_in_range sample_index lo hi =
    filter (\<lambda>i. ie_first_key (sample_index ! i) \<le> hi \<and>
                (Suc i = length sample_index \<or> lo < ie_first_key (sample_index ! Suc i)))
      [0..<length sample_index]"
  unfolding Let_def by (rule index_blocks_in_range) (simp add: sample_index_def key_less_iff)

text \<open>Encoding an index and decoding it, whatever bytes follow, gives the same entries;
  and whatever bytes the decoder accepts are the encoding of what it returns.\<close>

theorem index_roundtrip:
  assumes "length entries < 2 ^ 32" and "index_decode data = Inr entries'"
  shows "index_decode (index_encode entries @ post) = Inr entries \<and>
    index_encode entries' = take (4 + 32 * length entries') data"
  using index_decode_encode [OF assms(1)] index_decode_sound [OF assms(2)] by blast

lemma index_roundtrip_witness:
  "index_decode (index_encode sample_index @ [1, 2]) = Inr sample_index \<and>
    index_encode [] = take (4 + 32 * length ([] :: index_block)) [0, 0, 0, 0, 9]"
proof (rule index_roundtrip)
  show "length sample_index < 2 ^ 32" by (simp add: sample_index_def)
  show "index_decode [0, 0, 0, 0, 9] = Inr []" by (simp add: index_decode_def read_u32_def)
qed

end
