(* ===== verification/Bloom.thy ===== *)
theory Bloom
  imports Keys
begin

text \<open>
  The Bloom filter (table/bloom_filter.hpp, table/bloom_filter.cpp): double hashing with
  FNV-1a and a Murmur finaliser, all on 32-bit integers, and its serialised form. The
  constructor computes the two sizes in floating point; the rounded results of these two
  computations are arguments of the model.
\<close>

record bloom =
  bf_k :: u32
  bf_m :: u32
  bf_bits :: bytes

text \<open>The default constructor: an empty filter answers true to everything.\<close>

definition bloom_default :: bloom where
  "bloom_default = \<lparr>bf_k = 0, bf_m = 0, bf_bits = []\<rparr>"

definition bloom_new :: "(u32 \<Rightarrow> nat) \<Rightarrow> (u32 \<Rightarrow> u32 \<Rightarrow> nat) \<Rightarrow> u32 \<Rightarrow> bloom" where
  "bloom_new ceil_bits round_hashes n_items =
     (let n = (if n_items = 0 then 1 else n_items);
          m = word_of_nat (max (ceil_bits n) 8);
          k = word_of_nat (max (round_hashes m n) 1)
      in \<lparr>bf_k = k, bf_m = m, bf_bits = replicate (unat ((m + 7) div 8)) 0\<rparr>)"

definition fnv1a :: "bytes \<Rightarrow> u32" where
  "fnv1a key = foldl (\<lambda>hash b. (hash XOR ucast b) * 16777619) 2166136261 key"

definition murmur_step :: "u32 \<Rightarrow> u8 \<Rightarrow> u32" where
  "murmur_step h b =
     (let h1 = h XOR ucast b;
          h2 = (h1 XOR drop_bit 16 h1) * 0x45d9f3b;
          h3 = (h2 XOR drop_bit 16 h2) * 0x45d9f3b
      in h3 XOR drop_bit 16 h3)"

definition murmur_mix :: "bytes \<Rightarrow> u32" where
  "murmur_mix key = foldl murmur_step 0xDEADBEEF key"

definition set_bit_at :: "u32 \<Rightarrow> bytes \<Rightarrow> bytes" where
  "set_bit_at pos bits =
     (let i = unat (pos div 8)
      in bits[i := bits ! i OR ucast (push_bit (unat (pos mod 8)) (1 :: u32))])"

definition get_bit_at :: "u32 \<Rightarrow> bytes \<Rightarrow> bool" where
  "get_bit_at pos bits \<longleftrightarrow>
     (drop_bit (unat (pos mod 8)) (ucast (bits ! unat (pos div 8)) :: u32)) AND 1 \<noteq> 0"

definition bloom_pos :: "bloom \<Rightarrow> bytes \<Rightarrow> nat \<Rightarrow> u32" where
  "bloom_pos f key i = (fnv1a key + word_of_nat i * murmur_mix key) mod bf_m f"

definition bloom_add :: "bytes \<Rightarrow> bloom \<Rightarrow> bloom" where
  "bloom_add key f =
     (if bf_m f = 0 then f
      else f\<lparr>bf_bits := fold (\<lambda>i. set_bit_at (bloom_pos f key i)) [0..<unat (bf_k f)] (bf_bits f)\<rparr>)"

definition bloom_may_contain :: "bloom \<Rightarrow> bytes \<Rightarrow> bool" where
  "bloom_may_contain f key \<longleftrightarrow>
     bf_m f = 0 \<or> list_all (\<lambda>i. get_bit_at (bloom_pos f key i) (bf_bits f)) [0..<unat (bf_k f)]"

text \<open>The byte count is computed on 32 bits: it wraps for a filter of almost \<open>2 ^ 32\<close> bits.\<close>

definition bloom_byte_count :: "u32 \<Rightarrow> nat" where
  "bloom_byte_count m = unat ((m + 7) div 8)"

definition bloom_encode :: "bloom \<Rightarrow> bytes" where
  "bloom_encode f =
     write_u32 (bf_k f) @ write_u32 (bf_m f) @ take (bloom_byte_count (bf_m f)) (bf_bits f)"

definition bloom_decode :: "bytes \<Rightarrow> exn + bloom" where
  "bloom_decode data =
     (if length data < 8 then Inl (Runtime_error ''bloom filter data too small'')
      else let k = read_u32 data; m = read_u32 (drop 4 data)
           in if length data < 8 + bloom_byte_count m
              then Inl (Runtime_error ''bloom filter data truncated'')
              else Inr \<lparr>bf_k = k, bf_m = m, bf_bits = take (bloom_byte_count m) (drop 8 data)\<rparr>)"

section \<open>Bits\<close>

definition bloom_wf :: "bloom \<Rightarrow> bool" where
  "bloom_wf f \<longleftrightarrow> unat (bf_m f) + 7 < 2 ^ 32 \<and> length (bf_bits f) = (unat (bf_m f) + 7) div 8"

lemma bloom_byte_count_eq: "unat m + 7 < 2 ^ 32 \<Longrightarrow> bloom_byte_count m = (unat m + 7) div 8"
proof -
  assume a: "unat m + 7 < 2 ^ 32"
  have "unat (m + 7) = (unat m + 7) mod 2 ^ 32" by (simp add: unat_word_ariths)
  with a show ?thesis by (simp add: bloom_byte_count_def unat_div)
qed

lemma bloom_wf_new:
  "unat (bf_m (bloom_new cb rh n)) + 7 < 2 ^ 32 \<Longrightarrow> bloom_wf (bloom_new cb rh n)"
proof -
  assume a: "unat (bf_m (bloom_new cb rh n)) + 7 < 2 ^ 32"
  have "length (bf_bits (bloom_new cb rh n)) = bloom_byte_count (bf_m (bloom_new cb rh n))"
    by (simp add: bloom_new_def bloom_byte_count_def Let_def)
  then show ?thesis using a by (simp add: bloom_wf_def bloom_byte_count_eq)
qed

lemma get_bit_at_bit: "get_bit_at pos bits \<longleftrightarrow> bit (bits ! (unat pos div 8)) (unat pos mod 8)"
proof -
  have "drop_bit n x AND 1 \<noteq> 0 \<longleftrightarrow> bit x n" for n and x :: u32
    by (simp add: bit_iff_and_drop_bit_eq_1 and_one_eq odd_iff_mod_2_eq_one)
  moreover have "bit (ucast (b :: u8) :: u32) n = bit b n" for b n
    by (auto simp: bit_simps dest: bit_u8_less)
  ultimately show ?thesis by (simp add: get_bit_at_def unat_div unat_mod)
qed

lemma get_set_bit:
  assumes "unat p div 8 < length bits"
  shows "get_bit_at q (set_bit_at p bits) \<longleftrightarrow> p = q \<or> get_bit_at q bits"
proof -
  have b: "bit (ucast (push_bit i (1 :: u32)) :: u8) n \<longleftrightarrow> n = i" if "i < 8" for i n
    using that by (auto simp: bit_simps)
  have eq: "p = q \<longleftrightarrow> unat p div 8 = unat q div 8 \<and> unat p mod 8 = unat q mod 8"
    by (metis div_mult_mod_eq word_unat_eq_iff)
  have m8: "unat p mod 8 < 8" by simp
  show ?thesis
    using assms b [OF m8, of "unat q mod 8"]
    by (auto simp: get_bit_at_bit set_bit_at_def Let_def unat_div unat_mod nth_list_update bit_or_iff eq)
qed

lemma length_set_bit_at [simp]: "length (set_bit_at p bits) = length bits"
  by (simp add: set_bit_at_def Let_def)

lemma get_fold_set_bits:
  assumes "\<forall>p \<in> set ps. unat p div 8 < length bits"
  shows "get_bit_at q (fold set_bit_at ps bits) \<longleftrightarrow> q \<in> set ps \<or> get_bit_at q bits"
  using assms by (induction ps arbitrary: bits) (auto simp: get_set_bit)

lemma length_fold_set_bits [simp]: "length (fold set_bit_at ps bits) = length bits"
  by (induction ps arbitrary: bits) auto

lemma bloom_pos_bound:
  assumes "bloom_wf f" and "bf_m f \<noteq> 0"
  shows "unat (bloom_pos f key i) div 8 < length (bf_bits f)"
proof -
  have "unat (bf_m f) \<noteq> 0" using assms(2) by (simp add: unat_eq_zero)
  then have "unat (bloom_pos f key i) < unat (bf_m f)" by (simp add: bloom_pos_def unat_mod)
  then show ?thesis using assms(1) unfolding bloom_wf_def by linarith
qed

lemma bloom_add_eq:
  "bf_m f \<noteq> 0 \<Longrightarrow>
     bloom_add key f = f\<lparr>bf_bits := fold set_bit_at (map (bloom_pos f key) [0..<unat (bf_k f)]) (bf_bits f)\<rparr>"
  by (simp add: bloom_add_def fold_map comp_def)

lemma bloom_add_simps [simp]:
  "bf_m (bloom_add key f) = bf_m f" "bf_k (bloom_add key f) = bf_k f"
  "bloom_wf (bloom_add key f) = bloom_wf f"
proof -
  show 1: "bf_m (bloom_add key f) = bf_m f" "bf_k (bloom_add key f) = bf_k f"
    by (simp_all add: bloom_add_def)
  have "length (bf_bits (bloom_add key f)) = length (bf_bits f)"
  proof (cases "bf_m f = 0")
    case True
    then show ?thesis by (simp add: bloom_add_def)
  next
    case False
    then show ?thesis by (simp add: bloom_add_eq)
  qed
  then show "bloom_wf (bloom_add key f) = bloom_wf f" by (simp add: bloom_wf_def 1)
qed

lemma bloom_pos_add [simp]: "bloom_pos (bloom_add key f) k i = bloom_pos f k i"
  by (simp add: bloom_pos_def)

text \<open>A key that was added is found, and adding another key loses none.\<close>

lemma bloom_add_contains:
  assumes "bloom_wf f"
  shows "bloom_may_contain (bloom_add key f) key"
    and "bloom_may_contain f k \<Longrightarrow> bloom_may_contain (bloom_add key f) k"
proof -
  have g: "get_bit_at q (bf_bits (bloom_add key f)) \<longleftrightarrow>
      q \<in> bloom_pos f key ` {0..<unat (bf_k f)} \<or> get_bit_at q (bf_bits f)" if "bf_m f \<noteq> 0" for q
    using that bloom_pos_bound [OF assms that] by (simp add: bloom_add_eq get_fold_set_bits)
  show "bloom_may_contain (bloom_add key f) key"
    using g by (auto simp: bloom_may_contain_def list_all_iff)
  show "bloom_may_contain f k \<Longrightarrow> bloom_may_contain (bloom_add key f) k"
    using g by (auto simp: bloom_may_contain_def list_all_iff)
qed

lemma bloom_decode_encode:
  assumes "bloom_wf f"
  shows "bloom_decode (bloom_encode f @ post) = Inr f"
proof -
  have n: "bloom_byte_count (bf_m f) = length (bf_bits f)"
    using assms by (simp add: bloom_wf_def bloom_byte_count_eq)
  show ?thesis by (simp add: bloom_decode_def bloom_encode_def n Let_def)
qed

section \<open>The interface of a membership filter\<close>

text \<open>What the table writer and reader rely on: no added key is ever denied, also after a
  round trip through the file.\<close>

locale membership_filter =
  fixes wf :: "'f \<Rightarrow> bool" and add :: "bytes \<Rightarrow> 'f \<Rightarrow> 'f" and may :: "'f \<Rightarrow> bytes \<Rightarrow> bool"
    and enc :: "'f \<Rightarrow> bytes" and dec :: "bytes \<Rightarrow> exn + 'f"
  assumes add_wf: "wf f \<Longrightarrow> wf (add k f)"
    and add_may: "wf f \<Longrightarrow> may (add k f) k"
    and add_keeps: "wf f \<Longrightarrow> may f k' \<Longrightarrow> may (add k f) k'"
    and dec_enc: "wf f \<Longrightarrow> dec (enc f @ r) = Inr f"
begin

lemma fold_add_wf: "wf f \<Longrightarrow> wf (fold add ks f)"
  by (induction ks arbitrary: f) (auto simp: add_wf)

lemma no_false_negative: "wf f \<Longrightarrow> k \<in> set ks \<or> may f k \<Longrightarrow> may (fold add ks f) k"
proof (induction ks arbitrary: f)
  case (Cons a ks)
  then show ?case using Cons.IH [OF add_wf [OF Cons.prems(1)], of a] add_may [OF Cons.prems(1)]
      add_keeps [OF Cons.prems(1)] by auto
qed simp

lemma stored_no_false_negative:
  "wf f \<Longrightarrow> k \<in> set ks \<Longrightarrow> \<exists>g. dec (enc (fold add ks f) @ r) = Inr g \<and> may g k"
  using no_false_negative [of f k ks] dec_enc [OF fold_add_wf] by auto

end

interpretation bloom_filter: membership_filter bloom_wf bloom_add bloom_may_contain bloom_encode bloom_decode
  by unfold_locales (simp_all add: bloom_add_contains bloom_decode_encode)

section \<open>Properties\<close>

text \<open>A filter built by the constructor and filled with any keys never denies one of them,
  not after it has been written to the table file and read back either (as long as its size
  in bits does not come within seven of \<open>2 ^ 32\<close>).\<close>

theorem bloom_no_false_negatives:
  assumes "unat (bf_m (bloom_new ceil_bits round_hashes n)) + 7 < 2 ^ 32" and "k \<in> set ks"
  shows "bloom_may_contain (fold bloom_add ks (bloom_new ceil_bits round_hashes n)) k \<and>
    (\<exists>g. bloom_decode (bloom_encode (fold bloom_add ks (bloom_new ceil_bits round_hashes n)) @ post) = Inr g \<and>
         bloom_may_contain g k)"
  using bloom_filter.no_false_negative [OF bloom_wf_new [OF assms(1)]]
    bloom_filter.stored_no_false_negative [OF bloom_wf_new [OF assms(1)]] assms(2) by blast

lemma bloom_no_false_negatives_witness:
  "bloom_may_contain (fold bloom_add [[1, 2], [3]] (bloom_new (\<lambda>_. 20) (\<lambda>_ _. 7) 2)) [3] \<and>
    (\<exists>g. bloom_decode (bloom_encode (fold bloom_add [[1, 2], [3]] (bloom_new (\<lambda>_. 20) (\<lambda>_ _. 7) 2)) @ [9]) = Inr g \<and>
         bloom_may_contain g [3])"
  by (rule bloom_no_false_negatives) (simp_all add: bloom_new_def)

end
