(* ===== verification/Cache.thy ===== *)
theory Cache
  imports Prelude
begin

text \<open>
  The block cache (util/block_cache.hpp, util/block_cache.cpp): a list of entries in the
  order of their last use and a hash index from a block's key to its position in the list.
  A list iterator is the number its entry was given when it was pushed; it stays valid when
  the entry moves. The lock makes every operation one step. Byte counts are natural
  numbers; the invariant shows that no subtraction goes below zero.
\<close>

type_synonym cache_key = "string \<times> u64"

record cache_entry =
  ce_id :: nat
  ce_key :: cache_key
  ce_data :: bytes

record block_cache =
  bc_max_bytes :: nat
  bc_cur_bytes :: nat
  bc_lru :: "cache_entry list"
  bc_index :: "cache_key \<rightharpoonup> nat"
  bc_next :: nat
  bc_hits :: u64
  bc_misses :: u64

definition cache_new :: "nat \<Rightarrow> block_cache" where
  "cache_new max_bytes =
     \<lparr>bc_max_bytes = max_bytes, bc_cur_bytes = 0, bc_lru = [], bc_index = Map.empty, bc_next = 0,
      bc_hits = 0, bc_misses = 0\<rparr>"

definition lru_erase :: "nat \<Rightarrow> cache_entry list \<Rightarrow> cache_entry list" where
  "lru_erase it es = filter (\<lambda>e. ce_id e \<noteq> it) es"

definition lru_at :: "nat \<Rightarrow> cache_entry list \<Rightarrow> cache_entry" where
  "lru_at it es = the (find (\<lambda>e. ce_id e = it) es)"

definition cache_get :: "cache_key \<Rightarrow> block_cache \<Rightarrow> bytes option \<times> block_cache" where
  "cache_get k c =
     (case bc_index c k of
        None \<Rightarrow> (None, c\<lparr>bc_misses := bc_misses c + 1\<rparr>)
      | Some it \<Rightarrow>
          let e = lru_at it (bc_lru c)
          in (Some (ce_data e),
              c\<lparr>bc_lru := e # lru_erase it (bc_lru c), bc_hits := bc_hits c + 1\<rparr>))"

definition evict_lru :: "block_cache \<Rightarrow> block_cache" where
  "evict_lru c =
     (if bc_lru c = [] then c
      else let back = last (bc_lru c)
           in c\<lparr>bc_cur_bytes := bc_cur_bytes c - length (ce_data back),
                bc_index := (bc_index c)(ce_key back := None),
                bc_lru := butlast (bc_lru c)\<rparr>)"

lemma length_evict_lru [simp]: "bc_lru c \<noteq> [] \<Longrightarrow> length (bc_lru (evict_lru c)) < length (bc_lru c)"
  by (simp add: evict_lru_def Let_def)

function evict_over :: "block_cache \<Rightarrow> block_cache" where
  "evict_over c =
     (if bc_cur_bytes c > bc_max_bytes c \<and> bc_lru c \<noteq> [] then evict_over (evict_lru c) else c)"
  by pat_completeness auto
termination
  by (relation "measure (\<lambda>c. length (bc_lru c))") auto

declare evict_over.simps [simp del]

definition cache_put :: "cache_key \<Rightarrow> bytes \<Rightarrow> block_cache \<Rightarrow> block_cache" where
  "cache_put k data c =
     (let c1 = (case bc_index c k of
                  None \<Rightarrow> c
                | Some it \<Rightarrow>
                    c\<lparr>bc_cur_bytes := bc_cur_bytes c - length (ce_data (lru_at it (bc_lru c))),
                      bc_lru := lru_erase it (bc_lru c),
                      bc_index := (bc_index c)(k := None)\<rparr>);
          sz = length data;
          it = bc_next c1;
          c2 = c1\<lparr>bc_lru := \<lparr>ce_id = it, ce_key = k, ce_data = data\<rparr> # bc_lru c1,
                  bc_next := it + 1,
                  bc_index := (bc_index c1)(k \<mapsto> it),
                  bc_cur_bytes := bc_cur_bytes c1 + sz\<rparr>
      in evict_over c2)"

text \<open>The loop of \<^verbatim>\<open>evict\<close> over the list, entry by entry.\<close>

fun evict_path_loop :: "string \<Rightarrow> cache_entry list \<Rightarrow> block_cache \<Rightarrow> block_cache" where
  "evict_path_loop path [] c = c"
| "evict_path_loop path (e # es) c =
     (if fst (ce_key e) = path
      then evict_path_loop path es
             (c\<lparr>bc_cur_bytes := bc_cur_bytes c - length (ce_data e),
                bc_index := (bc_index c)(ce_key e := None),
                bc_lru := lru_erase (ce_id e) (bc_lru c)\<rparr>)
      else evict_path_loop path es c)"

definition cache_evict :: "string \<Rightarrow> block_cache \<Rightarrow> block_cache" where
  "cache_evict path c = evict_path_loop path (bc_lru c) c"

definition cache_size_bytes :: "block_cache \<Rightarrow> nat" where
  "cache_size_bytes c = bc_cur_bytes c"

section \<open>The abstract cache\<close>

text \<open>The cache stands for an association list, most recently used first.\<close>

definition cache_abs :: "block_cache \<Rightarrow> (cache_key \<times> bytes) list" where
  "cache_abs c = map (\<lambda>e. (ce_key e, ce_data e)) (bc_lru c)"

definition total_size :: "(cache_key \<times> bytes) list \<Rightarrow> nat" where
  "total_size xs = sum_list (map (\<lambda>(k, d). length d) xs)"

definition cache_view :: "block_cache \<Rightarrow> cache_key \<rightharpoonup> bytes" where
  "cache_view c = map_of (cache_abs c)"

definition without :: "cache_key \<Rightarrow> (cache_key \<times> bytes) list \<Rightarrow> (cache_key \<times> bytes) list" where
  "without k xs = filter (\<lambda>(k', _). k' \<noteq> k) xs"

text \<open>Keeping the most recently used entries that fit the budget.\<close>

fun fit :: "nat \<Rightarrow> (cache_key \<times> bytes) list \<Rightarrow> (cache_key \<times> bytes) list" where
  "fit budget [] = []"
| "fit budget ((k, d) # xs) = (if length d \<le> budget then (k, d) # fit (budget - length d) xs else [])"

definition cache_inv :: "block_cache \<Rightarrow> bool" where
  "cache_inv c \<longleftrightarrow>
     distinct (map ce_id (bc_lru c)) \<and> (\<forall>e \<in> set (bc_lru c). ce_id e < bc_next c) \<and>
     distinct (map ce_key (bc_lru c)) \<and>
     bc_index c = map_of (map (\<lambda>e. (ce_key e, ce_id e)) (bc_lru c)) \<and>
     bc_cur_bytes c = total_size (cache_abs c)"

lemma cache_inv_new: "cache_inv (cache_new n)"
  by (simp add: cache_inv_def cache_new_def total_size_def cache_abs_def)

lemma total_size_simps [simp]:
  "total_size [] = 0" "total_size ((k, d) # xs) = length d + total_size xs"
  "total_size (xs @ ys) = total_size xs + total_size ys"
  by (simp_all add: total_size_def)

text \<open>Where the index points, and where it does not.\<close>

lemma index_split:
  assumes inv: "cache_inv c" and it: "bc_index c k = Some it"
  obtains e A B where "bc_lru c = A @ e # B" and "ce_key e = k" and "ce_id e = it"
    and "lru_at it (bc_lru c) = e" and "lru_erase it (bc_lru c) = A @ B"
    and "k \<notin> ce_key ` set (A @ B)" and "it \<notin> ce_id ` set (A @ B)"
proof -
  have "map_of (map (\<lambda>e. (ce_key e, ce_id e)) (bc_lru c)) k = Some it"
    using inv it by (simp add: cache_inv_def)
  then have "(k, it) \<in> set (map (\<lambda>e. (ce_key e, ce_id e)) (bc_lru c))" by (rule map_of_SomeD)
  then obtain e where e: "e \<in> set (bc_lru c)" "ce_key e = k" "ce_id e = it" by auto
  obtain A B where AB: "bc_lru c = A @ e # B" using e(1) by (meson split_list)
  have "distinct (map ce_id (A @ e # B))" "distinct (map ce_key (A @ e # B))"
    using inv unfolding cache_inv_def AB by blast+
  then have ids: "it \<notin> ce_id ` set (A @ B)" and keys: "k \<notin> ce_key ` set (A @ B)"
    using e(2,3) by auto
  have "find (\<lambda>e. ce_id e = it) (A @ e # B) = Some e"
    using ids e(3) by (induction A) auto
  then have at: "lru_at it (bc_lru c) = e" by (simp add: lru_at_def AB)
  have "filter (\<lambda>e. ce_id e \<noteq> it) (A @ B) = A @ B" using ids by (intro filter_True) auto
  then have "lru_erase it (bc_lru c) = A @ B" using e(3) by (simp add: lru_erase_def AB)
  then show ?thesis using that [OF AB e(2,3) at] keys ids by blast
qed

lemma cache_index_None: "cache_inv c \<Longrightarrow> bc_index c k = None \<longleftrightarrow> k \<notin> ce_key ` set (bc_lru c)"
  unfolding cache_inv_def by (simp only: map_of_eq_None_iff set_map image_image fst_conv)

lemma cache_view_None: "cache_view c k = None \<longleftrightarrow> k \<notin> ce_key ` set (bc_lru c)"
  unfolding cache_view_def cache_abs_def by (simp only: map_of_eq_None_iff set_map image_image fst_conv)

lemma without_absent: "k \<notin> fst ` set xs \<Longrightarrow> without k xs = xs"
  by (force simp: without_def filter_id_conv)

lemma map_of_without: "map_of (without k xs) = (map_of xs)(k := None)"
  by (induction xs) (auto simp: without_def fun_eq_iff)

lemma without_mid: "k \<notin> fst ` set (xs @ ys) \<Longrightarrow> without k (xs @ (k, d) # ys) = xs @ ys"
  using without_absent [of k "xs @ ys"] by (simp add: without_def)

lemma map_of_mid: "k \<notin> fst ` set (xs @ ys) \<Longrightarrow> map_of (xs @ (k, d) # ys) = (map_of (xs @ ys))(k \<mapsto> d)"
  by (induction xs) (auto simp: fun_eq_iff)

lemma map_of_mid_remove: "k \<notin> fst ` set (xs @ ys) \<Longrightarrow> (map_of (xs @ (k, d) # ys))(k := None) = map_of (xs @ ys)"
proof -
  assume k: "k \<notin> fst ` set (xs @ ys)"
  then have "map_of (xs @ ys) k = None" by (simp only: map_of_eq_None_iff not_False_eq_True)
  then show ?thesis by (simp only: map_of_mid [OF k] fun_upd_upd fun_upd_idem_iff)
qed

abbreviation ids_of :: "cache_entry list \<Rightarrow> (cache_key \<times> nat) list" where
  "ids_of es \<equiv> map (\<lambda>e. (ce_key e, ce_id e)) es"

abbreviation blocks_of :: "cache_entry list \<Rightarrow> (cache_key \<times> bytes) list" where
  "blocks_of es \<equiv> map (\<lambda>e. (ce_key e, ce_data e)) es"

lemma cache_get_miss:
  assumes inv: "cache_inv c" and "cache_view c k = None"
  shows "fst (cache_get k c) = None \<and> cache_inv (snd (cache_get k c)) \<and>
    cache_abs (snd (cache_get k c)) = cache_abs c"
proof -
  have "bc_index c k = None" using cache_index_None [OF inv] assms(2) unfolding cache_view_None by simp
  then have "cache_get k c = (None, c\<lparr>bc_misses := bc_misses c + 1\<rparr>)" by (simp add: cache_get_def)
  then show ?thesis using inv by (simp add: cache_inv_def cache_abs_def)
qed

lemma cache_get_hit:
  assumes inv: "cache_inv c" and v: "cache_view c k = Some d"
  shows "fst (cache_get k c) = Some d \<and> cache_inv (snd (cache_get k c)) \<and>
    cache_abs (snd (cache_get k c)) = (k, d) # without k (cache_abs c)"
proof -
  have "bc_index c k \<noteq> None" using v cache_view_None [of c k] cache_index_None [OF inv] by auto
  then obtain it where it: "bc_index c k = Some it" by blast
  obtain e A B where e: "bc_lru c = A @ e # B" "ce_key e = k" "ce_id e = it" "lru_at it (bc_lru c) = e"
      "lru_erase it (bc_lru c) = A @ B" "k \<notin> ce_key ` set (A @ B)" "it \<notin> ce_id ` set (A @ B)"
    using index_split [OF inv it] .
  have kb: "k \<notin> fst ` set (blocks_of A @ blocks_of B)" and ki: "k \<notin> fst ` set (ids_of A @ ids_of B)"
    using e(6) by (simp_all add: image_Un image_image)
  have abs: "cache_abs c = blocks_of A @ (k, ce_data e) # blocks_of B"
    using e(1,2) by (simp add: cache_abs_def)
  have d: "d = ce_data e" using v unfolding cache_view_def abs map_of_mid [OF kb] by simp
  let ?c' = "c\<lparr>bc_lru := e # A @ B, bc_hits := bc_hits c + 1\<rparr>"
  have g: "cache_get k c = (Some (ce_data e), ?c')" using it e(4,5) by (simp add: cache_get_def)
  have "bc_index c = map_of (ids_of A @ (k, it) # ids_of B)" using inv e(1,2,3) by (simp add: cache_inv_def)
  then have "bc_index c = map_of (ids_of (e # A @ B))"
    unfolding map_of_mid [OF ki] using e(2,3) by simp
  moreover have "total_size (cache_abs ?c') = total_size (cache_abs c)"
    using e(2) unfolding abs by (simp add: cache_abs_def)
  moreover have "distinct (map ce_id (e # A @ B)) \<and> (\<forall>x \<in> set (e # A @ B). ce_id x < bc_next c) \<and>
      distinct (map ce_key (e # A @ B))"
    using inv unfolding cache_inv_def e(1) by auto
  ultimately have "cache_inv ?c'" using inv by (simp add: cache_inv_def)
  moreover have "without k (cache_abs c) = blocks_of (A @ B)"
    unfolding abs using without_mid [OF kb] by simp
  ultimately show ?thesis using g d e(2) by (simp add: cache_abs_def)
qed

text \<open>Taking one entry out, wherever it is in the list.\<close>

lemma cache_remove:
  assumes inv: "cache_inv c" and lru: "bc_lru c = A @ e # B"
  shows "lru_erase (ce_id e) (bc_lru c) = A @ B"
    and "cache_inv (c\<lparr>bc_cur_bytes := bc_cur_bytes c - length (ce_data e),
                     bc_index := (bc_index c)(ce_key e := None), bc_lru := A @ B\<rparr>)"
proof -
  have d: "distinct (map ce_id (A @ e # B))" "distinct (map ce_key (A @ e # B))"
    and lt: "\<forall>x \<in> set (A @ e # B). ce_id x < bc_next c"
    using inv unfolding cache_inv_def lru by blast+
  have "ce_id e \<notin> ce_id ` set (A @ B)" using d(1) by auto
  then have "filter (\<lambda>x. ce_id x \<noteq> ce_id e) (A @ B) = A @ B" by (intro filter_True) (metis imageI)
  then show "lru_erase (ce_id e) (bc_lru c) = A @ B" by (simp add: lru_erase_def lru)
  have k: "ce_key e \<notin> fst ` set (ids_of A @ ids_of B)" using d(2) by (auto simp: image_image)
  have "bc_index c = map_of (ids_of A @ (ce_key e, ce_id e) # ids_of B)"
    using inv lru by (simp add: cache_inv_def)
  then have "(bc_index c)(ce_key e := None) = map_of (ids_of (A @ B))"
    using map_of_mid_remove [OF k] by simp
  moreover have "bc_cur_bytes c = total_size (blocks_of (A @ e # B))"
    using inv lru by (simp add: cache_inv_def cache_abs_def)
  moreover have "distinct (map ce_id (A @ B)) \<and> distinct (map ce_key (A @ B)) \<and> (\<forall>x \<in> set (A @ B). ce_id x < bc_next c)"
    using d lt by auto
  ultimately show "cache_inv (c\<lparr>bc_cur_bytes := bc_cur_bytes c - length (ce_data e),
                     bc_index := (bc_index c)(ce_key e := None), bc_lru := A @ B\<rparr>)"
    by (simp add: cache_inv_def cache_abs_def)
qed

lemma evict_lru_spec:
  assumes "cache_inv c" and "bc_lru c \<noteq> []"
  shows "cache_inv (evict_lru c) \<and> bc_lru (evict_lru c) = butlast (bc_lru c) \<and>
    bc_max_bytes (evict_lru c) = bc_max_bytes c"
proof -
  have "bc_lru c = butlast (bc_lru c) @ last (bc_lru c) # []" using assms(2) by simp
  from cache_remove(2) [OF assms(1) this] show ?thesis using assms(2) by (simp add: evict_lru_def Let_def)
qed

lemma fit_all: "total_size xs \<le> n \<Longrightarrow> fit n xs = xs"
  by (induction n xs rule: fit.induct) auto

lemma fit_snoc: "n < total_size (xs @ [x]) \<Longrightarrow> fit n (xs @ [x]) = fit n xs"
  by (induction n xs rule: fit.induct) (auto split: prod.splits, cases x, auto)

lemma total_size_fit: "total_size (fit n xs) \<le> n"
  by (induction n xs rule: fit.induct) auto

lemma evict_over_spec:
  "cache_inv c \<Longrightarrow> cache_inv (evict_over c) \<and>
     cache_abs (evict_over c) = fit (bc_max_bytes c) (cache_abs c) \<and> bc_max_bytes (evict_over c) = bc_max_bytes c"
proof (induction c rule: evict_over.induct)
  case (1 c)
  have cur: "bc_cur_bytes c = total_size (cache_abs c)" using "1.prems" by (simp add: cache_inv_def)
  show ?case
  proof (cases "bc_cur_bytes c > bc_max_bytes c \<and> bc_lru c \<noteq> []")
    case True
    then have e: "evict_over c = evict_over (evict_lru c)" by (subst evict_over.simps) simp
    have s: "cache_inv (evict_lru c)" "bc_lru (evict_lru c) = butlast (bc_lru c)"
        "bc_max_bytes (evict_lru c) = bc_max_bytes c"
      using evict_lru_spec "1.prems" True by blast+
    have sn: "cache_abs c = cache_abs (evict_lru c) @ [(ce_key (last (bc_lru c)), ce_data (last (bc_lru c)))]"
      using True by (cases "bc_lru c" rule: rev_cases) (simp_all add: cache_abs_def s(2))
    have "fit (bc_max_bytes c) (cache_abs c) = fit (bc_max_bytes c) (cache_abs (evict_lru c))"
      using True fit_snoc cur unfolding sn by metis
    then show ?thesis using "1.IH" [OF True s(1)] s(3) e by simp
  next
    case False
    then have "evict_over c = c" by (subst evict_over.simps) (simp only: if_False)
    moreover have "total_size (cache_abs c) \<le> bc_max_bytes c"
      using False cur by (auto simp: cache_abs_def)
    ultimately show ?thesis using "1.prems" by (simp add: fit_all)
  qed
qed

lemma cache_put_spec:
  assumes inv: "cache_inv c"
  shows "cache_inv (cache_put k d c) \<and>
    cache_abs (cache_put k d c) = fit (bc_max_bytes c) ((k, d) # without k (cache_abs c)) \<and>
    bc_max_bytes (cache_put k d c) = bc_max_bytes c"
proof -
  obtain c1 where c1: "cache_inv c1" "cache_abs c1 = without k (cache_abs c)" "k \<notin> ce_key ` set (bc_lru c1)"
      "bc_max_bytes c1 = bc_max_bytes c"
    and put: "cache_put k d c = evict_over (c1\<lparr>bc_lru := \<lparr>ce_id = bc_next c1, ce_key = k, ce_data = d\<rparr> # bc_lru c1,
        bc_next := bc_next c1 + 1, bc_index := (bc_index c1)(k \<mapsto> bc_next c1),
        bc_cur_bytes := bc_cur_bytes c1 + length d\<rparr>)"
  proof (cases "bc_index c k")
    case None
    then have k: "k \<notin> ce_key ` set (bc_lru c)" using cache_index_None [OF inv] by simp
    then have "without k (cache_abs c) = cache_abs c"
      by (intro without_absent) (simp add: cache_abs_def image_image)
    then show ?thesis using that [OF inv _ k refl] None by (simp add: cache_put_def Let_def)
  next
    case (Some it)
    obtain e A B where e: "bc_lru c = A @ e # B" "ce_key e = k" "ce_id e = it" "lru_at it (bc_lru c) = e"
        "lru_erase it (bc_lru c) = A @ B" "k \<notin> ce_key ` set (A @ B)" "it \<notin> ce_id ` set (A @ B)"
      using index_split [OF inv Some] .
    define c1 where "c1 = c\<lparr>bc_cur_bytes := bc_cur_bytes c - length (ce_data e),
                     bc_index := (bc_index c)(k := None), bc_lru := A @ B\<rparr>"
    have kb: "k \<notin> fst ` set (blocks_of A @ blocks_of B)"
      using e(6) by (simp add: image_Un image_image)
    have "cache_inv c1" using cache_remove(2) [OF inv e(1)] unfolding c1_def e(2) .
    moreover have "cache_abs c1 = without k (cache_abs c)"
      using without_mid [OF kb, of "ce_data e"] e(1,2) by (simp add: cache_abs_def c1_def)
    moreover have "cache_put k d c = evict_over (c1\<lparr>bc_lru := \<lparr>ce_id = bc_next c1, ce_key = k, ce_data = d\<rparr> # bc_lru c1,
        bc_next := bc_next c1 + 1, bc_index := (bc_index c1)(k \<mapsto> bc_next c1),
        bc_cur_bytes := bc_cur_bytes c1 + length d\<rparr>)"
      unfolding cache_put_def Some option.case e(4,5) Let_def c1_def by simp
    ultimately show ?thesis using that [of c1] e(6) by (simp add: c1_def)
  qed
  let ?c2 = "c1\<lparr>bc_lru := \<lparr>ce_id = bc_next c1, ce_key = k, ce_data = d\<rparr> # bc_lru c1,
        bc_next := bc_next c1 + 1, bc_index := (bc_index c1)(k \<mapsto> bc_next c1),
        bc_cur_bytes := bc_cur_bytes c1 + length d\<rparr>"
  have "bc_next c1 \<notin> ce_id ` set (bc_lru c1)" using c1(1) by (auto simp: cache_inv_def)
  then have "cache_inv ?c2" using c1(1,3) by (simp add: cache_inv_def cache_abs_def less_SucI)
  from evict_over_spec [OF this] show ?thesis using c1(2,4) by (simp add: put cache_abs_def)
qed

lemma evict_path_loop_spec:
  "cache_inv c \<Longrightarrow> bc_lru c = A @ es \<Longrightarrow>
     cache_inv (evict_path_loop path es c) \<and>
     bc_lru (evict_path_loop path es c) = A @ filter (\<lambda>e. fst (ce_key e) \<noteq> path) es \<and>
     bc_max_bytes (evict_path_loop path es c) = bc_max_bytes c"
proof (induction es arbitrary: A c)
  case (Cons e es)
  show ?case
  proof (cases "fst (ce_key e) = path")
    case True
    note r = cache_remove [OF Cons.prems]
    show ?thesis using Cons.IH [OF r(2)] True by (simp add: r(1))
  next
    case False
    then show ?thesis using Cons.IH [OF Cons.prems(1), of "A @ [e]"] Cons.prems(2) by simp
  qed
qed simp

lemma cache_evict_spec:
  assumes "cache_inv c"
  shows "cache_inv (cache_evict path c) \<and>
    cache_abs (cache_evict path c) = filter (\<lambda>((p, off), d). p \<noteq> path) (cache_abs c) \<and>
    bc_max_bytes (cache_evict path c) = bc_max_bytes c"
proof -
  have "filter (\<lambda>((p, off), d). p \<noteq> path) (cache_abs c) = blocks_of (filter (\<lambda>e. fst (ce_key e) \<noteq> path) (bc_lru c))"
    by (simp add: cache_abs_def filter_map comp_def case_prod_beta)
  then show ?thesis
    using evict_path_loop_spec [OF assms, of "[]" "bc_lru c" path] by (simp add: cache_evict_def cache_abs_def)
qed

section \<open>The interface of a cache\<close>

text \<open>
  What a reader relies on: a lookup answers from the view and leaves it alone, and after a
  store the view holds nothing but what it held or was given. So a cache that is only ever
  given the bytes of a source answers with the bytes of the source.
\<close>

locale coherent_cache =
  fixes inv :: "'c \<Rightarrow> bool" and view :: "'c \<Rightarrow> 'k \<rightharpoonup> 'd"
    and get :: "'k \<Rightarrow> 'c \<Rightarrow> 'd option \<times> 'c" and put :: "'k \<Rightarrow> 'd \<Rightarrow> 'c \<Rightarrow> 'c"
  assumes get_inv: "inv c \<Longrightarrow> inv (snd (get k c))"
    and get_view: "inv c \<Longrightarrow> fst (get k c) = view c k \<and> view (snd (get k c)) = view c"
    and put_inv: "inv c \<Longrightarrow> inv (put k d c)"
    and put_view: "inv c \<Longrightarrow> view (put k d c) \<subseteq>\<^sub>m (view c)(k \<mapsto> d)"
begin

definition coherent :: "('k \<Rightarrow> 'd option) \<Rightarrow> 'c \<Rightarrow> bool" where
  "coherent src c \<longleftrightarrow> inv c \<and> (\<forall>k d e. view c k = Some d \<longrightarrow> src k = Some e \<longrightarrow> d = e)"

lemma coherent_get:
  assumes "coherent src c" and "src k = Some d"
  shows "coherent src (snd (get k c)) \<and> (fst (get k c) = None \<or> fst (get k c) = Some d)"
  using assms get_view [of c k] get_inv [of c k] unfolding coherent_def by (cases "view c k") auto

lemma coherent_put:
  assumes "coherent src c" and "src k = None \<or> src k = Some d"
  shows "coherent src (put k d c)"
proof -
  have i: "inv c" using assms(1) by (simp add: coherent_def)
  have "x = e" if "view (put k d c) k' = Some x" "src k' = Some e" for k' x e
  proof -
    have "((view c)(k \<mapsto> d)) k' = Some x"
      using put_view [OF i, of k d] that(1) by (metis domI map_le_def)
    then show ?thesis using assms that(2) by (cases "k' = k") (auto simp: coherent_def)
  qed
  then show ?thesis using put_inv [OF i] by (auto simp: coherent_def)
qed

end

lemma map_of_fit: "distinct (map fst xs) \<Longrightarrow> map_of (fit n xs) \<subseteq>\<^sub>m map_of xs"
proof (induction n xs rule: fit.induct)
  case (2 n k d xs)
  then show ?case by (auto simp: map_le_def)
qed simp

lemma cache_get_view:
  assumes "cache_inv c"
  shows "cache_inv (snd (cache_get k c)) \<and> fst (cache_get k c) = cache_view c k \<and>
    cache_view (snd (cache_get k c)) = cache_view c"
proof (cases "cache_view c k")
  case None
  then show ?thesis using cache_get_miss [OF assms None] by (simp add: cache_view_def)
next
  case (Some d)
  then have "map_of ((k, d) # without k (cache_abs c)) = map_of (cache_abs c)"
    by (simp add: map_of_without fun_upd_idem_iff cache_view_def)
  then show ?thesis using cache_get_hit [OF assms Some] Some by (simp add: cache_view_def)
qed

lemma cache_put_view:
  assumes "cache_inv c"
  shows "cache_view (cache_put k d c) \<subseteq>\<^sub>m (cache_view c)(k \<mapsto> d)"
proof -
  have "distinct (map fst (cache_abs c))" using assms by (simp add: cache_inv_def cache_abs_def comp_def)
  then have "distinct (map fst ((k, d) # without k (cache_abs c)))"
    by (auto simp: without_def distinct_map_filter)
  from map_of_fit [OF this, of "bc_max_bytes c"] show ?thesis
    using cache_put_spec [OF assms, of k d] by (simp add: cache_view_def map_of_without)
qed

interpretation block_cache: coherent_cache cache_inv cache_view cache_get cache_put
  by unfold_locales (use cache_get_view cache_put_view cache_put_spec in blast)+

section \<open>Properties\<close>

datatype cache_op = Get cache_key | Put cache_key bytes | Evict string

definition cache_step :: "cache_op \<Rightarrow> block_cache \<Rightarrow> block_cache" where
  "cache_step op c =
     (case op of Get k \<Rightarrow> snd (cache_get k c) | Put k d \<Rightarrow> cache_put k d c | Evict path \<Rightarrow> cache_evict path c)"

text \<open>The specification: a list in the order of use, cut to the budget.\<close>

definition lru_spec_step :: "nat \<Rightarrow> cache_op \<Rightarrow> (cache_key \<times> bytes) list \<Rightarrow> (cache_key \<times> bytes) list" where
  "lru_spec_step n op xs =
     (case op of
        Get k \<Rightarrow> (case map_of xs k of None \<Rightarrow> xs | Some d \<Rightarrow> (k, d) # without k xs)
      | Put k d \<Rightarrow> fit n ((k, d) # without k xs)
      | Evict path \<Rightarrow> filter (\<lambda>((p, off), d). p \<noteq> path) xs)"

lemma cache_step_spec:
  assumes "cache_inv c"
  shows "cache_inv (cache_step op c) \<and> bc_max_bytes (cache_step op c) = bc_max_bytes c \<and>
    cache_abs (cache_step op c) = lru_spec_step (bc_max_bytes c) op (cache_abs c)"
proof (cases op)
  case (Get k)
  have "bc_max_bytes (snd (cache_get k c)) = bc_max_bytes c"
    by (simp add: cache_get_def Let_def split: option.splits)
  then show ?thesis
    using cache_get_miss [OF assms, of k] cache_get_hit [OF assms, of k] unfolding Get
    by (cases "cache_view c k") (simp_all add: cache_step_def lru_spec_step_def cache_view_def)
next
  case (Put k d)
  then show ?thesis using cache_put_spec [OF assms, of k d] by (simp add: cache_step_def lru_spec_step_def)
next
  case (Evict path)
  then show ?thesis using cache_evict_spec [OF assms, of path] by (simp add: cache_step_def lru_spec_step_def)
qed

lemma total_size_without: "total_size (without k xs) \<le> total_size xs"
  by (induction xs) (auto simp: without_def)

lemma lru_spec_bound:
  assumes "total_size xs \<le> n" and "distinct (map fst xs)"
  shows "total_size (lru_spec_step n op xs) \<le> n"
proof (cases op)
  case (Get k)
  have "length d + total_size (without k xs) = total_size xs" if "map_of xs k = Some d" for d
    using assms(2) that
  proof (induction xs)
    case (Cons x xs)
    obtain a b where x: "x = (a, b)" by fastforce
    show ?case
    proof (cases "a = k")
      case True
      then have "without k xs = xs" using Cons.prems(1) x by (intro without_absent) auto
      then show ?thesis using Cons.prems x True by (simp add: without_def)
    next
      case False
      then show ?thesis using Cons x by (simp add: without_def)
    qed
  qed simp
  then show ?thesis using assms(1) Get by (auto simp: lru_spec_step_def split: option.splits)
next
  case (Put k d)
  then show ?thesis by (simp add: lru_spec_step_def total_size_fit del: fit.simps)
next
  case (Evict path)
  have "total_size (filter P xs) \<le> total_size xs" for P by (induction xs) auto
  then show ?thesis using assms(1) Evict by (auto simp: lru_spec_step_def intro: order_trans)
qed

text \<open>C32: After any sequence of lookups, stores and evictions the list and the hash index of
  the cache stand for the specification's list of entries in the order of their last use,
  cut to the budget; the byte count is the size of the entries and never exceeds the budget;
  and a lookup answers with what that list holds under the key.\<close>

theorem cache_is_lru:
  "let c = fold cache_step ops (cache_new n); spec = fold (lru_spec_step n) ops [] in
   cache_abs c = spec \<and> cache_size_bytes c = total_size spec \<and> total_size spec \<le> n \<and>
   fst (cache_get k c) = map_of spec k"
proof -
  have gen: "cache_inv (fold cache_step ops c) \<and>
      cache_abs (fold cache_step ops c) = fold (lru_spec_step (bc_max_bytes c)) ops (cache_abs c) \<and>
      total_size (cache_abs (fold cache_step ops c)) \<le> bc_max_bytes c"
    if "cache_inv c" "total_size (cache_abs c) \<le> bc_max_bytes c" for c
    using that
  proof (induction ops arbitrary: c)
    case (Cons op ops)
    have d: "distinct (map fst (cache_abs c))" using Cons.prems(1) by (simp add: cache_inv_def cache_abs_def comp_def)
    note s = cache_step_spec [OF Cons.prems(1), of op]
    have "total_size (cache_abs (cache_step op c)) \<le> bc_max_bytes (cache_step op c)"
      using s lru_spec_bound [OF Cons.prems(2) d, of op] by simp
    then show ?case unfolding fold_Cons comp_apply using Cons.IH [of "cache_step op c"] s by metis
  qed simp
  have new: "cache_abs (cache_new n) = []" "bc_max_bytes (cache_new n) = n" by (simp_all add: cache_new_def cache_abs_def)
  note g = gen [OF cache_inv_new, of n, unfolded new total_size_simps, OF le0]
  then have "fst (cache_get k (fold cache_step ops (cache_new n))) = map_of (fold (lru_spec_step n) ops []) k"
    using cache_get_view [of "fold cache_step ops (cache_new n)" k] by (simp add: cache_view_def)
  moreover have "bc_cur_bytes (fold cache_step ops (cache_new n)) = total_size (cache_abs (fold cache_step ops (cache_new n)))"
    using g by (simp add: cache_inv_def)
  ultimately show ?thesis using g unfolding Let_def cache_size_bytes_def by (metis (no_types))
qed

end
