(* ===== verification/Files.thy ===== *)
theory Files
  imports Prelude "HOL-Library.AList"
begin

text \<open>
  What the source uses of the operating system and of \<^verbatim>\<open>snprintf\<close>/\<^verbatim>\<open>sscanf\<close>: a
  directory as the list of its regular files in the order \<^verbatim>\<open>directory_iterator\<close>
  yields them, the outcome of \<^verbatim>\<open>open\<close> and \<^verbatim>\<open>write\<close> as an oracle the operations take
  as an argument, and decimal file names.
\<close>

type_synonym dir = "(string \<times> bytes) list"

text \<open>
  What the kernel answers: whether opening a path succeeds, and what a \<^verbatim>\<open>write\<close> of
  \<open>n\<close> bytes returns (the bytes that reached the file, or a negative number).
\<close>

record os =
  os_open :: "string \<Rightarrow> bool"
  os_write :: "nat \<Rightarrow> int"

definition os_good :: "os \<Rightarrow> bool" where
  "os_good os \<longleftrightarrow> (\<forall>p. os_open os p) \<and> (\<forall>n. os_write os n = int n)"

text \<open>The kernel that never refuses.\<close>

definition os_ok :: os where
  "os_ok = \<lparr>os_open = (\<lambda>_. True), os_write = int\<rparr>"

text \<open>How many of the \<open>n\<close> bytes a \<^verbatim>\<open>write\<close> call leaves in the file.\<close>

definition os_written :: "os \<Rightarrow> nat \<Rightarrow> nat" where
  "os_written os n = min n (nat (os_write os n))"

lemma os_good_simps [simp]:
  "os_good os \<Longrightarrow> os_open os p" "os_good os \<Longrightarrow> os_write os n = int n"
  "os_good os \<Longrightarrow> os_written os n = n"
  by (simp_all add: os_good_def os_written_def)

definition file_content :: "dir \<Rightarrow> string \<Rightarrow> bytes" where
  "file_content d p = (case map_of d p of None \<Rightarrow> [] | Some c \<Rightarrow> c)"

lemma file_content_update [simp]: "file_content (AList.update p c d) p = c"
  by (simp add: file_content_def update_conv)

lemma update_update [simp]: "AList.update p c (AList.update p c' d) = AList.update p c d"
  by (induction d) auto

text \<open>A kernel that may write less than it is asked for, but always something.\<close>

definition os_progress :: "os \<Rightarrow> bool" where
  "os_progress os \<longleftrightarrow> (\<forall>p. os_open os p) \<and> (\<forall>n > 0. os_write os n > 0)"

section \<open>Decimal file names\<close>

definition digit :: "nat \<Rightarrow> char" where
  "digit n = char_of (48 + n)"

fun decimal :: "nat \<Rightarrow> string" where
  "decimal n = (if n < 10 then [digit n] else decimal (n div 10) @ [digit (n mod 10)])"

declare decimal.simps [simp del]

text \<open>The conversion \<^verbatim>\<open>%06llu\<close>.\<close>

definition decimal06 :: "nat \<Rightarrow> string" where
  "decimal06 n = replicate (6 - length (decimal n)) (digit 0) @ decimal n"

definition is_digit :: "char \<Rightarrow> bool" where
  "is_digit c \<longleftrightarrow> 48 \<le> (of_char c :: nat) \<and> (of_char c :: nat) \<le> 57"

definition digits_val :: "nat \<Rightarrow> string \<Rightarrow> nat" where
  "digits_val a s = foldl (\<lambda>v c. v * 10 + (of_char c - 48)) a s"

definition is_space :: "char \<Rightarrow> bool" where
  "is_space c \<longleftrightarrow> c = CHR '' '' \<or> (9 \<le> (of_char c :: nat) \<and> (of_char c :: nat) \<le> 13)"

text \<open>
  The conversion \<^verbatim>\<open>%llu\<close> of \<^verbatim>\<open>sscanf\<close>: leading white space, an optional sign, one
  digit at least. (A value of 18446744073709551616 and more is undefined behaviour in C; the source
  never writes such a name.)
\<close>

definition scan_llu :: "string \<Rightarrow> nat option" where
  "scan_llu s =
     (let s1 = dropWhile is_space s;
          neg = (s1 \<noteq> [] \<and> hd s1 = CHR ''-'');
          s2 = (if s1 \<noteq> [] \<and> (hd s1 = CHR ''-'' \<or> hd s1 = CHR ''+'') then tl s1 else s1);
          ds = takeWhile is_digit s2
      in if ds = [] then None
         else Some (if neg then (2 ^ 64 - digits_val 0 ds mod 2 ^ 64) mod 2 ^ 64 else digits_val 0 ds))"

lemma of_char_digit [simp]: "n < 10 \<Longrightarrow> (of_char (digit n) :: nat) = 48 + n"
  by (simp add: digit_def)

lemma is_digit_digit [simp]: "n < 10 \<Longrightarrow> is_digit (digit n)"
  by (simp add: is_digit_def)

lemma digits_decimal: "\<forall>c \<in> set (decimal n). is_digit c"
proof (induction n rule: decimal.induct)
  case (1 n)
  then show ?case by (subst decimal.simps) auto
qed

lemma decimal_nonempty [simp]: "decimal n \<noteq> []"
  by (subst decimal.simps) simp

lemma digits_val_decimal: "digits_val 0 (decimal n) = n"
proof (induction n rule: decimal.induct)
  case (1 n)
  show ?case
  proof (cases "n < 10")
    case True
    then show ?thesis by (subst decimal.simps) (simp add: digits_val_def)
  next
    case False
    with "1.IH" have "digits_val 0 (decimal (n div 10)) = n div 10" by simp
    then show ?thesis using False by (subst decimal.simps) (simp add: digits_val_def)
  qed
qed

lemma digits_val_zeros: "digits_val 0 (replicate k (digit 0) @ s) = digits_val 0 s"
  by (induction k) (simp_all add: digits_val_def)

lemma digits_decimal06: "\<forall>c \<in> set (decimal06 n). is_digit c"
  using digits_decimal [of n] by (auto simp: decimal06_def)

lemma decimal06_nonempty [simp]: "decimal06 n \<noteq> []"
  by (simp add: decimal06_def)

lemma digits_val_decimal06: "digits_val 0 (decimal06 n) = n"
  by (simp add: decimal06_def digits_val_zeros digits_val_decimal)

lemma scan_llu_decimal06:
  assumes "\<not> is_digit c"
  shows "scan_llu (decimal06 n @ c # r) = Some n"
proof -
  obtain x xs where ds: "decimal06 n = x # xs" by (cases "decimal06 n") auto
  then have x: "is_digit x" using digits_decimal06 [of n] by auto
  then have "\<not> is_space x" "x \<noteq> CHR ''-''" "x \<noteq> CHR ''+''"
    by (auto simp: is_digit_def is_space_def)
  moreover have "takeWhile is_digit (decimal06 n @ c # r) = decimal06 n"
    using digits_decimal06 [of n] assms by (subst takeWhile_append2) auto
  ultimately show ?thesis
    using ds digits_val_decimal06 [of n] by (simp add: scan_llu_def)
qed

lemma decimal06_inj: "decimal06 m = decimal06 n \<Longrightarrow> m = n"
  using digits_val_decimal06 by metis

end
