(* ===== verification/SSTable.thy ===== *)
theory SSTable
  imports Block Index Bloom Cache Files
begin

text \<open>
  The sorted table file (table/sstable.hpp, table/sstable.cpp): the writer that lays out
  data blocks, filter, index, meta block and footer, and the reader that loads the footer
  and scans through the block cache. A file is a key of the directory, named by its path.
  Offsets and sizes are 64-bit words as in the source; what the kernel answers is the
  argument \<open>os\<close>.
\<close>

definition kSSTableMagic :: u32 where
  "kSSTableMagic = 0x4B535354"

definition kSSTableVersion :: u32 where
  "kSSTableVersion = 2"

definition kSSTableFooterSize :: nat where
  "kSSTableFooterSize = 56"

record sst_meta =
  sm_event_count :: u64
  sm_data_bytes :: u64
  sm_min_key :: key
  sm_max_key :: key
  sm_level :: u32
  sm_sequence :: u64

record sst_info =
  si_path :: string
  si_meta :: sst_meta
  si_file_size :: u64

text \<open>The helpers \<^verbatim>\<open>w32\<close>, \<^verbatim>\<open>w64\<close>, \<^verbatim>\<open>r32\<close>, \<^verbatim>\<open>r64\<close> compute what those of the other files do.\<close>

definition encode_meta :: "sst_meta \<Rightarrow> bytes" where
  "encode_meta m =
     write_u64 (sm_event_count m) @ write_u64 (sm_data_bytes m) @
     key_encode (sm_min_key m) @ key_encode (sm_max_key m) @
     write_u32 (sm_level m) @ write_u64 (sm_sequence m)"

definition decode_meta :: "bytes \<Rightarrow> exn + sst_meta" where
  "decode_meta d =
     (if length d < 68 then Inl (Runtime_error ''meta block truncated'')
      else Inr \<lparr>sm_event_count = read_u64 d, sm_data_bytes = read_u64 (drop 8 d),
                sm_min_key = key_decode (drop 16 d), sm_max_key = key_decode (drop 36 d),
                sm_level = read_u32 (drop 56 d), sm_sequence = read_u64 (drop 60 d)\<rparr>)"

section \<open>The writer\<close>

record sst_writer =
  sw_dir :: dir
  sw_path :: string
  sw_level :: u32
  sw_sequence :: u64
  sw_fd :: bool
  sw_offset :: u64
  sw_builder :: block_builder
  sw_index :: index_block
  sw_filter :: bloom
  sw_event_count :: u64
  sw_min_key :: key
  sw_max_key :: key
  sw_has_any :: bool

text \<open>
  The constructor truncates the file. \<open>new_filter\<close> is the filter's constructor with the
  false-positive rate of the call.
\<close>

definition sst_writer_new ::
  "os \<Rightarrow> (u32 \<Rightarrow> bloom) \<Rightarrow> string \<Rightarrow> u32 \<Rightarrow> u64 \<Rightarrow> nat \<Rightarrow> u32 \<Rightarrow> dir \<Rightarrow> (exn + unit) \<times> sst_writer" where
  "sst_writer_new os new_filter path level sequence target expected d =
     (let w = \<lparr>sw_dir = d, sw_path = path, sw_level = level, sw_sequence = sequence, sw_fd = False,
               sw_offset = 0, sw_builder = block_builder_new target, sw_index = [],
               sw_filter = new_filter (if expected > 0 then expected else 65536),
               sw_event_count = 0, sw_min_key = default_key, sw_max_key = default_key, sw_has_any = False\<rparr>
      in if \<not> os_open os path then (Inl (Runtime_error (''cannot create SSTable: '' @ path)), w)
         else (Inr (), w\<lparr>sw_fd := True, sw_dir := AList.update path [] d\<rparr>))"

text \<open>The destructor of a writer that was not finished removes the file.\<close>

definition sst_writer_drop :: "sst_writer \<Rightarrow> sst_writer" where
  "sst_writer_drop w =
     (if sw_fd w then w\<lparr>sw_fd := False, sw_dir := AList.delete (sw_path w) (sw_dir w)\<rparr> else w)"

text \<open>Writing until nothing remains; a short write goes on with the rest.\<close>

function write_loop :: "os \<Rightarrow> bytes \<Rightarrow> bytes \<Rightarrow> (exn + unit) \<times> bytes" where
  "write_loop os data file =
     (if data = [] then (Inr (), file)
      else if os_write os (length data) \<le> 0 then (Inl (Runtime_error ''SSTable write error''), file)
      else let w = os_written os (length data)
           in write_loop os (drop w data) (file @ take w data))"
  by pat_completeness auto
termination
  by (relation "measure (\<lambda>(os, data, file). length data)") (auto simp: os_written_def)

declare write_loop.simps [simp del]

definition write_bytes :: "os \<Rightarrow> bytes \<Rightarrow> sst_writer \<Rightarrow> (exn + unit) \<times> sst_writer" where
  "write_bytes os data w =
     (let (r, file) = write_loop os data (file_content (sw_dir w) (sw_path w));
          w1 = w\<lparr>sw_dir := AList.update (sw_path w) file (sw_dir w)\<rparr>
      in case r of
           Inl ex \<Rightarrow> (Inl ex, w1)
         | Inr _ \<Rightarrow> (Inr (), w1\<lparr>sw_offset := sw_offset w1 + word_of_nat (length data)\<rparr>))"

definition flush_block :: "os \<Rightarrow> sst_writer \<Rightarrow> (exn + unit) \<times> sst_writer" where
  "flush_block os w =
     (if block_empty (sw_builder w) then (Inr (), w)
      else let first_key = event_key (hd (bb_events (sw_builder w)));
               block_data = block_finish (sw_builder w);
               offset = sw_offset w
           in and_then (write_bytes os block_data w) (\<lambda>_ w1.
                (Inr (), w1\<lparr>sw_index := index_add first_key offset (word_of_nat (length block_data)) (sw_index w1),
                            sw_builder := block_reset (sw_builder w1)\<rparr>)))"

text \<open>What \<^verbatim>\<open>add\<close> keeps of an event besides storing it: key range, count, filter.\<close>

definition sst_note :: "event \<Rightarrow> sst_writer \<Rightarrow> sst_writer" where
  "sst_note e w =
     (let w1 = (if \<not> sw_has_any w then w\<lparr>sw_min_key := event_key e, sw_has_any := True\<rparr> else w);
          w2 = w1\<lparr>sw_max_key := event_key e, sw_event_count := sw_event_count w1 + 1\<rparr>
      in w2\<lparr>sw_filter := bloom_add (key_encode (event_key e)) (sw_filter w2)\<rparr>)"

definition sst_add :: "os \<Rightarrow> event \<Rightarrow> sst_writer \<Rightarrow> (exn + unit) \<times> sst_writer" where
  "sst_add os e w =
     (let w1 = sst_note e w;
          (ok, b) = block_add e (sw_builder w1)
      in if \<not> ok
         then and_then (flush_block os (w1\<lparr>sw_builder := b\<rparr>)) (\<lambda>_ w2.
                (Inr (), w2\<lparr>sw_builder := snd (block_add e (sw_builder w2))\<rparr>))
         else (Inr (), w1\<lparr>sw_builder := b\<rparr>))"

definition sst_footer :: "u64 \<Rightarrow> u64 \<Rightarrow> u64 \<Rightarrow> u64 \<Rightarrow> u64 \<Rightarrow> u64 \<Rightarrow> bytes" where
  "sst_footer filter_off filter_size idx_off idx_size meta_off meta_size =
     write_u64 filter_off @ write_u64 filter_size @ write_u64 idx_off @ write_u64 idx_size @
     write_u64 meta_off @ write_u64 meta_size @ write_u32 kSSTableMagic @ write_u32 kSSTableVersion"

definition sst_finish :: "os \<Rightarrow> sst_writer \<Rightarrow> (exn + sst_info) \<times> sst_writer" where
  "sst_finish os w0 =
     and_then (flush_block os w0) (\<lambda>_ w1.
       let filter_data = bloom_encode (sw_filter w1); filter_off = sw_offset w1;
           filter_size = word_of_nat (length filter_data)
       in and_then (write_bytes os filter_data w1) (\<lambda>_ w2.
       let idx_data = index_encode (sw_index w2); idx_off = sw_offset w2;
           idx_size = word_of_nat (length idx_data)
       in and_then (write_bytes os idx_data w2) (\<lambda>_ w3.
       let meta = \<lparr>sm_event_count = sw_event_count w3, sm_data_bytes = filter_off,
                   sm_min_key = sw_min_key w3, sm_max_key = sw_max_key w3,
                   sm_level = sw_level w3, sm_sequence = sw_sequence w3\<rparr>;
           meta_data = encode_meta meta; meta_off = sw_offset w3;
           meta_size = word_of_nat (length meta_data)
       in and_then (write_bytes os meta_data w3) (\<lambda>_ w4.
       and_then (write_bytes os (sst_footer filter_off filter_size idx_off idx_size meta_off meta_size) w4) (\<lambda>_ w5.
         (Inr \<lparr>si_path = sw_path w5, si_meta = meta,
               si_file_size = word_of_nat (length (file_content (sw_dir w5) (sw_path w5)))\<rparr>,
          w5\<lparr>sw_fd := False\<rparr>))))))"

section \<open>The reader\<close>

text \<open>\<^verbatim>\<open>pread\<close> at an offset that is negative as \<^verbatim>\<open>off_t\<close> fails.\<close>

definition pread :: "bytes \<Rightarrow> u64 \<Rightarrow> nat \<Rightarrow> bytes option" where
  "pread file off n = (if unat off \<ge> 2 ^ 63 then None else Some (take n (drop (unat off) file)))"

text \<open>
  A buffer of the given size and a read that must fill it. A vector of \<open>2 ^ 63\<close> elements
  and more is refused by its constructor; memory itself is not modelled.
\<close>

definition read_exactly :: "bytes \<Rightarrow> u64 \<Rightarrow> nat \<Rightarrow> string \<Rightarrow> exn + bytes" where
  "read_exactly file off n message =
     (if n \<ge> 2 ^ 63 then Inl Length_error
      else case pread file off n of
             None \<Rightarrow> Inl (Runtime_error message)
           | Some b \<Rightarrow> if length b \<noteq> n then Inl (Runtime_error message) else Inr b)"

record sst_reader =
  sr_path :: string
  sr_file :: bytes
  sr_info :: sst_info
  sr_index :: index_block
  sr_filter :: bloom

definition bind_sum :: "'e + 'a \<Rightarrow> ('a \<Rightarrow> 'e + 'b) \<Rightarrow> 'e + 'b" where
  "bind_sum r f = (case r of Inl ex \<Rightarrow> Inl ex | Inr a \<Rightarrow> f a)"

lemma bind_sum_simps [simp]: "bind_sum (Inl ex) f = Inl ex" "bind_sum (Inr a) f = f a"
  by (simp_all add: bind_sum_def)

definition load_footer_and_index :: "string \<Rightarrow> bytes \<Rightarrow> exn + sst_reader" where
  "load_footer_and_index path file =
     (let file_size = word_of_nat (length file) :: u64
      in if length file < kSSTableFooterSize then Inl (Runtime_error (''SSTable too small: '' @ path))
         else bind_sum (read_exactly file (file_size - word_of_nat kSSTableFooterSize) kSSTableFooterSize
                          (''SSTable footer read failed: '' @ path)) (\<lambda>footer.
         let magic = read_u32 (drop 48 footer)
         in if magic \<noteq> kSSTableMagic then Inl (Runtime_error (''SSTable bad magic: '' @ path))
            else let filter_off = read_u64 footer; filter_size = read_u64 (drop 8 footer);
                     idx_off = read_u64 (drop 16 footer); idx_size = read_u64 (drop 24 footer);
                     meta_off = read_u64 (drop 32 footer); meta_size = read_u64 (drop 40 footer)
                 in if filter_off + filter_size > file_size \<or> idx_off + idx_size > file_size \<or>
                       meta_off + meta_size > file_size
                    then Inl (Runtime_error (''SSTable offsets out of bounds: '' @ path))
                    else bind_sum (if filter_size > 0
                           then bind_sum (read_exactly file filter_off (unat filter_size)
                                            (''SSTable filter read failed: '' @ path)) bloom_decode
                           else Inr bloom_default) (\<lambda>flt.
                    bind_sum (read_exactly file idx_off (unat idx_size) (''SSTable index read failed: '' @ path)) (\<lambda>idx_buf.
                    bind_sum (index_decode idx_buf) (\<lambda>idx.
                    bind_sum (read_exactly file meta_off (unat meta_size) (''SSTable meta read failed: '' @ path)) (\<lambda>meta_buf.
                    bind_sum (decode_meta meta_buf) (\<lambda>meta.
                      Inr \<lparr>sr_path = path, sr_file = file,
                           sr_info = \<lparr>si_path = path, si_meta = meta, si_file_size = file_size\<rparr>,
                           sr_index = idx, sr_filter = flt\<rparr>)))))))"

text \<open>The constructor: the descriptor keeps the file's content, whatever happens to its name.\<close>

definition sst_reader_new :: "os \<Rightarrow> string \<Rightarrow> dir \<Rightarrow> exn + sst_reader" where
  "sst_reader_new os path d =
     (case map_of d path of
        None \<Rightarrow> Inl (Runtime_error (''cannot open SSTable: '' @ path))
      | Some file \<Rightarrow>
          if \<not> os_open os path then Inl (Runtime_error (''cannot open SSTable: '' @ path))
          else load_footer_and_index path file)"

text \<open>What reading a block touches besides the file: the cache, if there is one, and two counters.\<close>

record read_io =
  io_cache :: "block_cache option"
  io_cache_hits :: u64
  io_cache_lookups :: u64

definition read_block_at :: "sst_reader \<Rightarrow> u64 \<Rightarrow> u32 \<Rightarrow> read_io \<Rightarrow> (exn + block) \<times> read_io" where
  "read_block_at r off sz io =
     (let miss = (\<lambda>io1.
            case read_exactly (sr_file r) off (unat sz) (''SSTable block read failed: '' @ sr_path r) of
              Inl ex \<Rightarrow> (Inl ex, io1)
            | Inr buf \<Rightarrow> (block_decode buf,
                 case io_cache io1 of
                   None \<Rightarrow> io1
                 | Some c \<Rightarrow> io1\<lparr>io_cache := Some (cache_put (sr_path r, off) buf c)\<rparr>))
      in case io_cache io of
           None \<Rightarrow> miss io
         | Some c \<Rightarrow>
             (case cache_get (sr_path r, off) c of
                (Some cached, c') \<Rightarrow>
                  (block_decode cached,
                   io\<lparr>io_cache := Some c', io_cache_hits := io_cache_hits io + 1,
                      io_cache_lookups := io_cache_lookups io + 1\<rparr>)
              | (None, c') \<Rightarrow>
                  miss (io\<lparr>io_cache := Some c', io_cache_lookups := io_cache_lookups io + 1\<rparr>)))"

definition sst_may_contain :: "sst_reader \<Rightarrow> key \<Rightarrow> key \<Rightarrow> bool" where
  "sst_may_contain r start end =
     (let m = si_meta (sr_info r)
      in if end < sm_min_key m \<or> sm_max_key m < start then False
         else if start = end \<and> bf_m (sr_filter r) \<noteq> 0 then bloom_may_contain (sr_filter r) (key_encode start)
         else True)"

fun sst_scan_blocks ::
  "sst_reader \<Rightarrow> key \<Rightarrow> key \<Rightarrow> (event \<Rightarrow> 's \<Rightarrow> bool \<times> 's) \<Rightarrow> nat list \<Rightarrow> 's \<Rightarrow> read_io \<Rightarrow> (exn + unit) \<times> 's \<times> read_io" where
  "sst_scan_blocks r start end cb [] s io = (Inr (), s, io)"
| "sst_scan_blocks r start end cb (bi # bis) s io =
     (if bi \<ge> length (sr_index r) then (Inr (), s, io)
      else let entry = sr_index r ! bi
           in case read_block_at r (ie_block_offset entry) (ie_block_size entry) io of
                (Inl ex, io') \<Rightarrow> (Inl ex, s, io')
              | (Inr blk, io') \<Rightarrow>
                  (case block_scan blk start end
                          (\<lambda>e (_, s). case cb e s of (cont, s') \<Rightarrow> (cont, (cont, s'))) (True, s) of
                     (cont, s') \<Rightarrow> if \<not> cont then (Inr (), s', io')
                                   else sst_scan_blocks r start end cb bis s' io'))"

definition sst_scan ::
  "sst_reader \<Rightarrow> key \<Rightarrow> key \<Rightarrow> (event \<Rightarrow> 's \<Rightarrow> bool \<times> 's) \<Rightarrow> 's \<Rightarrow> read_io \<Rightarrow> (exn + unit) \<times> 's \<times> read_io" where
  "sst_scan r start end cb s io =
     (if \<not> sst_may_contain r start end then (Inr (), s, io)
      else sst_scan_blocks r start end cb (blocks_in_range (sr_index r) start end) s io)"

text \<open>The point lookup: \<open>None\<close> is "not found", and \<open>out\<close> is untouched then.\<close>

definition sst_get :: "sst_reader \<Rightarrow> key \<Rightarrow> read_io \<Rightarrow> (exn + event option) \<times> read_io" where
  "sst_get r k io =
     (if bf_m (sr_filter r) \<noteq> 0 \<and> \<not> bloom_may_contain (sr_filter r) (key_encode k) then (Inr None, io)
      else case sst_scan r k k (\<lambda>e _. (False, Some e)) None io of
             (Inl ex, _, io') \<Rightarrow> (Inl ex, io')
           | (Inr _, found, io') \<Rightarrow> (Inr found, io'))"

section \<open>What a table file looks like\<close>

definition enc_block :: "event list \<Rightarrow> bytes" where
  "enc_block es = block_finish \<lparr>target_bytes = 0, bb_events = es\<rparr>"

lemma block_finish_enc: "block_finish b = enc_block (bb_events b)"
  by (simp add: enc_block_def block_finish_def Let_def split: prod.splits)

lemma length_enc_block: "length (enc_block es) = encoded_block_size es"
  by (simp add: enc_block_def length_block_finish)

definition blocks_bytes :: "event list list \<Rightarrow> bytes" where
  "blocks_bytes bs = concat (map enc_block bs)"

lemma blocks_bytes_simps [simp]:
  "blocks_bytes [] = []" "blocks_bytes (b # bs) = enc_block b @ blocks_bytes bs"
  "blocks_bytes (bs @ cs) = blocks_bytes bs @ blocks_bytes cs"
  by (simp_all add: blocks_bytes_def)

primrec index_from :: "nat \<Rightarrow> event list list \<Rightarrow> index_block" where
  "index_from off [] = []"
| "index_from off (b # bs) =
     \<lparr>ie_first_key = event_key (hd b), ie_block_offset = word_of_nat off,
      ie_block_size = word_of_nat (length (enc_block b))\<rparr> # index_from (off + length (enc_block b)) bs"

lemma index_from_append:
  "index_from off (bs @ cs) = index_from off bs @ index_from (off + length (blocks_bytes bs)) cs"
  by (induction bs arbitrary: off) (simp_all add: add.assoc)

lemma length_index_from [simp]: "length (index_from off bs) = length bs"
  by (induction bs arbitrary: off) simp_all

abbreviation enc_keys :: "event list \<Rightarrow> bytes list" where
  "enc_keys es \<equiv> map (\<lambda>e. key_encode (event_key e)) es"

text \<open>The writer after the blocks \<open>bs\<close> have been flushed, with \<open>cur\<close> in its builder.\<close>

definition writer_at :: "sst_writer \<Rightarrow> event list list \<Rightarrow> event list \<Rightarrow> sst_writer" where
  "writer_at w0 bs cur =
     w0\<lparr>sw_dir := AList.update (sw_path w0) (blocks_bytes bs) (sw_dir w0),
        sw_offset := word_of_nat (length (blocks_bytes bs)),
        sw_builder := (sw_builder w0)\<lparr>bb_events := cur\<rparr>,
        sw_index := index_from 0 bs,
        sw_filter := fold bloom_add (enc_keys (concat bs @ cur)) (sw_filter w0),
        sw_event_count := word_of_nat (length (concat bs @ cur)),
        sw_min_key := (if concat bs @ cur = [] then default_key else event_key (hd (concat bs @ cur))),
        sw_max_key := (if concat bs @ cur = [] then default_key else event_key (last (concat bs @ cur))),
        sw_has_any := concat bs @ cur \<noteq> []\<rparr>"

lemma write_loop_progress: "os_progress os \<Longrightarrow> write_loop os data f = (Inr (), f @ data)"
proof (induction os data f rule: write_loop.induct)
  case (1 os data f)
  show ?case
  proof (cases "data = []")
    case True
    then show ?thesis by (subst write_loop.simps) simp
  next
    case False
    then have "\<not> os_write os (length data) \<le> 0" using "1.prems" by (simp add: os_progress_def not_le)
    then show ?thesis using False "1.IH" [OF False _ refl "1.prems"]
      by (subst write_loop.simps) (simp add: Let_def)
  qed
qed

lemma write_bytes_progress:
  assumes "os_progress os"
  shows "write_bytes os data w =
    (Inr (), w\<lparr>sw_dir := AList.update (sw_path w) (file_content (sw_dir w) (sw_path w) @ data) (sw_dir w),
               sw_offset := sw_offset w + word_of_nat (length data)\<rparr>)"
  by (simp add: write_bytes_def write_loop_progress [OF assms])

lemma flush_block_progress:
  assumes "os_progress os" and "bb_events (sw_builder w) \<noteq> []"
  shows "flush_block os w =
    (Inr (), w\<lparr>sw_dir := AList.update (sw_path w)
                  (file_content (sw_dir w) (sw_path w) @ enc_block (bb_events (sw_builder w))) (sw_dir w),
               sw_offset := sw_offset w + word_of_nat (length (enc_block (bb_events (sw_builder w)))),
               sw_index := sw_index w @ [\<lparr>ie_first_key = event_key (hd (bb_events (sw_builder w))),
                 ie_block_offset = sw_offset w,
                 ie_block_size = word_of_nat (length (enc_block (bb_events (sw_builder w))))\<rparr>],
               sw_builder := (sw_builder w)\<lparr>bb_events := []\<rparr>\<rparr>)"
  using assms(2)
  by (simp add: flush_block_def block_empty_def write_bytes_progress [OF assms(1)] Let_def
      block_finish_enc index_add_def block_reset_def)

lemma flush_block_writer:
  assumes "os_progress os" and "cur \<noteq> []"
  shows "flush_block os (writer_at w0 bs cur) = (Inr (), writer_at w0 (bs @ [cur]) [])"
proof -
  have "bb_events (sw_builder (writer_at w0 bs cur)) \<noteq> []" using assms(2) by (simp add: writer_at_def)
  from flush_block_progress [OF assms(1) this] show ?thesis
    by (simp add: writer_at_def index_from_append)
qed

lemma flush_block_writer_empty: "flush_block os (writer_at w0 bs []) = (Inr (), writer_at w0 bs [])"
  by (simp add: flush_block_def block_empty_def writer_at_def)

definition block_fits :: "nat \<Rightarrow> event list \<Rightarrow> bool" where
  "block_fits t cur \<longleftrightarrow> cur = [] \<or> 48 + 65 * Suc (length cur) \<le> t"

lemma block_add_fits:
  "block_add e b = (block_fits (target_bytes b) (bb_events b),
     if block_fits (target_bytes b) (bb_events b) then b\<lparr>bb_events := bb_events b @ [e]\<rparr> else b)"
  by (auto simp: block_add_def block_fits_def event_kEncodedSize_def key_kEncodedSize_def Let_def)

lemma sst_note_writer:
  "sst_note e (writer_at w0 bs cur) =
     (writer_at w0 bs (cur @ [e]))\<lparr>sw_builder := (sw_builder w0)\<lparr>bb_events := cur\<rparr>\<rparr>"
proof (cases "concat bs @ cur = []")
  case True
  then have c: "concat bs = []" "cur = []" by (simp_all only: append_is_Nil_conv)
  show ?thesis unfolding sst_note_def writer_at_def Let_def c by simp
next
  case False
  then have "hd (concat bs @ cur @ [e]) = hd (concat bs @ cur)"
    using hd_append2 [OF False, of "[e]"] by (simp only: append_assoc)
  then show ?thesis using False by (auto simp: sst_note_def writer_at_def Let_def)
qed

lemma writer_at_simps [simp]:
  "sw_builder (writer_at w0 bs cur) = (sw_builder w0)\<lparr>bb_events := cur\<rparr>"
  "sw_path (writer_at w0 bs cur) = sw_path w0"
  by (simp_all add: writer_at_def)

lemma writer_at_builder:
  "(writer_at w0 bs cur)\<lparr>sw_builder := (sw_builder w0)\<lparr>bb_events := cur\<rparr>\<rparr> = writer_at w0 bs cur"
  by (simp add: writer_at_def)

lemma sst_add_writer:
  assumes "os_progress os"
  shows "sst_add os e (writer_at w0 bs cur) =
    (Inr (), if block_fits (target_bytes (sw_builder w0)) cur then writer_at w0 bs (cur @ [e])
             else writer_at w0 (bs @ [cur]) [e])"
proof (cases "block_fits (target_bytes (sw_builder w0)) cur")
  case True
  then show ?thesis by (simp add: sst_add_def sst_note_writer block_add_fits Let_def writer_at_builder)
next
  case False
  then have ne: "cur \<noteq> []" by (simp add: block_fits_def)
  let ?w3 = "(writer_at w0 bs (cur @ [e]))\<lparr>sw_builder := (sw_builder w0)\<lparr>bb_events := cur\<rparr>\<rparr>"
  have "sst_add os e (writer_at w0 bs cur) = and_then (flush_block os ?w3)
      (\<lambda>_ w4. (Inr (), w4\<lparr>sw_builder := snd (block_add e (sw_builder w4))\<rparr>))"
    using False by (simp add: sst_add_def sst_note_writer block_add_fits Let_def)
  also have "flush_block os ?w3 = (Inr (), (writer_at w0 (bs @ [cur]) [e])\<lparr>sw_builder := (sw_builder w0)\<lparr>bb_events := []\<rparr>\<rparr>)"
    using flush_block_progress [OF assms, of ?w3] ne by (simp add: writer_at_def index_from_append)
  finally show ?thesis using False
    by (simp add: block_add_fits block_fits_def writer_at_builder)
qed

text \<open>Writing a run of events, then finishing: what a flush and a compaction do.\<close>

primrec sst_add_all :: "os \<Rightarrow> event list \<Rightarrow> sst_writer \<Rightarrow> (exn + unit) \<times> sst_writer" where
  "sst_add_all os [] w = (Inr (), w)"
| "sst_add_all os (e # es) w = and_then (sst_add os e w) (\<lambda>_. sst_add_all os es)"

definition block_ok :: "nat \<Rightarrow> event list \<Rightarrow> bool" where
  "block_ok t b \<longleftrightarrow> b \<noteq> [] \<and> length (enc_block b) \<le> max t 113"

lemma block_ok_fits: "block_fits t cur \<Longrightarrow> block_ok t (cur @ [e])"
  by (auto simp: block_ok_def block_fits_def length_enc_block encoded_block_size_def)

lemma sst_add_all_writer:
  assumes "os_progress os" and "target_bytes (sw_builder w0) = t"
  shows "list_all (block_ok t) bs \<Longrightarrow> cur = [] \<or> block_ok t cur \<Longrightarrow>
    \<exists>bs' cur'. sst_add_all os es (writer_at w0 bs cur) = (Inr (), writer_at w0 bs' cur') \<and>
      concat bs' @ cur' = concat bs @ cur @ es \<and> list_all (block_ok t) bs' \<and> (cur' = [] \<or> block_ok t cur')"
proof (induction es arbitrary: bs cur)
  case Nil
  then show ?case by (intro exI [of _ bs] exI [of _ cur]) simp
next
  case (Cons e es)
  show ?case
  proof (cases "block_fits t cur")
    case True
    then show ?thesis
      using Cons.IH [of bs "cur @ [e]"] Cons.prems block_ok_fits [OF True, of e] assms
      by (simp add: sst_add_writer [OF assms(1)])
  next
    case False
    then have "block_ok t cur" using Cons.prems(2) by (auto simp: block_fits_def)
    moreover have "block_ok t [e]" using block_ok_fits [of t "[]" e] by (simp add: block_fits_def)
    ultimately show ?thesis
      using Cons.IH [of "bs @ [cur]" "[e]"] Cons.prems False assms
      by (simp add: sst_add_writer [OF assms(1)])
  qed
qed

text \<open>The bytes of a finished table.\<close>

definition table_meta :: "u32 \<Rightarrow> u64 \<Rightarrow> event list list \<Rightarrow> sst_meta" where
  "table_meta level sequence bs =
     \<lparr>sm_event_count = word_of_nat (length (concat bs)), sm_data_bytes = word_of_nat (length (blocks_bytes bs)),
      sm_min_key = (if concat bs = [] then default_key else event_key (hd (concat bs))),
      sm_max_key = (if concat bs = [] then default_key else event_key (last (concat bs))),
      sm_level = level, sm_sequence = sequence\<rparr>"

definition table_bytes :: "bloom \<Rightarrow> sst_meta \<Rightarrow> event list list \<Rightarrow> bytes" where
  "table_bytes flt meta bs =
     (let d = blocks_bytes bs; f = bloom_encode flt; i = index_encode (index_from 0 bs); m = encode_meta meta
      in d @ f @ i @ m @
         sst_footer (word_of_nat (length d)) (word_of_nat (length f))
           (word_of_nat (length d + length f)) (word_of_nat (length i))
           (word_of_nat (length d + length f + length i)) (word_of_nat (length m)))"

lemma sst_finish_writer:
  fixes bs :: "event list list" and cur :: "event list" and w0 :: sst_writer
  assumes "os_progress os" and "sw_dir w0 = AList.update (sw_path w0) [] d"
  defines "bs' \<equiv> (if cur = [] then bs else bs @ [cur])"
  defines "meta \<equiv> table_meta (sw_level w0) (sw_sequence w0) bs'"
  defines "file \<equiv> table_bytes (fold bloom_add (enc_keys (concat bs')) (sw_filter w0)) meta bs'"
  shows "\<exists>w. sst_finish os (writer_at w0 bs cur) =
      (Inr \<lparr>si_path = sw_path w0, si_meta = meta, si_file_size = word_of_nat (length file)\<rparr>, w) \<and>
    sw_dir w = AList.update (sw_path w0) file d \<and> \<not> sw_fd w"
proof -
  have fl: "flush_block os (writer_at w0 bs cur) = (Inr (), writer_at w0 bs' [])"
    using flush_block_writer [OF assms(1), of cur w0 bs] flush_block_writer_empty [of os w0 bs]
    by (simp add: bs'_def)
  have at: "sw_dir (writer_at w0 bs' []) = AList.update (sw_path w0) (blocks_bytes bs') d"
    "sw_offset (writer_at w0 bs' []) = word_of_nat (length (blocks_bytes bs'))"
    "sw_index (writer_at w0 bs' []) = index_from 0 bs'"
    "sw_filter (writer_at w0 bs' []) = fold bloom_add (enc_keys (concat bs')) (sw_filter w0)"
    "sw_event_count (writer_at w0 bs' []) = word_of_nat (length (concat bs'))"
    "sw_min_key (writer_at w0 bs' []) = (if concat bs' = [] then default_key else event_key (hd (concat bs')))"
    "sw_max_key (writer_at w0 bs' []) = (if concat bs' = [] then default_key else event_key (last (concat bs')))"
    "sw_level (writer_at w0 bs' []) = sw_level w0" "sw_sequence (writer_at w0 bs' []) = sw_sequence w0"
    by (simp_all add: writer_at_def assms(2) del: concat_eq_Nil_conv)
  have m: "table_meta (sw_level w0) (sw_sequence w0) bs' =
     \<lparr>sm_event_count = word_of_nat (length (concat bs')), sm_data_bytes = word_of_nat (length (blocks_bytes bs')),
      sm_min_key = (if concat bs' = [] then default_key else event_key (hd (concat bs'))),
      sm_max_key = (if concat bs' = [] then default_key else event_key (last (concat bs'))),
      sm_level = sw_level w0, sm_sequence = sw_sequence w0\<rparr>"
    by (simp add: table_meta_def)
  show ?thesis
    unfolding sst_finish_def fl and_then_simps Let_def
    unfolding write_bytes_progress [OF assms(1)] and_then_simps
    by (simp add: at m [symmetric] meta_def file_def table_bytes_def Let_def add.assoc del: concat_eq_Nil_conv)
qed

section \<open>Loading a table file\<close>

lemma length_encode_meta [simp]: "length (encode_meta m) = 68"
  by (simp add: encode_meta_def)

lemma decode_encode_meta: "decode_meta (encode_meta m @ r) = Inr m"
proof -
  have "length (encode_meta m @ r) = 68 + length r" by simp
  then show ?thesis
    by (simp add: decode_meta_def) (simp add: encode_meta_def key_decode_encode)
qed

lemma decode_encode_meta': "decode_meta (encode_meta m) = Inr m"
  using decode_encode_meta [of m "[]"] by simp

lemma unat_len: "length xs < 2 ^ 63 \<Longrightarrow> unat (word_of_nat (length xs) :: u64) = length xs"
  by (intro unat_word_of_nat) simp

lemma read_exactly_part:
  assumes "length (A @ B @ C) < 2 ^ 63"
  shows "read_exactly (A @ B @ C) (word_of_nat (length A)) (length B) msg = Inr B"
proof -
  have "unat (word_of_nat (length A) :: u64) = length A" using assms by (intro unat_len) simp
  then show ?thesis using assms by (simp add: read_exactly_def pread_def)
qed

lemma length_sst_footer [simp]: "length (sst_footer a b c d e f) = 56"
  by (simp add: sst_footer_def)

lemma load_table:
  assumes "length (table_bytes flt meta bs) < 2 ^ 63" and "bloom_wf flt" and "length bs < 2 ^ 32"
  shows "load_footer_and_index path (table_bytes flt meta bs) =
    Inr \<lparr>sr_path = path, sr_file = table_bytes flt meta bs,
         sr_info = \<lparr>si_path = path, si_meta = meta, si_file_size = word_of_nat (length (table_bytes flt meta bs))\<rparr>,
         sr_index = index_from 0 bs, sr_filter = flt\<rparr>"
proof -
  define D F I M where "D = blocks_bytes bs" and "F = bloom_encode flt"
    and "I = index_encode (index_from 0 bs)" and "M = encode_meta meta"
  define T where "T = sst_footer (word_of_nat (length D)) (word_of_nat (length F))
    (word_of_nat (length D + length F)) (word_of_nat (length I))
    (word_of_nat (length D + length F + length I)) (word_of_nat (length M))"
  have tb: "table_bytes flt meta bs = D @ F @ I @ M @ T"
    by (simp add: table_bytes_def D_def F_def I_def M_def T_def Let_def)
  have lT: "length T = 56" by (simp add: T_def)
  have len: "length (D @ F @ I @ M @ T) < 2 ^ 63" using assms(1) by (simp only: tb)
  have sum: "length D + length F + length I + length M + 56 < 2 ^ 63" using len lT by simp
  let ?file = "D @ F @ I @ M @ T"
  have w: "unat (word_of_nat n :: u64) = n" if "n \<le> length ?file" for n
    using that len by (intro unat_word_of_nat) simp
  have foff: "word_of_nat (length ?file) - word_of_nat kSSTableFooterSize = (word_of_nat (length (D @ F @ I @ M)) :: u64)"
    using lT by (simp add: kSSTableFooterSize_def)
  have r1: "read_exactly ?file (word_of_nat (length ?file) - word_of_nat kSSTableFooterSize) kSSTableFooterSize msg = Inr T" for msg
    unfolding foff using read_exactly_part [of "D @ F @ I @ M" T "[]" msg] len lT
    by (simp add: kSSTableFooterSize_def)
  have fields: "read_u32 (drop 48 T) = kSSTableMagic" "read_u64 T = word_of_nat (length D)"
    "read_u64 (drop 8 T) = word_of_nat (length F)" "read_u64 (drop 16 T) = word_of_nat (length D + length F)"
    "read_u64 (drop 24 T) = word_of_nat (length I)"
    "read_u64 (drop 32 T) = word_of_nat (length D + length F + length I)"
    "read_u64 (drop 40 T) = word_of_nat (length M)"
    unfolding T_def sst_footer_def by (simp_all del: of_nat_add)
  have le: "\<not> word_of_nat a + word_of_nat b > (word_of_nat (length ?file) :: u64)" if "a + b \<le> length ?file" for a b
  proof -
    have "word_of_nat a + word_of_nat b = (word_of_nat (a + b) :: u64)" by simp
    then show ?thesis using that w [OF that] w [OF order_refl] by (simp only: word_less_nat_alt not_less)
  qed
  have r2: "read_exactly ?file (word_of_nat (length D)) (length F) msg = Inr F" for msg
    using read_exactly_part [of D F "I @ M @ T" msg] len by simp
  have r3: "read_exactly ?file (word_of_nat (length D + length F)) (length I) msg = Inr I" for msg
    using read_exactly_part [of "D @ F" I "M @ T" msg] len by simp
  have r4: "read_exactly ?file (word_of_nat (length D + length F + length I)) (length M) msg = Inr M" for msg
    using read_exactly_part [of "D @ F @ I" M T msg] len by (simp add: add.assoc)
  have uF: "unat (word_of_nat (length F) :: u64) = length F" and uI: "unat (word_of_nat (length I) :: u64) = length I"
    and uM: "unat (word_of_nat (length M) :: u64) = length M"
    by (rule w, simp)+
  have F0: "(word_of_nat (length F) :: u64) > 0"
    unfolding word_less_nat_alt uF by (simp add: F_def bloom_encode_def)
  have dF: "bloom_decode F = Inr flt" using bloom_decode_encode [OF assms(2), of "[]"] by (simp add: F_def)
  have dI: "index_decode I = Inr (index_from 0 bs)"
    using index_decode_encode [of "index_from 0 bs" "[]"] assms(3) by (simp add: I_def)
  have dM: "decode_meta M = Inr meta" by (simp add: M_def decode_encode_meta')
  have l1: "\<not> length ?file < kSSTableFooterSize" using lT by (simp add: kSSTableFooterSize_def)
  have c1: "length D + length F \<le> length ?file" "(length D + length F) + length I \<le> length ?file"
    "(length D + length F + length I) + length M \<le> length ?file" by simp_all
  show ?thesis
    unfolding load_footer_and_index_def tb Let_def if_not_P [OF l1] r1 bind_sum_simps fields
    using le [OF c1(1)] le [OF c1(2)] le [OF c1(3)] F0
    by (simp only: uF uI uM r2 r3 r4 bind_sum_simps dF dI dM if_True if_False not_True_eq_False simp_thms)
qed

section \<open>Reading through the cache\<close>

text \<open>Offsets, first keys and sizes of the blocks, by number.\<close>

definition block_offset :: "event list list \<Rightarrow> nat \<Rightarrow> u64" where
  "block_offset bs i = word_of_nat (length (blocks_bytes (take i bs)))"

lemma index_from_nth:
  "i < length bs \<Longrightarrow> index_from off bs ! i =
     \<lparr>ie_first_key = event_key (hd (bs ! i)), ie_block_offset = word_of_nat (off + length (blocks_bytes (take i bs))),
      ie_block_size = word_of_nat (length (enc_block (bs ! i)))\<rparr>"
proof (induction bs arbitrary: off i)
  case (Cons b bs)
  then show ?case by (cases i) (simp_all add: add.assoc)
qed simp

text \<open>The reader of a table with the blocks \<open>bs\<close>.\<close>

definition reader_blocks :: "sst_reader \<Rightarrow> event list list \<Rightarrow> bool" where
  "reader_blocks r bs \<longleftrightarrow>
     sorted_events (concat bs) \<and> list_all event_wf (concat bs) \<and>
     (\<forall>b \<in> set bs. b \<noteq> [] \<and> length (enc_block b) < 2 ^ 32) \<and>
     (\<exists>rest. sr_file r = blocks_bytes bs @ rest) \<and> length (sr_file r) < 2 ^ 63 \<and>
     sr_index r = index_from 0 bs \<and>
     (\<forall>e \<in> set (concat bs). sm_min_key (si_meta (sr_info r)) \<le> event_key e \<and>
        event_key e \<le> sm_max_key (si_meta (sr_info r)) \<and>
        (bf_m (sr_filter r) = 0 \<or> bloom_may_contain (sr_filter r) (key_encode (event_key e))))"

text \<open>
  A cache that agrees with the blocks on disk: where it has an entry for a block of a
  table, the entry is that block. \<open>src\<close> gives the blocks by path and offset.
\<close>

definition io_ok :: "(cache_key \<Rightarrow> bytes option) \<Rightarrow> read_io \<Rightarrow> bool" where
  "io_ok src io \<longleftrightarrow> (case io_cache io of None \<Rightarrow> True | Some c \<Rightarrow> block_cache.coherent src c)"

definition reader_source :: "sst_reader \<Rightarrow> event list list \<Rightarrow> (cache_key \<Rightarrow> bytes option) \<Rightarrow> bool" where
  "reader_source r bs src \<longleftrightarrow>
     (\<forall>i < length bs. src (sr_path r, block_offset bs i) = Some (enc_block (bs ! i)))"

lemma block_in_file:
  assumes "i < length bs"
  shows "blocks_bytes bs = blocks_bytes (take i bs) @ enc_block (bs ! i) @ blocks_bytes (drop (Suc i) bs)"
  using arg_cong [OF id_take_nth_drop [OF assms], of blocks_bytes] by simp

lemma decode_enc_block:
  assumes "b \<noteq> []" and "length (enc_block b) < 2 ^ 32" and "list_all event_wf b" and "sorted_events b"
  shows "\<exists>blk. block_decode (enc_block b) = Inr blk \<and> block_holds blk b"
proof -
  have "length b < 2 ^ 32" using assms(1,2) by (simp add: length_enc_block encoded_block_size_def)
  then show ?thesis
    using block_decode_finish [of b "\<lparr>target_bytes = 0, bb_events = b\<rparr>" "[]"] assms
    by (simp add: enc_block_def block_holds_def)
qed

lemma sorted_block:
  assumes "sorted_events (concat bs)" and "list_all event_wf (concat bs)" and "i < length bs"
  shows "sorted_events (bs ! i)" and "list_all event_wf (bs ! i)"
proof -
  have c: "concat bs = concat (take i bs) @ bs ! i @ concat (drop (Suc i) bs)"
    using arg_cong [OF id_take_nth_drop [OF assms(3)], of concat] by simp
  show "sorted_events (bs ! i)" using assms(1) unfolding c by (simp add: sorted_wrt_append)
  show "list_all event_wf (bs ! i)" using assms(2) unfolding c by simp
qed

lemma read_block_at_spec:
  assumes rb: "reader_blocks r bs" and src: "reader_source r bs src" and io: "io_ok src io" and i: "i < length bs"
  shows "\<exists>blk io'. read_block_at r (ie_block_offset (sr_index r ! i)) (ie_block_size (sr_index r ! i)) io = (Inr blk, io') \<and>
    block_holds blk (bs ! i) \<and> io_ok src io'"
proof -
  let ?k = "(sr_path r, block_offset bs i)"
  have wf: "sorted_events (concat bs)" "list_all event_wf (concat bs)"
      "\<forall>b \<in> set bs. b \<noteq> [] \<and> length (enc_block b) < 2 ^ 32" "length (sr_file r) < 2 ^ 63" "sr_index r = index_from 0 bs"
    using rb unfolding reader_blocks_def by blast+
  obtain rest where f: "sr_file r = blocks_bytes bs @ rest" using rb unfolding reader_blocks_def by blast
  have b: "bs ! i \<noteq> []" "length (enc_block (bs ! i)) < 2 ^ 32" using wf(3) i by auto
  obtain blk where blk: "block_decode (enc_block (bs ! i)) = Inr blk" "block_holds blk (bs ! i)"
    using decode_enc_block [OF b sorted_block(2,1) [OF wf(1,2) i]] by blast
  have entry: "ie_block_offset (sr_index r ! i) = block_offset bs i"
      "ie_block_size (sr_index r ! i) = word_of_nat (length (enc_block (bs ! i)))"
    using index_from_nth [OF i, of 0] by (simp_all add: wf(5) block_offset_def)
  have sz: "unat (word_of_nat (length (enc_block (bs ! i))) :: u32) = length (enc_block (bs ! i))"
    using b(2) by (intro unat_word_of_nat) simp
  have "sr_file r = blocks_bytes (take i bs) @ enc_block (bs ! i) @ (blocks_bytes (drop (Suc i) bs) @ rest)"
    using f block_in_file [OF i] by simp
  then have rd: "read_exactly (sr_file r) (block_offset bs i) (length (enc_block (bs ! i))) msg = Inr (enc_block (bs ! i))" for msg
    using read_exactly_part [of "blocks_bytes (take i bs)" "enc_block (bs ! i)" "blocks_bytes (drop (Suc i) bs) @ rest" msg]
      wf(4) by (simp add: block_offset_def)
  have srck: "src ?k = Some (enc_block (bs ! i))" using src i by (simp add: reader_source_def)
  show ?thesis
  proof (cases "io_cache io")
    case None
    then show ?thesis using blk rd io by (simp add: read_block_at_def entry sz Let_def io_ok_def)
  next
    case (Some c)
    then have coh: "block_cache.coherent src c" using io by (simp add: io_ok_def)
    obtain ans c' where g: "cache_get ?k c = (ans, c')" by fastforce
    have cg: "block_cache.coherent src c'" "ans = None \<or> ans = Some (enc_block (bs ! i))"
      using block_cache.coherent_get [OF coh srck] g by simp_all
    show ?thesis
    proof (cases ans)
      case None
      have "block_cache.coherent src (cache_put ?k (enc_block (bs ! i)) c')"
        using block_cache.coherent_put [OF cg(1)] srck by blast
      then show ?thesis using Some g None blk rd by (simp add: read_block_at_def entry sz Let_def io_ok_def)
    next
      case ans: (Some d)
      then show ?thesis using Some g cg blk by (simp add: read_block_at_def entry sz Let_def io_ok_def)
    qed
  qed
qed

section \<open>Scanning\<close>

lemma run_cb_cont:
  "run_cb (\<lambda>e (_, s). case cb e s of (cont, s') \<Rightarrow> (cont, (cont, s'))) xs (True, s)
     = (fst (run_cb cb xs s), run_cb cb xs s)"
  by (induction xs arbitrary: s) (auto split: prod.splits bool.splits)

lemma sst_scan_blocks_spec:
  assumes rb: "reader_blocks r bs" and src: "reader_source r bs src"
  shows "io_ok src io \<Longrightarrow> \<forall>i \<in> set is. i < length bs \<Longrightarrow>
    \<exists>io'. sst_scan_blocks r lo hi cb is s io =
      (Inr (), snd (run_cb cb (concat (map (\<lambda>i. filter (in_range lo hi) (bs ! i)) is)) s), io') \<and> io_ok src io'"
proof (induction "is" arbitrary: s io)
  case Nil
  then show ?case by simp
next
  case (Cons i "is")
  have i: "i < length bs" using Cons.prems(2) by simp
  obtain blk io' where rd: "read_block_at r (ie_block_offset (sr_index r ! i)) (ie_block_size (sr_index r ! i)) io = (Inr blk, io')"
    and blk: "block_holds blk (bs ! i)" and io': "io_ok src io'"
    using read_block_at_spec [OF rb src Cons.prems(1) i] by blast
  have len: "length (sr_index r) = length bs" using rb by (simp add: reader_blocks_def)
  let ?xs = "filter (in_range lo hi) (bs ! i)"
  have scan: "block_scan blk lo hi (\<lambda>e (_, s). case cb e s of (cont, s') \<Rightarrow> (cont, (cont, s'))) (True, s) = run_cb cb ?xs s"
    by (simp add: block_scan.scan_run [OF blk] run_cb_cont)
  show ?case
  proof (cases "run_cb cb ?xs s")
    case (Pair cont s')
    show ?thesis
    proof (cases cont)
      case True
      obtain io'' where "sst_scan_blocks r lo hi cb is s' io' =
          (Inr (), snd (run_cb cb (concat (map (\<lambda>i. filter (in_range lo hi) (bs ! i)) is)) s'), io'')" "io_ok src io''"
        using Cons.IH [OF io'] Cons.prems(2) by force
      then show ?thesis using True Pair rd scan i len by (simp add: Let_def run_cb_append)
    next
      case False
      then show ?thesis using Pair rd scan i len io' by (simp add: Let_def run_cb_append)
    qed
  qed
qed

text \<open>The blocks' first keys ascend, and a block lies below the first key of the next.\<close>

lemma concat_before:
  assumes "sorted_events (concat bs)" and "i < j" and "j < length bs" and "e \<in> set (bs ! i)" and "bs ! j \<noteq> []"
  shows "event_key e < event_key (hd (bs ! j))"
proof -
  have c: "concat bs = concat (take j bs) @ bs ! j @ concat (drop (Suc j) bs)"
    using arg_cong [OF id_take_nth_drop [OF assms(3)], of concat] by simp
  have "take j bs ! i = bs ! i" "i < length (take j bs)" using assms(2,3) by simp_all
  then have "bs ! i \<in> set (take j bs)" by (metis nth_mem)
  then have "e \<in> set (concat (take j bs))" using assms(4) by auto
  then show ?thesis using assms(1,5) unfolding c by (auto simp: sorted_wrt_append)
qed

lemma first_key_le:
  assumes "sorted_events (concat bs)" and "i < length bs" and "e \<in> set (bs ! i)"
  shows "event_key (hd (bs ! i)) \<le> event_key e"
proof -
  have c: "concat bs = concat (take i bs) @ bs ! i @ concat (drop (Suc i) bs)"
    using arg_cong [OF id_take_nth_drop [OF assms(2)], of concat] by simp
  have "sorted_events (bs ! i)" using assms(1) unfolding c by (simp add: sorted_wrt_append)
  then show ?thesis using assms(3) by (cases "bs ! i") auto
qed

lemma sorted_index_from:
  assumes "sorted_events (concat bs)" and "\<forall>b \<in> set bs. b \<noteq> []"
  shows "sorted_index (index_from off bs)"
  unfolding sorted_wrt_iff_nth_less
proof (intro allI impI)
  fix i j assume "i < j" "j < length (map ie_first_key (index_from off bs))"
  then show "map ie_first_key (index_from off bs) ! i < map ie_first_key (index_from off bs) ! j"
    using concat_before [OF assms(1), of i j "hd (bs ! i)"] assms(2) by (simp add: index_from_nth)
qed

lemma concat_filter_selected:
  assumes "\<And>i. i < length bs \<Longrightarrow> \<not> Q i \<Longrightarrow> filter P (bs ! i) = []"
  shows "concat (map (\<lambda>i. filter P (bs ! i)) (filter Q [0..<length bs])) = filter P (concat bs)"
proof -
  have "concat (map (\<lambda>i. filter P (bs ! i)) (filter Q is)) = concat (map (\<lambda>i. filter P (bs ! i)) is)"
    if "\<forall>i \<in> set is. i < length bs" for "is"
    using that by (induction "is") (auto simp: assms)
  moreover have "map (\<lambda>i. filter P (bs ! i)) [0..<length bs] = map (filter P) bs"
    by (rule nth_equalityI) simp_all
  ultimately show ?thesis by (simp add: filter_concat)
qed

lemma sst_scan_spec:
  assumes rb: "reader_blocks r bs" and src: "reader_source r bs src" and io: "io_ok src io"
  shows "\<exists>io'. sst_scan r lo hi cb s io = (Inr (), snd (run_cb cb (filter (in_range lo hi) (concat bs)) s), io') \<and>
    io_ok src io'"
proof (cases "sst_may_contain r lo hi")
  case False
  have "filter (in_range lo hi) (concat bs) = []"
    using False rb unfolding filter_empty_conv
    by (force simp: sst_may_contain_def reader_blocks_def in_range_def Let_def split: if_splits)
  then show ?thesis using False io by (simp add: sst_scan_def)
next
  case True
  have wf: "sorted_events (concat bs)" "\<forall>b \<in> set bs. b \<noteq> []" "sr_index r = index_from 0 bs"
    using rb unfolding reader_blocks_def by blast+
  let ?Q = "\<lambda>i. ie_first_key (index_from 0 bs ! i) \<le> hi \<and>
    (Suc i = length (index_from 0 bs) \<or> lo < ie_first_key (index_from 0 bs ! Suc i))"
  have bl: "blocks_in_range (sr_index r) lo hi = filter ?Q [0..<length bs]"
    using blocks_in_range_eq [OF sorted_index_from [OF wf(1,2), of 0], of lo hi] by (simp add: wf(3))
  have "filter (in_range lo hi) (bs ! i) = []" if i: "i < length bs" and nq: "\<not> ?Q i" for i
  proof -
    consider "hi < event_key (hd (bs ! i))" | "Suc i < length bs" "event_key (hd (bs ! Suc i)) \<le> lo"
      using nq i by (force simp: index_from_nth not_le not_less)
    then show ?thesis
    proof cases
      case 1
      then show ?thesis using first_key_le [OF wf(1) i] by (force simp: filter_empty_conv in_range_def)
    next
      case 2
      then have "bs ! Suc i \<noteq> []" using wf(2) by simp
      then show ?thesis using concat_before [OF wf(1) lessI 2(1)] 2(2)
        by (force simp: filter_empty_conv in_range_def)
    qed
  qed
  then have c: "concat (map (\<lambda>i. filter (in_range lo hi) (bs ! i)) (filter ?Q [0..<length bs])) = filter (in_range lo hi) (concat bs)"
    by (rule concat_filter_selected)
  have "\<forall>i \<in> set (filter ?Q [0..<length bs]). i < length bs" by simp
  from sst_scan_blocks_spec [OF rb src io this, of lo hi cb s]
  show ?thesis by (simp only: sst_scan_def True bl c not_True_eq_False if_False)
qed

section \<open>Looking up a key\<close>

lemma run_cb_first: "snd (run_cb (\<lambda>e _. (False, Some e)) xs None) = (case xs of [] \<Rightarrow> None | e # _ \<Rightarrow> Some e)"
  by (cases xs) simp_all

lemma filter_point: "(case filter (in_range k k) es of [] \<Rightarrow> None | e # _ \<Rightarrow> Some e) = find (\<lambda>e. event_key e = k) es"
proof -
  have "in_range k k = (\<lambda>e. event_key e = k)" by (auto simp: in_range_def fun_eq_iff)
  then show ?thesis by (induction es) auto
qed

lemma sst_get_spec:
  assumes rb: "reader_blocks r bs" and src: "reader_source r bs src" and io: "io_ok src io"
  shows "\<exists>io'. sst_get r k io = (Inr (find (\<lambda>e. event_key e = k) (concat bs)), io') \<and> io_ok src io'"
proof (cases "bf_m (sr_filter r) \<noteq> 0 \<and> \<not> bloom_may_contain (sr_filter r) (key_encode k)")
  case True
  have "find (\<lambda>e. event_key e = k) (concat bs) = None"
    using True rb unfolding find_None_iff reader_blocks_def by blast
  then show ?thesis using True io by (simp add: sst_get_def)
next
  case False
  obtain io' where "sst_scan r k k (\<lambda>e _. (False, Some e)) None io =
      (Inr (), snd (run_cb (\<lambda>e _. (False, Some e)) (filter (in_range k k) (concat bs)) None), io')" "io_ok src io'"
    using sst_scan_spec [OF rb src io, where lo = k and hi = k and cb = "\<lambda>e _. (False, Some e)" and s = None] by blast
  then show ?thesis unfolding sst_get_def if_not_P [OF False] by (simp add: run_cb_first filter_point)
qed

text \<open>The blocks of a reader as a source for the cache: their offsets are distinct.\<close>

definition blocks_source :: "string \<Rightarrow> event list list \<Rightarrow> cache_key \<Rightarrow> bytes option" where
  "blocks_source path bs =
     map_of (map (\<lambda>i. ((path, block_offset bs i), enc_block (bs ! i))) [0..<length bs])"

lemma block_offset_less:
  assumes "reader_blocks r bs" and "i < j" and "j < length bs"
  shows "block_offset bs i \<noteq> block_offset bs j"
proof -
  obtain rest where f: "sr_file r = blocks_bytes bs @ rest" "length (sr_file r) < 2 ^ 63"
      and ne: "bs ! i \<noteq> []"
    using assms unfolding reader_blocks_def by (metis less_trans nth_mem)
  have "take j bs = take i bs @ bs ! i # drop (Suc i) (take j bs)"
    using id_take_nth_drop [of i "take j bs"] assms(2,3) by (simp add: min_absorb1)
  then have "length (blocks_bytes (take j bs))
      = length (blocks_bytes (take i bs @ bs ! i # drop (Suc i) (take j bs)))" by (simp only:)
  then have "length (blocks_bytes (take i bs)) < length (blocks_bytes (take j bs))"
    using ne by (simp add: length_enc_block encoded_block_size_def)
  moreover have "length (blocks_bytes (take k bs)) < 2 ^ 63" for k
  proof -
    have "blocks_bytes bs = blocks_bytes (take k bs) @ blocks_bytes (drop k bs)"
      by (metis append_take_drop_id blocks_bytes_simps(3))
    then show ?thesis using f by simp
  qed
  ultimately show ?thesis unfolding block_offset_def by (metis unat_len less_irrefl)
qed

lemma reader_source_self:
  assumes "reader_blocks r bs"
  shows "reader_source r bs (blocks_source (sr_path r) bs)"
proof -
  have "inj_on (\<lambda>i. (sr_path r, block_offset bs i)) {0..<length bs}"
    using block_offset_less [OF assms] by (auto simp: inj_on_def) (metis linorder_neqE_nat)
  then have "distinct (map fst (map (\<lambda>i. ((sr_path r, block_offset bs i), enc_block (bs ! i))) [0..<length bs]))"
    by (simp add: distinct_map comp_def)
  then show ?thesis unfolding reader_source_def blocks_source_def
    by (intro allI impI map_of_is_SomeI) auto
qed

section \<open>Writing a table and reading it back\<close>

text \<open>
  What a flush and a compaction do with the writer: construct it, add the events, finish.
  When a step throws, the writer is destroyed on the way out.
\<close>

definition write_table ::
  "os \<Rightarrow> (u32 \<Rightarrow> bloom) \<Rightarrow> string \<Rightarrow> u32 \<Rightarrow> u64 \<Rightarrow> nat \<Rightarrow> u32 \<Rightarrow> event list \<Rightarrow> dir \<Rightarrow> (exn + sst_info) \<times> dir" where
  "write_table os new_filter path level sequence target expected es d =
     (let (r, w) = and_then (sst_writer_new os new_filter path level sequence target expected d)
                     (\<lambda>_ w1. and_then (sst_add_all os es w1) (\<lambda>_ w2. sst_finish os w2))
      in (r, sw_dir (sst_writer_drop w)))"

lemma length_blocks_le:
  "list_all (block_ok t) bs \<Longrightarrow> length (blocks_bytes bs) \<le> 113 * length (concat bs) \<and> length bs \<le> length (concat bs)"
proof (induction bs)
  case (Cons b bs)
  then have b: "1 \<le> length b" "length (enc_block b) = 48 + 65 * length b"
    by (auto simp: block_ok_def length_enc_block encoded_block_size_def Suc_le_eq)
  have "length (blocks_bytes bs) \<le> 113 * length (concat bs) \<and> length bs \<le> length (concat bs)" using Cons by simp
  then show ?case using b by (simp del: length_concat)
qed simp

lemma fold_bloom_m [simp]: "bf_m (fold bloom_add ks f) = bf_m f"
  by (induction ks arbitrary: f) auto

lemma length_table_bytes:
  assumes "bloom_wf flt" and "list_all (block_ok t) bs" and "length (concat bs) < 2 ^ 32"
  shows "length (table_bytes flt meta bs) < 2 ^ 63"
proof -
  have f: "length (bloom_encode flt) \<le> 8 + 2 ^ 29"
    using assms(1) by (simp add: bloom_encode_def bloom_wf_def) linarith
  have d: "length (blocks_bytes bs) \<le> 113 * 2 ^ 32" "length bs \<le> 2 ^ 32"
    using length_blocks_le [OF assms(2)] assms(3) by linarith+
  show ?thesis using f d by (simp add: table_bytes_def Let_def)
qed

definition table_reader :: "string \<Rightarrow> bloom \<Rightarrow> sst_meta \<Rightarrow> event list list \<Rightarrow> sst_reader" where
  "table_reader path flt meta bs =
     \<lparr>sr_path = path, sr_file = table_bytes flt meta bs,
      sr_info = \<lparr>si_path = path, si_meta = meta, si_file_size = word_of_nat (length (table_bytes flt meta bs))\<rparr>,
      sr_index = index_from 0 bs, sr_filter = flt\<rparr>"

lemma table_reader_blocks:
  assumes es: "sorted_events (concat bs)" "list_all event_wf (concat bs)" "length (concat bs) < 2 ^ 32"
    and bs: "list_all (block_ok t) bs" "t < 2 ^ 32" and f0: "bloom_wf f0"
  shows "reader_blocks (table_reader path (fold bloom_add (enc_keys (concat bs)) f0) (table_meta level sq bs) bs) bs"
proof -
  let ?f = "fold bloom_add (enc_keys (concat bs)) f0"
  have wf: "bloom_wf ?f" by (rule bloom_filter.fold_add_wf [OF f0])
  have "bloom_may_contain ?f (key_encode (event_key e))" if "e \<in> set (concat bs)" for e
    using that by (intro bloom_filter.no_false_negative [OF f0]) auto
  moreover have "sm_min_key (table_meta level sq bs) \<le> event_key e \<and> event_key e \<le> sm_max_key (table_meta level sq bs)"
    if "e \<in> set (concat bs)" for e
  proof -
    have ne: "concat bs \<noteq> []" using that by force
    have "event_key (hd (concat bs)) \<le> event_key e"
      using es(1) that by (cases "concat bs") auto
    moreover have "event_key e \<le> event_key (last (concat bs))"
      using sorted_last_max [OF es(1), of "event_key e"] that ne by (simp add: last_map del: concat_eq_Nil_conv)
    ultimately show ?thesis using ne by (simp add: table_meta_def del: concat_eq_Nil_conv)
  qed
  moreover have "\<forall>b \<in> set bs. b \<noteq> [] \<and> length (enc_block b) < 2 ^ 32"
    using bs by (auto simp: block_ok_def list_all_iff)
  ultimately show ?thesis
    unfolding reader_blocks_def table_reader_def sst_reader.simps sst_info.simps
    using es length_table_bytes [OF wf bs(1) es(3)]
    by (auto simp: table_bytes_def Let_def)
qed

lemma write_table_spec:
  assumes os: "os_progress os" and es: "sorted_events es" "list_all event_wf es" "length es < 2 ^ 32"
    and t: "target < 2 ^ 32" and f: "\<And>n. bloom_wf (new_filter n)"
  shows "\<exists>r bs. write_table os new_filter path level sq target expected es d = (Inr (sr_info r), AList.update path (sr_file r) d) \<and>
    load_footer_and_index path (sr_file r) = Inr r \<and> sr_path r = path \<and>
    si_meta (sr_info r) = table_meta level sq bs \<and> reader_blocks r bs \<and> concat bs = es"
proof -
  let ?n = "if expected > 0 then expected else 65536"
  define w0 where "w0 = \<lparr>sw_dir = AList.update path [] d, sw_path = path, sw_level = level, sw_sequence = sq, sw_fd = True,
               sw_offset = 0, sw_builder = block_builder_new target, sw_index = [], sw_filter = new_filter ?n,
               sw_event_count = 0, sw_min_key = default_key, sw_max_key = default_key, sw_has_any = False\<rparr>"
  have new: "sst_writer_new os new_filter path level sq target expected d = (Inr (), writer_at w0 [] [])"
    using os by (simp add: sst_writer_new_def os_progress_def writer_at_def w0_def block_builder_new_def)
  have w0: "target_bytes (sw_builder w0) = target" "sw_dir w0 = AList.update (sw_path w0) [] d" "sw_path w0 = path"
      "sw_level w0 = level" "sw_sequence w0 = sq" "sw_filter w0 = new_filter ?n"
    by (simp_all add: w0_def block_builder_new_def)
  obtain bs cur where add: "sst_add_all os es (writer_at w0 [] []) = (Inr (), writer_at w0 bs cur)"
      and c: "concat bs @ cur = es" "list_all (block_ok target) bs" "cur = [] \<or> block_ok target cur"
    using sst_add_all_writer [OF os w0(1), of "[]" "[]" es] by auto
  define bs' where "bs' = (if cur = [] then bs else bs @ [cur])"
  have bs': "concat bs' = es" "list_all (block_ok target) bs'" using c by (auto simp: bs'_def)
  define flt where "flt = fold bloom_add (enc_keys (concat bs')) (new_filter ?n)"
  define r where "r = table_reader path flt (table_meta level sq bs') bs'"
  obtain w where fin: "sst_finish os (writer_at w0 bs cur) = (Inr (sr_info r), w)"
      "sw_dir w = AList.update path (sr_file r) d" "\<not> sw_fd w"
    using sst_finish_writer [OF os w0(2), where cur = cur and bs = bs] unfolding w0(3-) bs'_def [symmetric] flt_def [symmetric]
    by (auto simp: r_def table_reader_def)
  have wf: "bloom_wf flt" unfolding flt_def by (rule bloom_filter.fold_add_wf [OF f])
  have l: "length bs' < 2 ^ 32" using length_blocks_le [OF bs'(2)] es(3) bs'(1) by simp
  have "load_footer_and_index path (sr_file r) = Inr r"
    using load_table [OF length_table_bytes [OF wf bs'(2), of "table_meta level sq bs'"] wf l, of path] es(3) bs'(1)
    by (simp add: r_def table_reader_def)
  moreover have "reader_blocks r bs'"
    unfolding r_def flt_def using table_reader_blocks [of bs' target "new_filter ?n" path level sq] es bs' t f by simp
  moreover have "write_table os new_filter path level sq target expected es d = (Inr (sr_info r), AList.update path (sr_file r) d)"
    using fin by (simp add: write_table_def new add sst_writer_drop_def)
  moreover have "sr_path r = path" "si_meta (sr_info r) = table_meta level sq bs'" by (simp_all add: r_def table_reader_def)
  ultimately show ?thesis using bs'(1) by blast
qed

section \<open>A failed write\<close>

text \<open>Every step of the writer leaves the other files, its path and its descriptor alone.\<close>

definition writer_frame :: "sst_writer \<Rightarrow> sst_writer \<Rightarrow> bool" where
  "writer_frame w w' \<longleftrightarrow> sw_path w' = sw_path w \<and> sw_fd w' = sw_fd w \<and>
     (\<forall>p. p \<noteq> sw_path w \<longrightarrow> map_of (sw_dir w') p = map_of (sw_dir w) p)"

lemma writer_frame_refl [simp]: "writer_frame w w"
  by (simp add: writer_frame_def)

lemma writer_frame_trans: "writer_frame w w' \<Longrightarrow> writer_frame w' w'' \<Longrightarrow> writer_frame w w''"
  by (simp add: writer_frame_def)

lemma writer_frame_fields [simp]:
  "writer_frame w (w'\<lparr>sw_index := i\<rparr>) = writer_frame w w'"
  "writer_frame w (w'\<lparr>sw_builder := b\<rparr>) = writer_frame w w'"
  "writer_frame w (w'\<lparr>sw_offset := off\<rparr>) = writer_frame w w'"
  by (simp_all add: writer_frame_def)

lemma write_bytes_frame: "writer_frame w (snd (write_bytes os data w))"
  by (auto simp: write_bytes_def writer_frame_def update_conv Let_def split: prod.splits sum.splits)

lemma and_then_frame:
  "writer_frame w (snd r) \<Longrightarrow> (\<And>a w'. r = (Inr a, w') \<Longrightarrow> writer_frame w (snd (f a w'))) \<Longrightarrow>
     writer_frame w (snd (and_then r f))"
  by (cases r; cases "fst r") (auto simp: and_then_def)

lemma flush_block_frame: "writer_frame w (snd (flush_block os w))"
proof (cases "block_empty (sw_builder w)")
  case False
  show ?thesis unfolding flush_block_def if_not_P [OF False] Let_def
    by (rule and_then_frame [OF write_bytes_frame]) (use write_bytes_frame [of w os] in \<open>auto, metis snd_conv\<close>)
qed (simp add: flush_block_def)

lemma sst_note_frame: "writer_frame w (sst_note e w)"
  by (simp add: sst_note_def Let_def writer_frame_def)

lemma sst_add_frame: "writer_frame w (snd (sst_add os e w))"
proof -
  have n: "writer_frame w (w'\<lparr>sw_builder := b\<rparr>)" if "writer_frame (sst_note e w) w'" for w' b
    using writer_frame_trans [OF sst_note_frame that] by simp
  show ?thesis
  proof (cases "block_add e (sw_builder (sst_note e w))")
    case (Pair ok b)
    let ?w1 = "(sst_note e w)\<lparr>sw_builder := b\<rparr>"
    have fl: "writer_frame w (snd (flush_block os ?w1))"
      by (rule writer_frame_trans [OF _ flush_block_frame]) (rule n, simp)
    show ?thesis
    proof (cases ok)
      case True
      then show ?thesis using Pair n [of "sst_note e w" b] by (simp add: sst_add_def Let_def)
    next
      case False
      have "writer_frame w (snd (and_then (flush_block os ?w1)
          (\<lambda>_ w2. (Inr (), w2\<lparr>sw_builder := snd (block_add e (sw_builder w2))\<rparr>))))"
        by (rule and_then_frame [OF fl]) (use fl in auto)
      then show ?thesis using False Pair by (simp add: sst_add_def Let_def)
    qed
  qed
qed

lemma sst_add_all_frame: "writer_frame w (snd (sst_add_all os es w))"
proof (induction es arbitrary: w)
  case (Cons e es)
  show ?case unfolding sst_add_all.simps
  proof (rule and_then_frame [OF sst_add_frame])
    fix a w' assume "sst_add os e w = (Inr a, w')"
    then have "writer_frame w w'" using sst_add_frame [of w os e] by simp
    then show "writer_frame w (snd (sst_add_all os es w'))" using Cons.IH by (rule writer_frame_trans)
  qed
qed simp

text \<open>When a chain of steps throws, only the writer's own file has changed.\<close>

definition throws_framed :: "sst_writer \<Rightarrow> (exn + 'a) \<times> sst_writer \<Rightarrow> bool" where
  "throws_framed w r \<longleftrightarrow> (case r of (Inl _, w') \<Rightarrow> writer_frame w w' | (Inr _, w') \<Rightarrow> True)"

lemma throws_framed_and_then:
  assumes "writer_frame w (snd r)" and "\<And>a w'. writer_frame w w' \<Longrightarrow> throws_framed w (f a w')"
  shows "throws_framed w (and_then r f)"
  using assms by (cases r; cases "fst r") (auto simp: throws_framed_def and_then_def)

lemma sst_finish_frame: "throws_framed w (sst_finish os w)"
  unfolding sst_finish_def Let_def
  by (intro throws_framed_and_then flush_block_frame writer_frame_trans [OF _ write_bytes_frame])
    (simp_all add: throws_framed_def)

lemma write_table_failed:
  assumes "write_table os new_filter path level sq target expected es d = (Inl ex, d')"
  shows "(if os_open os path then map_of d' path = None else d' = d) \<and>
    (\<forall>p. p \<noteq> path \<longrightarrow> map_of d' p = map_of d p)"
proof (cases "os_open os path")
  case False
  then show ?thesis using assms
    by (simp add: write_table_def sst_writer_new_def sst_writer_drop_def Let_def)
next
  case True
  obtain w0 where w0: "sst_writer_new os new_filter path level sq target expected d = (Inr (), w0)"
      "sw_path w0 = path" "sw_fd w0" "sw_dir w0 = AList.update path [] d"
    using True by (simp add: sst_writer_new_def Let_def)
  obtain r w where rw: "and_then (sst_add_all os es w0) (\<lambda>_ w2. sst_finish os w2) = (r, w)" by fastforce
  then have e: "r = Inl ex" "d' = sw_dir (sst_writer_drop w)" using assms w0(1) by (simp_all add: write_table_def)
  have "throws_framed w0 (and_then (sst_add_all os es w0) (\<lambda>_ w2. sst_finish os w2))"
  proof (rule throws_framed_and_then [OF sst_add_all_frame])
    fix w' assume "writer_frame w0 w'"
    then show "throws_framed w0 (sst_finish os w')"
      using sst_finish_frame [of w' os] writer_frame_trans by (auto simp: throws_framed_def split: prod.splits sum.splits)
  qed
  then have "writer_frame w0 w" using e(1) by (simp add: rw throws_framed_def)
  then have w: "sw_path w = path" "sw_fd w" "\<And>p. p \<noteq> path \<Longrightarrow> map_of (sw_dir w) p = map_of d p"
    using w0(2-4) by (simp_all add: writer_frame_def update_conv)
  then show ?thesis using True by (simp add: e(2) sst_writer_drop_def delete_conv)
qed

section \<open>The interface of a scan\<close>

text \<open>A table together with what its reads go through, and without what they leave behind.\<close>

definition table_scan ::
  "sst_reader \<times> read_io \<Rightarrow> key \<Rightarrow> key \<Rightarrow> (event \<Rightarrow> 's \<Rightarrow> bool \<times> 's) \<Rightarrow> 's \<Rightarrow> (exn + unit) \<times> 's" where
  "table_scan t lo hi cb s = (case sst_scan (fst t) lo hi cb s (snd t) of (r, s', _) \<Rightarrow> (r, s'))"

definition table_holds :: "sst_reader \<times> read_io \<Rightarrow> event list \<Rightarrow> bool" where
  "table_holds t es \<longleftrightarrow> (\<exists>bs src. reader_blocks (fst t) bs \<and> reader_source (fst t) bs src \<and> io_ok src (snd t) \<and> concat bs = es)"

interpretation table_scan: scan_source table_holds table_scan "\<lambda>s. (Inr (), s)"
proof (unfold_locales, goal_cases)
  case (1 t es)
  then show ?case by (auto simp: table_holds_def reader_blocks_def)
next
  case (2 t es lo hi cb s)
  then obtain bs src where "reader_blocks (fst t) bs" "reader_source (fst t) bs src" "io_ok src (snd t)" "concat bs = es"
    by (auto simp: table_holds_def)
  from sst_scan_spec [OF this(1-3), of lo hi cb s] this(4) show ?case by (auto simp: table_scan_def)
qed

section \<open>Properties\<close>

text \<open>The reads of a fresh process: an empty cache of some size, or none.\<close>

definition fresh_io :: "nat option \<Rightarrow> read_io" where
  "fresh_io budget = \<lparr>io_cache = map_option cache_new budget, io_cache_hits = 0, io_cache_lookups = 0\<rparr>"

lemma fresh_io_ok: "io_ok src (fresh_io budget)"
proof (cases budget)
  case (Some n)
  have "cache_view (cache_new n) = Map.empty" by (simp add: cache_view_def cache_abs_def cache_new_def)
  then show ?thesis using Some
    by (simp add: io_ok_def fresh_io_def block_cache.coherent_def cache_inv_new)
qed (simp add: io_ok_def fresh_io_def)

text \<open>C27: Writing ascending events to a table, on a kernel that may write in pieces, and
  opening the file gives a reader with the writer's information whose range scan runs the
  callback over exactly the events of the range; no other file changes.\<close>

theorem sst_roundtrip:
  assumes "os_progress os" and "sorted_events es" and "list_all event_wf es" and "length es < 2 ^ 32"
    and "target < 2 ^ 32" and "\<forall>n. bloom_wf (new_filter n)"
  shows "\<exists>info d' r. write_table os new_filter path level sq target expected es d = (Inr info, d') \<and>
    sst_reader_new os path d' = Inr r \<and> sr_info r = info \<and>
    sm_event_count (si_meta info) = word_of_nat (length es) \<and>
    (\<forall>p. p \<noteq> path \<longrightarrow> map_of d' p = map_of d p) \<and>
    (\<exists>io'. sst_scan r lo hi cb s (fresh_io budget) =
       (Inr (), snd (run_cb cb (filter (in_range lo hi) es) s), io'))"
proof -
  obtain r bs where w: "write_table os new_filter path level sq target expected es d = (Inr (sr_info r), AList.update path (sr_file r) d)"
      "load_footer_and_index path (sr_file r) = Inr r" "si_meta (sr_info r) = table_meta level sq bs"
      "reader_blocks r bs" "concat bs = es"
    using write_table_spec [OF assms(1-5), of new_filter path level sq expected d] assms(6) by auto
  have "sst_reader_new os path (AList.update path (sr_file r) d) = Inr r"
    using w(2) assms(1) by (simp add: sst_reader_new_def update_conv os_progress_def)
  moreover have "sm_event_count (si_meta (sr_info r)) = word_of_nat (length es)"
    unfolding w(3) by (simp add: table_meta_def w(5))
  moreover have "\<exists>io'. sst_scan r lo hi cb s (fresh_io budget) =
       (Inr (), snd (run_cb cb (filter (in_range lo hi) es) s), io')"
    using sst_scan_spec [OF w(4) reader_source_self [OF w(4)] fresh_io_ok, where lo = lo and hi = hi and cb = cb and s = s]
    unfolding w(5) by blast
  moreover have "\<forall>p. p \<noteq> path \<longrightarrow> map_of (AList.update path (sr_file r) d) p = map_of d p"
    by (simp add: update_conv)
  ultimately show ?thesis using w(1) by blast
qed

definition sample_filter :: "u32 \<Rightarrow> bloom" where
  "sample_filter n = bloom_new (\<lambda>_. 64) (\<lambda>_ _. 3) n"

lemma sample_filter_wf: "\<forall>n. bloom_wf (sample_filter n)"
  unfolding sample_filter_def by (intro allI bloom_wf_new) (simp add: bloom_new_def Let_def)

lemma os_ok_progress: "os_progress os_ok"
  by (simp add: os_progress_def os_ok_def)

lemma sst_roundtrip_witness:
  "\<exists>info d' r. write_table os_ok sample_filter ''t.sst'' 0 1 65536 2 [sample_event 10 1 Trade, sample_event 20 2 Quote] [] = (Inr info, d') \<and>
    sst_reader_new os_ok ''t.sst'' d' = Inr r \<and> sr_info r = info \<and>
    sm_event_count (si_meta info) = word_of_nat (length [sample_event 10 1 Trade, sample_event 20 2 Quote]) \<and>
    (\<forall>p. p \<noteq> ''t.sst'' \<longrightarrow> map_of d' p = map_of [] p) \<and>
    (\<exists>io'. sst_scan r default_key (event_key (sample_event 15 0 Trade)) (\<lambda>e s. (True, s @ [e])) [] (fresh_io (Some 1000)) =
       (Inr (), snd (run_cb (\<lambda>e s. (True, s @ [e]))
          (filter (in_range default_key (event_key (sample_event 15 0 Trade)))
             [sample_event 10 1 Trade, sample_event 20 2 Quote]) []), io'))"
  by (rule sst_roundtrip [OF os_ok_progress _ _ _ _ sample_filter_wf]) (simp_all add: key_less_iff)

text \<open>Several range scans and point lookups through one cache, each with its answer.\<close>

datatype table_read = Range key key | Point key

definition table_read_step ::
  "sst_reader \<Rightarrow> table_read \<Rightarrow> read_io \<Rightarrow> (exn + event list) \<times> read_io" where
  "table_read_step r q io =
     (case q of
        Range lo hi \<Rightarrow>
          (case sst_scan r lo hi (\<lambda>e s. (True, s @ [e])) [] io of
             (Inl ex, _, io') \<Rightarrow> (Inl ex, io') | (Inr _, s, io') \<Rightarrow> (Inr s, io'))
      | Point k \<Rightarrow>
          (case sst_get r k io of
             (Inl ex, io') \<Rightarrow> (Inl ex, io')
           | (Inr x, io') \<Rightarrow> (Inr (case x of None \<Rightarrow> [] | Some e \<Rightarrow> [e]), io')))"

fun table_reads :: "sst_reader \<Rightarrow> table_read list \<Rightarrow> read_io \<Rightarrow> (exn + event list) list" where
  "table_reads r [] io = []"
| "table_reads r (q # qs) io = (case table_read_step r q io of (a, io') \<Rightarrow> a # table_reads r qs io')"

fun read_answer :: "event list \<Rightarrow> table_read \<Rightarrow> event list" where
  "read_answer es (Range lo hi) = filter (in_range lo hi) es"
| "read_answer es (Point k) = filter (\<lambda>e. event_key e = k) es"

lemma find_filter_distinct:
  "sorted_events es \<Longrightarrow> (case find (\<lambda>e. event_key e = k) es of None \<Rightarrow> [] | Some e \<Rightarrow> [e]) = filter (\<lambda>e. event_key e = k) es"
proof (induction es)
  case (Cons e es)
  have "filter (\<lambda>e. event_key e = k) es = []" if "event_key e = k"
    using Cons.prems that by (auto simp: filter_empty_conv)
  then show ?case using Cons by auto
qed simp

lemma table_reads_spec:
  assumes rb: "reader_blocks r bs" and src: "reader_source r bs src"
  shows "io_ok src io \<Longrightarrow> table_reads r qs io = map (\<lambda>q. Inr (read_answer (concat bs) q)) qs"
proof (induction qs arbitrary: io)
  case (Cons q qs)
  have "sorted_events (concat bs)" using rb by (simp add: reader_blocks_def)
  note fp = find_filter_distinct [OF this]
  obtain io' where "table_read_step r q io = (Inr (read_answer (concat bs) q), io')" "io_ok src io'"
  proof (cases q)
    case (Range lo hi)
    then show ?thesis
      using that sst_scan_spec [OF rb src Cons.prems, where lo = lo and hi = hi and cb = "\<lambda>e s. (True, s @ [e])" and s = "[]"]
      by (auto simp: table_read_step_def run_cb_collect)
  next
    case (Point k)
    then show ?thesis using that sst_get_spec [OF rb src Cons.prems, of k] fp [of k]
      by (auto simp: table_read_step_def)
  qed
  then show ?case using Cons.IH by simp
qed simp

text \<open>C30: Any sequence of range scans and point lookups on a written table through one block
  cache of any size (or none) answers each of them with exactly the stored events it asks
  for: caching, eviction and the Bloom filter never change an answer.\<close>

theorem sst_reads_exact:
  assumes "os_progress os" and "sorted_events es" and "list_all event_wf es" and "length es < 2 ^ 32"
    and "target < 2 ^ 32" and "\<forall>n. bloom_wf (new_filter n)"
  shows "\<exists>info d' r. write_table os new_filter path level sq target expected es d = (Inr info, d') \<and>
    sst_reader_new os path d' = Inr r \<and>
    table_reads r qs (fresh_io budget) = map (\<lambda>q. Inr (read_answer es q)) qs"
proof -
  obtain r bs where w: "write_table os new_filter path level sq target expected es d = (Inr (sr_info r), AList.update path (sr_file r) d)"
      "load_footer_and_index path (sr_file r) = Inr r" "reader_blocks r bs" "concat bs = es"
    using write_table_spec [OF assms(1-5), of new_filter path level sq expected d] assms(6) by auto
  have "sst_reader_new os path (AList.update path (sr_file r) d) = Inr r"
    using w(2) assms(1) by (simp add: sst_reader_new_def update_conv os_progress_def)
  then show ?thesis
    using w(1) table_reads_spec [OF w(3) reader_source_self [OF w(3)] fresh_io_ok] unfolding w(4) by blast
qed

lemma sst_reads_exact_witness:
  "\<exists>info d' r. write_table os_ok sample_filter ''t.sst'' 0 1 65536 2 [sample_event 10 1 Trade, sample_event 20 2 Quote] [] = (Inr info, d') \<and>
    sst_reader_new os_ok ''t.sst'' d' = Inr r \<and>
    table_reads r [Point (event_key (sample_event 20 2 Quote)), Point default_key] (fresh_io (Some 150)) =
      map (\<lambda>q. Inr (read_answer [sample_event 10 1 Trade, sample_event 20 2 Quote] q))
        [Point (event_key (sample_event 20 2 Quote)), Point default_key]"
  by (rule sst_reads_exact [OF os_ok_progress _ _ _ _ sample_filter_wf]) (simp_all add: key_less_iff)

text \<open>When writing a table fails at any point, the partial file is gone and no other file
  has changed.\<close>

theorem sst_failed_write_removed:
  assumes "write_table os new_filter path level sq target expected es d = (Inl ex, d')"
  shows "(if os_open os path then map_of d' path = None else d' = d) \<and>
    (\<forall>p. p \<noteq> path \<longrightarrow> map_of d' p = map_of d p)"
  by (rule write_table_failed [OF assms])

lemma sst_failed_write_removed_witness:
  "let os = \<lparr>os_open = (\<lambda>_. True), os_write = (\<lambda>n. -1)\<rparr>; d = [(''other'', [1])] in
   (if os_open os ''t.sst'' then map_of (snd (write_table os sample_filter ''t.sst'' 0 1 65536 2 [] d)) ''t.sst'' = None
    else snd (write_table os sample_filter ''t.sst'' 0 1 65536 2 [] d) = d) \<and>
    (\<forall>p. p \<noteq> ''t.sst'' \<longrightarrow> map_of (snd (write_table os sample_filter ''t.sst'' 0 1 65536 2 [] d)) p = map_of d p)"
proof -
  let ?os = "\<lparr>os_open = (\<lambda>_. True), os_write = (\<lambda>n. -1)\<rparr>" and ?d = "[(''other'', [1])]"
  obtain w0 where w0: "sst_writer_new ?os sample_filter ''t.sst'' 0 1 65536 2 ?d = (Inr (), w0)"
      "sw_builder w0 = block_builder_new 65536"
    by (simp add: sst_writer_new_def Let_def)
  have wl: "write_loop ?os x y = (Inl (Runtime_error ''SSTable write error''), y)" if "x \<noteq> []" for x y
    using that by (subst write_loop.simps) simp
  have ne: "bloom_encode f \<noteq> []" for f by (simp add: bloom_encode_def write_u32_def)
  have "\<exists>w. sst_finish ?os w0 = (Inl (Runtime_error ''SSTable write error''), w)"
    by (simp add: sst_finish_def flush_block_def block_empty_def w0(2) block_builder_new_def write_bytes_def wl ne Let_def)
  then have "fst (write_table ?os sample_filter ''t.sst'' 0 1 65536 2 [] ?d) = Inl (Runtime_error ''SSTable write error'')"
    by (auto simp: write_table_def w0(1))
  then have "write_table ?os sample_filter ''t.sst'' 0 1 65536 2 [] ?d =
      (Inl (Runtime_error ''SSTable write error''), snd (write_table ?os sample_filter ''t.sst'' 0 1 65536 2 [] ?d))"
    by (metis prod.collapse)
  from sst_failed_write_removed [OF this] show ?thesis unfolding Let_def .
qed

end
