(* ===== verification/TableFiles.thy ===== *)
theory TableFiles
  imports SSTable
begin

text \<open>
  Tables as files of a directory: what it means that a directory holds a readable table
  with given information and events, that writing a table produces one, that operations on
  other files keep it, and how the block cache stays coherent with all tables ever written.
\<close>

section \<open>A table on disk\<close>

definition table_on :: "dir \<Rightarrow> sst_reader \<Rightarrow> event list list \<Rightarrow> bool" where
  "table_on d r bs \<longleftrightarrow> map_of d (sr_path r) = Some (sr_file r) \<and>
     load_footer_and_index (sr_path r) (sr_file r) = Inr r \<and>
     si_path (sr_info r) = sr_path r \<and> reader_blocks r bs"

lemma table_on_frame:
  "table_on d r bs \<Longrightarrow> map_of d' (sr_path r) = map_of d (sr_path r) \<Longrightarrow> table_on d' r bs"
  by (simp add: table_on_def)

lemma table_on_open:
  assumes "table_on d r bs" and "os_open os (sr_path r)"
  shows "sst_reader_new os (si_path (sr_info r)) d = Inr r"
  using assms by (simp add: table_on_def sst_reader_new_def)

lemma table_on_sorted: "table_on d r bs \<Longrightarrow> sorted_events (concat bs) \<and> list_all event_wf (concat bs)"
  by (simp add: table_on_def reader_blocks_def)

lemma load_footer_path: "load_footer_and_index path f = Inr r \<Longrightarrow> sr_path r = path \<and> si_path (sr_info r) = path"
  by (auto simp: load_footer_and_index_def bind_sum_def Let_def split: sum.splits if_splits)

lemma write_table_on:
  assumes "os_progress os" and "sorted_events es" and "list_all event_wf es" and "length es < 2 ^ 32"
    and "target < 2 ^ 32" and "\<And>n. bloom_wf (new_filter n)"
  shows "\<exists>r bs. write_table os new_filter path level sq target expected es d =
      (Inr (sr_info r), AList.update path (sr_file r) d) \<and>
    table_on (AList.update path (sr_file r) d) r bs \<and> sr_path r = path \<and> concat bs = es \<and>
    si_meta (sr_info r) = table_meta level sq bs"
proof -
  obtain r bs where w: "write_table os new_filter path level sq target expected es d =
        (Inr (sr_info r), AList.update path (sr_file r) d)"
      "load_footer_and_index path (sr_file r) = Inr r" "sr_path r = path"
      "si_meta (sr_info r) = table_meta level sq bs" "reader_blocks r bs" "concat bs = es"
    using write_table_spec [OF assms(1-5), of new_filter path level sq expected d] assms(6) by auto
  then show ?thesis using load_footer_path [OF w(2)]
    by (intro exI [of _ r] exI [of _ bs]) (simp add: table_on_def update_conv)
qed

text \<open>The key range of a table's information encloses its events.\<close>

lemma table_on_range:
  "table_on d r bs \<Longrightarrow> e \<in> set (concat bs) \<Longrightarrow>
     sm_min_key (si_meta (sr_info r)) \<le> event_key e \<and> event_key e \<le> sm_max_key (si_meta (sr_info r))"
  unfolding table_on_def reader_blocks_def by blast

section \<open>Scanning through a shared cache\<close>

text \<open>
  The tables that were ever read or written, by path. A cache is backed by them when it
  agrees with every assignment of blocks to paths and offsets that agrees with them.
\<close>

type_synonym history = "(sst_reader \<times> event list list) list"

definition source_of :: "history \<Rightarrow> (cache_key \<Rightarrow> bytes option) \<Rightarrow> bool" where
  "source_of h src \<longleftrightarrow> (\<forall>(r, bs) \<in> set h. reader_source r bs src)"

definition history_ok :: "history \<Rightarrow> bool" where
  "history_ok h \<longleftrightarrow> distinct (map (sr_path \<circ> fst) h) \<and> (\<forall>(r, bs) \<in> set h. reader_blocks r bs)"

definition io_backed :: "history \<Rightarrow> read_io \<Rightarrow> bool" where
  "io_backed h io \<longleftrightarrow> (\<forall>src. source_of h src \<longrightarrow> io_ok src io)"

lemma source_of_simps [simp]:
  "source_of [] src" "source_of (rb # h) src \<longleftrightarrow> reader_source (fst rb) (snd rb) src \<and> source_of h src"
  "source_of (h @ h') src \<longleftrightarrow> source_of h src \<and> source_of h' src"
  by (auto simp: source_of_def)

lemma history_ok_snoc [simp]:
  "history_ok (h @ [rb]) \<longleftrightarrow> history_ok h \<and> reader_blocks (fst rb) (snd rb) \<and> sr_path (fst rb) \<notin> (sr_path \<circ> fst) ` set h"
  by (cases rb) (auto simp: history_ok_def)

lemma reader_source_update:
  assumes "\<And>k. fst k = sr_path r \<Longrightarrow> src' k = src k"
  shows "reader_source r bs src' = reader_source r bs src"
  using assms by (simp add: reader_source_def)

lemma history_source: "history_ok h \<Longrightarrow> \<exists>src. source_of h src"
proof (induction h)
  case Nil
  show ?case by (rule exI [of _ Map.empty]) simp
next
  case (Cons rb h)
  obtain r bs where rb: "rb = (r, bs)" by (cases rb)
  have h: "history_ok h" "reader_blocks r bs" "\<forall>(r', bs') \<in> set h. sr_path r' \<noteq> sr_path r"
    using Cons.prems by (force simp: history_ok_def rb)+
  obtain src where src: "source_of h src" using Cons.IH [OF h(1)] by blast
  let ?src = "\<lambda>k. if fst k = sr_path r then blocks_source (sr_path r) bs k else src k"
  have "reader_source r bs ?src"
    using reader_source_self [OF h(2)] by (simp add: reader_source_def)
  moreover have "source_of h ?src"
    unfolding source_of_def
  proof (intro ballI, clarify)
    fix r' bs' assume m: "(r', bs') \<in> set h"
    then have "sr_path r' \<noteq> sr_path r" using h(3) by auto
    then have "reader_source r' bs' ?src = reader_source r' bs' src" by (intro reader_source_update) auto
    then show "reader_source r' bs' ?src" using src m by (auto simp: source_of_def)
  qed
  ultimately show ?case by (auto simp: rb)
qed

lemma fresh_io_backed [simp]: "io_backed h (fresh_io budget)"
  by (simp add: io_backed_def fresh_io_ok)

lemma io_backed_mono: "io_backed h io \<Longrightarrow> io_backed (h @ h') io"
  by (simp add: io_backed_def)

lemma scan_backed:
  assumes h: "history_ok h" "(r, bs) \<in> set h" and io: "io_backed h io"
  shows "\<exists>io'. sst_scan r lo hi cb s io = (Inr (), snd (run_cb cb (filter (in_range lo hi) (concat bs)) s), io') \<and>
    io_backed h io'"
proof -
  have rb: "reader_blocks r bs" using h by (auto simp: history_ok_def)
  have each: "\<exists>io'. sst_scan r lo hi cb s io = (Inr (), snd (run_cb cb (filter (in_range lo hi) (concat bs)) s), io') \<and> io_ok src io'"
    if "source_of h src" for src
    using that h(2) io by (intro sst_scan_spec [OF rb]) (auto simp: source_of_def io_backed_def)
  obtain src0 where "source_of h src0" using history_source [OF h(1)] by blast
  from each [OF this] obtain io' where io': "sst_scan r lo hi cb s io = (Inr (), snd (run_cb cb (filter (in_range lo hi) (concat bs)) s), io')"
    by blast
  have "io_backed h io'" unfolding io_backed_def using each io' by auto
  then show ?thesis using io' by blast
qed

end
