(* ===== verification/Compaction.thy ===== *)
theory Compaction
  imports TableFiles Complex_Main "HOL-Library.Product_Lexorder"
begin

text \<open>
  Compaction (db/compaction.hpp, db/compaction.cpp): all events of the input tables are
  loaded, sorted by key with the newest table first, deduplicated, freed of tombstones when
  the target is the bottom level, and written to output tables that rotate at a size.
\<close>

definition kL0CompactionTrigger :: nat where
  "kL0CompactionTrigger = 8"

definition kL1SizeTarget :: nat where
  "kL1SizeTarget = 256 * 1024 * 1024"

definition kMaxLevels :: nat where
  "kMaxLevels = 4"

record compaction_stats =
  cs_input_files :: nat
  cs_output_files :: nat
  cs_input_bytes :: u64
  cs_output_bytes :: u64
  cs_records_in :: nat
  cs_records_out :: nat

text \<open>An event and the sequence number of the table it comes from.\<close>

type_synonym tagged = "event \<times> u64"

definition min_key :: key where
  "min_key = \<lparr>key_symbol_id = 0, key_timestamp_ns = 0, key_sequence_id = 0\<rparr>"

definition max_key :: key where
  "max_key = \<lparr>key_symbol_id = 0xFFFFFFFF, key_timestamp_ns = 0xFFFFFFFFFFFFFFFF, key_sequence_id = 0xFFFFFFFFFFFFFFFF\<rparr>"

section \<open>Loading, sorting, deduplicating\<close>

fun compaction_load :: "os \<Rightarrow> sst_info list \<Rightarrow> dir \<Rightarrow> tagged list \<Rightarrow> exn + tagged list" where
  "compaction_load os [] d all = Inr all"
| "compaction_load os (info # infos) d all =
     (case sst_reader_new os (si_path info) d of
        Inl ex \<Rightarrow> Inl ex
      | Inr r \<Rightarrow>
          (case sst_scan r min_key max_key (\<lambda>e s. (True, s @ [(e, sm_sequence (si_meta info))])) all (fresh_io None) of
             (Inl ex, _, _) \<Rightarrow> Inl ex
           | (Inr _, all', _) \<Rightarrow> compaction_load os infos d all'))"

text \<open>The comparator, and the sort key that stands for it.\<close>

definition tagged_less :: "tagged \<Rightarrow> tagged \<Rightarrow> bool" where
  "tagged_less a b =
     (if event_key (fst a) \<noteq> event_key (fst b) then event_key (fst a) < event_key (fst b)
      else snd a > snd b)"

definition tagged_rank :: "tagged \<Rightarrow> key \<times> nat" where
  "tagged_rank a = (event_key (fst a), 2 ^ 64 - 1 - unat (snd a))"

text \<open>\<^verbatim>\<open>std::stable_sort\<close>.\<close>

definition stable_sort :: "tagged list \<Rightarrow> tagged list" where
  "stable_sort all = sort_key tagged_rank all"

text \<open>The loop keeps an event whose key differs from that of its predecessor.\<close>

fun dedup_loop :: "key option \<Rightarrow> tagged list \<Rightarrow> tagged list" where
  "dedup_loop prev [] = []"
| "dedup_loop prev (a # as) =
     (if prev \<noteq> Some (event_key (fst a)) then a # dedup_loop (Some (event_key (fst a))) as
      else dedup_loop (Some (event_key (fst a))) as)"

definition gc_tombstones :: "u32 \<Rightarrow> tagged list \<Rightarrow> tagged list" where
  "gc_tombstones target_level all =
     (if unat target_level \<ge> kMaxLevels - 1 then filter (\<lambda>(e, _). event_type e \<noteq> Tombstone) all else all)"

definition merge_events :: "u32 \<Rightarrow> tagged list \<Rightarrow> event list" where
  "merge_events target_level all = map fst (gc_tombstones target_level (dedup_loop None (stable_sort all)))"

section \<open>Writing the outputs\<close>

record compaction_writer =
  cw_dir :: dir
  cw_writer :: "sst_writer option"
  cw_out_seq :: u64
  cw_records_out :: nat
  cw_outputs :: "sst_info list"

definition make_path :: "string \<Rightarrow> u32 \<Rightarrow> u64 \<Rightarrow> string" where
  "make_path out_dir target_level out_seq =
     out_dir @ ''/sst_'' @ decimal06 (unat target_level) @ ''_'' @ decimal06 (unat out_seq) @ ''.sst''"

definition rotate_now :: "nat \<Rightarrow> nat \<Rightarrow> bool" where
  "rotate_now target_file_bytes records_out \<longleftrightarrow>
     records_out mod 1000 = 0 \<and> target_file_bytes \<le> records_out * event_kEncodedSize * 105 div 100"

text \<open>
  One round of the loop. The directory is the writer's while a writer is open; when a step
  throws, the writer is destroyed and takes its file with it.
\<close>

definition compaction_write_step ::
  "os \<Rightarrow> (u32 \<Rightarrow> bloom) \<Rightarrow> string \<Rightarrow> u32 \<Rightarrow> nat \<Rightarrow> event \<Rightarrow> compaction_writer \<Rightarrow> (exn + unit) \<times> compaction_writer" where
  "compaction_write_step os new_filter out_dir level target e st =
     (let (r, w, st1) =
        (case cw_writer st of
           Some w \<Rightarrow> (Inr (), w, st)
         | None \<Rightarrow>
             (case sst_writer_new os new_filter (make_path out_dir level (cw_out_seq st)) level (cw_out_seq st)
                     (64 * 1024) 0 (cw_dir st) of
                (Inl ex, w) \<Rightarrow> (Inl ex, w, st)
              | (Inr _, w) \<Rightarrow> (Inr (), w, st\<lparr>cw_out_seq := cw_out_seq st + 1\<rparr>)))
      in case r of
           Inl ex \<Rightarrow> (Inl ex, st1)
         | Inr _ \<Rightarrow>
             (case sst_add os e w of
                (Inl ex, w1) \<Rightarrow> (Inl ex, st1\<lparr>cw_writer := None, cw_dir := sw_dir (sst_writer_drop w1)\<rparr>)
              | (Inr _, w1) \<Rightarrow>
                  let st2 = st1\<lparr>cw_records_out := cw_records_out st1 + 1\<rparr>
                  in if rotate_now target (cw_records_out st2)
                     then (case sst_finish os w1 of
                             (Inl ex, w2) \<Rightarrow> (Inl ex, st2\<lparr>cw_writer := None, cw_dir := sw_dir (sst_writer_drop w2)\<rparr>)
                           | (Inr info, w2) \<Rightarrow>
                               (Inr (), st2\<lparr>cw_writer := None, cw_dir := sw_dir w2,
                                           cw_outputs := cw_outputs st2 @ [info], cw_records_out := 0\<rparr>))
                     else (Inr (), st2\<lparr>cw_writer := Some w1\<rparr>)))"

primrec compaction_write_loop ::
  "os \<Rightarrow> (u32 \<Rightarrow> bloom) \<Rightarrow> string \<Rightarrow> u32 \<Rightarrow> nat \<Rightarrow> event list \<Rightarrow> compaction_writer \<Rightarrow> (exn + unit) \<times> compaction_writer" where
  "compaction_write_loop os nf out_dir level target [] st = (Inr (), st)"
| "compaction_write_loop os nf out_dir level target (e # es) st =
     and_then (compaction_write_step os nf out_dir level target e st)
       (\<lambda>_. compaction_write_loop os nf out_dir level target es)"

definition compaction_write_end :: "os \<Rightarrow> compaction_writer \<Rightarrow> (exn + sst_info list) \<times> dir" where
  "compaction_write_end os st =
     (case cw_writer st of
        None \<Rightarrow> (Inr (cw_outputs st), cw_dir st)
      | Some w \<Rightarrow>
          (case sst_finish os w of
             (Inl ex, w1) \<Rightarrow> (Inl ex, sw_dir (sst_writer_drop w1))
           | (Inr info, w1) \<Rightarrow> (Inr (cw_outputs st @ [info]), sw_dir w1)))"

definition compaction_write ::
  "os \<Rightarrow> (u32 \<Rightarrow> bloom) \<Rightarrow> string \<Rightarrow> u32 \<Rightarrow> nat \<Rightarrow> u64 \<Rightarrow> event list \<Rightarrow> dir \<Rightarrow> (exn + sst_info list) \<times> dir" where
  "compaction_write os nf out_dir level target sequence es d =
     (case compaction_write_loop os nf out_dir level target es
             \<lparr>cw_dir = d, cw_writer = None, cw_out_seq = sequence, cw_records_out = 0, cw_outputs = []\<rparr> of
        (Inl ex, st) \<Rightarrow> (Inl ex, cw_dir st)
      | (Inr _, st) \<Rightarrow> compaction_write_end os st)"

definition compaction_run ::
  "os \<Rightarrow> (u32 \<Rightarrow> bloom) \<Rightarrow> sst_info list \<Rightarrow> string \<Rightarrow> u32 \<Rightarrow> u64 \<Rightarrow> nat \<Rightarrow> dir
     \<Rightarrow> (exn + (sst_info list \<times> compaction_stats option)) \<times> dir" where
  "compaction_run os nf inputs out_dir level sequence target d =
     (if inputs = [] then (Inr ([], None), d)
      else case compaction_load os inputs d [] of
             Inl ex \<Rightarrow> (Inl ex, d)
           | Inr all \<Rightarrow>
               let es = merge_events level all
               in case compaction_write os nf out_dir level target sequence es d of
                    (Inl ex, d') \<Rightarrow> (Inl ex, d')
                  | (Inr outs, d') \<Rightarrow>
                      (Inr (outs, Some
                         \<lparr>cs_input_files = length inputs, cs_output_files = length outs,
                          cs_input_bytes = sum_list (map si_file_size inputs),
                          cs_output_bytes = sum_list (map si_file_size outs),
                          cs_records_in = length all, cs_records_out = length es\<rparr>), d'))"

section \<open>The score\<close>

text \<open>
  The target of level \<open>l\<close> in bytes, with the wrap-around of \<^verbatim>\<open>size_t\<close>, and the score as the
  exact quotient; the rounding of the division to a \<^verbatim>\<open>double\<close> is not modelled.
\<close>

primrec level_target :: "nat \<Rightarrow> u64" where
  "level_target 0 = word_of_nat kL1SizeTarget"
| "level_target (Suc l) = level_target l * 10"

definition compaction_score :: "int \<Rightarrow> u32 \<Rightarrow> u64 \<Rightarrow> rat" where
  "compaction_score level file_count size_bytes =
     (if level = 0 then of_nat (unat file_count) / of_nat kL0CompactionTrigger
      else of_nat (unat size_bytes) / of_nat (unat (level_target (nat (level - 1)))))"

section \<open>The merge\<close>

lemma seq_rank_less: "2 ^ 64 - 1 - unat (s :: u64) < 2 ^ 64 - 1 - unat (t :: u64) \<longleftrightarrow> t < s"
proof -
  have "unat s < 2 ^ LENGTH(64)" "unat t < 2 ^ LENGTH(64)" by (rule unsigned_less)+
  then show ?thesis by (simp add: word_less_nat_alt) arith
qed

lemma tagged_less_rank: "tagged_less a b \<longleftrightarrow> tagged_rank a < tagged_rank b"
  unfolding tagged_less_def tagged_rank_def less_prod_simp seq_rank_less by auto

abbreviation tkey :: "tagged \<Rightarrow> key" where
  "tkey a \<equiv> event_key (fst a)"

lemma rank_le_key: "tagged_rank a \<le> tagged_rank b \<Longrightarrow> tkey a \<le> tkey b"
  by (auto simp: tagged_rank_def)

lemma rank_le_seq: "tagged_rank a \<le> tagged_rank b \<Longrightarrow> tkey a = tkey b \<Longrightarrow> snd b \<le> snd a"
  using seq_rank_less [of "snd b" "snd a"] by (auto simp: tagged_rank_def not_less [symmetric])

text \<open>What the loop returns for a list \<open>as\<close> after the key \<open>prev\<close>.\<close>

definition dedup_of :: "key option \<Rightarrow> tagged list \<Rightarrow> tagged list \<Rightarrow> bool" where
  "dedup_of prev as ds \<longleftrightarrow>
     set ds \<subseteq> set as \<and> sorted_wrt (<) (map tkey ds) \<and>
     (\<forall>x \<in> set ds. \<forall>p \<in> set_option prev. p < tkey x) \<and>
     tkey ` set ds = tkey ` set as - set_option prev \<and>
     (\<forall>x \<in> set ds. \<forall>y \<in> set as. tkey y = tkey x \<longrightarrow> snd y \<le> snd x)"

lemma dedup_of_skip:
  assumes "dedup_of (Some (tkey a)) as ds"
  shows "dedup_of (Some (tkey a)) (a # as) ds"
  unfolding dedup_of_def
proof (intro conjI)
  have d: "set ds \<subseteq> set as" "sorted_wrt (<) (map tkey ds)" "\<forall>x \<in> set ds. tkey a < tkey x"
      "tkey ` set ds = tkey ` set as - {tkey a}" "\<forall>x \<in> set ds. \<forall>y \<in> set as. tkey y = tkey x \<longrightarrow> snd y \<le> snd x"
    using assms by (simp_all add: dedup_of_def)
  show "set ds \<subseteq> set (a # as)" "sorted_wrt (<) (map tkey ds)"
      "\<forall>x \<in> set ds. \<forall>p \<in> set_option (Some (tkey a)). p < tkey x"
      "tkey ` set ds = tkey ` set (a # as) - set_option (Some (tkey a))"
    using d(1-4) by auto
  show "\<forall>x \<in> set ds. \<forall>y \<in> set (a # as). tkey y = tkey x \<longrightarrow> snd y \<le> snd x"
    using d(3,5) by fastforce
qed

lemma dedup_of_keep:
  assumes D: "dedup_of (Some (tkey a)) as ds" and newest: "\<forall>y \<in> set as. tkey y = tkey a \<longrightarrow> snd y \<le> snd a"
    and pa: "\<forall>p \<in> set_option prev. p < tkey a" and ka: "\<forall>y \<in> set as. tkey a \<le> tkey y"
  shows "dedup_of prev (a # as) (a # ds)"
  unfolding dedup_of_def
proof (intro conjI)
  have d: "set ds \<subseteq> set as" "sorted_wrt (<) (map tkey ds)" "\<forall>x \<in> set ds. tkey a < tkey x"
      "tkey ` set ds = tkey ` set as - {tkey a}" "\<forall>x \<in> set ds. \<forall>y \<in> set as. tkey y = tkey x \<longrightarrow> snd y \<le> snd x"
    using D by (simp_all add: dedup_of_def)
  show "set (a # ds) \<subseteq> set (a # as)" using d(1) by auto
  show "sorted_wrt (<) (map tkey (a # ds))" using d(2,3) by simp
  show "\<forall>x \<in> set (a # ds). \<forall>p \<in> set_option prev. p < tkey x" using pa d(3) by (auto intro: less_trans)
  have "tkey ` set (a # ds) = tkey ` set (a # as)" using d(4) by auto
  moreover have "p \<notin> tkey ` set (a # as)" if "p \<in> set_option prev" for p
    using pa ka that by (fastforce dest: leD)
  ultimately show "tkey ` set (a # ds) = tkey ` set (a # as) - set_option prev" by blast
  show "\<forall>x \<in> set (a # ds). \<forall>y \<in> set (a # as). tkey y = tkey x \<longrightarrow> snd y \<le> snd x"
    using newest d(3,5) by fastforce
qed

lemma dedup_loop_spec:
  "sorted (map tagged_rank as) \<Longrightarrow> \<forall>p \<in> set_option prev. \<forall>x \<in> set as. p \<le> tkey x \<Longrightarrow>
     dedup_of prev as (dedup_loop prev as)"
proof (induction as arbitrary: prev)
  case Nil
  then show ?case by (simp add: dedup_of_def)
next
  case (Cons a as)
  have le: "\<forall>y \<in> set as. tagged_rank a \<le> tagged_rank y" and srt: "sorted (map tagged_rank as)"
    using Cons.prems(1) by auto
  have kle: "\<forall>y \<in> set as. tkey a \<le> tkey y" using le rank_le_key by blast
  have IH: "dedup_of (Some (tkey a)) as (dedup_loop (Some (tkey a)) as)"
    using Cons.IH [OF srt, of "Some (tkey a)"] kle by simp
  show ?case
  proof (cases "prev = Some (tkey a)")
    case True
    then show ?thesis using dedup_of_skip [OF IH] by simp
  next
    case False
    have "\<forall>p \<in> set_option prev. p < tkey a"
      using Cons.prems(2) False by (cases prev) (auto simp: le_less)
    moreover have "\<forall>y \<in> set as. tkey y = tkey a \<longrightarrow> snd y \<le> snd a"
      using le rank_le_seq by metis
    ultimately show ?thesis using dedup_of_keep [OF IH _ _ kle] False by simp
  qed
qed

lemma set_stable_sort [simp]: "set (stable_sort all) = set all"
  by (simp add: stable_sort_def)

lemma sorted_stable_sort: "sorted (map tagged_rank (stable_sort all))"
  by (simp add: stable_sort_def)

lemma dedup_sorted:
  "sorted_wrt (<) (map tkey (dedup_loop None (stable_sort all))) \<and>
   set (dedup_loop None (stable_sort all)) \<subseteq> set all \<and>
   tkey ` set (dedup_loop None (stable_sort all)) = tkey ` set all \<and>
   (\<forall>x \<in> set (dedup_loop None (stable_sort all)). \<forall>y \<in> set all. tkey y = tkey x \<longrightarrow> snd y \<le> snd x)"
  using dedup_loop_spec [OF sorted_stable_sort, of None all] by (simp add: dedup_of_def)

lemma sorted_wrt_filter_map: "sorted_wrt (<) (map f xs) \<Longrightarrow> sorted_wrt (<) (map f (filter P xs))"
  by (induction xs) auto

text \<open>The merged events, without reference to how they are computed.\<close>

definition newest :: "tagged list \<Rightarrow> event \<Rightarrow> bool" where
  "newest all e \<longleftrightarrow> (\<exists>s. (e, s) \<in> set all \<and> (\<forall>(e', s') \<in> set all. event_key e' = event_key e \<longrightarrow> s' \<le> s))"

definition bottom_level :: "u32 \<Rightarrow> bool" where
  "bottom_level level \<longleftrightarrow> 3 \<le> level"

lemma gc_tombstones_eq:
  "gc_tombstones level all = (if bottom_level level then filter (\<lambda>(e, _). event_type e \<noteq> Tombstone) all else all)"
  by (simp add: gc_tombstones_def bottom_level_def kMaxLevels_def word_le_nat_alt)

lemma merge_events_sorted: "sorted_events (merge_events level all)"
  using dedup_sorted [of all]
  by (auto simp: merge_events_def gc_tombstones_eq comp_def dest: sorted_wrt_filter_map)

lemma merge_events_newest: "e \<in> set (merge_events level all) \<Longrightarrow> newest all e"
proof -
  assume "e \<in> set (merge_events level all)"
  then obtain s where "(e, s) \<in> set (dedup_loop None (stable_sort all))"
    by (auto simp: merge_events_def gc_tombstones_eq split: if_splits)
  then show ?thesis using dedup_sorted [of all] unfolding newest_def by fastforce
qed

lemma merge_events_keys:
  assumes "(e, s) \<in> set all"
  shows "\<exists>e' s'. (e', s') \<in> set all \<and> event_key e' = event_key e \<and>
    (e' \<in> set (merge_events level all) \<or> bottom_level level \<and> event_type e' = Tombstone)"
proof -
  have "event_key e \<in> tkey ` set (dedup_loop None (stable_sort all))"
    using dedup_sorted [of all] assms by force
  then obtain e' s' where m: "(e', s') \<in> set (dedup_loop None (stable_sort all))" "event_key e' = event_key e" by auto
  then have "(e', s') \<in> set all" using dedup_sorted [of all] by blast
  moreover have "e' \<in> set (merge_events level all) \<or> bottom_level level \<and> event_type e' = Tombstone"
    using m(1) by (force simp: merge_events_def gc_tombstones_eq)
  ultimately show ?thesis using m(2) by blast
qed

lemma merge_events_no_tombstone:
  "bottom_level level \<Longrightarrow> e \<in> set (merge_events level all) \<Longrightarrow> event_type e \<noteq> Tombstone"
  by (auto simp: merge_events_def gc_tombstones_eq)


section \<open>The outputs\<close>

text \<open>
  How the loop cuts the events into output files, and the outputs as one complete table
  after the other: a description of the writing loop without its open writer.
\<close>

fun split_outputs :: "nat \<Rightarrow> event list \<Rightarrow> event list \<Rightarrow> event list list" where
  "split_outputs target acc [] = (if acc = [] then [] else [acc])"
| "split_outputs target acc (e # es) =
     (if rotate_now target (length acc + 1) then (acc @ [e]) # split_outputs target [] es
      else split_outputs target (acc @ [e]) es)"

fun write_outputs ::
  "os \<Rightarrow> (u32 \<Rightarrow> bloom) \<Rightarrow> string \<Rightarrow> u32 \<Rightarrow> u64 \<Rightarrow> event list list \<Rightarrow> sst_info list \<Rightarrow> dir \<Rightarrow> (exn + sst_info list) \<times> dir" where
  "write_outputs os nf out_dir level seq [] outs d = (Inr outs, d)"
| "write_outputs os nf out_dir level seq (c # cs) outs d =
     and_then (write_table os nf (make_path out_dir level seq) level seq (64 * 1024) 0 c d)
       (\<lambda>info. write_outputs os nf out_dir level (seq + 1) cs (outs @ [info]))"

lemma concat_split_outputs [simp]: "concat (split_outputs target acc es) = acc @ es"
  by (induction target acc es rule: split_outputs.induct) auto

lemma split_outputs_nonempty: "c \<in> set (split_outputs target acc es) \<Longrightarrow> c \<noteq> []"
  by (induction target acc es rule: split_outputs.induct) (auto split: if_splits)

lemma split_outputs_first: "\<exists>c cs. split_outputs target acc (e # es) = (acc @ e # c) # cs"
proof (induction es arbitrary: acc e)
  case (Cons e' es)
  show ?case using Cons.IH [of "acc @ [e]" e'] by (auto simp: split_outputs.simps(2) [of target acc e])
qed auto

lemma sst_add_all_append: "sst_add_all os (xs @ ys) w = and_then (sst_add_all os xs w) (\<lambda>_. sst_add_all os ys)"
proof (induction xs arbitrary: w)
  case (Cons x xs)
  show ?case by (cases "sst_add os x w"; cases "fst (sst_add os x w)") (auto simp: Cons.IH)
qed simp

lemma and_then_dest: "and_then r f = (x, w) \<Longrightarrow> (\<exists>ex. r = (Inl ex, w) \<and> x = Inl ex) \<or> (\<exists>a w'. r = (Inr a, w') \<and> f a w' = (x, w))"
  by (cases r; cases "fst r") auto

lemma sst_finish_closed: "sst_finish os w = (Inr info, w') \<Longrightarrow> \<not> sw_fd w'"
  unfolding sst_finish_def Let_def by (auto dest!: and_then_dest)

text \<open>The rest of the writing from a state of the loop.\<close>

definition finish_writes ::
  "os \<Rightarrow> (u32 \<Rightarrow> bloom) \<Rightarrow> string \<Rightarrow> u32 \<Rightarrow> nat \<Rightarrow> event list \<Rightarrow> compaction_writer \<Rightarrow> (exn + sst_info list) \<times> dir" where
  "finish_writes os nf out_dir level target es st =
     (case compaction_write_loop os nf out_dir level target es st of
        (Inl ex, st) \<Rightarrow> (Inl ex, cw_dir st)
      | (Inr _, st) \<Rightarrow> compaction_write_end os st)"

text \<open>A state with an open writer that has taken \<open>acc\<close>.\<close>

definition writing :: "os \<Rightarrow> (u32 \<Rightarrow> bloom) \<Rightarrow> string \<Rightarrow> u32 \<Rightarrow> u64 \<Rightarrow> event list \<Rightarrow> dir \<Rightarrow> compaction_writer \<Rightarrow> bool" where
  "writing os nf out_dir level seq acc d st \<longleftrightarrow>
     (\<exists>w0 w. sst_writer_new os nf (make_path out_dir level seq) level seq (64 * 1024) 0 d = (Inr (), w0) \<and>
       sst_add_all os acc w0 = (Inr (), w) \<and> cw_writer st = Some w \<and> cw_out_seq st = seq + 1 \<and>
       cw_records_out st = length acc)"

lemma write_table_alt:
  assumes "sst_writer_new os nf path level seq t 0 d = (Inr (), w0)"
  shows "write_table os nf path level seq t 0 es d =
    (case sst_add_all os es w0 of
       (Inl ex, w) \<Rightarrow> (Inl ex, sw_dir (sst_writer_drop w))
     | (Inr _, w) \<Rightarrow> (case sst_finish os w of (r, w') \<Rightarrow> (r, sw_dir (sst_writer_drop w'))))"
  by (auto simp: write_table_def assms split: prod.splits sum.splits)

lemma sst_writer_drop_closed [simp]: "\<not> sw_fd w \<Longrightarrow> sst_writer_drop w = w"
  by (simp add: sst_writer_drop_def)

text \<open>Adding one event to an open writer, followed by anything.\<close>

lemma write_step_add:
  assumes IHn: "\<And>st'. cw_writer st' = None \<Longrightarrow> cw_records_out st' = 0 \<Longrightarrow>
      finish_writes os nf out_dir level target es st' =
        write_outputs os nf out_dir level (cw_out_seq st') (split_outputs target [] es) (cw_outputs st') (cw_dir st')"
    and IHw: "\<And>st'. writing os nf out_dir level seq (acc @ [e]) d st' \<Longrightarrow>
      finish_writes os nf out_dir level target es st' =
        write_outputs os nf out_dir level seq (split_outputs target (acc @ [e]) es) (cw_outputs st') d"
    and new: "sst_writer_new os nf (make_path out_dir level seq) level seq (64 * 1024) 0 d = (Inr (), w0)"
    and add: "sst_add_all os acc w0 = (Inr (), w)"
    and st1: "cw_out_seq st1 = seq + 1" "cw_records_out st1 = length acc"
    and step: "compaction_write_step os nf out_dir level target e st =
        (case sst_add os e w of
                (Inl ex, w1) \<Rightarrow> (Inl ex, st1\<lparr>cw_writer := None, cw_dir := sw_dir (sst_writer_drop w1)\<rparr>)
              | (Inr _, w1) \<Rightarrow>
                  let st2 = st1\<lparr>cw_records_out := cw_records_out st1 + 1\<rparr>
                  in if rotate_now target (cw_records_out st2)
                     then (case sst_finish os w1 of
                             (Inl ex, w2) \<Rightarrow> (Inl ex, st2\<lparr>cw_writer := None, cw_dir := sw_dir (sst_writer_drop w2)\<rparr>)
                           | (Inr info, w2) \<Rightarrow>
                               (Inr (), st2\<lparr>cw_writer := None, cw_dir := sw_dir w2,
                                           cw_outputs := cw_outputs st2 @ [info], cw_records_out := 0\<rparr>))
                     else (Inr (), st2\<lparr>cw_writer := Some w1\<rparr>))"
  shows "finish_writes os nf out_dir level target (e # es) st =
    write_outputs os nf out_dir level seq (split_outputs target acc (e # es)) (cw_outputs st1) d"
proof (cases "sst_add os e w")
  case (Pair r w1)
  have wt: "write_table os nf (make_path out_dir level seq) level seq 65536 0 es' d =
      (case sst_add_all os es' w0 of
         (Inl ex, w) \<Rightarrow> (Inl ex, sw_dir (sst_writer_drop w))
       | (Inr _, w) \<Rightarrow> (case sst_finish os w of (r, w') \<Rightarrow> (r, sw_dir (sst_writer_drop w'))))" for es'
    using write_table_alt [OF new] by simp
  have add': "sst_add_all os (acc @ e # c) w0 = (case r of Inl ex \<Rightarrow> (Inl ex, w1) | Inr _ \<Rightarrow> sst_add_all os c w1)" for c
    by (cases r) (simp_all add: sst_add_all_append add Pair)
  show ?thesis
  proof (cases r)
    case (Inl ex)
    obtain c cs where "split_outputs target acc (e # es) = (acc @ e # c) # cs" using split_outputs_first by blast
    then show ?thesis using Inl add' [of c]
      by (simp add: finish_writes_def step Pair wt)
  next
    case (Inr u)
    have add1: "sst_add_all os (acc @ [e]) w0 = (Inr (), w1)" using add' [of "[]"] Inr by simp
    show ?thesis
    proof (cases "rotate_now target (length acc + 1)")
      case False
      let ?st = "st1\<lparr>cw_records_out := cw_records_out st1 + 1, cw_writer := Some w1\<rparr>"
      have "writing os nf out_dir level seq (acc @ [e]) d ?st"
        using new add1 st1 by (simp add: writing_def)
      from IHw [OF this] show ?thesis using False Inr
        by (simp add: finish_writes_def step Pair st1 Let_def)
    next
      case True
      show ?thesis
      proof (cases "sst_finish os w1")
        case fin: (Pair rf w2)
        show ?thesis
        proof (cases rf)
          case (Inl ex)
          then show ?thesis using True fin Inr
            by (simp add: finish_writes_def step Pair st1 Let_def wt add1)
        next
          case rf: (Inr info)
          let ?st = "st1\<lparr>cw_writer := None, cw_dir := sw_dir w2, cw_outputs := cw_outputs st1 @ [info], cw_records_out := 0\<rparr>"
          have cl: "\<not> sw_fd w2" using sst_finish_closed fin rf by blast
          have "finish_writes os nf out_dir level target (e # es) st = finish_writes os nf out_dir level target es ?st"
            using True fin Inr rf by (simp add: finish_writes_def step Pair st1 Let_def)
          then show ?thesis using IHn [of ?st] True fin rf cl
            by (simp add: st1 wt add1)
        qed
      qed
    qed
  qed
qed

lemma finish_writes_outputs:
  "(cw_writer st = None \<longrightarrow> cw_records_out st = 0 \<longrightarrow>
      finish_writes os nf out_dir level target es st =
        write_outputs os nf out_dir level (cw_out_seq st) (split_outputs target [] es) (cw_outputs st) (cw_dir st)) \<and>
   (writing os nf out_dir level seq acc d st \<longrightarrow> acc \<noteq> [] \<longrightarrow>
      finish_writes os nf out_dir level target es st =
        write_outputs os nf out_dir level seq (split_outputs target acc es) (cw_outputs st) d)"
proof (induction es arbitrary: st seq acc d)
  case Nil
  show ?case
    by (auto simp: finish_writes_def compaction_write_end_def writing_def write_table_alt sst_finish_closed
        split: prod.splits sum.splits)
next
  case (Cons e es)
  show ?case
  proof (intro conjI impI)
    assume "writing os nf out_dir level seq acc d st"
    then obtain w0 w where w: "sst_writer_new os nf (make_path out_dir level seq) level seq (64 * 1024) 0 d = (Inr (), w0)"
        "sst_add_all os acc w0 = (Inr (), w)" "cw_writer st = Some w" "cw_out_seq st = seq + 1" "cw_records_out st = length acc"
      by (auto simp: writing_def)
    show "finish_writes os nf out_dir level target (e # es) st =
        write_outputs os nf out_dir level seq (split_outputs target acc (e # es)) (cw_outputs st) d"
      by (rule write_step_add [OF _ _ w(1,2,4,5)])
        (use Cons.IH in \<open>simp_all add: compaction_write_step_def w(3)\<close>)
  next
    assume n: "cw_writer st = None" "cw_records_out st = 0"
    let ?seq = "cw_out_seq st" and ?d = "cw_dir st"
    obtain r w0 where new: "sst_writer_new os nf (make_path out_dir level ?seq) level ?seq (64 * 1024) 0 ?d = (r, w0)"
      by fastforce
    show "finish_writes os nf out_dir level target (e # es) st =
        write_outputs os nf out_dir level ?seq (split_outputs target [] (e # es)) (cw_outputs st) ?d"
    proof (cases r)
      case (Inl ex)
      obtain c cs where "split_outputs target [] (e # es) = (e # c) # cs" using split_outputs_first [of target "[]" e es] unfolding append_Nil by blast
      moreover have "sw_dir (sst_writer_drop w0) = ?d"
        using new Inl by (auto simp: sst_writer_new_def Let_def sst_writer_drop_def split: if_splits)
      ultimately show ?thesis using Inl new n
        by (simp add: finish_writes_def compaction_write_step_def write_table_def)
    next
      case (Inr u)
      show ?thesis
        using write_step_add [of os nf out_dir level target es ?seq "[]" e ?d w0 w0 "st\<lparr>cw_out_seq := ?seq + 1\<rparr>" st]
          Cons.IH new n Inr by (simp add: compaction_write_step_def)
    qed
  qed
qed

lemma compaction_write_outputs:
  "compaction_write os nf out_dir level target seq es d =
     write_outputs os nf out_dir level seq (split_outputs target [] es) [] d"
  using finish_writes_outputs [of "\<lparr>cw_dir = d, cw_writer = None, cw_out_seq = seq, cw_records_out = 0, cw_outputs = []\<rparr>" os nf out_dir level target es]
  by (simp add: compaction_write_def finish_writes_def)

end
