(* ===== verification/CompactionRun.thy ===== *)
theory CompactionRun
  imports Compaction
begin

text \<open>
  What a compaction leaves on disk: its outputs are readable tables whose events, one table
  after the other, are the merge of the inputs, and no other file changes.
\<close>

section \<open>Names of the outputs\<close>

lemma make_path_inj [simp]: "make_path out_dir level s = make_path out_dir level s' \<longleftrightarrow> s = s'"
  by (auto simp: make_path_def word_unat_eq_iff dest: decimal06_inj)

lemma make_path_add:
  "i < 2 ^ 64 \<Longrightarrow> j < 2 ^ 64 \<Longrightarrow>
     make_path out_dir level (seq + word_of_nat i) = make_path out_dir level (seq + word_of_nat j) \<longleftrightarrow> i = j"
  by (simp add: word_of_nat_eq_iff take_bit_eq_mod)

abbreviation out_paths :: "string \<Rightarrow> u32 \<Rightarrow> u64 \<Rightarrow> nat \<Rightarrow> string list" where
  "out_paths out_dir level seq n \<equiv> map (\<lambda>i. make_path out_dir level (seq + word_of_nat i)) [0..<n]"

lemma out_paths_Suc:
  "out_paths out_dir level seq (Suc n) = make_path out_dir level seq # out_paths out_dir level (seq + 1) n"
  by (simp add: map_upt_Suc add.assoc del: upt_Suc)

lemma out_paths_first: "n < 2 ^ 64 \<Longrightarrow> make_path out_dir level seq \<notin> set (out_paths out_dir level (seq + 1) n)"
  using make_path_add [of 0 _ out_dir level seq] by (fastforce simp: add.assoc simp flip: of_nat_Suc)

lemma distinct_out_paths: "n \<le> 2 ^ 64 \<Longrightarrow> distinct (out_paths out_dir level seq n)"
  by (auto simp: distinct_map inj_on_def word_of_nat_eq_iff take_bit_eq_mod)

section \<open>Writing the outputs\<close>

definition tables_on :: "dir \<Rightarrow> history \<Rightarrow> bool" where
  "tables_on d h \<longleftrightarrow> (\<forall>(r, bs) \<in> set h. table_on d r bs)"

lemma tables_on_simps [simp]:
  "tables_on d []" "tables_on d (rb # h) \<longleftrightarrow> table_on d (fst rb) (snd rb) \<and> tables_on d h"
  "tables_on d (h @ h') \<longleftrightarrow> tables_on d h \<and> tables_on d h'"
  by (auto simp: tables_on_def)

abbreviation paths_of :: "history \<Rightarrow> string list" where
  "paths_of h \<equiv> map (\<lambda>rb. sr_path (fst rb)) h"

abbreviation infos_of :: "history \<Rightarrow> sst_info list" where
  "infos_of h \<equiv> map (\<lambda>rb. sr_info (fst rb)) h"

abbreviation events_of :: "history \<Rightarrow> event list list" where
  "events_of h \<equiv> map (\<lambda>rb. concat (snd rb)) h"

lemma tables_on_frame:
  "tables_on d h \<Longrightarrow> (\<And>p. p \<in> set (paths_of h) \<Longrightarrow> map_of d' p = map_of d p) \<Longrightarrow> tables_on d' h"
  by (fastforce simp: tables_on_def intro: table_on_frame)

lemma write_outputs_spec:
  assumes os: "os_progress os" and nf: "\<forall>n. bloom_wf (nf n)"
  shows "\<forall>c \<in> set cs. sorted_events c \<and> list_all event_wf c \<and> length c < 2 ^ 32 \<Longrightarrow> length cs < 2 ^ 64 \<Longrightarrow>
    \<exists>h d'. write_outputs os nf out_dir level seq cs outs d = (Inr (outs @ infos_of h), d') \<and>
      tables_on d' h \<and> paths_of h = out_paths out_dir level seq (length cs) \<and> events_of h = cs \<and>
      (\<forall>p. p \<notin> set (paths_of h) \<longrightarrow> map_of d' p = map_of d p)"
proof (induction cs arbitrary: seq outs d)
  case Nil
  show ?case by (intro exI [of _ "[]"] exI [of _ d]) simp
next
  case (Cons c cs)
  let ?p = "make_path out_dir level seq"
  have c: "sorted_events c" "list_all event_wf c" "length c < 2 ^ 32" using Cons.prems(1) by simp_all
  have cs: "\<forall>c \<in> set cs. sorted_events c \<and> list_all event_wf c \<and> length c < 2 ^ 32" "length cs < 2 ^ 64"
    using Cons.prems by simp_all
  obtain r bs where w: "write_table os nf ?p level seq (64 * 1024) 0 c d = (Inr (sr_info r), AList.update ?p (sr_file r) d)"
      "table_on (AList.update ?p (sr_file r) d) r bs" "sr_path r = ?p" "concat bs = c"
    using write_table_on [OF os c, of "64 * 1024" nf ?p level seq 0 d] nf by auto
  obtain h d' where h: "write_outputs os nf out_dir level (seq + 1) cs (outs @ [sr_info r]) (AList.update ?p (sr_file r) d)
        = (Inr ((outs @ [sr_info r]) @ infos_of h), d')"
      "tables_on d' h" "paths_of h = out_paths out_dir level (seq + 1) (length cs)" "events_of h = cs"
      "\<forall>p. p \<notin> set (paths_of h) \<longrightarrow> map_of d' p = map_of (AList.update ?p (sr_file r) d) p"
    using Cons.IH [OF cs, of "seq + 1" "outs @ [sr_info r]" "AList.update ?p (sr_file r) d"] by blast
  have np: "?p \<notin> set (paths_of h)" unfolding h(3) using out_paths_first Cons.prems(2) by simp
  have t: "table_on d' r bs" using table_on_frame [OF w(2)] h(5) np by (simp add: w(3))
  have fr: "map_of d' p = map_of d p" if "p \<notin> set (?p # paths_of h)" for p
    using h(5) that by (simp add: update_conv)
  show ?case
  proof (intro exI [of _ "(r, bs) # h"] exI [of _ d'] conjI)
    show "write_outputs os nf out_dir level seq (c # cs) outs d = (Inr (outs @ infos_of ((r, bs) # h)), d')"
      using h(1) w(1) by simp
    show "tables_on d' ((r, bs) # h)" using t h(2) by simp
    show "paths_of ((r, bs) # h) = out_paths out_dir level seq (length (c # cs))"
      using h(3) w(3) unfolding list.size(4) add_Suc_right add_0_right out_paths_Suc by simp
    show "events_of ((r, bs) # h) = c # cs" using h(4) w(4) by simp
    show "\<forall>p. p \<notin> set (paths_of ((r, bs) # h)) \<longrightarrow> map_of d' p = map_of d p" using fr w(3) by simp
  qed
qed

section \<open>Loading the inputs\<close>

definition tagged_input :: "sst_reader \<times> event list list \<Rightarrow> tagged list" where
  "tagged_input rb = map (\<lambda>e. (e, sm_sequence (si_meta (sr_info (fst rb))))) (concat (snd rb))"

lemma in_range_min_max [simp]: "in_range min_key max_key e"
proof -
  have m: "max_key = \<lparr>key_symbol_id = - 1, key_timestamp_ns = - 1, key_sequence_id = - 1\<rparr>"
    by (simp add: max_key_def)
  have "\<not> max_key < event_key e" by (simp add: m key_less_iff)
  moreover have "\<not> event_key e < min_key" by (simp add: min_key_def key_less_iff)
  ultimately show ?thesis by (simp add: in_range_def not_less)
qed

lemma compaction_load_spec:
  assumes "\<And>p. os_open os p"
  shows "tables_on d ins \<Longrightarrow> compaction_load os (infos_of ins) d all = Inr (all @ concat (map tagged_input ins))"
proof (induction ins arbitrary: all)
  case (Cons rb ins)
  obtain r bs where rb: "rb = (r, bs)" by (cases rb)
  have t: "table_on d r bs" "tables_on d ins" using Cons.prems by (simp_all add: rb)
  let ?sq = "sm_sequence (si_meta (sr_info r))"
  obtain io where "sst_scan r min_key max_key (\<lambda>e s. (True, s @ [(e, ?sq)])) all (fresh_io None) =
      (Inr (), snd (run_cb (\<lambda>e s. (True, s @ [(e, ?sq)])) (filter (in_range min_key max_key) (concat bs)) all), io)"
    using scan_backed [of "[(r, bs)]" r bs "fresh_io None" min_key max_key "\<lambda>e s. (True, s @ [(e, ?sq)])" all] t(1)
    by (auto simp: history_ok_def table_on_def)
  then show ?case using Cons.IH [OF t(2)] table_on_open [OF t(1) assms]
    by (simp add: rb run_cb_collect tagged_input_def)
qed simp

section \<open>A whole run\<close>

lemma length_dedup_loop: "length (dedup_loop prev as) \<le> length as"
  by (induction prev as rule: dedup_loop.induct) auto

lemma length_merge_events: "length (merge_events level all) \<le> length all"
proof -
  have "length (gc_tombstones level (dedup_loop None (stable_sort all))) \<le> length (dedup_loop None (stable_sort all))"
    by (simp add: gc_tombstones_def)
  also have "\<dots> \<le> length all" using length_dedup_loop [of None "stable_sort all"] by (simp add: stable_sort_def)
  finally show ?thesis by (simp add: merge_events_def)
qed

lemma merge_events_subset: "set (merge_events level all) \<subseteq> fst ` set all"
  using merge_events_newest by (force simp: newest_def)

lemma split_outputs_parts:
  assumes "sorted_events (acc @ es)"
  shows "\<forall>c \<in> set (split_outputs target acc es). sorted_events c \<and> length c \<le> length (acc @ es)"
proof -
  have "sorted_events c \<and> length c \<le> length (concat cs)" if "sorted_events (concat cs)" "c \<in> set cs" for c cs
    using that
  proof (induction cs)
    case (Cons c' cs)
    then show ?case by (auto simp: sorted_wrt_append simp del: length_concat intro: trans_le_add2)
  qed simp
  from this [of "split_outputs target acc es"] show ?thesis using assms by simp
qed

lemma length_split_outputs: "length (split_outputs target acc es) \<le> length (acc @ es)"
proof -
  have "length cs \<le> length (concat cs)" if "\<forall>c \<in> set cs. c \<noteq> []" for cs :: "event list list"
    using that
  proof (induction cs)
    case (Cons c cs)
    then have "0 < length c" "length cs \<le> length (concat cs)" by simp_all
    then show ?case by (simp del: length_concat length_greater_0_conv)
  qed simp
  from this [of "split_outputs target acc es"] show ?thesis using split_outputs_nonempty [of _ target acc es] by simp
qed

lemma compaction_run_spec:
  fixes level :: u32
  assumes os: "os_progress os" and nf: "\<forall>n. bloom_wf (nf n)" and ins: "ins \<noteq> []" "tables_on d ins"
    and len: "length (concat (map tagged_input ins)) < 2 ^ 32"
  defines "es \<equiv> merge_events level (concat (map tagged_input ins))"
  shows "\<exists>outs d' st. compaction_run os nf (infos_of ins) out_dir level seq target d = (Inr (infos_of outs, Some st), d') \<and>
    tables_on d' outs \<and> events_of outs = split_outputs target [] es \<and>
    paths_of outs = out_paths out_dir level seq (length outs) \<and>
    (\<forall>p. p \<notin> set (paths_of outs) \<longrightarrow> map_of d' p = map_of d p) \<and>
    cs_records_in st = length (concat (map tagged_input ins)) \<and> cs_records_out st = length es"
proof -
  have op: "os_open os p" for p using os by (simp add: os_progress_def)
  have srt: "sorted_events ([] @ es)" by (simp add: es_def merge_events_sorted)
  have wf: "list_all event_wf es"
  proof -
    have "event_wf e" if "(e, s) \<in> set (concat (map tagged_input ins))" for e s
      using that ins(2) by (force simp: tagged_input_def tables_on_def list_all_iff dest: table_on_sorted)
    then show ?thesis using merge_events_subset [of level "concat (map tagged_input ins)"]
      unfolding list_all_iff es_def by fastforce
  qed
  have l: "length es < 2 ^ 32" using length_merge_events [of level "concat (map tagged_input ins)"] len by (simp add: es_def)
  have cwf: "list_all event_wf c" if "c \<in> set (split_outputs target [] es)" for c
  proof -
    have "set c \<subseteq> set (concat (split_outputs target [] es))" using that unfolding set_concat by blast
    then show ?thesis using wf by (auto simp: list_all_iff)
  qed
  have parts: "\<forall>c \<in> set (split_outputs target [] es). sorted_events c \<and> list_all event_wf c \<and> length c < 2 ^ 32"
    using split_outputs_parts [OF srt, of target] cwf l by force
  have n: "length (split_outputs target [] es) < 2 ^ 64" using length_split_outputs [of target "[]" es] l by simp
  obtain outs d' where w: "write_outputs os nf out_dir level seq (split_outputs target [] es) [] d = (Inr ([] @ infos_of outs), d')"
      "tables_on d' outs" "paths_of outs = out_paths out_dir level seq (length (split_outputs target [] es))"
      "events_of outs = split_outputs target [] es" "\<forall>p. p \<notin> set (paths_of outs) \<longrightarrow> map_of d' p = map_of d p"
    using write_outputs_spec [OF os nf parts n] by blast
  have lo: "length outs = length (split_outputs target [] es)" using arg_cong [OF w(4), of length] by simp
  define st where "st = \<lparr>cs_input_files = length ins, cs_output_files = length outs,
     cs_input_bytes = sum_list (map si_file_size (infos_of ins)), cs_output_bytes = sum_list (map si_file_size (infos_of outs)),
     cs_records_in = length (concat (map tagged_input ins)), cs_records_out = length es\<rparr>"
  have ld: "compaction_load os (infos_of ins) d [] = Inr (concat (map tagged_input ins))"
    using compaction_load_spec [OF op ins(2), of "[]"] by (simp only: append_Nil)
  have wr: "compaction_write os nf out_dir level target seq es d = (Inr (infos_of outs), d')"
    using w(1) by (simp only: compaction_write_outputs append_Nil)
  have "compaction_run os nf (infos_of ins) out_dir level seq target d = (Inr (infos_of outs, Some st), d')"
    using ins(1) by (simp add: compaction_run_def ld es_def [symmetric] wr st_def del: length_concat)
  moreover have "cs_records_in st = length (concat (map tagged_input ins))" "cs_records_out st = length es"
    by (simp_all add: st_def)
  ultimately show ?thesis using w(2-) lo by (intro exI [of _ outs] exI [of _ d'] exI [of _ st] conjI) auto
qed

section \<open>Properties\<close>

text \<open>C34: What a compaction keeps: the merged events ascend strictly by key, each of them is the
  version of its key from the newest input table, no tombstone survives at the bottom level,
  and every key of the inputs is still there unless the bottom level dropped its tombstone.\<close>

theorem compaction_merge:
  "sorted_events (merge_events level all) \<and>
   (\<forall>e \<in> set (merge_events level all). newest all e \<and> (bottom_level level \<longrightarrow> event_type e \<noteq> Tombstone)) \<and>
   (\<forall>(e, s) \<in> set all. \<exists>e' s'. (e', s') \<in> set all \<and> event_key e' = event_key e \<and>
      (e' \<in> set (merge_events level all) \<or> bottom_level level \<and> event_type e' = Tombstone))"
  using merge_events_sorted merge_events_newest merge_events_no_tombstone merge_events_keys by blast

lemma compaction_merge_witness:
  "let all = [(sample_event 5 1 Trade, 1), (sample_event 5 1 Tombstone, 2), (sample_event 3 9 Add, 2)];
       e = sample_event 3 9 Add in
   merge_events 1 all = [e, sample_event 5 1 Tombstone] \<and> merge_events 3 all = [e] \<and> newest all e"
proof -
  let ?all = "[(sample_event 5 1 Trade, 1), (sample_event 5 1 Tombstone, 2), (sample_event 3 9 Add, 2 :: u64)]"
  have rk: "tagged_rank (sample_event 5 1 Trade, 1) = (event_key (sample_event 5 1 Trade), 2 ^ 64 - 2)"
      "tagged_rank (sample_event 5 1 Tombstone, 2) = (event_key (sample_event 5 1 Trade), 2 ^ 64 - 3)"
      "tagged_rank (sample_event 3 9 Add, 2) = (event_key (sample_event 3 9 Trade), 2 ^ 64 - 3)"
    by (simp_all add: tagged_rank_def)
  have lt: "event_key (sample_event 3 9 Trade) < event_key (sample_event 5 1 Trade)"
    by (simp add: key_less_iff)
  have srt: "stable_sort ?all = [(sample_event 3 9 Add, 2), (sample_event 5 1 Tombstone, 2), (sample_event 5 1 Trade, 1)]"
    using lt by (simp add: stable_sort_def rk less_le_not_le)
  have m: "merge_events 1 ?all = [sample_event 3 9 Add, sample_event 5 1 Tombstone]"
      "merge_events 3 ?all = [sample_event 3 9 Add]"
    unfolding merge_events_def srt by (simp_all add: gc_tombstones_eq bottom_level_def word_le_nat_alt)
  moreover have "newest ?all (sample_event 3 9 Add)"
    using compaction_merge [of 3 ?all] unfolding m by simp
  ultimately show ?thesis by (simp add: Let_def)
qed

text \<open>A compaction of readable tables, on a kernel that may write in pieces, succeeds; its
  output files are readable tables with distinct names that hold, one after the other, exactly
  the merge of the inputs' events, the record counts it reports are those before and after
  the merge, and no other file of the directory changes.\<close>

theorem compaction_run_correct:
  assumes "os_progress os" and "\<forall>n. bloom_wf (new_filter n)" and "ins \<noteq> []" and "tables_on d ins"
    and "length (concat (map tagged_input ins)) < 2 ^ 32"
  shows "\<exists>outs d' st. compaction_run os new_filter (infos_of ins) out_dir level seq target d = (Inr (infos_of outs, Some st), d') \<and>
    tables_on d' outs \<and> distinct (paths_of outs) \<and>
    concat (events_of outs) = merge_events level (concat (map tagged_input ins)) \<and>
    cs_records_in st = length (concat (map tagged_input ins)) \<and>
    cs_records_out st = length (concat (events_of outs)) \<and>
    (\<forall>p. p \<notin> set (paths_of outs) \<longrightarrow> map_of d' p = map_of d p)"
proof -
  let ?es = "merge_events level (concat (map tagged_input ins))"
  obtain outs d' st where run: "compaction_run os new_filter (infos_of ins) out_dir level seq target d = (Inr (infos_of outs, Some st), d')"
      "tables_on d' outs" "events_of outs = split_outputs target [] ?es" "paths_of outs = out_paths out_dir level seq (length outs)"
      "\<forall>p. p \<notin> set (paths_of outs) \<longrightarrow> map_of d' p = map_of d p"
      "cs_records_in st = length (concat (map tagged_input ins))" "cs_records_out st = length ?es"
    using compaction_run_spec [OF assms, of out_dir level seq target] by blast
  have c: "concat (events_of outs) = ?es" unfolding run(3) by simp
  have "length outs \<le> length ?es" using arg_cong [OF run(3), of length] length_split_outputs [of target "[]" ?es] by simp
  then have "length outs \<le> 2 ^ 64"
    using length_merge_events [of level "concat (map tagged_input ins)"] assms(5) by simp
  then have "distinct (paths_of outs)" unfolding run(4) by (rule distinct_out_paths)
  then show ?thesis using run c by (intro exI [of _ outs] exI [of _ d'] exI [of _ st] conjI) simp_all
qed

lemma one_table:
  assumes "sorted_events es" and "list_all event_wf es" and "length es < 2 ^ 32"
  shows "\<exists>d r bs. tables_on d [(r, bs)] \<and> sr_path r = path \<and> concat bs = es"
  using write_table_on [OF os_ok_progress assms, of 65536 sample_filter path 0 1 0 "[]"] sample_filter_wf
  by auto

lemma compaction_run_correct_witness:
  "\<exists>ins d outs d' st. concat (events_of ins) = [sample_event 10 1 Trade, sample_event 20 2 Quote] \<and>
    compaction_run os_ok sample_filter (infos_of ins) ''l1'' 1 7 100 d = (Inr (infos_of outs, Some st), d') \<and>
    concat (events_of outs) = merge_events 1 (concat (map tagged_input ins)) \<and> tables_on d' outs \<and> cs_records_in st = 2"
proof -
  let ?es = "[sample_event 10 1 Trade, sample_event 20 2 Quote]"
  have es: "sorted_events ?es" "list_all event_wf ?es" "length ?es < 2 ^ 32" by (simp_all add: key_less_iff)
  obtain d r bs where t: "tables_on d [(r, bs)]" "concat bs = ?es" using one_table [OF es] by blast
  have l: "length (concat (map tagged_input [(r, bs)])) = 2" unfolding tagged_input_def using t(2) by simp
  have run: "\<exists>outs d' st. compaction_run os_ok sample_filter (infos_of [(r, bs)]) ''l1'' 1 7 100 d = (Inr (infos_of outs, Some st), d') \<and>
    tables_on d' outs \<and> distinct (paths_of outs) \<and>
    concat (events_of outs) = merge_events 1 (concat (map tagged_input [(r, bs)])) \<and>
    cs_records_in st = length (concat (map tagged_input [(r, bs)])) \<and>
    cs_records_out st = length (concat (events_of outs)) \<and>
    (\<forall>p. p \<notin> set (paths_of outs) \<longrightarrow> map_of d' p = map_of d p)"
    by (rule compaction_run_correct [OF os_ok_progress sample_filter_wf _ t(1)]) (simp_all only: l, simp_all)
  show ?thesis
    by (rule exI [of _ "[(r, bs)]"], rule exI [of _ d]) (use run t(2) l in \<open>simp del: length_concat, blast\<close>)
qed

text \<open>Writing the outputs event by event, with the rotation test every 1000 records, is the
  same as cutting the events first and writing one complete table after the other, whatever
  the kernel answers: on a failure the file in progress is removed and the earlier outputs
  stay on disk.\<close>

theorem compaction_write_sequential:
  "compaction_write os new_filter out_dir level target seq es d =
     write_outputs os new_filter out_dir level seq (split_outputs target [] es) [] d \<and>
   concat (split_outputs target [] es) = es"
  by (simp add: compaction_write_outputs)

end
