(* ===== verification/Arena.thy ===== *)
theory Arena
  imports Prelude
begin

text \<open>
  The bump-pointer arena (storage/arena.hpp). An address is a block number and an
  offset in it; a block is its size. Nothing is freed before the arena is, so the
  addresses handed out are never handed out again: the regions are pairwise disjoint.
\<close>

type_synonym addr = "nat \<times> nat"

definition kBlockSize :: nat where
  "kBlockSize = 4096"

record arena =
  a_ptr :: "addr option"
  a_remaining :: nat
  a_used :: nat
  a_blocks :: "nat list"

definition arena_new :: arena where
  "arena_new = \<lparr>a_ptr = None, a_remaining = 0, a_used = 0, a_blocks = []\<rparr>"

definition slow_alloc :: "nat \<Rightarrow> arena \<Rightarrow> addr option \<times> arena" where
  "slow_alloc n a =
     (let sz = (if n > kBlockSize then n else kBlockSize);
          block = length (a_blocks a)
      in (Some (block, 0),
          a\<lparr>a_blocks := a_blocks a @ [sz], a_used := a_used a + sz,
            a_ptr := Some (block, n), a_remaining := sz - n\<rparr>))"

definition allocate :: "nat \<Rightarrow> arena \<Rightarrow> addr option \<times> arena" where
  "allocate n a =
     (if n \<le> a_remaining a
      then (a_ptr a, a\<lparr>a_ptr := map_option (\<lambda>(b, off). (b, off + n)) (a_ptr a),
                       a_remaining := a_remaining a - n\<rparr>)
      else slow_alloc n a)"

text \<open>\<^verbatim>\<open>sizeof(void*)\<close> is 8; the rounding is done on \<^verbatim>\<open>size_t\<close>.\<close>

definition align_up :: "u64 \<Rightarrow> u64" where
  "align_up n = (n + 8 - 1) AND NOT (8 - 1)"

definition allocate_aligned :: "nat \<Rightarrow> arena \<Rightarrow> addr option \<times> arena" where
  "allocate_aligned n a = allocate (unat (align_up (word_of_nat n))) a"

definition memory_used :: "arena \<Rightarrow> nat" where
  "memory_used a = a_used a"

text \<open>A run of allocations, with the regions it hands out.\<close>

fun allocate_all :: "nat list \<Rightarrow> arena \<Rightarrow> (addr option \<times> nat) list \<times> arena" where
  "allocate_all [] a = ([], a)"
| "allocate_all (n # ns) a =
     (let (p, a') = allocate n a; (ps, a'') = allocate_all ns a' in ((p, n) # ps, a''))"

section \<open>The arena's bookkeeping\<close>

definition arena_inv :: "arena \<Rightarrow> bool" where
  "arena_inv a \<longleftrightarrow> a_used a = sum_list (a_blocks a) \<and>
     (case a_ptr a of
        None \<Rightarrow> a_blocks a = [] \<and> a_remaining a = 0
      | Some (b, off) \<Rightarrow> a_blocks a \<noteq> [] \<and> b = length (a_blocks a) - 1 \<and>
          off + a_remaining a = last (a_blocks a))"

lemma arena_inv_new [simp]: "arena_inv arena_new"
  by (simp add: arena_inv_def arena_new_def)

lemma arena_inv_allocate: "arena_inv a \<Longrightarrow> arena_inv (snd (allocate n a))"
  by (auto simp: arena_inv_def allocate_def slow_alloc_def Let_def kBlockSize_def split: option.splits)

lemma arena_inv_allocate_aligned: "arena_inv a \<Longrightarrow> arena_inv (snd (allocate_aligned n a))"
  by (simp add: allocate_aligned_def arena_inv_allocate)

lemma memory_used_mono: "memory_used a \<le> memory_used (snd (allocate n a))"
  by (simp add: memory_used_def allocate_def slow_alloc_def Let_def)

lemma memory_used_allocate_aligned: "memory_used a \<le> memory_used (snd (allocate_aligned n a))"
  by (simp add: allocate_aligned_def memory_used_mono)

text \<open>A region lies in the part of the blocks that has been handed out.\<close>

definition handed_out :: "arena \<Rightarrow> addr \<times> nat \<Rightarrow> bool" where
  "handed_out a r \<longleftrightarrow> (case r of ((b, off), n) \<Rightarrow>
     b < length (a_blocks a) \<and> off + n \<le> a_blocks a ! b \<and>
     (case a_ptr a of None \<Rightarrow> False
      | Some (b', off') \<Rightarrow> b = b' \<longrightarrow> off + n \<le> off'))"

definition regions_disjoint :: "addr \<times> nat \<Rightarrow> addr \<times> nat \<Rightarrow> bool" where
  "regions_disjoint r r' \<longleftrightarrow> (case (r, r') of (((b, off), n), ((b', off'), n')) \<Rightarrow>
     b \<noteq> b' \<or> off + n \<le> off' \<or> off' + n' \<le> off)"

lemma handed_out_allocate:
  assumes "arena_inv a" and "handed_out a r"
  shows "handed_out (snd (allocate n a)) r"
  using assms
  by (auto simp: arena_inv_def handed_out_def allocate_def slow_alloc_def Let_def nth_append
      split: option.splits prod.splits)

text \<open>What an allocation returns is new: disjoint from every region handed out before.\<close>

lemma allocate_fresh:
  assumes "arena_inv a" and "0 < n"
  shows "\<exists>p. fst (allocate n a) = Some p \<and> handed_out (snd (allocate n a)) (p, n) \<and>
    (\<forall>r. handed_out a r \<longrightarrow> regions_disjoint (p, n) r)"
proof (cases "n \<le> a_remaining a")
  case True
  with assms obtain b off where p: "a_ptr a = Some (b, off)"
    and i: "a_blocks a \<noteq> []" "b = length (a_blocks a) - 1" "off + a_remaining a = last (a_blocks a)"
    by (auto simp: arena_inv_def split: option.splits)
  then show ?thesis using True
    by (auto simp: allocate_def handed_out_def regions_disjoint_def last_conv_nth split: prod.splits)
next
  case False
  then show ?thesis
    by (auto simp: allocate_def slow_alloc_def handed_out_def regions_disjoint_def Let_def
        nth_append kBlockSize_def split: prod.splits option.splits)
qed

lemma snd_allocate_all_Cons: "snd (allocate_all (n # ns) a) = snd (allocate_all ns (snd (allocate n a)))"
  by (simp add: Let_def split: prod.splits)

lemma fst_allocate_all_Cons:
  "fst (allocate_all (n # ns) a) = (fst (allocate n a), n) # fst (allocate_all ns (snd (allocate n a)))"
  by (simp add: Let_def split: prod.splits)

lemmas allocate_all_Cons = fst_allocate_all_Cons snd_allocate_all_Cons

declare allocate_all.simps(2) [simp del]

lemma allocate_all_spec:
  assumes "arena_inv a" and "\<forall>n \<in> set ns. 0 < n"
  shows "arena_inv (snd (allocate_all ns a)) \<and>
    (\<exists>rs. fst (allocate_all ns a) = map (\<lambda>(p, n). (Some p, n)) rs \<and> map snd rs = ns \<and>
      sorted_wrt regions_disjoint rs \<and> (\<forall>r \<in> set rs. handed_out (snd (allocate_all ns a)) r) \<and>
      (\<forall>r0. handed_out a r0 \<longrightarrow> handed_out (snd (allocate_all ns a)) r0 \<and>
         (\<forall>r \<in> set rs. regions_disjoint r r0)))"
  using assms
proof (induction ns arbitrary: a)
  case Nil
  then show ?case by simp
next
  case (Cons n ns)
  let ?a1 = "snd (allocate n a)"
  have inv1: "arena_inv ?a1" using Cons.prems(1) by (rule arena_inv_allocate)
  obtain p where p: "fst (allocate n a) = Some p" "handed_out ?a1 (p, n)"
    and fresh: "\<And>r. handed_out a r \<Longrightarrow> regions_disjoint (p, n) r"
    using allocate_fresh [OF Cons.prems(1), of n] Cons.prems(2) by auto
  obtain rs where rs: "fst (allocate_all ns ?a1) = map (\<lambda>(p, n). (Some p, n)) rs" "map snd rs = ns"
      "sorted_wrt regions_disjoint rs" "\<forall>r \<in> set rs. handed_out (snd (allocate_all ns ?a1)) r"
    and old: "\<And>r0. handed_out ?a1 r0 \<Longrightarrow> handed_out (snd (allocate_all ns ?a1)) r0 \<and>
      (\<forall>r \<in> set rs. regions_disjoint r r0)"
    and inv2: "arena_inv (snd (allocate_all ns ?a1))"
    using Cons.IH [OF inv1] Cons.prems(2) by auto
  have sym: "regions_disjoint r r' \<Longrightarrow> regions_disjoint r' r" for r r'
    by (auto simp: regions_disjoint_def split: prod.splits)
  have keep: "handed_out ?a1 r" if "handed_out a r" for r
    using handed_out_allocate [OF Cons.prems(1) that] .
  show ?case
    using inv2 rs p(1) old [OF p(2)] old [OF keep] fresh
    by (intro conjI exI [of _ "(p, n) # rs"]) (auto simp: allocate_all_Cons intro: sym)
qed

text \<open>Rounding up to a multiple of the pointer size.\<close>

lemma align_up_eq:
  assumes "unat n + 7 < 2 ^ 64"
  shows "unat (align_up n) = 8 * ((unat n + 7) div 8)"
proof -
  have n7: "unat (n + 8 - 1) = unat n + 7"
  proof -
    have "n + 8 - 1 = n + 7" by simp
    moreover have "unat (n + 7) = (unat n + 7) mod 2 ^ 64" by (simp add: unat_word_ariths)
    ultimately show ?thesis using assms by (simp add: add.commute)
  qed
  have "(n + 8 - 1) AND NOT (8 - 1) = push_bit 3 (drop_bit 3 (n + 8 - 1))"
  proof (rule bit_word_eqI)
    fix i assume i: "i < LENGTH(64)"
    have "(8 - 1 :: u64) = mask 3" by (simp add: mask_eq_exp_minus_1)
    then have "bit (8 - 1 :: u64) i \<longleftrightarrow> i < 3" using i by (simp only: bit_mask_iff) auto
    then show "bit ((n + 8 - 1) AND NOT (8 - 1)) i = bit (push_bit 3 (drop_bit 3 (n + 8 - 1))) i"
      using i by (auto simp: bit_simps)
  qed
  also have "unat (push_bit 3 (drop_bit 3 (n + 8 - 1))) = unat (n + 8 - 1) div 8 * 8 mod 2 ^ 64"
    by (simp only: unsigned_push_bit_eq unsigned_drop_bit_eq take_bit_unat_self)
      (simp add: take_bit_eq_mod push_bit_eq_mult drop_bit_eq_div)
  also have "\<dots> = 8 * ((unat n + 7) div 8)"
  proof -
    have "(unat n + 7) div 8 * 8 < 2 ^ 64" using assms by linarith
    then show ?thesis unfolding n7 by simp
  qed
  finally show ?thesis by (simp add: align_up_def)
qed

section \<open>Properties\<close>

text \<open>However many chunks are taken from a fresh arena, every one lies inside a block, no
  two of them overlap, and the memory counted is the sum of the blocks.\<close>

theorem arena_regions_disjoint:
  assumes "\<forall>n \<in> set ns. 0 < n" and "allocate_all ns arena_new = (ps, a)"
  shows "\<exists>rs. ps = map (\<lambda>(p, n). (Some p, n)) rs \<and> map snd rs = ns \<and> sorted_wrt regions_disjoint rs \<and>
    (\<forall>((b, off), n) \<in> set rs. b < length (a_blocks a) \<and> off + n \<le> a_blocks a ! b) \<and>
    memory_used a = sum_list (a_blocks a)"
  using allocate_all_spec [OF arena_inv_new assms(1)] assms(2)
  by (fastforce simp: arena_inv_def memory_used_def handed_out_def split: prod.splits)

lemma arena_regions_disjoint_witness:
  "\<exists>rs. fst (allocate_all [48, 80, 5000] arena_new) = map (\<lambda>(p, n). (Some p, n)) rs \<and>
    map snd rs = [48, 80, 5000] \<and> sorted_wrt regions_disjoint rs \<and>
    (\<forall>((b, off), n) \<in> set rs. b < length (a_blocks (snd (allocate_all [48, 80, 5000] arena_new))) \<and>
       off + n \<le> a_blocks (snd (allocate_all [48, 80, 5000] arena_new)) ! b) \<and>
    memory_used (snd (allocate_all [48, 80, 5000] arena_new))
      = sum_list (a_blocks (snd (allocate_all [48, 80, 5000] arena_new)))"
  by (rule arena_regions_disjoint [OF _ prod.collapse [symmetric]]) simp

end
