(* ===== verification/SkipList.thy ===== *)
theory SkipList
  imports Arena
begin

text \<open>
  The skip list of the memtable (storage/skiplist.hpp) on an explicit store: nodes are
  numbered in the order of their allocation, node 0 is the head, a pointer is an
  optional number. A search that follows pointers need not end in an arbitrary store,
  so the searches are partial functions whose value \<open>None\<close> is "does not return"; the
  invariant makes them return.
\<close>

definition kMaxHeight :: nat where
  "kMaxHeight = 12"

definition kBranchFactor :: u32 where
  "kBranchFactor = 4"

text \<open>
  The sizes of \<^verbatim>\<open>SkipList<Key, Event, KeyCmp>::Node\<close>, of \<^verbatim>\<open>Event\<close> and of a pointer on
  the platform of the build (x86-64).
\<close>

definition sizeof_Node :: nat where
  "sizeof_Node = 48"

definition sizeof_Event :: nat where
  "sizeof_Event = 80"

definition sizeof_ptr :: nat where
  "sizeof_ptr = 8"

record ('k, 'v) node =
  n_key :: 'k
  n_val :: "'v option"
  n_height :: nat
  n_next :: "nat option list"

record ('k, 'v) skiplist =
  sl_nodes :: "('k, 'v) node list"
  sl_max_height :: nat
  sl_count :: nat
  sl_rng :: nat
  sl_arena :: arena

definition load_next :: "('k, 'v) node list \<Rightarrow> nat \<Rightarrow> nat \<Rightarrow> nat option" where
  "load_next nodes x level = n_next (nodes ! x) ! level"

definition store_next :: "nat \<Rightarrow> nat \<Rightarrow> nat option \<Rightarrow> ('k, 'v) node list \<Rightarrow> ('k, 'v) node list" where
  "store_next x level p nodes =
     nodes[x := (nodes ! x)\<lparr>n_next := (n_next (nodes ! x))[level := p]\<rparr>]"

definition alloc_value :: "('k, 'v) skiplist \<Rightarrow> ('k, 'v) skiplist" where
  "alloc_value sl = sl\<lparr>sl_arena := snd (allocate_aligned sizeof_Event (sl_arena sl))\<rparr>"

definition new_node :: "'k \<Rightarrow> 'v option \<Rightarrow> nat \<Rightarrow> ('k, 'v) skiplist \<Rightarrow> nat \<times> ('k, 'v) skiplist" where
  "new_node k vp h sl =
     (let bytes = sizeof_Node + (h - 1) * sizeof_ptr
      in (length (sl_nodes sl),
          sl\<lparr>sl_nodes := sl_nodes sl @ [\<lparr>n_key = k, n_val = vp, n_height = h, n_next = replicate h None\<rparr>],
             sl_arena := snd (allocate_aligned bytes (sl_arena sl))\<rparr>))"

text \<open>The constructor, with the default key in the head node.\<close>

definition skiplist_new :: "'k \<Rightarrow> ('k, 'v) skiplist" where
  "skiplist_new default_key =
     snd (new_node default_key None kMaxHeight
       \<lparr>sl_nodes = [], sl_max_height = 1, sl_count = 0, sl_rng = 0, sl_arena = arena_new\<rparr>)"

text \<open>The generator is a stream of numbers and the count of those drawn.\<close>

function random_height_loop :: "(nat \<Rightarrow> u32) \<Rightarrow> nat \<Rightarrow> nat \<Rightarrow> nat \<times> nat" where
  "random_height_loop rng h pos =
     (if h < kMaxHeight
      then if rng pos mod kBranchFactor = 0 then random_height_loop rng (h + 1) (pos + 1)
           else (h, pos + 1)
      else (h, pos))"
  by pat_completeness auto
termination
  by (relation "measure (\<lambda>(rng, h, pos). kMaxHeight - h)") auto

declare random_height_loop.simps [simp del]

definition random_height :: "(nat \<Rightarrow> u32) \<Rightarrow> nat \<Rightarrow> nat \<times> nat" where
  "random_height rng pos = random_height_loop rng 1 pos"

definition key_before :: "('k::linorder, 'v) node list \<Rightarrow> 'k \<Rightarrow> nat option \<Rightarrow> bool" where
  "key_before nodes target nx = (case nx of None \<Rightarrow> False | Some y \<Rightarrow> n_key (nodes ! y) < target)"

text \<open>
  \<^verbatim>\<open>find_prev\<close>; the array \<^verbatim>\<open>prev\<close> starts out uninitialised (\<open>None\<close>).
\<close>

partial_function (option) find_prev_loop ::
  "('k::linorder, 'v) node list \<Rightarrow> 'k \<Rightarrow> nat \<Rightarrow> nat \<Rightarrow> nat option list \<Rightarrow> (nat \<times> nat option list) option" where
  "find_prev_loop nodes target x lvl prev =
     (if key_before nodes target (load_next nodes x lvl)
      then find_prev_loop nodes target (the (load_next nodes x lvl)) lvl prev
      else if lvl = 0 then Some (x, prev[lvl := Some x])
      else find_prev_loop nodes target x (lvl - 1) (prev[lvl := Some x]))"

definition find_prev :: "('k::linorder, 'v) skiplist \<Rightarrow> 'k \<Rightarrow> nat option list \<Rightarrow> (nat \<times> nat option list) option" where
  "find_prev sl target prev = find_prev_loop (sl_nodes sl) target 0 (sl_max_height sl - 1) prev"

partial_function (option) find_first_ge_loop ::
  "('k::linorder, 'v) node list \<Rightarrow> 'k \<Rightarrow> nat \<Rightarrow> nat \<Rightarrow> nat option option" where
  "find_first_ge_loop nodes target x lvl =
     (if key_before nodes target (load_next nodes x lvl)
      then find_first_ge_loop nodes target (the (load_next nodes x lvl)) lvl
      else if lvl = 0 then Some (load_next nodes x lvl)
      else find_first_ge_loop nodes target x (lvl - 1))"

definition find_first_ge :: "('k::linorder, 'v) skiplist \<Rightarrow> 'k \<Rightarrow> nat option option" where
  "find_first_ge sl target = find_first_ge_loop (sl_nodes sl) target 0 (sl_max_height sl - 1)"

text \<open>Linking the new node at one level: its own pointer first, then the predecessor's.\<close>

definition link_level :: "nat \<Rightarrow> nat \<Rightarrow> nat \<Rightarrow> ('k, 'v) node list \<Rightarrow> ('k, 'v) node list" where
  "link_level n p i nodes = store_next p i (Some n) (store_next n i (load_next nodes p i) nodes)"

fun link_levels :: "nat \<Rightarrow> nat option list \<Rightarrow> nat list \<Rightarrow> ('k, 'v) node list \<Rightarrow> ('k, 'v) node list option" where
  "link_levels n prev [] nodes = Some nodes"
| "link_levels n prev (i # is) nodes =
     (case prev ! i of
        None \<Rightarrow> None
      | Some p \<Rightarrow> link_levels n prev is (link_level n p i nodes))"

definition sl_insert :: "(nat \<Rightarrow> u32) \<Rightarrow> 'k::linorder \<Rightarrow> 'v \<Rightarrow> ('k, 'v) skiplist \<Rightarrow> ('k, 'v) skiplist option" where
  "sl_insert rng k v sl = do {
     (p0, prev) \<leftarrow> find_prev sl k (replicate kMaxHeight None);
     let x = load_next (sl_nodes sl) p0 0;
     if (case x of None \<Rightarrow> False
         | Some y \<Rightarrow> \<not> n_key (sl_nodes sl ! y) < k \<and> \<not> k < n_key (sl_nodes sl ! y))
     then (let y = the x; sl1 = alloc_value sl
           in Some (sl1\<lparr>sl_nodes := (sl_nodes sl1)[y := (sl_nodes sl1 ! y)\<lparr>n_val := Some v\<rparr>]\<rparr>))
     else do {
       let (h, pos) = random_height rng (sl_rng sl);
       let cur_max = sl_max_height sl;
       let prev1 = (if h > cur_max then foldl (\<lambda>pv i. pv[i := Some 0]) prev [cur_max..<h] else prev);
       let sl1 = sl\<lparr>sl_rng := pos, sl_max_height := (if h > cur_max then h else cur_max)\<rparr>;
       let (n, sl2) = new_node k (Some v) h (alloc_value sl1);
       nodes \<leftarrow> link_levels n prev1 [0..<h] (sl_nodes sl2);
       Some (sl2\<lparr>sl_nodes := nodes, sl_count := sl_count sl2 + 1\<rparr>)
     }
   }"

definition sl_contains :: "'k::linorder \<Rightarrow> ('k, 'v) skiplist \<Rightarrow> bool option" where
  "sl_contains k sl = do {
     x \<leftarrow> find_first_ge sl k;
     Some (case x of None \<Rightarrow> False
           | Some y \<Rightarrow> \<not> k < n_key (sl_nodes sl ! y) \<and> \<not> n_key (sl_nodes sl ! y) < k)
   }"

definition sl_empty :: "('k, 'v) skiplist \<Rightarrow> bool" where
  "sl_empty sl \<longleftrightarrow> sl_count sl = 0"

text \<open>
  The iterator is an optional node: \<^verbatim>\<open>seek_to_first\<close> and \<^verbatim>\<open>seek\<close> set it, \<^verbatim>\<open>next\<close>
  follows the pointer of level 0, \<^verbatim>\<open>valid\<close> is "not null".
\<close>

definition it_seek_to_first :: "('k, 'v) skiplist \<Rightarrow> nat option" where
  "it_seek_to_first sl = load_next (sl_nodes sl) 0 0"

definition it_next :: "('k, 'v) skiplist \<Rightarrow> nat \<Rightarrow> nat option" where
  "it_next sl x = load_next (sl_nodes sl) x 0"

definition it_value :: "('k, 'v) skiplist \<Rightarrow> nat \<Rightarrow> 'v" where
  "it_value sl x = (case n_val (sl_nodes sl ! x) of Some v \<Rightarrow> v)"

section \<open>The shape of the list\<close>

definition ht :: "('k, 'v) node list \<Rightarrow> nat \<Rightarrow> nat" where
  "ht nodes x = n_height (nodes ! x)"

definition ky :: "('k, 'v) node list \<Rightarrow> nat \<Rightarrow> 'k" where
  "ky nodes x = n_key (nodes ! x)"

text \<open>The nodes of a level, in order, and the claim that the pointers of the level link them.\<close>

definition level :: "('k, 'v) node list \<Rightarrow> nat \<Rightarrow> nat list \<Rightarrow> nat list" where
  "level nodes i ord = filter (\<lambda>x. i < ht nodes x) ord"

fun chain :: "('k, 'v) node list \<Rightarrow> nat \<Rightarrow> nat list \<Rightarrow> bool" where
  "chain nodes i [] = True"
| "chain nodes i [x] = (load_next nodes x i = None)"
| "chain nodes i (x # y # zs) = (load_next nodes x i = Some y \<and> chain nodes i (y # zs))"

lemma chain_suffix: "chain nodes i (pre @ zs) \<Longrightarrow> chain nodes i zs"
proof (induction pre)
  case (Cons x pre)
  then show ?case by (cases "pre @ zs") auto
qed simp

lemma chain_head:
  "chain nodes i (x # zs) \<Longrightarrow> load_next nodes x i = (case zs of [] \<Rightarrow> None | y # _ \<Rightarrow> Some y)"
  by (cases zs) auto

lemma chain_cong:
  "(\<And>x. x \<in> set xs \<Longrightarrow> load_next nodes' x i = load_next nodes x i) \<Longrightarrow> chain nodes' i xs = chain nodes i xs"
  by (induction nodes i xs rule: chain.induct) auto

lemma chain_insert:
  assumes "chain nodes i (xs @ zs)" and "xs \<noteq> []" and "distinct (xs @ zs)" and "n \<notin> set (xs @ zs)"
    and "load_next nodes' (last xs) i = Some n"
    and "load_next nodes' n i = load_next nodes (last xs) i"
    and "\<And>x. x \<in> set (xs @ zs) \<Longrightarrow> x \<noteq> last xs \<Longrightarrow> load_next nodes' x i = load_next nodes x i"
  shows "chain nodes' i (xs @ n # zs)"
  using assms
proof (induction xs)
  case Nil
  then show ?case by simp
next
  case (Cons x xs)
  show ?case
  proof (cases xs)
    case Nil
    have "chain nodes' i zs"
      using Cons.prems Nil chain_suffix [of nodes i "[x]" zs] by (subst chain_cong [where nodes = nodes]) auto
    then show ?thesis using Cons.prems Nil by (cases zs) (auto simp: chain_head)
  next
    case (Cons y ys)
    have "chain nodes' i (xs @ n # zs)"
      using Cons.prems Cons by (intro Cons.IH) (auto dest: chain_suffix [of nodes i "[x]" "xs @ zs", simplified])
    moreover have "load_next nodes' x i = Some y"
    proof -
      have "last (x # xs) \<in> set xs" using Cons by simp
      then have "x \<noteq> last (x # xs)" using Cons.prems(3) by auto
      then have "load_next nodes' x i = load_next nodes x i" using Cons.prems(7) [of x] by simp
      moreover have "chain nodes i (x # y # (ys @ zs))" using Cons.prems(1) Cons by simp
      ultimately show ?thesis by simp
    qed
    ultimately show ?thesis using Cons by simp
  qed
qed

definition nodes_wf :: "('k, 'v) node list \<Rightarrow> bool" where
  "nodes_wf nodes \<longleftrightarrow> nodes \<noteq> [] \<and> ht nodes 0 = kMaxHeight \<and>
     (\<forall>x < length nodes. length (n_next (nodes ! x)) = ht nodes x \<and> 1 \<le> ht nodes x \<and> ht nodes x \<le> kMaxHeight)"

text \<open>The invariant, with the addresses of all nodes but the head in the order of their keys.\<close>

definition sl_inv :: "('k::linorder, 'v) skiplist \<Rightarrow> nat list \<Rightarrow> bool" where
  "sl_inv sl ord \<longleftrightarrow>
     nodes_wf (sl_nodes sl) \<and>
     distinct ord \<and> set ord = {1..<length (sl_nodes sl)} \<and>
     sorted_wrt (<) (map (ky (sl_nodes sl)) ord) \<and>
     (\<forall>x \<in> set ord. ht (sl_nodes sl) x \<le> sl_max_height sl \<and> n_val (sl_nodes sl ! x) \<noteq> None) \<and>
     1 \<le> sl_max_height sl \<and> sl_max_height sl \<le> kMaxHeight \<and>
     (\<forall>i < kMaxHeight. chain (sl_nodes sl) i (0 # level (sl_nodes sl) i ord)) \<and>
     sl_count sl = length ord \<and> arena_inv (sl_arena sl)"

section \<open>Searching\<close>

text \<open>The node in front of the first key that is not below the target, at one level.\<close>

definition pred_at :: "('k::linorder, 'v) node list \<Rightarrow> nat \<Rightarrow> 'k \<Rightarrow> nat list \<Rightarrow> nat" where
  "pred_at nodes i k ord = last (0 # takeWhile (\<lambda>x. ky nodes x < k) (level nodes i ord))"

lemma walk_level:
  assumes "chain nodes i (x # zs)"
  shows "find_prev_loop nodes k x i prev =
     (let x' = last (x # takeWhile (\<lambda>x. ky nodes x < k) zs)
      in if i = 0 then Some (x', prev[i := Some x'])
         else find_prev_loop nodes k x' (i - 1) (prev[i := Some x']))"
    and "find_first_ge_loop nodes k x i =
     (let x' = last (x # takeWhile (\<lambda>x. ky nodes x < k) zs)
      in if i = 0 then Some (load_next nodes x' i) else find_first_ge_loop nodes k x' (i - 1))"
  using assms
proof (induction zs arbitrary: x)
  case Nil
  {
    case 1
    then show ?case by (subst find_prev_loop.simps) (simp add: key_before_def)
  next
    case 2
    then show ?case by (subst find_first_ge_loop.simps) (simp add: key_before_def)
  }
next
  case (Cons y zs)
  {
    case 1
    then show ?case using Cons.IH(1) [of y]
      by (subst find_prev_loop.simps) (simp add: key_before_def ky_def)
  next
    case 2
    then show ?case using Cons.IH(2) [of y]
      by (subst find_first_ge_loop.simps) (simp add: key_before_def ky_def)
  }
qed

text \<open>Going down one level, the walk goes on from the same node.\<close>

lemma sorted_takeWhile_split:
  assumes "sorted_wrt (<) (map f (pre @ y # zs))" and "f y < (k::'k::linorder)"
  shows "takeWhile (\<lambda>x. f x < k) (pre @ y # zs) = pre @ y # takeWhile (\<lambda>x. f x < k) zs"
proof -
  have "\<forall>x \<in> set pre. f x < k" using assms by (auto simp: sorted_wrt_append)
  then show ?thesis using assms(2) by (simp add: takeWhile_append)
qed

lemma descend:
  assumes "sorted_wrt (<) (map (ky nodes) ord)"
  shows "\<exists>pre zs. 0 # level nodes i ord = pre @ pred_at nodes (Suc i) k ord # zs \<and>
    last (pred_at nodes (Suc i) k ord # takeWhile (\<lambda>x. ky nodes x < k) zs) = pred_at nodes i k ord"
proof (cases "takeWhile (\<lambda>x. ky nodes x < k) (level nodes (Suc i) ord) = []")
  case True
  then have "pred_at nodes (Suc i) k ord = 0" by (simp add: pred_at_def)
  then show ?thesis by (intro exI [of _ "[]"] exI [of _ "level nodes i ord"]) (simp add: pred_at_def)
next
  case False
  let ?y = "pred_at nodes (Suc i) k ord"
  have "?y \<in> set (takeWhile (\<lambda>x. ky nodes x < k) (level nodes (Suc i) ord))"
    using False by (simp add: pred_at_def)
  then have y: "?y \<in> set (level nodes (Suc i) ord)" "ky nodes ?y < k"
    by (auto dest: set_takeWhileD)
  then have "?y \<in> set (level nodes i ord)" by (simp add: level_def)
  then obtain pre zs where l: "level nodes i ord = pre @ ?y # zs" by (auto simp: in_set_conv_decomp)
  have "sorted_wrt (<) (map (ky nodes) (level nodes i ord))"
    using assms by (simp add: level_def sorted_wrt_map sorted_wrt_filter)
  then have "takeWhile (\<lambda>x. ky nodes x < k) (level nodes i ord) = pre @ ?y # takeWhile (\<lambda>x. ky nodes x < k) zs"
    using sorted_takeWhile_split [of "ky nodes" pre ?y zs k] y(2) l by simp
  then have "pred_at nodes i k ord = last (?y # takeWhile (\<lambda>x. ky nodes x < k) zs)"
    by (simp add: pred_at_def)
  with l show ?thesis by (intro exI [of _ "0 # pre"] exI [of _ zs]) simp
qed

lemma find_prev_loop_spec:
  assumes "sorted_wrt (<) (map (ky nodes) ord)" and "\<forall>j \<le> i. chain nodes j (0 # level nodes j ord)"
    and "0 # level nodes i ord = pre @ x # zs"
    and "last (x # takeWhile (\<lambda>x. ky nodes x < k) zs) = pred_at nodes i k ord"
  shows "(\<exists>prev'. find_prev_loop nodes k x i prev = Some (pred_at nodes 0 k ord, prev') \<and>
      length prev' = length prev \<and>
      (\<forall>j < length prev. prev' ! j = (if j \<le> i then Some (pred_at nodes j k ord) else prev ! j))) \<and>
    find_first_ge_loop nodes k x i = Some (load_next nodes (pred_at nodes 0 k ord) 0)"
  using assms(2-4)
proof (induction i arbitrary: x pre zs prev)
  case 0
  have "chain nodes 0 (x # zs)" using 0 chain_suffix [of nodes 0 pre "x # zs"] by simp
  from walk_level [OF this, of k] show ?case using 0(3)
    by (auto simp: nth_list_update Let_def)
next
  case (Suc i)
  have "chain nodes (Suc i) (x # zs)"
    using Suc.prems(1,2) chain_suffix [of nodes "Suc i" pre "x # zs"] by auto
  note walk = walk_level [OF this, of k, unfolded Suc.prems(3) Let_def, simplified]
  obtain pre' zs' where down: "0 # level nodes i ord = pre' @ pred_at nodes (Suc i) k ord # zs'"
    "last (pred_at nodes (Suc i) k ord # takeWhile (\<lambda>x. ky nodes x < k) zs') = pred_at nodes i k ord"
    using descend [OF assms(1)] by blast
  have "\<forall>j \<le> i. chain nodes j (0 # level nodes j ord)" using Suc.prems(1) by simp
  from Suc.IH [OF this down, of "prev[Suc i := Some (pred_at nodes (Suc i) k ord)]"]
  show ?case unfolding walk by (auto simp: nth_list_update le_Suc_eq)
qed


lemma level_chain_start:
  "last (0 # takeWhile (\<lambda>x. ky nodes x < k) (level nodes i ord)) = pred_at nodes i k ord"
  by (simp add: pred_at_def)

lemma find_prev_spec:
  assumes inv: "sl_inv sl ord" and len: "length prev = kMaxHeight"
  shows "\<exists>prev'. find_prev sl k prev = Some (pred_at (sl_nodes sl) 0 k ord, prev') \<and> length prev' = kMaxHeight \<and>
    (\<forall>j < sl_max_height sl. prev' ! j = Some (pred_at (sl_nodes sl) j k ord))"
    and "find_first_ge sl k = Some (load_next (sl_nodes sl) (pred_at (sl_nodes sl) 0 k ord) 0)"
proof -
  let ?i = "sl_max_height sl - 1"
  from inv have s: "sorted_wrt (<) (map (ky (sl_nodes sl)) ord)" and mh: "1 \<le> sl_max_height sl"
    "sl_max_height sl \<le> kMaxHeight"
    and c: "\<forall>j < kMaxHeight. chain (sl_nodes sl) j (0 # level (sl_nodes sl) j ord)"
    by (simp_all add: sl_inv_def)
  have "\<forall>j \<le> ?i. chain (sl_nodes sl) j (0 # level (sl_nodes sl) j ord)" using c mh by auto
  from find_prev_loop_spec [OF s this, where pre = "[]" and x = 0 and k = k and prev = prev,
      OF append_Nil [symmetric] level_chain_start]
  have spec: "(\<exists>prev'. find_prev_loop (sl_nodes sl) k 0 ?i prev = Some (pred_at (sl_nodes sl) 0 k ord, prev') \<and>
      length prev' = length prev \<and> (\<forall>j < length prev. prev' ! j =
        (if j \<le> ?i then Some (pred_at (sl_nodes sl) j k ord) else prev ! j))) \<and>
    find_first_ge_loop (sl_nodes sl) k 0 ?i = Some (load_next (sl_nodes sl) (pred_at (sl_nodes sl) 0 k ord) 0)" .
  show "\<exists>prev'. find_prev sl k prev = Some (pred_at (sl_nodes sl) 0 k ord, prev') \<and> length prev' = kMaxHeight \<and>
    (\<forall>j < sl_max_height sl. prev' ! j = Some (pred_at (sl_nodes sl) j k ord))"
  proof -
    obtain prev' where p: "find_prev_loop (sl_nodes sl) k 0 ?i prev = Some (pred_at (sl_nodes sl) 0 k ord, prev')"
      "length prev' = length prev"
      "\<forall>j < length prev. prev' ! j = (if j \<le> ?i then Some (pred_at (sl_nodes sl) j k ord) else prev ! j)"
      using spec by blast
    have "prev' ! j = Some (pred_at (sl_nodes sl) j k ord)" if "j < sl_max_height sl" for j
    proof -
      have "j < length prev" "j \<le> ?i" using that mh len by linarith+
      then show ?thesis using p(3) by simp
    qed
    then show ?thesis using p(1,2) len by (auto simp: find_prev_def)
  qed
  show "find_first_ge sl k = Some (load_next (sl_nodes sl) (pred_at (sl_nodes sl) 0 k ord) 0)"
    using spec by (simp add: find_first_ge_def)
qed

text \<open>On level 0 every node is linked, so the search ends in front of the first key not below \<open>k\<close>.\<close>

lemma level_0: "sl_inv sl ord \<Longrightarrow> level (sl_nodes sl) 0 ord = ord"
  by (force simp: sl_inv_def nodes_wf_def level_def filter_id_conv)

lemma load_next_pred:
  assumes inv: "sl_inv sl ord" and i: "i < kMaxHeight"
  shows "load_next (sl_nodes sl) (pred_at (sl_nodes sl) i k ord) i =
    (case dropWhile (\<lambda>x. ky (sl_nodes sl) x < k) (level (sl_nodes sl) i ord) of [] \<Rightarrow> None | y # _ \<Rightarrow> Some y)"
proof -
  let ?P = "\<lambda>x. ky (sl_nodes sl) x < k" and ?L = "level (sl_nodes sl) i ord"
  have "chain (sl_nodes sl) i (0 # takeWhile ?P ?L @ dropWhile ?P ?L)" using inv i by (simp add: sl_inv_def)
  moreover have "0 # takeWhile ?P ?L @ dropWhile ?P ?L
      = butlast (0 # takeWhile ?P ?L) @ pred_at (sl_nodes sl) i k ord # dropWhile ?P ?L"
    unfolding pred_at_def
    by (metis append_Cons append_butlast_last_id append_assoc append_Nil list.distinct(1))
  ultimately have "chain (sl_nodes sl) i (pred_at (sl_nodes sl) i k ord # dropWhile ?P ?L)"
    using chain_suffix by metis
  then show ?thesis by (rule chain_head)
qed

lemma find_first_ge_spec:
  assumes inv: "sl_inv sl ord"
  shows "find_first_ge sl k =
    Some (case dropWhile (\<lambda>x. ky (sl_nodes sl) x < k) ord of [] \<Rightarrow> None | y # _ \<Rightarrow> Some y)"
  using find_prev_spec(2) [OF inv, of "replicate kMaxHeight None"] load_next_pred [OF inv, of 0] level_0 [OF inv]
  by (simp add: kMaxHeight_def)

section \<open>Linking a node\<close>

definition same_shape :: "('k, 'v) node list \<Rightarrow> ('k, 'v) node list \<Rightarrow> bool" where
  "same_shape nodes' nodes \<longleftrightarrow> length nodes' = length nodes \<and>
     (\<forall>x < length nodes. n_key (nodes' ! x) = n_key (nodes ! x) \<and> n_val (nodes' ! x) = n_val (nodes ! x) \<and>
        n_height (nodes' ! x) = n_height (nodes ! x) \<and> length (n_next (nodes' ! x)) = length (n_next (nodes ! x)))"

lemma same_shape_refl [simp]: "same_shape nodes nodes"
  by (simp add: same_shape_def)

lemma same_shape_trans: "same_shape a b \<Longrightarrow> same_shape b c \<Longrightarrow> same_shape a c"
  by (simp add: same_shape_def)

lemma same_shape_store_next [simp]: "same_shape (store_next x i p nodes) nodes"
  by (cases "x < length nodes") (auto simp: same_shape_def store_next_def nth_list_update)

lemma load_next_store_next:
  "x < length nodes \<Longrightarrow> i < length (n_next (nodes ! x)) \<Longrightarrow>
   load_next (store_next x i p nodes) y j = (if y = x \<and> j = i then p else load_next nodes y j)"
  by (auto simp: load_next_def store_next_def nth_list_update)

lemma link_level_spec:
  assumes "n < length nodes" "p < length nodes" "p \<noteq> n"
    and "i < length (n_next (nodes ! n))" "i < length (n_next (nodes ! p))"
  shows "same_shape (link_level n p i nodes) nodes"
    and "load_next (link_level n p i nodes) y j =
      (if j = i \<and> y = n then load_next nodes p i else if j = i \<and> y = p then Some n else load_next nodes y j)"
proof -
  let ?m = "store_next n i (load_next nodes p i) nodes"
  have sh: "same_shape ?m nodes" by simp
  show "same_shape (link_level n p i nodes) nodes"
    unfolding link_level_def by (rule same_shape_trans [OF same_shape_store_next sh])
  have "p < length ?m" "i < length (n_next (?m ! p))"
    using sh assms by (auto simp: same_shape_def)
  then show "load_next (link_level n p i nodes) y j =
      (if j = i \<and> y = n then load_next nodes p i else if j = i \<and> y = p then Some n else load_next nodes y j)"
    using assms by (auto simp: link_level_def load_next_store_next)
qed

lemma link_levels_spec:
  assumes "distinct is" and "n < length nodes"
    and "\<forall>i \<in> set is. prev ! i = Some (p i) \<and> p i \<noteq> n \<and> p i < length nodes \<and>
      i < length (n_next (nodes ! n)) \<and> i < length (n_next (nodes ! p i))"
  shows "\<exists>nodes'. link_levels n prev is nodes = Some nodes' \<and> same_shape nodes' nodes \<and>
    (\<forall>x j. load_next nodes' x j =
       (if j \<in> set is then (if x = n then load_next nodes (p j) j
                            else if x = p j then Some n else load_next nodes x j)
        else load_next nodes x j))"
  using assms
proof (induction "is" arbitrary: nodes)
  case Nil
  then show ?case by simp
next
  case (Cons i "is")
  let ?m = "link_level n (p i) i nodes"
  have pre: "n < length nodes" "p i < length nodes" "p i \<noteq> n"
    "i < length (n_next (nodes ! n))" "i < length (n_next (nodes ! p i))"
    using Cons.prems by auto
  note m = link_level_spec [OF pre]
  have "\<forall>j \<in> set is. prev ! j = Some (p j) \<and> p j \<noteq> n \<and> p j < length ?m \<and>
      j < length (n_next (?m ! n)) \<and> j < length (n_next (?m ! p j))" and "n < length ?m"
    using Cons.prems m(1) by (auto simp: same_shape_def)
  then obtain nodes' where l: "link_levels n prev is ?m = Some nodes'" "same_shape nodes' ?m"
    and nx: "\<And>x j. load_next nodes' x j =
       (if j \<in> set is then (if x = n then load_next ?m (p j) j
                            else if x = p j then Some n else load_next ?m x j)
        else load_next ?m x j)"
    using Cons.IH [of ?m] Cons.prems(1) by auto
  have "same_shape nodes' nodes" using l(2) m(1) by (rule same_shape_trans)
  moreover have "load_next nodes' x j =
       (if j \<in> set (i # is) then (if x = n then load_next nodes (p j) j
                            else if x = p j then Some n else load_next nodes x j)
        else load_next nodes x j)" for x j
  proof (cases "j = i")
    case True
    then show ?thesis using Cons.prems(1) pre(3) by (simp add: nx m(2))
  next
    case False
    then have "load_next ?m y j = load_next nodes y j" for y by (simp add: m(2))
    then show ?thesis using False by (simp add: nx)
  qed
  ultimately show ?case using l(1) Cons.prems(3) by auto
qed

lemma random_height_bounds:
  "1 \<le> h \<Longrightarrow> h \<le> kMaxHeight \<Longrightarrow>
   1 \<le> fst (random_height_loop rng h pos) \<and> fst (random_height_loop rng h pos) \<le> kMaxHeight"
proof (induction rng h pos rule: random_height_loop.induct)
  case (1 rng h pos)
  then show ?case by (subst (1 2) random_height_loop.simps) auto
qed

lemma fill_prev:
  "a \<le> h \<Longrightarrow> h \<le> length prev \<Longrightarrow> length (foldl (\<lambda>pv i. pv[i := Some 0]) prev [a..<h]) = length prev \<and>
   (\<forall>j < length prev. foldl (\<lambda>pv i. pv[i := Some 0]) prev [a..<h] ! j = (if a \<le> j \<and> j < h then Some 0 else prev ! j))"
proof (induction h)
  case 0
  then show ?case by simp
next
  case (Suc h)
  show ?case
  proof (cases "a = Suc h")
    case False
    then show ?thesis using Suc by (auto simp: nth_list_update)
  qed auto
qed

section \<open>Inserting\<close>

text \<open>The abstract contents: an association list sorted by key.\<close>

definition sl_items :: "('k, 'v) skiplist \<Rightarrow> nat list \<Rightarrow> ('k \<times> 'v) list" where
  "sl_items sl ord = map (\<lambda>x. (ky (sl_nodes sl) x, it_value sl x)) ord"

definition upsert :: "'k::linorder \<Rightarrow> 'v \<Rightarrow> ('k \<times> 'v) list \<Rightarrow> ('k \<times> 'v) list" where
  "upsert k v xs = takeWhile (\<lambda>(a, _). a < k) xs @ (k, v) # dropWhile (\<lambda>(a, _). a \<le> k) xs"

definition sl_rel :: "('k::linorder, 'v) skiplist \<Rightarrow> ('k \<times> 'v) list \<Rightarrow> bool" where
  "sl_rel sl xs \<longleftrightarrow> (\<exists>ord. sl_inv sl ord \<and> xs = sl_items sl ord)"

lemma sl_items_sorted: "sl_inv sl ord \<Longrightarrow> sorted_wrt (<) (map fst (sl_items sl ord))"
  by (simp add: sl_inv_def sl_items_def comp_def)

text \<open>The order splits at the key: in front of it, and from it on.\<close>

lemma ord_split:
  assumes "sorted_wrt (<) (map f (A @ B))" and "takeWhile (\<lambda>x. f x < (k::'k::linorder)) (A @ B) = A"
  shows "\<forall>x \<in> set A. f x < k" and "\<forall>x \<in> set B. k \<le> f x"
proof -
  show "\<forall>x \<in> set A. f x < k"
    using set_takeWhileD [of _ "\<lambda>x. f x < k" "A @ B"] unfolding assms(2) by blast
  have "dropWhile (\<lambda>x. f x < k) (A @ B) = B"
    using takeWhile_dropWhile_id [of "\<lambda>x. f x < k" "A @ B"] unfolding assms(2) by simp
  moreover have "\<forall>x \<in> set B. f (hd B) \<le> f x" if "B \<noteq> []"
    using assms(1) that by (cases B) (auto simp: sorted_wrt_append less_imp_le)
  ultimately show "\<forall>x \<in> set B. k \<le> f x"
    using hd_dropWhile [of "\<lambda>x. f x < k" "A @ B"] by (cases B) (auto simp: not_less intro: order_trans)
qed

lemma upsert_items_split:
  assumes "\<forall>x \<in> set A. f x < k" and "\<forall>x \<in> set B. (k::'k::linorder) < f x" and "\<forall>y \<in> set Y. f y = k"
  shows "upsert k v (map (\<lambda>x. (f x, g x)) (A @ Y @ B)) = map (\<lambda>x. (f x, g x)) A @ (k, v) # map (\<lambda>x. (f x, g x)) B"
proof -
  have t: "takeWhile (\<lambda>x. f x < k) (A @ Y @ B) = A"
    using assms by (subst takeWhile_append2) (cases Y; cases B; auto)+
  have "dropWhile (\<lambda>x. f x \<le> k) (A @ Y @ B) = dropWhile (\<lambda>x. f x \<le> k) B"
    using assms by (simp add: dropWhile_append2 less_imp_le)
  also have "\<dots> = B" using assms(2) by (cases B) auto
  finally have d: "dropWhile (\<lambda>x. f x \<le> k) (A @ Y @ B) = B" .
  show ?thesis
    by (simp only: upsert_def takeWhile_map dropWhile_map comp_def case_prod_conv t d)
qed

lemma find_prev_insert:
  assumes inv: "sl_inv sl ord"
  obtains prev where "find_prev sl k (replicate kMaxHeight None) = Some (pred_at (sl_nodes sl) 0 k ord, prev)"
    and "length prev = kMaxHeight" and "\<forall>j < sl_max_height sl. prev ! j = Some (pred_at (sl_nodes sl) j k ord)"
  using find_prev_spec(1) [OF inv, of "replicate kMaxHeight None" k] by auto

text \<open>The node of a level's predecessor is tall enough and not the new one.\<close>

lemma pred_at_cases:
  "pred_at nodes i k ord = 0 \<or> (pred_at nodes i k ord \<in> set ord \<and> i < ht nodes (pred_at nodes i k ord))"
proof (cases "takeWhile (\<lambda>x. ky nodes x < k) (level nodes i ord) = []")
  case False
  then have "pred_at nodes i k ord \<in> set (takeWhile (\<lambda>x. ky nodes x < k) (level nodes i ord))"
    by (simp add: pred_at_def)
  then show ?thesis by (auto simp: level_def dest: set_takeWhileD)
qed (simp add: pred_at_def)

lemma level_empty:
  assumes "sl_inv sl ord" and "sl_max_height sl \<le> i"
  shows "level (sl_nodes sl) i ord = []"
  using assms by (force simp: sl_inv_def level_def filter_empty_conv)

lemma pred_at_wf:
  assumes inv: "sl_inv sl ord" and i: "i < kMaxHeight"
  shows "pred_at (sl_nodes sl) i k ord < length (sl_nodes sl)"
    and "i < length (n_next (sl_nodes sl ! pred_at (sl_nodes sl) i k ord))"
proof -
  have wf: "nodes_wf (sl_nodes sl)" and ord: "set ord = {1..<length (sl_nodes sl)}"
    using inv by (simp_all add: sl_inv_def)
  have "sl_nodes sl \<noteq> []" using wf by (simp add: nodes_wf_def)
  then show lt: "pred_at (sl_nodes sl) i k ord < length (sl_nodes sl)"
    using pred_at_cases [of "sl_nodes sl" i k ord] ord by auto
  have "i < ht (sl_nodes sl) (pred_at (sl_nodes sl) i k ord)"
    using pred_at_cases [of "sl_nodes sl" i k ord] wf i by (auto simp: nodes_wf_def)
  then show "i < length (n_next (sl_nodes sl ! pred_at (sl_nodes sl) i k ord))"
    using wf lt by (simp add: nodes_wf_def)
qed

text \<open>Overwriting the value of a node keeps the shape.\<close>

lemma sl_inv_set_value:
  assumes inv: "sl_inv sl (A @ y # B)" and a: "arena_inv a"
  shows "sl_inv (sl\<lparr>sl_arena := a, sl_nodes := (sl_nodes sl)[y := (sl_nodes sl ! y)\<lparr>n_val := Some v\<rparr>]\<rparr>) (A @ y # B)"
    and "sl_items (sl\<lparr>sl_arena := a, sl_nodes := (sl_nodes sl)[y := (sl_nodes sl ! y)\<lparr>n_val := Some v\<rparr>]\<rparr>) (A @ y # B)
      = sl_items sl A @ (ky (sl_nodes sl) y, v) # sl_items sl B"
proof -
  let ?nodes = "sl_nodes sl"
  let ?m = "?nodes[y := (?nodes ! y)\<lparr>n_val := Some v\<rparr>]"
  have y: "y < length ?nodes" and ord: "set (A @ y # B) = {1..<length ?nodes}" "distinct (A @ y # B)"
    using inv by (auto simp: sl_inv_def)
  have same: "ky ?m = ky ?nodes" "ht ?m = ht ?nodes" "load_next ?m = load_next ?nodes"
    using y by (auto simp: ky_def ht_def load_next_def fun_eq_iff nth_list_update)
  have lev: "level ?m = level ?nodes" by (simp add: level_def fun_eq_iff same)
  have ch: "chain ?m i xs = chain ?nodes i xs" for i xs by (rule chain_cong) (simp add: same)
  have nx: "n_next (?m ! x) = n_next (?nodes ! x)" for x
    using y by (simp add: nth_list_update)
  show "sl_inv (sl\<lparr>sl_arena := a, sl_nodes := ?m\<rparr>) (A @ y # B)"
    using inv a y by (auto simp: sl_inv_def nodes_wf_def same lev ch nx nth_list_update)
  have "y \<notin> set A" "y \<notin> set B" using ord(2) by auto
  then show "sl_items (sl\<lparr>sl_arena := a, sl_nodes := ?m\<rparr>) (A @ y # B)
      = sl_items sl A @ (ky ?nodes y, v) # sl_items sl B"
    using y by (auto simp: sl_items_def same it_value_def nth_list_update)
qed

text \<open>The store with the new node linked in at levels below its height.\<close>

lemma sl_inv_link_new:
  fixes sl :: "('k::linorder, 'v) skiplist" and pos :: nat
  assumes inv: "sl_inv sl (A @ B)" and A: "\<forall>x \<in> set A. ky (sl_nodes sl) x < k"
    and B: "\<forall>x \<in> set B. k < ky (sl_nodes sl) x" and h: "1 \<le> h" "h \<le> kMaxHeight"
    and shape: "same_shape nodes' (sl_nodes sl @ [\<lparr>n_key = k, n_val = Some v, n_height = h, n_next = replicate h None\<rparr>])"
    and nx: "\<And>x j. load_next nodes' x j =
      (if j < h then (if x = length (sl_nodes sl) then load_next nodes1 (p j) j
                      else if x = p j then Some (length (sl_nodes sl)) else load_next nodes1 x j)
       else load_next nodes1 x j)"
    and nodes1: "nodes1 = sl_nodes sl @ [\<lparr>n_key = k, n_val = Some v, n_height = h, n_next = replicate h None\<rparr>]"
    and p: "\<And>j. p j = pred_at (sl_nodes sl) j k (A @ B)"
    and a: "arena_inv a"
  defines "sl' \<equiv> sl\<lparr>sl_nodes := nodes', sl_max_height := max h (sl_max_height sl),
      sl_count := sl_count sl + 1, sl_rng := pos, sl_arena := a\<rparr>"
  shows "sl_inv sl' (A @ length (sl_nodes sl) # B)"
    and "sl_items sl' (A @ length (sl_nodes sl) # B) = sl_items sl A @ (k, v) # sl_items sl B"
proof -
  let ?nodes = "sl_nodes sl" and ?n = "length (sl_nodes sl)"
  have wf: "nodes_wf ?nodes" and dist: "distinct (A @ B)" and ord: "set (A @ B) = {1..<?n}"
    and sorted: "sorted_wrt (<) (map (ky ?nodes) (A @ B))" and mh: "sl_max_height sl \<le> kMaxHeight"
    and chains: "\<And>i. i < kMaxHeight \<Longrightarrow> chain ?nodes i (0 # level ?nodes i (A @ B))"
    using inv by (simp_all add: sl_inv_def)
  have ne: "0 < ?n" using wf by (simp add: nodes_wf_def)
  have len: "length nodes' = Suc ?n" using shape by (simp add: same_shape_def)
  have old: "ky nodes' x = ky ?nodes x \<and> ht nodes' x = ht ?nodes x \<and> n_val (nodes' ! x) = n_val (?nodes ! x)
      \<and> length (n_next (nodes' ! x)) = length (n_next (?nodes ! x))" if "x < ?n" for x
    using shape that by (auto simp: same_shape_def ky_def ht_def nth_append)
  have new: "ky nodes' ?n = k" "ht nodes' ?n = h" "n_val (nodes' ! ?n) = Some v" "length (n_next (nodes' ! ?n)) = h"
    using shape by (auto simp: same_shape_def ky_def ht_def nth_append)
  have ltA: "x < ?n" if "x \<in> set A" for x using ord that by auto
  have ltB: "x < ?n" if "x \<in> set B" for x using ord that by auto
  have nx1: "load_next nodes1 x j = load_next ?nodes x j" if "x < ?n" for x j
    using that by (simp add: nodes1 load_next_def nth_append)
  have levA: "level nodes' i A = level ?nodes i A" for i
    by (auto simp: level_def old ltA intro!: filter_cong)
  have levB: "level nodes' i B = level ?nodes i B" for i
    by (auto simp: level_def old ltB intro!: filter_cong)
  have lev: "level nodes' i (A @ ?n # B) = level ?nodes i A @ (if i < h then [?n] else []) @ level ?nodes i B" for i
    using levA [of i] levB [of i] new(2) by (simp add: level_def)
  have pi: "p i = last (0 # level ?nodes i A)" for i
  proof -
    have "\<forall>x \<in> set (level ?nodes i A). ky ?nodes x < k" using A by (simp add: level_def)
    moreover have "takeWhile (\<lambda>x. ky ?nodes x < k) (level ?nodes i B) = []"
    proof -
      have "\<forall>x \<in> set (level ?nodes i B). \<not> ky ?nodes x < k" using B by (fastforce simp: level_def)
      then show ?thesis using hd_in_set by (auto simp: takeWhile_eq_Nil_iff)
    qed
    ultimately have "takeWhile (\<lambda>x. ky ?nodes x < k) (level ?nodes i A @ level ?nodes i B) = level ?nodes i A"
      by (subst takeWhile_append2) auto
    then show ?thesis by (simp add: p pred_at_def level_def)
  qed
  have chain': "chain nodes' i (0 # level nodes' i (A @ ?n # B))" if i: "i < kMaxHeight" for i
  proof -
    let ?xs = "0 # level ?nodes i A" and ?zs = "level ?nodes i B"
    have c: "chain ?nodes i (?xs @ ?zs)" using chains [OF i] by (simp add: level_def)
    have below: "x < ?n" if "x \<in> set (?xs @ ?zs)" for x
      using that ltA ltB ne by (auto simp: level_def)
    have "0 \<notin> set (A @ B)" unfolding ord by simp
    then have d: "distinct (?xs @ ?zs)" using dist by (auto simp: level_def)
    have lst: "last ?xs < ?n" using below [of "last ?xs"] last_in_set [of ?xs] by auto
    show ?thesis
    proof (cases "i < h")
      case True
      have q: "p i = last ?xs" by (rule pi)
      have "chain nodes' i (?xs @ ?n # ?zs)"
      proof (rule chain_insert [OF c _ d])
        show "?n \<notin> set (?xs @ ?zs)" using below by blast
        show "load_next nodes' (last ?xs) i = Some ?n"
          using True lst by (simp only: nx q if_True) simp
        show "load_next nodes' ?n i = load_next ?nodes (last ?xs) i"
          using True nx1 [OF lst] by (simp only: nx q if_True) simp
        show "load_next nodes' x i = load_next ?nodes x i" if "x \<in> set (?xs @ ?zs)" "x \<noteq> last ?xs" for x
          using True that(2) below [OF that(1)] nx1 [OF below [OF that(1)]]
          by (simp only: nx q if_True) simp
      qed simp
      then show ?thesis using True lev [of i] by simp
    next
      case False
      have "chain nodes' i (?xs @ ?zs)" using c below False
        by (subst chain_cong [where nodes = ?nodes]) (auto simp: nx nx1)
      then show ?thesis using False lev [of i] by simp
    qed
  qed
  have wf': "nodes_wf nodes'"
    using wf old new h ne len by (auto simp: nodes_wf_def less_Suc_eq)
  have sorted': "sorted_wrt (<) (map (ky nodes') (A @ ?n # B))"
  proof -
    have "map (ky nodes') (A @ ?n # B) = map (ky ?nodes) A @ k # map (ky ?nodes) B"
      using old ltA ltB new by simp
    moreover have "sorted_wrt (<) (map (ky ?nodes) A @ k # map (ky ?nodes) B)"
      using sorted A B by (auto simp: sorted_wrt_append)
    ultimately show ?thesis by (simp only:)
  qed
  show "sl_inv sl' (A @ ?n # B)"
    unfolding sl_inv_def sl'_def
    using wf' sorted' chain' dist ord len mh h inv a old new ltA ltB Suc_leI [OF ne]
    by (auto simp: sl_inv_def)
  show "sl_items sl' (A @ ?n # B) = sl_items sl A @ (k, v) # sl_items sl B"
    using old ltA ltB new by (auto simp: sl_items_def sl'_def it_value_def)
qed

lemma sl_insert_spec:
  assumes inv: "sl_inv sl ord"
  shows "\<exists>sl' ord'. sl_insert rng k v sl = Some sl' \<and> sl_inv sl' ord' \<and>
    sl_items sl' ord' = upsert k v (sl_items sl ord)"
proof -
  let ?nodes = "sl_nodes sl"
  define A where "A = takeWhile (\<lambda>x. ky ?nodes x < k) ord"
  define B where "B = dropWhile (\<lambda>x. ky ?nodes x < k) ord"
  have ordAB: "ord = A @ B" by (simp add: A_def B_def)
  have sorted: "sorted_wrt (<) (map (ky ?nodes) (A @ B))" using inv by (simp add: sl_inv_def ordAB)
  have "takeWhile (\<lambda>x. ky ?nodes x < k) (A @ B) = A" by (simp add: A_def B_def)
  note split = ord_split [OF sorted this]
  obtain prev where fp: "find_prev sl k (replicate kMaxHeight None) = Some (pred_at ?nodes 0 k ord, prev)"
    and prev: "length prev = kMaxHeight" "\<forall>j < sl_max_height sl. prev ! j = Some (pred_at ?nodes j k ord)"
    using find_prev_insert [OF inv] .
  have nx0: "load_next ?nodes (pred_at ?nodes 0 k ord) 0 = (case B of [] \<Rightarrow> None | y # _ \<Rightarrow> Some y)"
    using load_next_pred [OF inv, of 0 k] level_0 [OF inv] by (simp add: kMaxHeight_def B_def)
  have items: "sl_items sl (xs @ ys) = sl_items sl xs @ sl_items sl ys" for xs ys by (simp add: sl_items_def)
  have arena: "arena_inv (sl_arena sl)" using inv by (simp add: sl_inv_def)
  show ?thesis
  proof (cases "\<exists>y B'. B = y # B' \<and> ky ?nodes y = k")
    case True
    then obtain y B' where y: "B = y # B'" "ky ?nodes y = k" by blast
    let ?a = "snd (allocate_aligned sizeof_Event (sl_arena sl))"
    let ?sl' = "sl\<lparr>sl_arena := ?a, sl_nodes := ?nodes[y := (?nodes ! y)\<lparr>n_val := Some v\<rparr>]\<rparr>"
    have ins: "sl_insert rng k v sl = Some ?sl'"
      using fp nx0 y by (simp add: sl_insert_def alloc_value_def ky_def)
    have "arena_inv ?a" using arena by (rule arena_inv_allocate_aligned)
    note set_value = sl_inv_set_value [OF inv [unfolded ordAB y(1)] this, of v]
    have "\<forall>x \<in> set B'. k < ky ?nodes x" using sorted y by (auto simp: sorted_wrt_append)
    then have "upsert k v (sl_items sl ord) = sl_items sl A @ (k, v) # sl_items sl B'"
      using upsert_items_split [of A "ky ?nodes" k B' "[y]" v "it_value sl"] split(1) y
      by (simp add: sl_items_def ordAB)
    then show ?thesis using ins set_value y(2) by metis
  next
    case False
    have B: "\<forall>x \<in> set B. k < ky ?nodes x"
    proof (cases B)
      case (Cons b bs)
      then have "k < ky ?nodes b" using False split(2) by (force simp: le_less)
      moreover have "\<forall>x \<in> set bs. ky ?nodes b < ky ?nodes x" using sorted Cons by (simp add: sorted_wrt_append)
      ultimately show ?thesis using Cons by force
    qed simp
    obtain h pos where rh: "random_height rng (sl_rng sl) = (h, pos)" by fastforce
    have h: "1 \<le> h" "h \<le> kMaxHeight"
      using random_height_bounds [of 1 rng "sl_rng sl"] rh by (auto simp: random_height_def kMaxHeight_def)
    let ?cm = "sl_max_height sl"
    let ?prev1 = "if h > ?cm then foldl (\<lambda>pv i. pv[i := Some 0]) prev [?cm..<h] else prev"
    let ?nd = "\<lparr>n_key = k, n_val = Some v, n_height = h, n_next = replicate h None\<rparr>"
    let ?nodes1 = "?nodes @ [?nd]" and ?n = "length ?nodes"
    let ?p = "\<lambda>j. pred_at ?nodes j k ord"
    have p1: "?prev1 ! j = Some (?p j)" if "j < h" for j
    proof (cases "j < ?cm")
      case True
      then show ?thesis using prev fill_prev [of ?cm h prev] h that by auto
    next
      case False
      then have "?p j = 0" using level_empty [OF inv, of j] by (simp add: pred_at_def)
      then show ?thesis using False fill_prev [of ?cm h prev] h that prev(1) by auto
    qed
    have "\<forall>i \<in> set [0..<h]. ?prev1 ! i = Some (?p i) \<and> ?p i \<noteq> ?n \<and> ?p i < length ?nodes1 \<and>
        i < length (n_next (?nodes1 ! ?n)) \<and> i < length (n_next (?nodes1 ! ?p i))"
    proof
      fix i assume "i \<in> set [0..<h]"
      then have i: "i < h" "i < kMaxHeight" using h by auto
      show "?prev1 ! i = Some (?p i) \<and> ?p i \<noteq> ?n \<and> ?p i < length ?nodes1 \<and>
        i < length (n_next (?nodes1 ! ?n)) \<and> i < length (n_next (?nodes1 ! ?p i))"
        using p1 [OF i(1)] pred_at_wf [OF inv i(2), of k] i(1) by (simp add: nth_append)
    qed
    from link_levels_spec [OF distinct_upt _ this]
    obtain nodes' where link: "link_levels ?n ?prev1 [0..<h] ?nodes1 = Some nodes'" "same_shape nodes' ?nodes1"
      and nx: "\<And>x j. load_next nodes' x j = (if j < h then (if x = ?n then load_next ?nodes1 (?p j) j
          else if x = ?p j then Some ?n else load_next ?nodes1 x j) else load_next ?nodes1 x j)"
      by auto
    let ?a = "snd (allocate_aligned (sizeof_Node + (h - 1) * sizeof_ptr)
      (snd (allocate_aligned sizeof_Event (sl_arena sl))))"
    let ?sl' = "sl\<lparr>sl_nodes := nodes', sl_max_height := max h ?cm, sl_count := sl_count sl + 1,
        sl_rng := pos, sl_arena := ?a\<rparr>"
    have ins: "sl_insert rng k v sl = Some ?sl'"
    proof -
      have "\<not> (case load_next ?nodes (?p 0) 0 of None \<Rightarrow> False
         | Some y \<Rightarrow> \<not> n_key (?nodes ! y) < k \<and> \<not> k < n_key (?nodes ! y))"
        using nx0 B by (cases B) (auto simp: ky_def)
      then show ?thesis
        using fp link(1) rh
        by (simp add: sl_insert_def Let_def new_node_def alloc_value_def max_def)
    qed
    have a: "arena_inv ?a" using arena by (intro arena_inv_allocate_aligned)
    note new = sl_inv_link_new [where p = ?p, OF inv [unfolded ordAB] split(1) B h link(2) nx refl _ a, of pos]
    have "upsert k v (sl_items sl ord) = sl_items sl A @ (k, v) # sl_items sl B"
      using upsert_items_split [of A "ky ?nodes" k B "[]" v "it_value sl"] split(1) B
      by (simp add: sl_items_def ordAB)
    then show ?thesis using ins new ordAB by metis
  qed
qed

section \<open>Walking, looking up, the empty list\<close>

lemma bottom_chain: "sl_inv sl ord \<Longrightarrow> chain (sl_nodes sl) 0 (0 # ord)"
proof -
  assume inv: "sl_inv sl ord"
  then have "chain (sl_nodes sl) 0 (0 # level (sl_nodes sl) 0 ord)" by (simp add: sl_inv_def kMaxHeight_def)
  then show ?thesis by (simp only: level_0 [OF inv])
qed

text \<open>The iterator visits the nodes in order: from any of them it moves to the next.\<close>

lemma it_next_ord: "sl_inv sl (A @ x # B) \<Longrightarrow> it_next sl x = (case B of [] \<Rightarrow> None | y # _ \<Rightarrow> Some y)"
  using bottom_chain [of sl "A @ x # B"] chain_suffix [of "sl_nodes sl" 0 "0 # A" "x # B"]
  by (simp add: it_next_def chain_head)

lemma it_first_ord: "sl_inv sl ord \<Longrightarrow> it_seek_to_first sl = (case ord of [] \<Rightarrow> None | y # _ \<Rightarrow> Some y)"
  using bottom_chain [of sl ord] by (simp add: it_seek_to_first_def chain_head)

lemma sl_contains_spec:
  assumes inv: "sl_inv sl ord"
  shows "sl_contains k sl = Some (k \<in> fst ` set (sl_items sl ord))"
proof -
  let ?f = "ky (sl_nodes sl)"
  define A where "A = takeWhile (\<lambda>x. ?f x < k) ord"
  define B where "B = dropWhile (\<lambda>x. ?f x < k) ord"
  have ord: "ord = A @ B" by (simp add: A_def B_def)
  have s: "sorted_wrt (<) (map ?f (A @ B))" using inv by (simp add: sl_inv_def ord)
  have "takeWhile (\<lambda>x. ?f x < k) (A @ B) = A" unfolding ord [symmetric] by (simp add: A_def)
  from ord_split [OF s this] have sp: "\<forall>x \<in> set A. ?f x < k" "\<forall>x \<in> set B. k \<le> ?f x" .
  have ge: "find_first_ge sl k = Some (case B of [] \<Rightarrow> None | y # _ \<Rightarrow> Some y)"
    by (simp add: find_first_ge_spec [OF inv] B_def)
  have mem: "k \<in> fst ` set (sl_items sl ord) \<longleftrightarrow> (\<exists>x \<in> set B. ?f x = k)"
    using sp(1) by (force simp: sl_items_def ord image_image image_Un)
  show ?thesis
  proof (cases B)
    case Nil
    then show ?thesis using mem ge by (simp add: sl_contains_def)
  next
    case (Cons y B')
    then have "\<forall>x \<in> set B'. ?f y < ?f x" using s by (simp add: sorted_wrt_append)
    then have "(\<exists>x \<in> set B. ?f x = k) \<longleftrightarrow> ?f y = k" using sp(2) Cons by force
    then show ?thesis using mem Cons sp(2) ge by (auto simp: sl_contains_def ky_def)
  qed
qed

lemma sl_inv_new: "sl_inv (skiplist_new k0) []"
proof -
  let ?nodes = "sl_nodes (skiplist_new k0)"
  have nodes: "?nodes = [\<lparr>n_key = k0, n_val = None, n_height = kMaxHeight, n_next = replicate kMaxHeight None\<rparr>]"
    by (simp add: skiplist_new_def new_node_def Let_def)
  have "arena_inv (sl_arena (skiplist_new k0))"
    by (simp add: skiplist_new_def new_node_def Let_def arena_inv_allocate_aligned)
  then show ?thesis
    using nodes by (simp add: sl_inv_def nodes_wf_def ht_def level_def load_next_def kMaxHeight_def)
      (simp add: skiplist_new_def new_node_def)
qed

lemma sl_rel_new: "sl_rel (skiplist_new k0) []"
  unfolding sl_rel_def by (intro exI [of _ "[]"]) (simp add: sl_inv_new sl_items_def)

section \<open>The interface\<close>

text \<open>
  An ordered store: inserting returns and updates the sorted association list that the
  store stands for; looking up answers from that list.
\<close>

lemma takeWhile_less_sorted:
  "sorted_wrt (<) (map fst xs) \<Longrightarrow> map_of (upsert k v xs) = (map_of xs)(k \<mapsto> (v :: 'v))"
  for k :: "'k::linorder"
proof (induction xs)
  case Nil
  then show ?case by (simp add: upsert_def)
next
  case (Cons x xs)
  obtain a b where x: "x = (a, b)" by fastforce
  have s: "sorted_wrt (<) (map fst xs)" "\<forall>y \<in> fst ` set xs. a < y" using Cons.prems x by auto
  consider "a < k" | "a = k" | "k < a" by fastforce
  then show ?case
  proof cases
    case 1
    then show ?thesis using Cons.IH [OF s(1)] x by (auto simp: upsert_def fun_eq_iff)
  next
    case 2
    have "dropWhile (\<lambda>(a, _). a \<le> k) xs = xs" using s(2) 2 by (cases xs) (auto simp: not_le)
    then show ?thesis using x 2 by (simp add: upsert_def fun_eq_iff)
  next
    case 3
    then show ?thesis using x by (auto simp: upsert_def fun_eq_iff)
  qed
qed

lemmas map_of_upsert = takeWhile_less_sorted

fun insert_all :: "('k \<Rightarrow> 'v \<Rightarrow> 't \<Rightarrow> 't option) \<Rightarrow> ('k \<times> 'v) list \<Rightarrow> 't \<Rightarrow> 't option" where
  "insert_all ins [] t = Some t"
| "insert_all ins ((k, v) # kvs) t = ins k v t \<bind> insert_all ins kvs"

locale ordered_store =
  fixes rel :: "'t \<Rightarrow> ('k::linorder \<times> 'v) list \<Rightarrow> bool"
    and insert :: "'k \<Rightarrow> 'v \<Rightarrow> 't \<Rightarrow> 't option"
    and contains :: "'k \<Rightarrow> 't \<Rightarrow> bool option"
  assumes insert_rel: "rel t xs \<Longrightarrow> \<exists>t'. insert k v t = Some t' \<and> rel t' (upsert k v xs)"
    and rel_sorted: "rel t xs \<Longrightarrow> sorted_wrt (<) (map fst xs)"
    and contains_rel: "rel t xs \<Longrightarrow> contains k t = Some (k \<in> fst ` set xs)"
begin

text \<open>Any number of insertions return; the last value of each key wins.\<close>

lemma insert_all_rel:
  assumes "rel t xs"
  shows "\<exists>t' xs'. insert_all insert kvs t = Some t' \<and> rel t' xs' \<and> sorted_wrt (<) (map fst xs') \<and>
    map_of xs' = map_of xs ++ map_of (rev kvs)"
  using assms
proof (induction kvs arbitrary: t xs)
  case Nil
  then show ?case using rel_sorted by auto
next
  case (Cons kv kvs)
  obtain k v where kv: "kv = (k, v)" by fastforce
  obtain t1 where t1: "insert k v t = Some t1" "rel t1 (upsert k v xs)" using insert_rel [OF Cons.prems] by blast
  from Cons.IH [OF t1(2)] obtain t' xs' where "insert_all insert kvs t1 = Some t'" "rel t' xs'"
    "sorted_wrt (<) (map fst xs')" "map_of xs' = map_of (upsert k v xs) ++ map_of (rev kvs)" by blast
  then show ?case using t1(1) kv map_of_upsert [OF rel_sorted [OF Cons.prems], of k v]
    by (auto simp: map_add_assoc [symmetric])
qed

lemma insert_all_contains:
  assumes "rel t xs" and "insert_all insert kvs t = Some t'"
  shows "contains k t' = Some (k \<in> fst ` set xs \<or> k \<in> fst ` set kvs)"
proof -
  obtain xs' where "rel t' xs'" and m: "map_of xs' = map_of xs ++ map_of (rev kvs)"
    using insert_all_rel [OF assms(1), of kvs] assms(2) by auto
  have "fst ` set xs' = fst ` set kvs \<union> fst ` set xs"
    using arg_cong [OF m, of dom] by (simp add: dom_map_of_conv_image_fst)
  then show ?thesis using contains_rel [OF \<open>rel t' xs'\<close>, of k] by (simp add: disj_commute)
qed

end

interpretation sl_store: ordered_store sl_rel "sl_insert rng" sl_contains for rng
proof (unfold_locales, goal_cases)
  case (1 t xs k v)
  then show ?case using sl_insert_spec unfolding sl_rel_def by metis
next
  case (2 t xs)
  then show ?case by (auto simp: sl_rel_def sl_items_sorted)
next
  case (3 t xs k)
  then show ?case by (auto simp: sl_rel_def sl_contains_spec)
qed


section \<open>Properties\<close>

text \<open>C29: Whatever pairs are inserted into a new skip list, and whatever heights the
  generator draws, every insertion returns; the list then holds one node per key, in
  strictly ascending order, with the value inserted last under it; and looking a key up
  returns, with the answer whether it was inserted.\<close>

theorem skiplist_ordered_map:
  "\<exists>sl ord. insert_all (sl_insert rng) kvs (skiplist_new k0) = Some sl \<and> sl_inv sl ord \<and>
     sorted_wrt (<) (map fst (sl_items sl ord)) \<and> map_of (sl_items sl ord) = map_of (rev kvs) \<and>
     sl_count sl = card (fst ` set kvs) \<and> (\<forall>k. sl_contains k sl = Some (k \<in> fst ` set kvs))"
proof -
  obtain sl xs where sl: "insert_all (sl_insert rng) kvs (skiplist_new k0) = Some sl" "sl_rel sl xs"
    and xs: "sorted_wrt (<) (map fst xs)" "map_of xs = map_of (rev kvs)"
    using sl_store.insert_all_rel [OF sl_rel_new [of k0], where kvs = kvs and rng = rng]
    unfolding map_of.simps empty_map_add by blast
  then obtain ord where ord: "sl_inv sl ord" "xs = sl_items sl ord" unfolding sl_rel_def by blast
  have "fst ` set xs = fst ` set kvs"
    using arg_cong [OF xs(2), of dom] by (simp add: dom_map_of_conv_image_fst)
  moreover have "card (fst ` set xs) = length xs"
    using xs(1) distinct_card [of "map fst xs"] by (simp add: strict_sorted_iff)
  ultimately have "sl_count sl = card (fst ` set kvs)"
    using ord by (simp add: sl_inv_def sl_items_def)
  then show ?thesis using sl(1) ord xs
      sl_store.insert_all_contains [OF sl_rel_new sl(1)] by auto
qed

end
