(* ===== verification/MemTable.thy ===== *)
theory MemTable
  imports SkipList Events
begin

text \<open>
  The memtable (storage/memtable.hpp, storage/memtable.cpp): a skip list keyed by the
  event's key, the first and last key seen, the flush threshold against the arena's
  memory, range scans and the sorted dump that a flush writes out.
\<close>

record memtable =
  flush_threshold :: nat
  mt_sl :: "(key, event) skiplist"
  has_entries :: bool
  first_key :: key
  last_key :: key

definition memtable_new :: "nat \<Rightarrow> memtable" where
  "memtable_new threshold =
     \<lparr>flush_threshold = threshold, mt_sl = skiplist_new default_key, has_entries = False,
      first_key = default_key, last_key = default_key\<rparr>"

definition memtable_insert :: "(nat \<Rightarrow> u32) \<Rightarrow> event \<Rightarrow> memtable \<Rightarrow> memtable option" where
  "memtable_insert rng e m = do {
     sl \<leftarrow> sl_insert rng (event_key e) e (mt_sl m);
     let m1 = m\<lparr>mt_sl := sl\<rparr>;
     let k = event_key e;
     Some (if \<not> has_entries m1
           then m1\<lparr>first_key := k, last_key := k, has_entries := True\<rparr>
           else (let m2 = (if k < first_key m1 then m1\<lparr>first_key := k\<rparr> else m1)
                 in if k > last_key m2 then m2\<lparr>last_key := k\<rparr> else m2))
   }"

text \<open>The loop of \<^verbatim>\<open>scan\<close> from the node the iterator stands on.\<close>

partial_function (option) memtable_scan_loop ::
  "(key, event) skiplist \<Rightarrow> nat option \<Rightarrow> key \<Rightarrow> (event \<Rightarrow> 's \<Rightarrow> bool \<times> 's) \<Rightarrow> 's \<Rightarrow> 's option" where
  "memtable_scan_loop sl it hi cb s =
     (case it of
        None \<Rightarrow> Some s
      | Some x \<Rightarrow>
          if n_key (sl_nodes sl ! x) > hi then Some s
          else (case cb (it_value sl x) s of
                  (cont, s') \<Rightarrow> if \<not> cont then Some s'
                                else memtable_scan_loop sl (it_next sl x) hi cb s'))"

definition memtable_scan :: "memtable \<Rightarrow> key \<Rightarrow> key \<Rightarrow> (event \<Rightarrow> 's \<Rightarrow> bool \<times> 's) \<Rightarrow> 's \<Rightarrow> 's option" where
  "memtable_scan m start end cb s = do {
     it \<leftarrow> find_first_ge (mt_sl m) start;
     memtable_scan_loop (mt_sl m) it end cb s
   }"

partial_function (option) to_sorted_loop :: "(key, event) skiplist \<Rightarrow> nat option \<Rightarrow> event list \<Rightarrow> event list option" where
  "to_sorted_loop sl it v =
     (case it of
        None \<Rightarrow> Some v
      | Some x \<Rightarrow> to_sorted_loop sl (it_next sl x) (v @ [it_value sl x]))"

definition to_sorted_events :: "memtable \<Rightarrow> event list option" where
  "to_sorted_events m = to_sorted_loop (mt_sl m) (it_seek_to_first (mt_sl m)) []"

definition memtable_size_bytes :: "memtable \<Rightarrow> nat" where
  "memtable_size_bytes m = memory_used (sl_arena (mt_sl m))"

definition memtable_count :: "memtable \<Rightarrow> nat" where
  "memtable_count m = sl_count (mt_sl m)"

definition should_flush :: "memtable \<Rightarrow> bool" where
  "should_flush m \<longleftrightarrow> memory_used (sl_arena (mt_sl m)) \<ge> flush_threshold m"

definition memtable_empty :: "memtable \<Rightarrow> bool" where
  "memtable_empty m = sl_empty (mt_sl m)"

definition memtable_min_key :: "memtable \<Rightarrow> key" where
  "memtable_min_key m = (if \<not> has_entries m then default_key else first_key m)"

definition memtable_max_key :: "memtable \<Rightarrow> key" where
  "memtable_max_key m = (if \<not> has_entries m then default_key else last_key m)"

section \<open>The events a memtable holds\<close>

definition keyed :: "event list \<Rightarrow> (key \<times> event) list" where
  "keyed es = map (\<lambda>e. (event_key e, e)) es"

text \<open>The sorted list after an insertion: an event with the same key is replaced.\<close>

definition event_upsert :: "event \<Rightarrow> event list \<Rightarrow> event list" where
  "event_upsert e es =
     takeWhile (\<lambda>x. event_key x < event_key e) es @ e # dropWhile (\<lambda>x. event_key x \<le> event_key e) es"

definition memtable_rel :: "memtable \<Rightarrow> event list \<Rightarrow> bool" where
  "memtable_rel m es \<longleftrightarrow>
     (\<exists>ord. sl_inv (mt_sl m) ord \<and> sl_items (mt_sl m) ord = keyed es) \<and>
     has_entries m = (es \<noteq> []) \<and>
     (es \<noteq> [] \<longrightarrow> first_key m = event_key (hd es) \<and> last_key m = event_key (last es))"

lemma upsert_keyed: "upsert (event_key e) e (keyed es) = keyed (event_upsert e es)"
  by (simp add: upsert_def keyed_def event_upsert_def takeWhile_map dropWhile_map comp_def)

lemma memtable_rel_sorted: "memtable_rel m es \<Longrightarrow> sorted_events es"
proof -
  assume "memtable_rel m es"
  then obtain ord where o: "sl_inv (mt_sl m) ord" "sl_items (mt_sl m) ord = keyed es"
    by (auto simp: memtable_rel_def)
  show ?thesis using sl_items_sorted [OF o(1)] unfolding o(2) by (simp add: keyed_def comp_def)
qed

text \<open>In a sorted list the two halves around a key are the events below and above it.\<close>

lemma set_takeWhile_key: "sorted_events es \<Longrightarrow> set (takeWhile (\<lambda>x. event_key x < k) es) = {x \<in> set es. event_key x < k}"
proof (induction es)
  case (Cons x xs)
  then have "\<forall>y \<in> set xs. event_key x < event_key y" by simp
  then have "\<not> event_key x < k \<Longrightarrow> y \<in> set xs \<Longrightarrow> \<not> event_key y < k" for y
    using less_trans by blast
  then show ?case using Cons.IH Cons.prems by (cases "event_key x < k") auto
qed simp

lemma set_dropWhile_key: "sorted_events es \<Longrightarrow> set (dropWhile (\<lambda>x. event_key x \<le> k) es) = {x \<in> set es. k < event_key x}"
proof (induction es)
  case (Cons x xs)
  then have "\<forall>y \<in> set xs. event_key x < event_key y" by simp
  then have "\<not> event_key x \<le> k \<Longrightarrow> y \<in> set xs \<Longrightarrow> k < event_key y" for y
    using less_trans not_le by blast
  then show ?case using Cons.IH Cons.prems by (cases "event_key x \<le> k") auto
qed simp

lemma set_event_upsert:
  "sorted_events es \<Longrightarrow> set (event_upsert e es) = insert e {x \<in> set es. event_key x \<noteq> event_key e}"
  unfolding event_upsert_def set_append list.set set_takeWhile_key set_dropWhile_key
  using neq_iff by blast

lemma sorted_event_upsert: "sorted_events es \<Longrightarrow> sorted_events (event_upsert e es)"
proof -
  assume s: "sorted_events es"
  define A where "A = takeWhile (\<lambda>x. event_key x < event_key e) es"
  define B where "B = dropWhile (\<lambda>x. event_key x \<le> event_key e) es"
  have tail: "\<forall>x \<in> set B. event_key e < event_key x"
    unfolding B_def using s
  proof (induction es)
    case (Cons x xs)
    then show ?case by (cases "event_key x \<le> event_key e") (auto simp: not_le intro: less_trans)
  qed simp
  have head: "\<forall>x \<in> set A. event_key x < event_key e" by (auto simp: A_def dest: set_takeWhileD)
  obtain A' where "es = A @ A'" using takeWhile_dropWhile_id [symmetric] unfolding A_def by blast
  then have sA: "sorted_events A" using s by (simp add: sorted_wrt_append)
  obtain B' where "es = B' @ B" using takeWhile_dropWhile_id [symmetric] unfolding B_def by blast
  then have sB: "sorted_events B" using s by (simp add: sorted_wrt_append)
  show ?thesis unfolding event_upsert_def A_def [symmetric] B_def [symmetric]
    using sA sB head tail by (fastforce simp: sorted_wrt_append intro: less_trans)
qed

lemma event_upsert_nonempty [simp]: "event_upsert e es \<noteq> []"
  by (simp add: event_upsert_def)

text \<open>The ends of the sorted list after an insertion are the smaller and the larger key.\<close>

lemma hd_event_upsert:
  "es \<noteq> [] \<Longrightarrow> event_key (hd (event_upsert e es)) = min (event_key e) (event_key (hd es))"
  by (cases es) (auto simp: event_upsert_def min_def not_less)

lemma last_event_upsert:
  assumes "sorted_events es" and "es \<noteq> []"
  shows "event_key (last (event_upsert e es)) = max (event_key e) (event_key (last es))"
proof -
  define A where "A = takeWhile (\<lambda>x. event_key x < event_key e) es"
  define D where "D = dropWhile (\<lambda>x. event_key x \<le> event_key e) es"
  obtain B' where B': "es = B' @ D"
    using takeWhile_dropWhile_id [symmetric] unfolding D_def by blast
  have up: "event_upsert e es = A @ e # D" by (simp add: event_upsert_def A_def D_def)
  show ?thesis
  proof (cases "D = []")
    case True
    then have "\<forall>x \<in> set es. event_key x \<le> event_key e" by (simp add: D_def dropWhile_eq_Nil_conv)
    then show ?thesis using True assms(2) by (simp add: up max_absorb1)
  next
    case False
    then have l: "last es = last D" by (simp add: B')
    have "last D \<in> {x \<in> set es. event_key e < event_key x}"
      using last_in_set [OF False] unfolding D_def set_dropWhile_key [OF assms(1)] .
    then show ?thesis using False by (simp add: up l max_absorb2)
  qed
qed

lemma memtable_rel_new: "memtable_rel (memtable_new t) []"
  unfolding memtable_rel_def
  by (simp add: memtable_new_def keyed_def) (intro exI [of _ "[]"], simp add: sl_inv_new sl_items_def)

lemma memtable_insert_spec:
  assumes rel: "memtable_rel m es"
  shows "\<exists>m'. memtable_insert rng e m = Some m' \<and> memtable_rel m' (event_upsert e es) \<and>
    flush_threshold m' = flush_threshold m"
proof -
  obtain ord where ord: "sl_inv (mt_sl m) ord" "sl_items (mt_sl m) ord = keyed es"
    using rel unfolding memtable_rel_def by blast
  obtain sl' ord' where ins: "sl_insert rng (event_key e) e (mt_sl m) = Some sl'" "sl_inv sl' ord'"
    "sl_items sl' ord' = keyed (event_upsert e es)"
    using sl_insert_spec [OF ord(1), of rng "event_key e" e] unfolding ord(2) upsert_keyed by blast
  have h: "has_entries m = (es \<noteq> [])" "es \<noteq> [] \<Longrightarrow> first_key m = event_key (hd es)"
      "es \<noteq> [] \<Longrightarrow> last_key m = event_key (last es)"
    using rel by (simp_all add: memtable_rel_def)
  show ?thesis
  proof (cases "es = []")
    case True
    then have "event_upsert e es = [e]" by (simp add: event_upsert_def)
    then show ?thesis using ins h True
      by (simp add: memtable_insert_def Let_def memtable_rel_def) blast
  next
    case False
    define m' where "m' = m\<lparr>mt_sl := sl', first_key := min (event_key e) (first_key m),
      last_key := max (event_key e) (last_key m)\<rparr>"
    have "first_key m \<le> last_key m"
      using h False memtable_rel_sorted [OF rel] by (cases es) (auto simp: less_imp_le)
    then have "memtable_insert rng e m = Some m'"
      using ins(1) h(1) False by (auto simp: memtable_insert_def Let_def m'_def min_def max_def not_less)
    moreover have "memtable_rel m' (event_upsert e es)"
      unfolding memtable_rel_def m'_def
      using ins(2,3) h False hd_event_upsert [OF False, of e]
        last_event_upsert [OF memtable_rel_sorted [OF rel] False, of e] by auto
    ultimately show ?thesis by (simp add: m'_def)
  qed
qed

section \<open>Scans and the sorted dump\<close>

lemma keyed_items:
  "sl_items sl ord = keyed es \<Longrightarrow> es = map (it_value sl) ord \<and> (\<forall>x \<in> set ord. ky (sl_nodes sl) x = event_key (it_value sl x))"
proof (induction ord arbitrary: es)
  case (Cons x ord)
  then show ?case by (cases es) (auto simp: sl_items_def keyed_def)
qed (simp add: sl_items_def keyed_def)

abbreviation node_at :: "nat list \<Rightarrow> nat option" where
  "node_at B \<equiv> (case B of [] \<Rightarrow> None | y # _ \<Rightarrow> Some y)"

lemma memtable_scan_loop_spec:
  assumes "sl_inv sl (A @ B)" and "\<forall>x \<in> set B. ky (sl_nodes sl) x = event_key (it_value sl x)"
  shows "memtable_scan_loop sl (node_at B) hi cb s
    = Some (snd (run_cb cb (takeWhile (\<lambda>e. event_key e \<le> hi) (map (it_value sl) B)) s))"
  using assms
proof (induction B arbitrary: A s)
  case Nil
  then show ?case by (subst memtable_scan_loop.simps) simp
next
  case (Cons x B)
  have nx: "it_next sl x = node_at B" by (rule it_next_ord [OF Cons.prems(1)])
  have k: "n_key (sl_nodes sl ! x) = event_key (it_value sl x)" using Cons.prems(2) by (simp add: ky_def)
  have IH: "memtable_scan_loop sl (node_at B) hi cb s'
    = Some (snd (run_cb cb (takeWhile (\<lambda>e. event_key e \<le> hi) (map (it_value sl) B)) s'))" for s'
    using Cons.IH [of "A @ [x]" s'] Cons.prems by simp
  show ?case
    by (subst memtable_scan_loop.simps) (auto simp: k nx IH split: prod.splits bool.splits)
qed

lemma memtable_scan_spec:
  assumes rel: "memtable_rel m es"
  shows "memtable_scan m lo hi cb s = Some (snd (run_cb cb (filter (in_range lo hi) es) s))"
proof -
  obtain ord where ord: "sl_inv (mt_sl m) ord" "sl_items (mt_sl m) ord = keyed es"
    using rel unfolding memtable_rel_def by blast
  have es: "es = map (it_value (mt_sl m)) ord"
    and ks: "\<And>x. x \<in> set ord \<Longrightarrow> ky (sl_nodes (mt_sl m)) x = event_key (it_value (mt_sl m) x)"
    using keyed_items [OF ord(2)] by blast+
  let ?P = "\<lambda>x. ky (sl_nodes (mt_sl m)) x < lo"
  obtain A B where AB: "ord = A @ B" and B: "B = dropWhile ?P ord"
    using takeWhile_dropWhile_id [symmetric] by blast
  have "B = dropWhile (\<lambda>x. event_key (it_value (mt_sl m) x) < lo) ord"
    unfolding B by (intro dropWhile_cong) (simp_all add: ks)
  then have vals: "map (it_value (mt_sl m)) B = dropWhile (\<lambda>e. event_key e < lo) es"
    unfolding es dropWhile_map comp_def by simp
  have "find_first_ge (mt_sl m) lo = Some (node_at B)"
    unfolding B by (rule find_first_ge_spec [OF ord(1)])
  moreover have "\<forall>x \<in> set B. ky (sl_nodes (mt_sl m)) x = event_key (it_value (mt_sl m) x)"
    using ks by (simp add: AB)
  note memtable_scan_loop_spec [OF ord(1) [unfolded AB] this, of hi cb s]
  ultimately show ?thesis
    unfolding memtable_scan_def vals range_filter [OF memtable_rel_sorted [OF rel]] by simp
qed

interpretation memtable_scan: scan_source memtable_rel memtable_scan Some
  by unfold_locales (rule memtable_rel_sorted, assumption, rule memtable_scan_spec)

lemma to_sorted_loop_spec:
  "sl_inv sl (A @ B) \<Longrightarrow> to_sorted_loop sl (node_at B) v = Some (v @ map (it_value sl) B)"
proof (induction B arbitrary: A v)
  case Nil
  then show ?case by (subst to_sorted_loop.simps) simp
next
  case (Cons x B)
  have "it_next sl x = node_at B" by (rule it_next_ord [OF Cons.prems])
  then show ?case using Cons.IH [of "A @ [x]"] Cons.prems
    by (subst to_sorted_loop.simps) simp
qed

lemma to_sorted_events_spec: "memtable_rel m es \<Longrightarrow> to_sorted_events m = Some es"
proof -
  assume rel: "memtable_rel m es"
  then obtain ord where ord: "sl_inv (mt_sl m) ord" "sl_items (mt_sl m) ord = keyed es"
    unfolding memtable_rel_def by blast
  then have "it_seek_to_first (mt_sl m) = node_at ord" using it_first_ord by blast
  then show ?thesis using to_sorted_loop_spec [of "mt_sl m" "[]" ord "[]"] ord(1) keyed_items [OF ord(2)]
    by (simp add: to_sorted_events_def)
qed

lemma memtable_count_spec: "memtable_rel m es \<Longrightarrow> memtable_count m = length es"
proof -
  assume rel: "memtable_rel m es"
  then obtain ord where ord: "sl_inv (mt_sl m) ord" "sl_items (mt_sl m) ord = keyed es"
    unfolding memtable_rel_def by blast
  then show ?thesis using keyed_items [OF ord(2)] by (simp add: memtable_count_def sl_inv_def)
qed

lemma memtable_empty_spec: "memtable_rel m es \<Longrightarrow> memtable_empty m = (es = [])"
  using memtable_count_spec [of m es] by (simp add: memtable_empty_def sl_empty_def memtable_count_def)

text \<open>Several insertions in a row, as a recovery or a batch does them.\<close>

primrec memtable_insert_all :: "(nat \<Rightarrow> u32) \<Rightarrow> event list \<Rightarrow> memtable \<Rightarrow> memtable option" where
  "memtable_insert_all rng [] m = Some m"
| "memtable_insert_all rng (e # es) m = memtable_insert rng e m \<bind> memtable_insert_all rng es"

lemma memtable_insert_all_spec:
  assumes "memtable_rel m es"
  shows "\<exists>m'. memtable_insert_all rng ins m = Some m' \<and> memtable_rel m' (fold event_upsert ins es) \<and>
    flush_threshold m' = flush_threshold m"
  using assms
proof (induction ins arbitrary: m es)
  case (Cons e ins)
  obtain m1 where "memtable_insert rng e m = Some m1" "memtable_rel m1 (event_upsert e es)"
    "flush_threshold m1 = flush_threshold m"
    using memtable_insert_spec [OF Cons.prems] by blast
  then show ?case using Cons.IH [of m1 "event_upsert e es"] by auto
qed simp

section \<open>Properties\<close>

lemma keyed_sorted: "sorted_events es \<Longrightarrow> sorted_wrt (<) (map fst (keyed es))"
  by (simp add: keyed_def comp_def)

lemma keyed_simps [simp]: "keyed [] = []" "keyed (e # es) = (event_key e, e) # keyed es"
  by (simp_all add: keyed_def)

lemma map_of_fold_upsert:
  "sorted_events es \<Longrightarrow>
     map_of (keyed (fold event_upsert ins es)) = map_of (keyed es) ++ map_of (rev (keyed ins))"
proof (induction ins arbitrary: es)
  case Nil
  then show ?case by simp
next
  case (Cons e ins)
  have "map_of (keyed (event_upsert e es)) = (map_of (keyed es))(event_key e \<mapsto> e)"
    using map_of_upsert [OF keyed_sorted [OF Cons.prems], of "event_key e" e] by (simp add: upsert_keyed)
  then have "map_of (keyed (fold event_upsert (e # ins) es))
      = (map_of (keyed es))(event_key e \<mapsto> e) ++ map_of (rev (keyed ins))"
    unfolding fold_Cons comp_apply Cons.IH [OF sorted_event_upsert [OF Cons.prems], of e] by (simp only:)
  also have "(map_of (keyed es))(event_key e \<mapsto> e) = map_of (keyed es) ++ map_of [(event_key e, e)]" by simp
  finally show ?case by (simp only: keyed_simps rev.simps map_of_append map_add_assoc [symmetric])
qed

lemma memtable_built:
  "\<exists>m es. memtable_insert_all rng ins (memtable_new t) = Some m \<and> memtable_rel m es \<and>
     map_of (keyed es) = map_of (rev (keyed ins))"
  using memtable_insert_all_spec [OF memtable_rel_new [of t], where ins = ins and rng = rng]
    map_of_fold_upsert [of "[]" ins] by auto

text \<open>C28: After any run of insertions into a new memtable the sorted dump, which is what a
  flush writes out, returns the events in strictly ascending key order, for each key the
  event inserted last; the count and the smallest and largest key agree with it.\<close>

theorem memtable_contents:
  "\<exists>m es. memtable_insert_all rng ins (memtable_new t) = Some m \<and> to_sorted_events m = Some es \<and>
     sorted_events es \<and> map_of (keyed es) = map_of (rev (keyed ins)) \<and> memtable_count m = length es \<and>
     memtable_min_key m = (case es of [] \<Rightarrow> default_key | e # _ \<Rightarrow> event_key e) \<and>
     memtable_max_key m = (case rev es of [] \<Rightarrow> default_key | e # _ \<Rightarrow> event_key e)"
proof -
  obtain m es where m: "memtable_insert_all rng ins (memtable_new t) = Some m" "memtable_rel m es"
    "map_of (keyed es) = map_of (rev (keyed ins))" using memtable_built by blast
  have "memtable_min_key m = (case es of [] \<Rightarrow> default_key | e # _ \<Rightarrow> event_key e)"
    using m(2) by (cases es) (auto simp: memtable_rel_def memtable_min_key_def)
  moreover have "memtable_max_key m = (case rev es of [] \<Rightarrow> default_key | e # _ \<Rightarrow> event_key e)"
    using m(2) by (cases es rule: rev_cases) (auto simp: memtable_rel_def memtable_max_key_def)
  ultimately show ?thesis
    using m to_sorted_events_spec memtable_rel_sorted memtable_count_spec by blast
qed

text \<open>A range scan of a memtable built by any run of insertions returns and runs the
  callback over exactly the stored events whose key lies between the two bounds, in key
  order, stopping when the callback asks to.\<close>

theorem memtable_scan_range:
  "\<exists>m es. memtable_insert_all rng ins (memtable_new t) = Some m \<and> to_sorted_events m = Some es \<and>
     memtable_scan m lo hi cb s = Some (snd (run_cb cb (filter (in_range lo hi) es) s))"
proof -
  obtain m es where m: "memtable_insert_all rng ins (memtable_new t) = Some m" "memtable_rel m es"
    using memtable_built by blast
  show ?thesis
    by (intro exI [of _ m] exI [of _ es] conjI m(1) to_sorted_events_spec [OF m(2)]
        memtable_scan.scan_run [OF m(2)])
qed

end
