(* ===== verification/SymbolTable.thy ===== *)
theory SymbolTable
  imports Files "HOL-Library.Multiset"
begin

text \<open>
  The symbol table (util/symbol_table.hpp, util/symbol_table.cpp): interning assigns
  consecutive numbers and appends an entry to the file; loading replays the file; flushing
  rewrites it in the order in which the hash map yields its elements, which is an argument
  of the model. The hash map itself is an association list. The lock makes every operation
  one step. A write that fails inside the stream is not reported: \<open>os\<close> says how
  much of it reaches the file.
\<close>

record symtab =
  st_path :: string
  st_file :: "bytes option"
  name_to_id :: "(string \<times> u32) list"
  id_to_name :: "u32 \<rightharpoonup> string"
  next_id :: u32

definition name_bytes :: "string \<Rightarrow> bytes" where
  "name_bytes name = map of_char name"

definition bytes_name :: "bytes \<Rightarrow> string" where
  "bytes_name b = map (\<lambda>x. char_of (unat x)) b"

text \<open>The six bytes and the name; the length is cut to 16 bits.\<close>

definition entry_bytes :: "u32 \<Rightarrow> string \<Rightarrow> bytes" where
  "entry_bytes sid name =
     (let len = word_of_nat (length name) :: u16
      in [ucast (sid AND 0xFF), ucast (drop_bit 8 sid AND 0xFF), ucast (drop_bit 16 sid AND 0xFF),
          ucast (drop_bit 24 sid AND 0xFF), ucast (len AND 0xFF), ucast (drop_bit 8 len AND 0xFF)]
         @ name_bytes name)"

definition append_entry :: "os \<Rightarrow> u32 \<Rightarrow> string \<Rightarrow> symtab \<Rightarrow> (exn + unit) \<times> symtab" where
  "append_entry os sid name st =
     (if \<not> os_open os (st_path st)
      then (Inl (Runtime_error (''cannot open symbol table: '' @ st_path st)), st)
      else let data = entry_bytes sid name;
               old = (case st_file st of None \<Rightarrow> [] | Some f \<Rightarrow> f)
           in (Inr (), st\<lparr>st_file := Some (old @ take (os_written os (length data)) data)\<rparr>))"

definition symtab_intern :: "os \<Rightarrow> string \<Rightarrow> symtab \<Rightarrow> (exn + u32) \<times> symtab" where
  "symtab_intern os symbol st =
     (case map_of (name_to_id st) symbol of
        Some sid \<Rightarrow> (Inr sid, st)
      | None \<Rightarrow>
          let sid = next_id st;
              st1 = st\<lparr>next_id := sid + 1,
                       name_to_id := AList.update symbol sid (name_to_id st),
                       id_to_name := (id_to_name st)(sid \<mapsto> symbol)\<rparr>
          in and_then (append_entry os sid symbol st1) (\<lambda>_ st2. (Inr sid, st2)))"

definition symtab_lookup :: "string \<Rightarrow> symtab \<Rightarrow> u32 option" where
  "symtab_lookup symbol st = map_of (name_to_id st) symbol"

definition symtab_lookup_name :: "u32 \<Rightarrow> symtab \<Rightarrow> string option" where
  "symtab_lookup_name sid st = id_to_name st sid"

definition symtab_size :: "symtab \<Rightarrow> nat" where
  "symtab_size st = length (name_to_id st)"

definition symtab_names :: "((string \<times> u32) list \<Rightarrow> (string \<times> u32) list) \<Rightarrow> symtab \<Rightarrow> string list" where
  "symtab_names order st = map fst (order (name_to_id st))"

text \<open>One entry read from the file.\<close>

definition load_entry :: "string \<times> u32 \<Rightarrow> symtab \<Rightarrow> symtab" where
  "load_entry ns st =
     (let (name, sid) = ns
      in st\<lparr>name_to_id := AList.update name sid (name_to_id st),
            id_to_name := (id_to_name st)(sid \<mapsto> name),
            next_id := (if sid \<ge> next_id st then sid + 1 else next_id st)\<rparr>)"

function load_loop :: "bytes \<Rightarrow> symtab \<Rightarrow> symtab" where
  "load_loop f st =
     (if length f < 6 then st
      else let sid = ucast (f ! 0) OR push_bit 8 (ucast (f ! 1)) OR push_bit 16 (ucast (f ! 2))
                     OR push_bit 24 (ucast (f ! 3));
               len = ucast (f ! 4) OR push_bit 8 (ucast (f ! 5)) :: u16;
               name = take (unat len) (drop 6 f)
           in if length name < unat len then st
              else load_loop (drop (6 + unat len) f) (load_entry (bytes_name name, sid) st))"
  by pat_completeness auto
termination
  by (relation "measure (\<lambda>(f, st). length f)") auto

declare load_loop.simps [simp del]

text \<open>A file that cannot be opened is silently skipped.\<close>

definition symtab_load :: "os \<Rightarrow> symtab \<Rightarrow> symtab" where
  "symtab_load os st =
     (case st_file st of
        None \<Rightarrow> st
      | Some f \<Rightarrow> if \<not> os_open os (st_path st) then st else load_loop f st)"

definition symtab_new :: "os \<Rightarrow> string \<Rightarrow> bytes option \<Rightarrow> symtab" where
  "symtab_new os path f =
     (let st = \<lparr>st_path = path, st_file = f, name_to_id = [], id_to_name = Map.empty, next_id = 1\<rparr>
      in case f of None \<Rightarrow> st | Some _ \<Rightarrow> symtab_load os st)"

definition symtab_flush ::
  "os \<Rightarrow> ((string \<times> u32) list \<Rightarrow> (string \<times> u32) list) \<Rightarrow> symtab \<Rightarrow> (exn + unit) \<times> symtab" where
  "symtab_flush os order st =
     (if \<not> os_open os (st_path st) then (Inl (Runtime_error ''cannot open symbol table for flush''), st)
      else let data = concat (map (\<lambda>(name, sid). entry_bytes sid name) (order (name_to_id st)))
           in (Inr (), st\<lparr>st_file := Some (take (os_written os (length data)) data)\<rparr>))"

section \<open>Entries\<close>

definition entries_bytes :: "(string \<times> u32) list \<Rightarrow> bytes" where
  "entries_bytes es = concat (map (\<lambda>(name, sid). entry_bytes sid name) es)"

lemma unat_of_char: "unat (of_char c :: u8) = of_char c"
proof -
  have "(of_char c :: u8) = word_of_nat (of_char c)" by (simp add: of_nat_of_char)
  then show ?thesis using unat_word_of_nat [where 'a = 8, of "of_char c"] by simp
qed

lemma bytes_name_bytes [simp]: "bytes_name (name_bytes name) = name"
  by (simp add: bytes_name_def name_bytes_def unat_of_char map_idI)

lemma length_name_bytes [simp]: "length (name_bytes name) = length name"
  by (simp add: name_bytes_def)

lemma length_bytes_name [simp]: "length (bytes_name b) = length b"
  by (simp add: bytes_name_def)

definition write_u16 :: "u16 \<Rightarrow> bytes" where
  "write_u16 v = write_le v"

lemma upt_2: "[0..<2] = [0, 1::nat]" by (simp add: upt_rec)

lemma entry_bytes_eq:
  "entry_bytes sid name = write_u32 sid @ write_u16 (word_of_nat (length name)) @ name_bytes name"
  by (simp add: entry_bytes_def write_u32_def write_u16_def write_le_def upt_2 ucast_and_255 Let_def)

lemma length_write_u16 [simp]: "length (write_u16 v) = 2"
  by (simp add: write_u16_def)

text \<open>The fields the loop reads.\<close>

lemma load_loop_eq:
  "load_loop f st =
     (if length f < 6 then st
      else let len = read_le (drop 4 f) :: u16; name = take (unat len) (drop 6 f)
           in if length name < unat len then st
              else load_loop (drop (6 + unat len) f) (load_entry (bytes_name name, read_u32 f) st))"
  by (subst load_loop.simps) (simp add: read_u32_def read_le_def upt_2 Let_def)

lemma load_loop_entry:
  assumes "length name < 2 ^ 16"
  shows "load_loop (entry_bytes sid name @ f) st = load_loop f (load_entry (name, sid) st)"
proof -
  have len: "unat (word_of_nat (length name) :: u16) = length name"
    using assms by (intro unat_word_of_nat) simp
  have "read_le (drop 4 (entry_bytes sid name @ f)) = (word_of_nat (length name) :: u16)"
    by (simp add: entry_bytes_eq write_u16_def read_le_write_le)
  moreover have "drop 6 (entry_bytes sid name @ f) = name_bytes name @ f"
    by (simp add: entry_bytes_eq)
  moreover have "drop (6 + length name) (entry_bytes sid name @ f) = f" by (simp add: entry_bytes_eq)
  moreover have "read_u32 (entry_bytes sid name @ f) = sid" by (simp add: entry_bytes_eq)
  moreover have "\<not> length (entry_bytes sid name @ f) < 6" by (simp add: entry_bytes_eq)
  ultimately show ?thesis by (subst load_loop_eq) (simp add: Let_def len)
qed

lemma load_loop_entries:
  "\<forall>(name, sid) \<in> set es. length name < 2 ^ 16 \<Longrightarrow> load_loop (entries_bytes es) st = fold load_entry es st"
proof (induction es arbitrary: st)
  case Nil
  then show ?case by (subst load_loop.simps) (simp add: entries_bytes_def)
next
  case (Cons e es)
  then show ?case by (cases e) (simp add: entries_bytes_def load_loop_entry)
qed

lemma entries_bytes_append [simp]: "entries_bytes (xs @ ys) = entries_bytes xs @ entries_bytes ys"
  by (simp add: entries_bytes_def)

section \<open>The invariant\<close>

text \<open>The number after all of a list.\<close>

definition id_after :: "u32 \<Rightarrow> u32 \<Rightarrow> u32" where
  "id_after sid n = (if sid \<ge> n then sid + 1 else n)"

text \<open>Names and numbers determine each other; the numbers ascend to \<open>next_id\<close>; the file holds the entries.\<close>

definition symtab_maps :: "symtab \<Rightarrow> bool" where
  "symtab_maps st \<longleftrightarrow> distinct (map fst (name_to_id st)) \<and> distinct (map snd (name_to_id st)) \<and>
     id_to_name st = map_of (map prod.swap (name_to_id st)) \<and>
     (\<forall>(name, sid) \<in> set (name_to_id st). 1 \<le> sid \<and> sid < next_id st) \<and>
     next_id st = fold id_after (map snd (name_to_id st)) 1"

definition symtab_stored :: "symtab \<Rightarrow> bool" where
  "symtab_stored st \<longleftrightarrow> (\<forall>(name, sid) \<in> set (name_to_id st). length name < 2 ^ 16) \<and>
     (case st_file st of None \<Rightarrow> [] | Some f \<Rightarrow> f) = entries_bytes (name_to_id st)"

lemma update_new: "k \<notin> fst ` set xs \<Longrightarrow> AList.update k v xs = xs @ [(k, v)]"
  by (induction xs) auto

text \<open>A new name under the next number.\<close>

definition with_entry :: "string \<Rightarrow> symtab \<Rightarrow> symtab" where
  "with_entry name st =
     st\<lparr>next_id := next_id st + 1, name_to_id := AList.update name (next_id st) (name_to_id st),
        id_to_name := (id_to_name st)(next_id st \<mapsto> name)\<rparr>"

lemma next_id_succ: "unat n < 2 ^ 32 - 1 \<Longrightarrow> n < (n + 1 :: u32)"
proof -
  assume "unat n < 2 ^ 32 - 1"
  then have "unat (n + 1) = unat n + 1" by (simp add: unat_word_ariths)
  then show ?thesis by (simp add: word_less_nat_alt)
qed

lemma with_entry_maps:
  assumes m: "symtab_maps st" and new: "name \<notin> fst ` set (name_to_id st)" and n: "unat (next_id st) < 2 ^ 32 - 1"
  shows "symtab_maps (with_entry name st)"
proof -
  define es n where "es = name_to_id st" and "n = next_id st"
  have inv: "distinct (map fst es)" "distinct (map snd es)" "id_to_name st = map_of (map prod.swap es)"
    "\<forall>(nm, sid) \<in> set es. 1 \<le> sid \<and> sid < n" "n = fold id_after (map snd es) 1"
    using m unfolding symtab_maps_def es_def n_def by blast+
  have succ: "n < n + 1" using next_id_succ [OF n] by (simp add: n_def)
  have "1 \<le> n"
  proof (cases es)
    case Nil
    then show ?thesis using inv(5) by simp
  next
    case (Cons e es')
    then show ?thesis using inv(4) by (auto intro: order_trans less_imp_le)
  qed
  then have c4: "\<forall>(nm, sid) \<in> set (es @ [(name, n)]). 1 \<le> sid \<and> sid < n + 1"
    using inv(4) succ by (auto intro: less_trans)
  have fresh: "n \<notin> snd ` set es" using inv(4) by fastforce
  have c3: "(id_to_name st)(n \<mapsto> name) = map_of (map prod.swap (es @ [(name, n)]))"
  proof -
    have "n \<notin> fst ` set (map prod.swap es)" using fresh by (auto simp: image_iff)
    then have "map_of (map prod.swap es) n = None" by (simp only: map_of_eq_None_iff not_False_eq_True)
    then show ?thesis by (auto simp: inv(3) fun_eq_iff map_add_def split: option.splits)
  qed
  have c5: "n + 1 = fold id_after (map snd (es @ [(name, n)])) 1"
    by (simp add: inv(5) [symmetric] id_after_def)
  have c1: "distinct (map fst (es @ [(name, n)]))" and c2: "distinct (map snd (es @ [(name, n)]))"
    using inv(1,2) new fresh by (simp_all add: es_def)
  have up: "AList.update name n es = es @ [(name, n)]" unfolding es_def by (rule update_new [OF new])
  have f: "name_to_id (with_entry name st) = AList.update name n es" "next_id (with_entry name st) = n + 1"
      "id_to_name (with_entry name st) = (id_to_name st)(n \<mapsto> name)"
    by (simp_all add: with_entry_def es_def n_def)
  show ?thesis unfolding symtab_maps_def f up by (intro conjI c1 c2 c3 c4 c5)
qed

lemma symtab_intern_known:
  "map_of (name_to_id st) name = Some sid \<Longrightarrow> symtab_intern os name st = (Inr sid, st)"
  by (simp add: symtab_intern_def)

lemma symtab_intern_new:
  assumes "os_good os" and "map_of (name_to_id st) name = None"
  shows "symtab_intern os name st = (Inr (next_id st),
    (with_entry name st)\<lparr>st_file := Some ((case st_file st of None \<Rightarrow> [] | Some f \<Rightarrow> f) @ entry_bytes (next_id st) name)\<rparr>)"
  using assms by (simp add: symtab_intern_def append_entry_def with_entry_def Let_def)

text \<open>A run of interns.\<close>

primrec symtab_intern_all :: "os \<Rightarrow> string list \<Rightarrow> symtab \<Rightarrow> (exn + u32) list \<times> symtab" where
  "symtab_intern_all os [] st = ([], st)"
| "symtab_intern_all os (name # names) st =
     (let (r, st1) = symtab_intern os name st; (rs, st2) = symtab_intern_all os names st1 in (r # rs, st2))"

lemma symtab_maps_file [simp]: "symtab_maps (st\<lparr>st_file := f\<rparr>) = symtab_maps st"
  by (simp add: symtab_maps_def)

lemma symtab_intern_step:
  assumes good: "os_good os" and m: "symtab_maps st" and s: "symtab_stored st" and l: "length name < 2 ^ 16"
    and n: "unat (next_id st) < 2 ^ 32 - 1"
  shows "\<exists>sid st'. symtab_intern os name st = (Inr sid, st') \<and> symtab_maps st' \<and> symtab_stored st' \<and>
    map_of (name_to_id st') = (map_of (name_to_id st))(name \<mapsto> sid) \<and>
    unat (next_id st') \<le> unat (next_id st) + 1 \<and> map_of (name_to_id st) \<subseteq>\<^sub>m map_of (name_to_id st') \<and> st_path st' = st_path st"
proof (cases "map_of (name_to_id st) name")
  case (Some sid)
  then have "(map_of (name_to_id st))(name \<mapsto> sid) = map_of (name_to_id st)" by (simp add: fun_upd_idem_iff)
  then show ?thesis using symtab_intern_known [OF Some] m s by (metis map_le_refl le_add1)
next
  case None
  then have new: "name \<notin> fst ` set (name_to_id st)" by (simp only: map_of_eq_None_iff not_False_eq_True)
  let ?st' = "(with_entry name st)\<lparr>st_file := Some ((case st_file st of None \<Rightarrow> [] | Some f \<Rightarrow> f) @ entry_bytes (next_id st) name)\<rparr>"
  have e: "name_to_id ?st' = name_to_id st @ [(name, next_id st)]" by (simp add: with_entry_def update_new [OF new])
  have "map_of (name_to_id ?st') = (map_of (name_to_id st))(name \<mapsto> next_id st)"
    by (simp add: with_entry_def update_conv')
  moreover have "symtab_stored ?st'"
    using s l unfolding symtab_stored_def e by (auto simp: with_entry_def entries_bytes_def)
  moreover have "unat (next_id ?st') \<le> unat (next_id st) + 1"
    using n by (simp add: with_entry_def unat_word_ariths)
  moreover have "map_of (name_to_id st) \<subseteq>\<^sub>m (map_of (name_to_id st))(name \<mapsto> next_id st)"
    using None by (auto simp: map_le_def)
  ultimately show ?thesis
    using symtab_intern_new [OF good None] with_entry_maps [OF m new n]
    by (intro exI [of _ "next_id st"] exI [of _ ?st'] conjI) (simp_all add: with_entry_def)
qed

lemma symtab_intern_all_spec:
  assumes "os_good os"
  shows "symtab_maps st \<Longrightarrow> symtab_stored st \<Longrightarrow> list_all (\<lambda>name. length name < 2 ^ 16) names \<Longrightarrow>
    unat (next_id st) + length names < 2 ^ 32 \<Longrightarrow>
    \<exists>ids st'. symtab_intern_all os names st = (map Inr ids, st') \<and> symtab_maps st' \<and> symtab_stored st' \<and>
      map (\<lambda>name. symtab_lookup name st') names = map Some ids \<and>
      map_of (name_to_id st) \<subseteq>\<^sub>m map_of (name_to_id st') \<and> st_path st' = st_path st"
proof (induction names arbitrary: st)
  case Nil
  then show ?case by (intro exI [of _ "[]"]) simp
next
  case (Cons name names)
  have "length name < 2 ^ 16" "unat (next_id st) < 2 ^ 32 - 1" using Cons.prems by auto
  from symtab_intern_step [OF assms Cons.prems(1,2) this] obtain sid st1 where
    st1: "symtab_intern os name st = (Inr sid, st1)" "symtab_maps st1" "symtab_stored st1"
      "map_of (name_to_id st1) = (map_of (name_to_id st))(name \<mapsto> sid)"
      "unat (next_id st1) \<le> unat (next_id st) + 1" "map_of (name_to_id st) \<subseteq>\<^sub>m map_of (name_to_id st1)"
      "st_path st1 = st_path st" by blast
  have "list_all (\<lambda>name. length name < 2 ^ 16) names" "unat (next_id st1) + length names < 2 ^ 32"
    using Cons.prems st1(5) by auto
  from Cons.IH [OF st1(2,3) this] obtain ids st' where
    st': "symtab_intern_all os names st1 = (map Inr ids, st')" "symtab_maps st'" "symtab_stored st'"
      "map (\<lambda>name. symtab_lookup name st') names = map Some ids"
      "map_of (name_to_id st1) \<subseteq>\<^sub>m map_of (name_to_id st')" "st_path st' = st_path st1" by blast
  have "map_of (name_to_id st1) name = Some sid" by (simp add: st1(4))
  then have "symtab_lookup name st' = Some sid"
    using st'(5) unfolding symtab_lookup_def map_le_def by (metis domI)
  then show ?case using st1 st' map_le_trans [OF st1(6) st'(5)]
    by (intro exI [of _ "sid # ids"] exI [of _ st']) simp
qed

section \<open>Loading\<close>

definition symtab_empty :: "string \<Rightarrow> bytes option \<Rightarrow> symtab" where
  "symtab_empty path f = \<lparr>st_path = path, st_file = f, name_to_id = [], id_to_name = Map.empty, next_id = 1\<rparr>"

lemma symtab_empty_maps: "symtab_maps (symtab_empty path f)"
  by (simp add: symtab_maps_def symtab_empty_def)

lemma fold_load_entry:
  "distinct (map fst es) \<Longrightarrow> fst ` set es \<inter> fst ` set (name_to_id st) = {} \<Longrightarrow>
     fold load_entry es st = st\<lparr>name_to_id := name_to_id st @ es,
       id_to_name := id_to_name st ++ map_of (rev (map prod.swap es)),
       next_id := fold id_after (map snd es) (next_id st)\<rparr>"
proof (induction es arbitrary: st)
  case (Cons e es)
  obtain name sid where e: "e = (name, sid)" by fastforce
  have "AList.update name sid (name_to_id st) = name_to_id st @ [(name, sid)]"
    using Cons.prems(2) e by (intro update_new) auto
  then have l: "load_entry e st = st\<lparr>name_to_id := name_to_id st @ [(name, sid)],
      id_to_name := (id_to_name st)(sid \<mapsto> name), next_id := id_after sid (next_id st)\<rparr>"
    by (simp add: load_entry_def e id_after_def)
  have "fold load_entry es (load_entry e st) = (load_entry e st)\<lparr>name_to_id := name_to_id (load_entry e st) @ es,
       id_to_name := id_to_name (load_entry e st) ++ map_of (rev (map prod.swap es)),
       next_id := fold id_after (map snd es) (next_id (load_entry e st))\<rparr>"
    using Cons.prems e unfolding l by (intro Cons.IH) auto
  then show ?case by (simp add: l [unfolded e] e)
qed simp

text \<open>The number after all of them is the same in whatever order they come.\<close>

lemma unat_succ: "x < x + 1 \<Longrightarrow> unat (x + 1) = unat (x :: u32) + 1"
proof -
  assume a: "x < x + 1"
  have u: "unat (x + 1) = (unat x + 1) mod 2 ^ 32" by (simp add: unat_word_ariths)
  have "unat x < 2 ^ 32" using unsigned_less [of x] by simp
  moreover have "unat x + 1 \<noteq> 2 ^ 32"
  proof
    assume "unat x + 1 = 2 ^ 32"
    then have "unat (x + 1) = 0" using u by simp
    then show False using a by (simp add: word_less_nat_alt)
  qed
  ultimately show ?thesis using u by simp
qed

lemma unat_id_after: "sid < sid + 1 \<Longrightarrow> unat (id_after sid n) = max (unat n) (unat sid + 1)"
  by (auto simp: id_after_def unat_succ word_le_nat_alt)

lemma fold_id_after_perm:
  assumes "mset xs = mset ys" and "\<forall>sid \<in> set xs. sid < sid + 1"
  shows "fold id_after xs n = fold id_after ys n"
proof -
  have "id_after x \<circ> id_after y = id_after y \<circ> id_after x" if "x \<in> set xs" "y \<in> set xs" for x y
  proof
    fix k
    have "unat (id_after x (id_after y k)) = unat (id_after y (id_after x k))"
      using assms(2) that by (simp add: unat_id_after)
    then show "(id_after x \<circ> id_after y) k = (id_after y \<circ> id_after x) k" by (simp add: word_unat_eq_iff)
  qed
  from fold_multiset_equiv [OF this assms(1)] show ?thesis by simp
qed

text \<open>Loading the entries of a table, in any order, gives its maps and its next number.\<close>

lemma symtab_load_entries:
  assumes m: "symtab_maps st" and es: "mset es = mset (name_to_id st)"
    and len: "\<forall>(name, sid) \<in> set es. length name < 2 ^ 16" and os: "os_open os path"
  shows "let st' = symtab_new os path (Some (entries_bytes es)) in
    map_of (name_to_id st') = map_of (name_to_id st) \<and>
    id_to_name st' = id_to_name st \<and> next_id st' = next_id st \<and> symtab_maps st' \<and> symtab_stored st'"
proof -
  have sets: "set es = set (name_to_id st)" using es by (rule mset_eq_setD)
  have dm: "distinct (map fst (name_to_id st))" "distinct (map snd (name_to_id st))"
    using m by (simp_all add: symtab_maps_def)
  have "mset (map fst es) = mset (map fst (name_to_id st))" "mset (map snd es) = mset (map snd (name_to_id st))"
    using es by simp_all
  then have d: "distinct (map fst es)" "distinct (map snd es)"
    using dm mset_eq_imp_distinct_iff by blast+
  let ?st0 = "symtab_empty path (Some (entries_bytes es))"
  have "symtab_new os path (Some (entries_bytes es)) = fold load_entry es ?st0"
    using os load_loop_entries [OF len] by (simp add: symtab_new_def symtab_load_def symtab_empty_def)
  also have "\<dots> = ?st0\<lparr>name_to_id := es, id_to_name := map_of (rev (map prod.swap es)),
       next_id := fold id_after (map snd es) 1\<rparr>"
    using fold_load_entry [OF d(1), of ?st0] by (simp add: symtab_empty_def)
  finally have l: "symtab_new os path (Some (entries_bytes es)) = ?st0\<lparr>name_to_id := es,
       id_to_name := map_of (rev (map prod.swap es)), next_id := fold id_after (map snd es) 1\<rparr>" .
  have "map_of es = map_of (name_to_id st)"
    using d(1) dm(1) sets by (metis map_of_inject_set)
  moreover have "map_of (rev (map prod.swap es)) = id_to_name st"
  proof -
    have 1: "distinct (map fst (rev (map prod.swap es)))" "distinct (map fst (map prod.swap (name_to_id st)))"
      using d(2) dm(2) by (simp_all add: rev_map [symmetric] comp_def)
    have 2: "set (rev (map prod.swap es)) = set (map prod.swap (name_to_id st))" by (simp add: sets)
    have "map_of (rev (map prod.swap es)) = map_of (map prod.swap (name_to_id st))"
      using map_of_inject_set [OF 1] 2 by blast
    then show ?thesis using m by (simp add: symtab_maps_def)
  qed
  moreover have "fold id_after (map snd es) 1 = next_id st"
  proof -
    have "sid < sid + 1" if "sid \<in> set (map snd es)" for sid
    proof -
      have "sid < next_id st" using that m sets by (auto simp: symtab_maps_def)
      then have "unat sid < 2 ^ 32 - 1"
      proof -
        have "unat (next_id st) < 2 ^ LENGTH(32)" by (rule unsigned_less)
        then show ?thesis using \<open>sid < next_id st\<close> by (simp add: word_less_nat_alt)
      qed
      then show ?thesis by (rule next_id_succ)
    qed
    then have "fold id_after (map snd es) 1 = fold id_after (map snd (name_to_id st)) 1"
      using es by (intro fold_id_after_perm) auto
    then show ?thesis using m by (simp add: symtab_maps_def)
  qed
  moreover have "map_of (map prod.swap es) = map_of (rev (map prod.swap es))"
    using d(2) by (intro map_of_inject_set [THEN iffD2]) (simp_all add: comp_def rev_map [symmetric])
  moreover have "\<forall>(name, sid) \<in> set es. 1 \<le> sid \<and> sid < next_id st" using m unfolding symtab_maps_def sets by (elim conjE)
  ultimately show ?thesis using d len by (simp add: l Let_def symtab_maps_def symtab_stored_def symtab_empty_def)
qed

text \<open>So does what the appends left in the file, and what a flush puts there.\<close>

lemma symtab_reload:
  assumes m: "symtab_maps st" and s: "symtab_stored st" and os: "os_good os" and order: "\<forall>xs. mset (order xs) = mset xs"
    and f: "f = st_file st \<or> f = st_file (snd (symtab_flush os order st))"
  shows "let st' = symtab_new os path f in
    map_of (name_to_id st') = map_of (name_to_id st) \<and>
    id_to_name st' = id_to_name st \<and> next_id st' = next_id st \<and> symtab_maps st' \<and> symtab_stored st'"
proof (cases f)
  case None
  then have "st_file st = None" using f os by (auto simp: symtab_flush_def Let_def)
  then have "entries_bytes (name_to_id st) = []" using s by (simp add: symtab_stored_def)
  then have "name_to_id st = []" by (cases "name_to_id st") (auto simp: entries_bytes_def entry_bytes_eq write_u32_def)
  then show ?thesis using m None symtab_empty_maps [of path None]
    by (simp add: symtab_new_def symtab_maps_def symtab_stored_def symtab_empty_def entries_bytes_def)
next
  case (Some b)
  have "\<exists>es. mset es = mset (name_to_id st) \<and> f = Some (entries_bytes es)"
  proof (cases "f = st_file st")
    case True
    then show ?thesis using s Some by (intro exI [of _ "name_to_id st"]) (auto simp: symtab_stored_def split: option.splits)
  next
    case False
    then show ?thesis using f os order
      by (intro exI [of _ "order (name_to_id st)"]) (simp add: symtab_flush_def entries_bytes_def Let_def)
  qed
  then obtain es where es: "mset es = mset (name_to_id st)" "f = Some (entries_bytes es)" by blast
  have len: "\<forall>(name, sid) \<in> set es. length name < 2 ^ 16"
    using s mset_eq_setD [OF es(1)] by (simp add: symtab_stored_def)
  show ?thesis unfolding es(2) by (rule symtab_load_entries [OF m es(1) len]) (use os in simp)
qed

section \<open>Properties\<close>

lemma symtab_new_None: "symtab_new os path None = symtab_empty path None"
  by (simp add: symtab_new_def symtab_empty_def)

lemma symtab_names_inj:
  assumes "symtab_maps st" and "symtab_lookup a st = Some sid"
  shows "symtab_lookup_name sid st = Some a"
proof -
  have "(a, sid) \<in> set (name_to_id st)" using assms(2) by (simp add: symtab_lookup_def map_of_SomeD)
  then have "(sid, a) \<in> set (map prod.swap (name_to_id st))" by force
  moreover have "distinct (map fst (map prod.swap (name_to_id st)))"
    using assms(1) by (simp add: symtab_maps_def comp_def)
  ultimately have "map_of (map prod.swap (name_to_id st)) sid = Some a" by simp
  then show ?thesis using assms(1) by (simp add: symtab_lookup_name_def symtab_maps_def)
qed

text \<open>C31: Interning any run of names shorter than 65536 bytes in a new table gives each name one
  number and each number one name; opening the file again, as it was left by the appends or
  after a flush in whatever order the hash map yields, gives the same numbers, names and
  next free number.\<close>

theorem symtab_persistent:
  assumes "os_good os" and "list_all (\<lambda>name. length name < 2 ^ 16) names" and "length names < 2 ^ 32 - 1"
    and "\<forall>xs. mset (order xs) = mset xs"
  shows "\<exists>ids st. symtab_intern_all os names (symtab_new os path None) = (map Inr ids, st) \<and>
    map (\<lambda>name. symtab_lookup name st) names = map Some ids \<and>
    map (\<lambda>sid. symtab_lookup_name sid st) ids = map Some names \<and>
    (\<forall>f. f = st_file st \<or> f = st_file (snd (symtab_flush os order st)) \<longrightarrow>
      (let st' = symtab_new os path f in
       (\<forall>name. symtab_lookup name st' = symtab_lookup name st) \<and>
       (\<forall>sid. symtab_lookup_name sid st' = symtab_lookup_name sid st) \<and> next_id st' = next_id st))"
proof -
  let ?st0 = "symtab_new os path None"
  have "symtab_maps ?st0" "symtab_stored ?st0" "next_id ?st0 = 1"
    by (simp_all add: symtab_new_None symtab_empty_maps) (simp_all add: symtab_stored_def symtab_empty_def entries_bytes_def)
  then obtain ids st where st: "symtab_intern_all os names ?st0 = (map Inr ids, st)" "symtab_maps st" "symtab_stored st"
      "map (\<lambda>name. symtab_lookup name st) names = map Some ids" "st_path st = path"
    using symtab_intern_all_spec [OF assms(1), of ?st0 names] assms(2,3)
    by (auto simp: symtab_new_None symtab_empty_def)
  have len: "length ids = length names" using arg_cong [OF st(4), of length] by simp
  have inj: "map (\<lambda>sid. symtab_lookup_name sid st) ids = map Some names"
  proof (rule nth_equalityI)
    fix i assume "i < length (map (\<lambda>sid. symtab_lookup_name sid st) ids)"
    then have i: "i < length ids" "i < length names" using len by simp_all
    have "map (\<lambda>name. symtab_lookup name st) names ! i = map Some ids ! i" by (simp only: st(4))
    then have "symtab_lookup (names ! i) st = Some (ids ! i)" using i by simp
    from symtab_names_inj [OF st(2) this] show "map (\<lambda>sid. symtab_lookup_name sid st) ids ! i = map Some names ! i"
      using i by simp
  qed (simp add: len)
  have "let st' = symtab_new os path f in
       (\<forall>name. symtab_lookup name st' = symtab_lookup name st) \<and>
       (\<forall>sid. symtab_lookup_name sid st' = symtab_lookup_name sid st) \<and> next_id st' = next_id st"
    if "f = st_file st \<or> f = st_file (snd (symtab_flush os order st))" for f
    using symtab_reload [OF st(2,3) assms(1,4) that, of path]
    by (simp add: Let_def symtab_lookup_def symtab_lookup_name_def)
  then show ?thesis using st(1,4) inj by blast
qed

lemma symtab_persistent_witness:
  "\<exists>ids st. symtab_intern_all os_ok [''AAPL'', ''MSFT'', ''AAPL''] (symtab_new os_ok ''symbols'' None) = (map Inr ids, st) \<and>
    map (\<lambda>name. symtab_lookup name st) [''AAPL'', ''MSFT'', ''AAPL''] = map Some ids \<and>
    map (\<lambda>sid. symtab_lookup_name sid st) ids = map Some [''AAPL'', ''MSFT'', ''AAPL''] \<and>
    (\<forall>f. f = st_file st \<or> f = st_file (snd (symtab_flush os_ok rev st)) \<longrightarrow>
      (let st' = symtab_new os_ok ''symbols'' f in
       (\<forall>name. symtab_lookup name st' = symtab_lookup name st) \<and>
       (\<forall>sid. symtab_lookup_name sid st' = symtab_lookup_name sid st) \<and> next_id st' = next_id st))"
  by (rule symtab_persistent) (simp_all add: os_good_def os_ok_def)

lemma load_loop_short:
  "\<forall>name \<in> fst ` set (name_to_id st). length name < 2 ^ 16 \<Longrightarrow>
     \<forall>name \<in> fst ` set (name_to_id (load_loop f st)). length name < 2 ^ 16"
proof (induction f st rule: load_loop.induct)
  case (1 f st)
  show ?case
  proof (cases "length f < 6")
    case True
    then show ?thesis using "1.prems" by (subst load_loop.simps) simp
  next
    case False
    define sid where "sid = (ucast (f ! 0) OR push_bit 8 (ucast (f ! 1)) OR push_bit 16 (ucast (f ! 2))
                     OR push_bit 24 (ucast (f ! 3)) :: u32)"
    define len where "len = (ucast (f ! 4) OR push_bit 8 (ucast (f ! 5)) :: u16)"
    define name where "name = take (unat len) (drop 6 f)"
    have eq: "load_loop f st = (if length name < unat len then st
        else load_loop (drop (6 + unat len) f) (load_entry (bytes_name name, sid) st))"
      using False by (subst load_loop.simps) (simp only: sid_def len_def name_def Let_def if_False)
    have "length (bytes_name name) < 2 ^ 16"
    proof -
      have "unat len < 2 ^ LENGTH(16)" by (rule unsigned_less)
      then show ?thesis by (simp add: name_def min_less_iff_disj)
    qed
    then have "\<forall>nm \<in> fst ` set (name_to_id (load_entry (bytes_name name, sid) st)). length nm < 2 ^ 16"
      using "1.prems" by (simp add: load_entry_def dom_update)
    then show ?thesis
      using "1.IH" [OF False sid_def len_def name_def] "1.prems" unfolding eq by simp
  qed
qed

text \<open>A name of 65536 bytes or more is lost: the length field of its entry is cut to 16
  bits, and whatever the file holds, opening it never yields a table that knows such a name,
  although interning it in the running process has succeeded.\<close>

theorem symtab_long_name_lost:
  assumes "2 ^ 16 \<le> length name"
  shows "symtab_lookup name (symtab_new os path f) = None"
proof -
  have "\<forall>nm \<in> fst ` set (name_to_id (symtab_new os path f)). length nm < 2 ^ 16"
  proof (cases f)
    case (Some b)
    then show ?thesis
      using load_loop_short [of "symtab_empty path f" b]
      by (simp add: symtab_new_def symtab_load_def symtab_empty_def Let_def)
  qed (simp add: symtab_new_def)
  then have "name \<notin> fst ` set (name_to_id (symtab_new os path f))" using assms by fastforce
  then show ?thesis unfolding symtab_lookup_def by (simp only: map_of_eq_None_iff not_False_eq_True)
qed

lemma symtab_long_name_lost_witness:
  "symtab_lookup (replicate 65536 CHR ''a'')
     (symtab_new os_ok ''symbols'' (Some (entry_bytes 1 (replicate 65536 CHR ''a'')))) = None"
  by (rule symtab_long_name_lost) simp

end
