(* ===== verification/Wal.thy ===== *)
theory Wal
  imports Events Crc32c Files
begin

text \<open>
  The write-ahead log (storage/wal.hpp, storage/wal.cpp): the record format, the
  segmented writer with rotation, sealing and truncation, and the reader that stops
  at the first bad record of each segment. A segment's file name is a key of the
  directory; the writer's descriptor is the name of the file it has open.
\<close>

definition kWalMagic :: u32 where
  "kWalMagic = 0x4B524F4E"

definition kWalVersion :: u8 where
  "kWalVersion = 0x01"

definition kWalHeaderSize :: nat where
  "kWalHeaderSize = 13"

definition wal_crc :: "bytes \<Rightarrow> bytes \<Rightarrow> u32" where
  "wal_crc version_and_len payload = (let crc = crc32c version_and_len 0 in crc32c payload crc)"

definition segment_path :: "nat \<Rightarrow> string" where
  "segment_path sid = ''wal_'' @ decimal06 sid @ ''.log''"

text \<open>\<^verbatim>\<open>sscanf(name, "wal_%llu.log", &id) == 1\<close>: the suffix is not checked by the count.\<close>

definition sscanf_wal :: "string \<Rightarrow> nat option" where
  "sscanf_wal name = (if take 4 name = ''wal_'' then scan_llu (drop 4 name) else None)"

text \<open>The loop over the directory that both constructors have.\<close>

definition max_segment :: "dir \<Rightarrow> nat" where
  "max_segment d =
     foldl (\<lambda>max_id (name, _). case sscanf_wal name of None \<Rightarrow> max_id | Some i \<Rightarrow> max max_id i) 0 d"

section \<open>The writer\<close>

record wal =
  wal_dir :: dir
  max_segment_bytes :: nat
  fd :: "string option"
  segment_id :: nat
  current_offset :: nat
  bytes_written :: nat

record wal_append_result =
  file_offset :: nat
  result_segment_id :: nat

definition open_segment :: "os \<Rightarrow> nat \<Rightarrow> wal \<Rightarrow> (exn + unit) \<times> wal" where
  "open_segment os sid w =
     (let w1 = w\<lparr>fd := None\<rparr>; p = segment_path sid
      in if \<not> os_open os p then (Inl (Runtime_error (''WAL open failed: '' @ p)), w1)
         else let content = file_content (wal_dir w1) p
              in (Inr (), w1\<lparr>wal_dir := AList.update p content (wal_dir w1), fd := Some p,
                             current_offset := length content, segment_id := sid\<rparr>))"

definition wal_writer :: "os \<Rightarrow> nat \<Rightarrow> dir \<Rightarrow> (exn + unit) \<times> wal" where
  "wal_writer os max_bytes d =
     (let max_id = max_segment d;
          sid = (if max_id > 0 then max_id else 1)
      in open_segment os sid
           \<lparr>wal_dir = d, max_segment_bytes = max_bytes, fd = None, segment_id = sid,
            current_offset = 0, bytes_written = 0\<rparr>)"

definition rotate :: "os \<Rightarrow> wal \<Rightarrow> (exn + unit) \<times> wal" where
  "rotate os w =
     open_segment os (segment_id w + 1) (w\<lparr>segment_id := segment_id w + 1, current_offset := 0\<rparr>)"

definition seal :: "os \<Rightarrow> wal \<Rightarrow> (exn + unit) \<times> wal" where
  "seal os w = rotate os w"

text \<open>\<^verbatim>\<open>ftruncate\<close> to a shorter length cuts the open file.\<close>

definition truncate_and_seal :: "os \<Rightarrow> nat \<Rightarrow> wal \<Rightarrow> (exn + unit) \<times> wal" where
  "truncate_and_seal os clean_end_offset w =
     (let w1 = (case fd w of
                  None \<Rightarrow> w
                | Some p \<Rightarrow>
                    if clean_end_offset < current_offset w
                    then w\<lparr>wal_dir := AList.update p (take clean_end_offset (file_content (wal_dir w) p))
                                       (wal_dir w)\<rparr>
                    else w)
      in rotate os w1)"

text \<open>The 78 bytes of one record: magic, version, payload length, checksum, payload.\<close>

definition wal_record_bytes :: "event \<Rightarrow> bytes" where
  "wal_record_bytes e =
     (let payload = event_encode e;
          hdr_for_crc = [kWalVersion] @ write_u32 (word_of_nat (length payload));
          crc = wal_crc hdr_for_crc payload
      in write_u32 kWalMagic @ [kWalVersion] @ write_u32 (word_of_nat (length payload))
         @ write_u32 crc @ payload)"

definition wal_append :: "os \<Rightarrow> event \<Rightarrow> wal \<Rightarrow> (exn + wal_append_result) \<times> wal" where
  "wal_append os e w =
     (let rec = wal_record_bytes e;
          record_segment = segment_id w;
          record_offset = current_offset w
      in case fd w of
           None \<Rightarrow> (Inl (Runtime_error ''WAL write failed''), w)
         | Some p \<Rightarrow>
             let written = os_write os (length rec);
                 w1 = w\<lparr>wal_dir := AList.update p
                           (file_content (wal_dir w) p @ take (os_written os (length rec)) rec) (wal_dir w)\<rparr>
             in if written \<noteq> int (length rec) then (Inl (Runtime_error ''WAL write failed''), w1)
                else let w2 = w1\<lparr>current_offset := current_offset w1 + length rec,
                                 bytes_written := bytes_written w1 + length rec\<rparr>;
                         res = \<lparr>file_offset = record_offset, result_segment_id = record_segment\<rparr>
                     in if max_segment_bytes w2 \<le> current_offset w2
                        then case rotate os w2 of
                               (Inl ex, w3) \<Rightarrow> (Inl ex, w3)
                             | (Inr _, w3) \<Rightarrow> (Inr res, w3)
                        else (Inr res, w2))"

text \<open>Closing releases the descriptor; a later append fails on it.\<close>

definition wal_close :: "wal \<Rightarrow> wal" where
  "wal_close w = (case fd w of None \<Rightarrow> w | Some _ \<Rightarrow> w\<lparr>fd := None\<rparr>)"

section \<open>The reader\<close>

record wal_record =
  rec_event :: event
  rec_offset :: nat

text \<open>What the out-parameters hold while a segment is read.\<close>

record read_state =
  rs_records :: "wal_record list"
  rs_torn_bytes :: nat
  rs_torn :: bool

text \<open>
  The loop of \<^verbatim>\<open>read_segment\<close>: the result is the state and the offset at which it
  stopped. A positional read inside the file returns all it is asked for, so the two
  branches on a short \<^verbatim>\<open>pread\<close> are not taken. The offset grows by thirteen bytes at
  least in every round.
\<close>

function read_segment_loop :: "bytes \<Rightarrow> nat \<Rightarrow> read_state \<Rightarrow> read_state \<times> nat" where
  "read_segment_loop file offset st =
     (let file_size = length file in
      if offset + kWalHeaderSize \<le> file_size then
        let hdr = take kWalHeaderSize (drop offset file);
            magic = read_u32 hdr;
            version = hdr ! 4;
            payload_len = read_u32 (drop 5 hdr);
            stored_crc = read_u32 (drop 9 hdr);
            torn = st\<lparr>rs_torn := True, rs_torn_bytes := rs_torn_bytes st + (file_size - offset)\<rparr>
        in if magic \<noteq> kWalMagic \<or> version \<noteq> kWalVersion then (torn, offset)
           else if file_size < offset + kWalHeaderSize + unat payload_len then (torn, offset)
           else let payload = take (unat payload_len) (drop (offset + kWalHeaderSize) file);
                    hdr_for_crc = [version, ucast (payload_len AND 0xFF),
                       ucast (drop_bit 8 payload_len AND 0xFF), ucast (drop_bit 16 payload_len AND 0xFF),
                       ucast (drop_bit 24 payload_len AND 0xFF)];
                    computed = wal_crc hdr_for_crc payload
                in if computed \<noteq> stored_crc then (torn, offset)
                   else let st' = (if unat payload_len = event_kEncodedSize
                                   then st\<lparr>rs_records := rs_records st @
                                          [\<lparr>rec_event = event_decode payload, rec_offset = offset\<rparr>]\<rparr>
                                   else st)
                        in read_segment_loop file (offset + kWalHeaderSize + unat payload_len) st'
      else (st, offset))"
  by pat_completeness auto
termination
  by (relation "measure (\<lambda>(file, offset, st). length file - offset)") (auto simp: kWalHeaderSize_def)

declare read_segment_loop.simps [simp del]

definition read_segment :: "bytes \<Rightarrow> read_state \<Rightarrow> read_state \<times> nat" where
  "read_segment file st =
     (let (st1, offset) = read_segment_loop file 0 st;
          st2 = (if offset < length file
                 then st1\<lparr>rs_torn := True, rs_torn_bytes := rs_torn_bytes st1 + (length file - offset)\<rparr>
                 else st1)
      in (st2, offset))"

text \<open>One round of the loop over the segment ids; a missing file is skipped.\<close>

definition read_all_step :: "dir \<Rightarrow> read_state \<times> nat \<Rightarrow> nat \<Rightarrow> read_state \<times> nat" where
  "read_all_step d acc sid =
     (case map_of d (segment_path sid) of
        None \<Rightarrow> acc
      | Some file \<Rightarrow> read_segment file (fst acc))"

definition read_all :: "dir \<Rightarrow> read_state \<times> nat" where
  "read_all d =
     foldl (read_all_step d) (\<lparr>rs_records = [], rs_torn_bytes = 0, rs_torn = False\<rparr>, 0)
       [1..<Suc (max_segment d)]"

section \<open>One record, one segment\<close>

definition wal_payload_header :: bytes where
  "wal_payload_header = [kWalVersion] @ write_u32 65"

lemma wal_payload_header_bytes: "wal_payload_header = [kWalVersion, 65, 0, 0, 0]"
  by (simp add: wal_payload_header_def write_u32_def)

lemma wal_record_bytes_eq:
  "wal_record_bytes e = write_u32 kWalMagic @ [kWalVersion] @ write_u32 65
     @ write_u32 (wal_crc wal_payload_header (event_encode e)) @ event_encode e"
  by (simp add: wal_record_bytes_def wal_payload_header_def Let_def)

lemma length_wal_record_bytes [simp, codec_simps]: "length (wal_record_bytes e) = 78"
  by (simp add: wal_record_bytes_eq)

lemma payload_header_bytes:
  "[kWalVersion, ucast (l AND 0xFF), ucast (drop_bit 8 l AND 0xFF),
    ucast (drop_bit 16 l AND 0xFF), ucast (drop_bit 24 l AND 0xFF)] = [kWalVersion] @ write_u32 l"
  by (simp add: write_u32_def)

text \<open>The fields the reader sees when the bytes at the offset are those of a header.\<close>

lemma header_fields:
  assumes "drop offset file = write_u32 m @ [v] @ write_u32 l @ write_u32 c @ r"
  shows "offset + 13 \<le> length file"
    and "read_u32 (take 13 (drop offset file)) = m"
    and "take 13 (drop offset file) ! 4 = v"
    and "read_u32 (drop 5 (take 13 (drop offset file))) = l"
    and "read_u32 (drop 9 (take 13 (drop offset file))) = c"
    and "drop (offset + 13) file = r"
    and "length file = offset + 13 + length r"
proof -
  have "length (drop offset file) = 13 + length r" using assms by simp
  then have len: "length file = offset + 13 + length r" by simp
  then show "offset + 13 \<le> length file" "length file = offset + 13 + length r" by simp_all
  show "read_u32 (take 13 (drop offset file)) = m"
    "take 13 (drop offset file) ! 4 = v"
    "read_u32 (drop 5 (take 13 (drop offset file))) = l"
    "read_u32 (drop 9 (take 13 (drop offset file))) = c"
    unfolding assms by (simp_all add: nth_append)
  have "drop (offset + 13) file = drop 13 (drop offset file)" by (simp add: add.commute)
  then show "drop (offset + 13) file = r" unfolding assms by simp
qed

lemma loop_stop_short:
  "length file < offset + 13 \<Longrightarrow> read_segment_loop file offset st = (st, offset)"
  by (subst read_segment_loop.simps) (simp add: kWalHeaderSize_def Let_def)

lemma loop_good:
  assumes "drop offset file = wal_record_bytes e @ post" and "event_wf e"
  shows "read_segment_loop file offset st =
    read_segment_loop file (offset + 78)
      (st\<lparr>rs_records := rs_records st @ [\<lparr>rec_event = e, rec_offset = offset\<rparr>]\<rparr>)"
proof -
  have d: "drop offset file = write_u32 kWalMagic @ [kWalVersion] @ write_u32 65
     @ write_u32 (wal_crc wal_payload_header (event_encode e)) @ (event_encode e @ post)"
    using assms(1) by (simp add: wal_record_bytes_eq)
  have dec: "event_decode (event_encode e) = e"
    using event_decode_encode [OF assms(2), of "[]"] by simp
  show ?thesis
    by (subst read_segment_loop.simps)
      (simp add: header_fields [OF d] kWalHeaderSize_def payload_header_bytes Let_def dec
        event_kEncodedSize_def wal_payload_header_bytes add.commute [of 78] del: drop_drop)
qed

text \<open>A torn record, cut anywhere before its end, stops the loop in front of it.\<close>

lemma loop_torn:
  assumes "drop offset file = take k (wal_record_bytes e)" and "k < 78" and "offset \<le> length file"
  shows "read_segment_loop file offset st =
    (if 13 \<le> k then st\<lparr>rs_torn := True, rs_torn_bytes := rs_torn_bytes st + k\<rparr> else st, offset)"
proof -
  have "length (drop offset file) = k" using assms by simp
  with assms(3) have len: "length file = offset + k" by simp
  show ?thesis
  proof (cases "13 \<le> k")
    case False
    then show ?thesis using len by (simp add: loop_stop_short)
  next
    case True
    then have "take k (wal_record_bytes e) = write_u32 kWalMagic @ [kWalVersion] @ write_u32 65
       @ write_u32 (wal_crc wal_payload_header (event_encode e)) @ take (k - 13) (event_encode e)"
      by (simp add: wal_record_bytes_eq take_Cons')
    with assms(1) have d: "drop offset file = write_u32 kWalMagic @ [kWalVersion] @ write_u32 65
       @ write_u32 (wal_crc wal_payload_header (event_encode e)) @ take (k - 13) (event_encode e)"
      by simp
    show ?thesis using True assms(2) len
      by (subst read_segment_loop.simps)
        (simp add: header_fields [OF d] kWalHeaderSize_def Let_def del: drop_drop)
  qed
qed

text \<open>The records a segment with these events yields, from the offset of the first.\<close>

primrec records_from :: "nat \<Rightarrow> event list \<Rightarrow> wal_record list" where
  "records_from off [] = []"
| "records_from off (e # es) = \<lparr>rec_event = e, rec_offset = off\<rparr> # records_from (off + 78) es"

definition segment_bytes :: "event list \<Rightarrow> bytes" where
  "segment_bytes es = concat (map wal_record_bytes es)"

lemma segment_bytes_simps [simp]:
  "segment_bytes [] = []" "segment_bytes (e # es) = wal_record_bytes e @ segment_bytes es"
  "segment_bytes (es @ fs) = segment_bytes es @ segment_bytes fs"
  by (simp_all add: segment_bytes_def)

lemma length_segment_bytes [simp]: "length (segment_bytes es) = 78 * length es"
  by (induction es) simp_all

lemma map_rec_event_records_from [simp]: "map rec_event (records_from off es) = es"
  by (induction es arbitrary: off) simp_all

lemma length_records_from [simp]: "length (records_from off es) = length es"
  by (induction es arbitrary: off) simp_all

lemma loop_good_list:
  assumes "drop offset file = segment_bytes es @ post" and "list_all event_wf es"
  shows "read_segment_loop file offset st =
    read_segment_loop file (offset + 78 * length es)
      (st\<lparr>rs_records := rs_records st @ records_from offset es\<rparr>)"
  using assms
proof (induction es arbitrary: offset st)
  case Nil
  then show ?case by simp
next
  case (Cons e es)
  have d: "drop offset file = wal_record_bytes e @ (segment_bytes es @ post)"
    using Cons.prems(1) by simp
  then have "drop 78 (drop offset file) = segment_bytes es @ post" by simp
  then have "drop (offset + 78) file = segment_bytes es @ post" by (simp add: add.commute)
  then show ?case using loop_good [OF d] Cons.prems(2) Cons.IH [of "offset + 78"]
    by (simp add: algebra_simps)
qed

definition add_records :: "read_state \<Rightarrow> wal_record list \<Rightarrow> read_state" where
  "add_records st rs = st\<lparr>rs_records := rs_records st @ rs\<rparr>"

lemma add_records_simps [simp]:
  "rs_records (add_records st rs) = rs_records st @ rs"
  "rs_torn_bytes (add_records st rs) = rs_torn_bytes st"
  "rs_torn (add_records st rs) = rs_torn st"
  "add_records (add_records st rs) rs' = add_records st (rs @ rs')"
  "add_records st [] = st"
  by (simp_all add: add_records_def)

lemma read_segment_clean:
  assumes "list_all event_wf es"
  shows "read_segment (segment_bytes es) st = (add_records st (records_from 0 es), 78 * length es)"
  using loop_good_list [of 0 "segment_bytes es" es "[]"] assms
  by (simp add: read_segment_def loop_stop_short add_records_def)

text \<open>
  A segment whose last record was cut after \<open>k\<close> bytes: everything before it is
  recovered and the clean end is where it starts. The count of torn bytes is \<open>k\<close>
  when not even a header is left, and twice \<open>k\<close> otherwise: the loop adds the bytes
  once when it stops and the check behind the loop adds them again.
\<close>

lemma read_segment_torn:
  assumes "list_all event_wf es" and "k < 78"
  shows "read_segment (segment_bytes es @ take k (wal_record_bytes e)) st =
    ((add_records st (records_from 0 es))
       \<lparr>rs_torn := rs_torn st \<or> 0 < k,
        rs_torn_bytes := rs_torn_bytes st + (if 13 \<le> k then 2 * k else k)\<rparr>,
     78 * length es)"
proof -
  let ?file = "segment_bytes es @ take k (wal_record_bytes e)"
  have 1: "read_segment_loop ?file 0 st = read_segment_loop ?file (78 * length es) (add_records st (records_from 0 es))"
    using loop_good_list [of 0 ?file es "take k (wal_record_bytes e)"] assms(1)
    by (simp add: add_records_def)
  have 2: "read_segment_loop ?file (78 * length es) st' =
    (if 13 \<le> k then st'\<lparr>rs_torn := True, rs_torn_bytes := rs_torn_bytes st' + k\<rparr> else st', 78 * length es)" for st'
    by (rule loop_torn) (use assms(2) in simp_all)
  show ?thesis using assms(2) by (auto simp: read_segment_def 1 2)
qed

section \<open>Damaged records\<close>

text \<open>
  Seventy-eight bytes in the place of a record: another magic number or version, another
  stored checksum, or a payload changed inside a window of at most four bytes. (A changed
  length field moves the window the checksum is computed over; nothing is claimed of it.)
\<close>

inductive damaged :: "event \<Rightarrow> bytes \<Rightarrow> bool" where
  damaged_magic: "m \<noteq> kWalMagic \<or> v \<noteq> kWalVersion \<Longrightarrow> length pl = 65 \<Longrightarrow>
    damaged e (write_u32 m @ [v] @ write_u32 l @ write_u32 c @ pl)"
| damaged_checksum: "c \<noteq> wal_crc wal_payload_header (event_encode e) \<Longrightarrow>
    damaged e (write_u32 kWalMagic @ [kWalVersion] @ write_u32 65 @ write_u32 c @ event_encode e)"
| damaged_payload: "event_encode e = p @ a @ q \<Longrightarrow> length a' = length a \<Longrightarrow> length a \<le> 4 \<Longrightarrow> a' \<noteq> a \<Longrightarrow>
    damaged e (write_u32 kWalMagic @ [kWalVersion] @ write_u32 65
      @ write_u32 (wal_crc wal_payload_header (event_encode e)) @ (p @ a' @ q))"

inductive_cases damagedE: "damaged e r"

lemma length_damaged:
  assumes "damaged e r"
  shows "length r = 78"
  using assms
proof cases
  case (damaged_payload p a q a')
  have "length (p @ a' @ q) = 65"
    using arg_cong [OF damaged_payload(2), of length] damaged_payload(3) by simp
  then show ?thesis using damaged_payload(1) by simp
qed simp_all

lemma loop_bad_record:
  assumes d: "drop offset file = write_u32 m @ [v] @ write_u32 l @ write_u32 c @ r"
    and bad: "m \<noteq> kWalMagic \<or> v \<noteq> kWalVersion \<or>
      (unat l \<le> length r \<and> wal_crc ([kWalVersion] @ write_u32 l) (take (unat l) r) \<noteq> c)"
  shows "read_segment_loop file offset st =
    (st\<lparr>rs_torn := True, rs_torn_bytes := rs_torn_bytes st + (length file - offset)\<rparr>, offset)"
proof -
  have hdr: "[kWalVersion, ucast (l AND 0xFF), ucast (drop_bit 8 l AND 0xFF),
    ucast (drop_bit 16 l AND 0xFF), ucast (drop_bit 24 l AND 0xFF)] = [kWalVersion] @ write_u32 l"
    by (rule payload_header_bytes)
  show ?thesis using bad
    by (subst read_segment_loop.simps)
      (auto simp: header_fields [OF d] kWalHeaderSize_def Let_def hdr simp del: drop_drop append.simps)
qed

lemma loop_damaged:
  assumes "drop offset file = r @ post" and "damaged e r"
  shows "read_segment_loop file offset st =
    (st\<lparr>rs_torn := True, rs_torn_bytes := rs_torn_bytes st + (length file - offset)\<rparr>, offset)"
  using assms(2)
proof cases
  case (damaged_magic m v pl l c)
  then have "drop offset file = write_u32 m @ [v] @ write_u32 l @ write_u32 c @ (pl @ post)"
    using assms(1) by simp
  then show ?thesis by (rule loop_bad_record) (use damaged_magic in auto)
next
  case (damaged_checksum c)
  then have "drop offset file = write_u32 kWalMagic @ [kWalVersion] @ write_u32 65 @ write_u32 c
      @ (event_encode e @ post)"
    using assms(1) by simp
  then show ?thesis
    by (rule loop_bad_record) (use damaged_checksum in \<open>auto simp: wal_payload_header_def\<close>)
next
  case (damaged_payload p a q a')
  have len: "length (p @ a' @ q) = 65"
    using arg_cong [OF damaged_payload(2), of length] damaged_payload(3) by simp
  have "crc32c (p @ a' @ q) s \<noteq> crc32c (p @ a @ q) s" for s
    using crc32c_burst [of a' a p q s] damaged_payload(3-5) by auto
  then have "wal_crc wal_payload_header (p @ a' @ q) \<noteq> wal_crc wal_payload_header (event_encode e)"
    by (simp add: wal_crc_def Let_def damaged_payload(2))
  moreover have "drop offset file = write_u32 kWalMagic @ [kWalVersion] @ write_u32 65
      @ write_u32 (wal_crc wal_payload_header (event_encode e)) @ ((p @ a' @ q) @ post)"
    using assms(1) damaged_payload(1) by simp
  ultimately show ?thesis using len
    by (intro loop_bad_record) (auto simp: wal_payload_header_def)
qed

text \<open>The reader keeps the records in front of the damage and stops there.\<close>

lemma read_segment_damaged:
  assumes "list_all event_wf es" and "damaged e r"
  shows "read_segment (segment_bytes es @ r @ post) st =
    ((add_records st (records_from 0 es))
       \<lparr>rs_torn := True, rs_torn_bytes := rs_torn_bytes st + 2 * (78 + length post)\<rparr>, 78 * length es)"
proof -
  let ?file = "segment_bytes es @ r @ post"
  have 1: "read_segment_loop ?file 0 st = read_segment_loop ?file (78 * length es) (add_records st (records_from 0 es))"
    using loop_good_list [of 0 ?file es "r @ post"] assms(1) by (simp add: add_records_def)
  have "drop (78 * length es) ?file = r @ post" by simp
  note 2 = loop_damaged [OF this assms(2)]
  show ?thesis using length_damaged [OF assms(2)] by (simp add: read_segment_def 1 2)
qed

section \<open>The directory\<close>

lemma sscanf_segment_path [simp]: "sscanf_wal (segment_path i) = Some i"
  using scan_llu_decimal06 [of "CHR ''.''" i "''log''"]
  by (simp add: sscanf_wal_def segment_path_def is_digit_def)

lemma segment_path_inj [simp]: "segment_path i = segment_path j \<longleftrightarrow> i = j"
  by (metis option.inject sscanf_segment_path)

lemma max_segment_le_iff:
  "max_segment d \<le> n \<longleftrightarrow> (\<forall>name \<in> fst ` set d. \<forall>i. sscanf_wal name = Some i \<longrightarrow> i \<le> n)"
proof -
  have "foldl (\<lambda>max_id (name, _). case sscanf_wal name of None \<Rightarrow> max_id | Some i \<Rightarrow> max max_id i) a d \<le> n
    \<longleftrightarrow> a \<le> n \<and> (\<forall>name \<in> fst ` set d. \<forall>i. sscanf_wal name = Some i \<longrightarrow> i \<le> n)" for a
    by (induction d arbitrary: a) (auto split: option.splits)
  then show ?thesis by (simp add: max_segment_def)
qed

lemma max_segment_update:
  "max_segment (AList.update (segment_path i) c d) = max (max_segment d) i"
proof -
  have "max_segment (AList.update (segment_path i) c d) \<le> n \<longleftrightarrow> max (max_segment d) i \<le> n" for n
    by (auto simp: max_segment_le_iff dom_update)
  then show ?thesis by (metis order_antisym order_refl)
qed

text \<open>
  The directory holds segments 1 to \<open>length segs\<close>, each the records of its events; the
  last one may have further bytes behind them.
\<close>

definition wal_dir_is :: "dir \<Rightarrow> event list list \<Rightarrow> bytes \<Rightarrow> bool" where
  "wal_dir_is d segs tail \<longleftrightarrow>
     max_segment d = length segs \<and>
     (\<forall>i < length segs. map_of d (segment_path (Suc i)) =
        Some (segment_bytes (segs ! i) @ (if Suc i = length segs then tail else []))) \<and>
     list_all (list_all event_wf) segs"

definition wal_inv :: "wal \<Rightarrow> event list list \<Rightarrow> bool" where
  "wal_inv w segs \<longleftrightarrow>
     segs \<noteq> [] \<and> segment_id w = length segs \<and> fd w = Some (segment_path (segment_id w)) \<and>
     wal_dir_is (wal_dir w) segs [] \<and> current_offset w = 78 * length (last segs)"

text \<open>Reading the directory: one segment after the other.\<close>

lemma read_all_prefix:
  assumes "wal_dir_is d segs tail" and "n < length segs"
  shows "foldl (read_all_step d) (st, c) [1..<Suc n] =
    (add_records st (concat (map (records_from 0) (take n segs))),
     if n = 0 then c else 78 * length (segs ! (n - 1)))"
  using assms(2)
proof (induction n)
  case 0
  then show ?case by simp
next
  case (Suc n)
  have "map_of d (segment_path (Suc n)) = Some (segment_bytes (segs ! n))"
    using assms(1) Suc.prems by (auto simp: wal_dir_is_def)
  moreover have "list_all event_wf (segs ! n)"
    using assms(1) Suc.prems by (auto simp: wal_dir_is_def list_all_length)
  ultimately show ?case using Suc
    by (simp add: read_all_step_def read_segment_clean take_Suc_conv_app_nth)
qed

lemma read_all_wal_dir:
  assumes "wal_dir_is d segs tail" and "segs \<noteq> []"
  shows "read_all d = read_segment (segment_bytes (last segs) @ tail)
    \<lparr>rs_records = concat (map (records_from 0) (butlast segs)), rs_torn_bytes = 0, rs_torn = False\<rparr>"
proof -
  obtain n where n: "length segs = Suc n" using assms(2) by (cases segs) auto
  have m: "map_of d (segment_path (Suc n)) = Some (segment_bytes (last segs) @ tail)"
    using assms(1) n by (simp add: wal_dir_is_def last_conv_nth assms(2))
  have "max_segment d = Suc n" using assms(1) n by (simp add: wal_dir_is_def)
  moreover have "take n segs = butlast segs" using n by (simp add: butlast_conv_take)
  ultimately show ?thesis
    using read_all_prefix [OF assms(1), of n] n m
    by (simp add: read_all_def read_all_step_def add_records_def)
qed

definition no_records :: read_state where
  "no_records = \<lparr>rs_records = [], rs_torn_bytes = 0, rs_torn = False\<rparr>"

definition all_records :: "event list list \<Rightarrow> wal_record list" where
  "all_records segs = concat (map (records_from 0) segs)"

lemma all_records_butlast:
  "segs \<noteq> [] \<Longrightarrow> all_records segs = all_records (butlast segs) @ records_from 0 (last segs)"
  by (cases segs rule: rev_cases) (auto simp: all_records_def)

lemma rec_event_all_records [simp]: "map rec_event (all_records segs) = concat segs"
  by (induction segs) (simp_all add: all_records_def)

lemma wf_last: "wal_dir_is d segs tail \<Longrightarrow> segs \<noteq> [] \<Longrightarrow> list_all event_wf (last segs)"
  by (auto simp: wal_dir_is_def list_all_iff)

lemma read_all_clean:
  assumes "wal_dir_is d segs []" and "segs \<noteq> []"
  shows "read_all d = (add_records no_records (all_records segs), 78 * length (last segs))"
  using read_all_wal_dir [OF assms] read_segment_clean [OF wf_last [OF assms]]
    all_records_butlast [OF assms(2)]
  by (simp add: no_records_def add_records_def all_records_def)

lemma read_all_torn:
  assumes "wal_dir_is d segs (take k (wal_record_bytes e))" and "segs \<noteq> []" and "k < 78"
  shows "read_all d = ((add_records no_records (all_records segs))
      \<lparr>rs_torn := 0 < k, rs_torn_bytes := if 13 \<le> k then 2 * k else k\<rparr>, 78 * length (last segs))"
  using read_all_wal_dir [OF assms(1,2)] read_segment_torn [OF wf_last [OF assms(1,2)] assms(3)]
    all_records_butlast [OF assms(2)]
  by (simp add: no_records_def add_records_def all_records_def)

section \<open>What the writer keeps\<close>

lemma map_of_file_update [simp]:
  "map_of (AList.update p c d) q = (if p = q then Some c else map_of d q)"
  by (simp add: update_conv')

lemma wal_dir_new_segment:
  assumes "wal_dir_is d segs []"
  shows "wal_dir_is (AList.update (segment_path (Suc (length segs))) [] d) (segs @ [[]]) []"
proof -
  have "max_segment d = length segs" using assms by (simp add: wal_dir_is_def)
  then show ?thesis using assms
    by (auto simp: wal_dir_is_def max_segment_update nth_append less_Suc_eq)
qed

lemma no_next_segment:
  assumes "wal_dir_is d segs tail"
  shows "file_content d (segment_path (Suc (length segs))) = []"
proof (cases "map_of d (segment_path (Suc (length segs)))")
  case None
  then show ?thesis by (simp add: file_content_def)
next
  case (Some c)
  then have "segment_path (Suc (length segs)) \<in> fst ` set d" by (metis map_of_SomeD image_eqI fst_conv)
  then have "Suc (length segs) \<le> max_segment d"
    using max_segment_le_iff [of d "max_segment d"] by force
  then show ?thesis using assms by (simp add: wal_dir_is_def)
qed

text \<open>The oracle only answers yes to \<^verbatim>\<open>open\<close>; nothing is assumed of \<^verbatim>\<open>write\<close>.\<close>

abbreviation opens :: "os \<Rightarrow> bool" where
  "opens os \<equiv> \<forall>p. os_open os p"

lemma rotate_new_segment:
  assumes "opens os" and "wal_dir_is (wal_dir w) segs []" and "segment_id w = length segs"
  shows "fst (rotate os w) = Inr ()" and "wal_inv (snd (rotate os w)) (segs @ [[]])"
    and "max_segment_bytes (snd (rotate os w)) = max_segment_bytes w"
    and "bytes_written (snd (rotate os w)) = bytes_written w"
  using assms wal_dir_new_segment [OF assms(2)]
  by (simp_all add: rotate_def open_segment_def no_next_segment [OF assms(2)] wal_inv_def Let_def)

lemma wal_dir_append:
  assumes "wal_dir_is d segs []" and "segs \<noteq> []" and "event_wf e"
  shows "wal_dir_is (AList.update (segment_path (length segs))
      (segment_bytes (last segs) @ wal_record_bytes e) d) (butlast segs @ [last segs @ [e]]) []"
proof -
  obtain n where n: "length segs = Suc n" using assms(2) by (cases segs) auto
  have "list_all (list_all event_wf) (butlast segs @ [last segs @ [e]])"
    using assms wf_last [OF assms(1,2)] by (auto simp: wal_dir_is_def list_all_iff dest: in_set_butlastD)
  then show ?thesis using assms n
    by (auto simp: wal_dir_is_def max_segment_update nth_append nth_butlast less_Suc_eq)
qed

text \<open>The segments after one append: the record goes to the last one, a full one is followed by a new one.\<close>

definition segments_append :: "nat \<Rightarrow> event list list \<Rightarrow> event \<Rightarrow> event list list" where
  "segments_append m segs e =
     butlast segs @ [last segs @ [e]] @ (if m \<le> 78 * (length (last segs) + 1) then [[]] else [])"

lemma concat_segments_append [simp]:
  "segs \<noteq> [] \<Longrightarrow> concat (segments_append m segs e) = concat segs @ [e]"
  by (cases segs rule: rev_cases) (auto simp: segments_append_def)

lemma wal_append_good:
  assumes inv: "wal_inv w segs" and os: "opens os" "os_write os 78 = 78" and wf: "event_wf e"
  shows "fst (wal_append os e w) =
      Inr \<lparr>file_offset = 78 * length (last segs), result_segment_id = length segs\<rparr>"
    and "wal_inv (snd (wal_append os e w)) (segments_append (max_segment_bytes w) segs e)"
    and "max_segment_bytes (snd (wal_append os e w)) = max_segment_bytes w"
    and "bytes_written (snd (wal_append os e w)) = bytes_written w + 78"
proof -
  have segs: "segs \<noteq> []" and sid: "segment_id w = length segs"
    and fd: "fd w = Some (segment_path (length segs))"
    and dir: "wal_dir_is (wal_dir w) segs []" and off: "current_offset w = 78 * length (last segs)"
    using inv by (simp_all add: wal_inv_def)
  have content: "file_content (wal_dir w) (segment_path (length segs)) = segment_bytes (last segs)"
    using dir segs by (cases segs rule: rev_cases) (auto simp: wal_dir_is_def file_content_def nth_append)
  let ?w2 = "w\<lparr>wal_dir := AList.update (segment_path (length segs))
        (segment_bytes (last segs) @ wal_record_bytes e) (wal_dir w),
      current_offset := 78 * length (last segs) + 78, bytes_written := bytes_written w + 78\<rparr>"
  have app: "wal_append os e w =
      (let res = \<lparr>file_offset = 78 * length (last segs), result_segment_id = length segs\<rparr>
       in if max_segment_bytes w \<le> 78 * length (last segs) + 78
          then (case rotate os ?w2 of (Inl ex, w3) \<Rightarrow> (Inl ex, w3) | (Inr _, w3) \<Rightarrow> (Inr res, w3))
          else (Inr res, ?w2))"
    using os(2) by (simp add: wal_append_def Let_def fd off content os_written_def sid)
  note dir2 = wal_dir_append [OF dir segs wf]
  have len: "length (butlast segs @ [last segs @ [e]]) = length segs" using segs by simp
  have rot: "fst (rotate os ?w2) = Inr ()"
    "wal_inv (snd (rotate os ?w2)) ((butlast segs @ [last segs @ [e]]) @ [[]])"
    "max_segment_bytes (snd (rotate os ?w2)) = max_segment_bytes w"
    "bytes_written (snd (rotate os ?w2)) = bytes_written w + 78"
    using rotate_new_segment [of os ?w2 "butlast segs @ [last segs @ [e]]"] os(1) dir2 sid len by simp_all
  show "fst (wal_append os e w) =
      Inr \<lparr>file_offset = 78 * length (last segs), result_segment_id = length segs\<rparr>"
    using rot(1) unfolding app by (cases "rotate os ?w2") (auto simp: Let_def)
  show "wal_inv (snd (wal_append os e w)) (segments_append (max_segment_bytes w) segs e)"
  proof (cases "max_segment_bytes w \<le> 78 * length (last segs) + 78")
    case True
    then show ?thesis using rot(1,2) unfolding app segments_append_def
      by (cases "rotate os ?w2") (auto simp: Let_def)
  next
    case False
    then show ?thesis using dir2 len segs sid fd unfolding app segments_append_def
      by (auto simp: Let_def wal_inv_def)
  qed
  show "max_segment_bytes (snd (wal_append os e w)) = max_segment_bytes w"
    using rot(1,3) unfolding app by (cases "rotate os ?w2") (auto simp: Let_def)
  show "bytes_written (snd (wal_append os e w)) = bytes_written w + 78"
    using rot(1,4) unfolding app by (cases "rotate os ?w2") (auto simp: Let_def)
qed

section \<open>Opening, closing, truncating\<close>

lemma wal_dir_same:
  assumes "wal_dir_is d segs tail" and "segs \<noteq> []"
  shows "wal_dir_is (AList.update (segment_path (length segs)) (segment_bytes (last segs) @ tail) d) segs tail"
proof -
  have "last segs = segs ! (length segs - 1)" using assms(2) by (rule last_conv_nth)
  then show ?thesis using assms by (auto simp: wal_dir_is_def max_segment_update)
qed

lemma last_segment_content:
  assumes "wal_dir_is d segs tail" and "segs \<noteq> []"
  shows "file_content d (segment_path (length segs)) = segment_bytes (last segs) @ tail"
  using assms by (cases segs rule: rev_cases) (auto simp: wal_dir_is_def file_content_def nth_append)

lemma wal_writer_reopen:
  assumes "opens os" and "wal_dir_is d segs tail" and "segs \<noteq> []"
  shows "fst (wal_writer os m d) = Inr ()"
    and "fd (snd (wal_writer os m d)) = Some (segment_path (length segs))"
    and "segment_id (snd (wal_writer os m d)) = length segs"
    and "wal_dir_is (wal_dir (snd (wal_writer os m d))) segs tail"
    and "current_offset (snd (wal_writer os m d)) = 78 * length (last segs) + length tail"
    and "max_segment_bytes (snd (wal_writer os m d)) = m"
  using assms last_segment_content [OF assms(2,3)] wal_dir_same [OF assms(2,3)]
  by (simp_all add: wal_writer_def open_segment_def wal_dir_is_def Let_def)

lemma wal_writer_reopen_inv:
  assumes "opens os" and "wal_dir_is d segs []" and "segs \<noteq> []"
  shows "wal_inv (snd (wal_writer os m d)) segs"
  using wal_writer_reopen [OF assms] assms(3) by (simp add: wal_inv_def)

lemma wal_writer_fresh:
  assumes "opens os"
  shows "fst (wal_writer os m []) = Inr ()" and "wal_inv (snd (wal_writer os m [])) [[]]"
    and "max_segment_bytes (snd (wal_writer os m [])) = m"
proof -
  have "max_segment [] = 0" by (simp add: max_segment_def)
  moreover have "max_segment [(segment_path (Suc 0), [])] = 1" by (simp add: max_segment_def)
  ultimately show "fst (wal_writer os m []) = Inr ()" "wal_inv (snd (wal_writer os m [])) [[]]"
    "max_segment_bytes (snd (wal_writer os m [])) = m"
    using assms
    by (simp_all add: wal_writer_def open_segment_def wal_inv_def wal_dir_is_def file_content_def Let_def)
qed

lemma wal_dir_truncate:
  assumes "wal_dir_is d segs tail" and "segs \<noteq> []"
  shows "wal_dir_is (AList.update (segment_path (length segs)) (segment_bytes (last segs)) d) segs []"
proof -
  have "last segs = segs ! (length segs - 1)" using assms(2) by (rule last_conv_nth)
  then show ?thesis using assms by (auto simp: wal_dir_is_def max_segment_update)
qed

lemma truncate_and_seal_clean:
  assumes "opens os" and "wal_dir_is (wal_dir w) segs tail" and "segs \<noteq> []"
    and "fd w = Some (segment_path (length segs))" and "segment_id w = length segs"
    and "current_offset w = 78 * length (last segs) + length tail"
  shows "fst (truncate_and_seal os (78 * length (last segs)) w) = Inr ()"
    and "wal_inv (snd (truncate_and_seal os (78 * length (last segs)) w)) (segs @ [[]])"
proof -
  let ?w1 = "if tail \<noteq> [] then w\<lparr>wal_dir := AList.update (segment_path (length segs))
      (segment_bytes (last segs)) (wal_dir w)\<rparr> else w"
  have eq: "truncate_and_seal os (78 * length (last segs)) w = rotate os ?w1"
    using assms(4,6) by (simp add: truncate_and_seal_def last_segment_content [OF assms(2,3)])
  have "wal_dir_is (wal_dir ?w1) segs []" "segment_id ?w1 = length segs"
    using assms(2,5) wal_dir_truncate [OF assms(2,3)] by auto
  from rotate_new_segment(1,2) [OF assms(1) this]
  show "fst (truncate_and_seal os (78 * length (last segs)) w) = Inr ()"
    "wal_inv (snd (truncate_and_seal os (78 * length (last segs)) w)) (segs @ [[]])"
    by (simp_all only: eq)
qed

section \<open>The log as a client sees it\<close>

text \<open>
  What recovery and the database rely on: appending keeps the log well formed, and
  replaying it afterwards yields one more event, at the end.
\<close>

locale durable_log =
  fixes inv :: "'l \<Rightarrow> bool" and append :: "'e \<Rightarrow> 'l \<Rightarrow> 'l"
    and replay :: "'l \<Rightarrow> 'e list" and ok :: "'e \<Rightarrow> bool"
  assumes append_inv: "inv l \<Longrightarrow> ok e \<Longrightarrow> inv (append e l)"
    and replay_append: "inv l \<Longrightarrow> ok e \<Longrightarrow> replay (append e l) = replay l @ [e]"
begin

lemma append_all_inv: "inv l \<Longrightarrow> list_all ok es \<Longrightarrow> inv (fold append es l)"
  by (induction es arbitrary: l) (auto simp: append_inv)

lemma replay_append_all: "inv l \<Longrightarrow> list_all ok es \<Longrightarrow> replay (fold append es l) = replay l @ es"
  by (induction es arbitrary: l) (auto simp: append_inv replay_append)

end

definition wal_ok :: "wal \<Rightarrow> bool" where
  "wal_ok w \<longleftrightarrow> (\<exists>segs. wal_inv w segs)"

definition wal_events :: "dir \<Rightarrow> event list" where
  "wal_events d = map rec_event (rs_records (fst (read_all d)))"

lemma wal_events_inv: "wal_inv w segs \<Longrightarrow> wal_events (wal_dir w) = concat segs"
  using read_all_clean [of "wal_dir w" segs]
  by (simp add: wal_events_def wal_inv_def no_records_def)

lemma wal_inv_nonempty: "wal_inv w segs \<Longrightarrow> segs \<noteq> []"
  by (simp add: wal_inv_def)

lemma opens_os_ok [simp]: "os_open os_ok p" "os_write os_ok n = int n"
  by (simp_all add: os_ok_def)

interpretation wal_log: durable_log wal_ok "\<lambda>e w. snd (wal_append os_ok e w)"
  "\<lambda>w. wal_events (wal_dir w)" event_wf
proof (unfold_locales, goal_cases)
  case (1 l e)
  then obtain segs where "wal_inv l segs" by (auto simp: wal_ok_def)
  from wal_append_good(2) [OF this _ _ 1(2), of os_ok] show ?case by (auto simp: wal_ok_def)
next
  case (2 l e)
  then obtain segs where inv: "wal_inv l segs" by (auto simp: wal_ok_def)
  from wal_append_good(2) [OF this _ _ 2(2), of os_ok]
  show ?case using wal_events_inv [OF inv] wal_inv_nonempty [OF inv] by (auto dest: wal_events_inv)
qed

section \<open>Properties\<close>

text \<open>C25: Whatever sequence of events is appended to a well-formed log, across any number of
  rotations, reading the directory back yields the events that were there before followed by
  exactly these, in order, with nothing reported torn.\<close>

theorem wal_replay_all:
  assumes "wal_ok w" and "list_all event_wf es"
  shows "case read_all (wal_dir (fold (\<lambda>e w. snd (wal_append os_ok e w)) es w)) of (st, clean_end) \<Rightarrow>
    map rec_event (rs_records st) = wal_events (wal_dir w) @ es \<and> \<not> rs_torn st \<and> rs_torn_bytes st = 0"
proof -
  let ?w' = "fold (\<lambda>e w. snd (wal_append os_ok e w)) es w"
  obtain segs where "wal_inv ?w' segs"
    using wal_log.append_all_inv [OF assms] by (auto simp: wal_ok_def)
  then have "wal_dir_is (wal_dir ?w') segs []" "segs \<noteq> []" by (simp_all add: wal_inv_def)
  then show ?thesis
    using wal_log.replay_append_all [OF assms] by (simp add: read_all_clean wal_events_def no_records_def)
qed

lemma fresh_wal_ok: "wal_ok (snd (wal_writer os_ok m []))"
  using wal_writer_fresh(2) [of os_ok m] by (auto simp: wal_ok_def)

lemma wal_replay_all_witness:
  "case read_all (wal_dir (fold (\<lambda>e w. snd (wal_append os_ok e w))
      [sample_event 10 1 Trade, sample_event 20 2 Quote] (snd (wal_writer os_ok 78 [])))) of (st, clean_end) \<Rightarrow>
    map rec_event (rs_records st) = wal_events (wal_dir (snd (wal_writer os_ok 78 []))) @
      [sample_event 10 1 Trade, sample_event 20 2 Quote] \<and> \<not> rs_torn st \<and> rs_torn_bytes st = 0"
  by (rule wal_replay_all [OF fresh_wal_ok]) simp

text \<open>A successful append returns the segment and the offset at which the record's bytes
  lie in the directory afterwards, also when the append rotated to a new segment.\<close>

theorem wal_append_position:
  assumes "wal_ok w" and "event_wf e"
  shows "\<exists>off seg. fst (wal_append os_ok e w) = Inr \<lparr>file_offset = off, result_segment_id = seg\<rparr> \<and>
    take 78 (drop off (file_content (wal_dir (snd (wal_append os_ok e w))) (segment_path seg))) = wal_record_bytes e"
proof -
  obtain segs where inv: "wal_inv w segs" using assms(1) by (auto simp: wal_ok_def)
  then have segs: "segs \<noteq> []" by (simp add: wal_inv_def)
  note app = wal_append_good [OF inv _ _ assms(2), of os_ok]
  let ?segs' = "segments_append (max_segment_bytes w) segs e"
  have at: "length segs - 1 < length ?segs'" "?segs' ! (length segs - 1) = last segs @ [e]"
    using segs by (auto simp: segments_append_def nth_append)
  have "wal_dir_is (wal_dir (snd (wal_append os_ok e w))) ?segs' []" using app(2) by (simp add: wal_inv_def)
  then have "map_of (wal_dir (snd (wal_append os_ok e w))) (segment_path (length segs))
      = Some (segment_bytes (last segs @ [e]))"
    using at segs by (auto simp: wal_dir_is_def)
  then show ?thesis using app(1) by (simp add: file_content_def)
qed

lemma wal_append_position_witness:
  "\<exists>off seg. fst (wal_append os_ok (sample_event 10 1 Trade) (snd (wal_writer os_ok 78 [])))
      = Inr \<lparr>file_offset = off, result_segment_id = seg\<rparr> \<and>
    take 78 (drop off (file_content (wal_dir (snd (wal_append os_ok (sample_event 10 1 Trade)
      (snd (wal_writer os_ok 78 []))))) (segment_path seg))) = wal_record_bytes (sample_event 10 1 Trade)"
  by (rule wal_append_position [OF fresh_wal_ok]) simp

lemma wal_append_short_write:
  assumes inv: "wal_inv w segs" and "os_write os 78 = int k" and "k < 78"
  shows "fst (wal_append os e w) = Inl (Runtime_error ''WAL write failed'')"
    and "wal_dir_is (wal_dir (snd (wal_append os e w))) segs (take k (wal_record_bytes e))"
proof -
  from inv have segs: "segs \<noteq> []" and dir: "wal_dir_is (wal_dir w) segs []"
    and fd: "fd w = Some (segment_path (length segs))" by (simp_all add: wal_inv_def)
  show "fst (wal_append os e w) = Inl (Runtime_error ''WAL write failed'')"
    using assms(2,3) fd by (simp add: wal_append_def)
  have "wal_dir (snd (wal_append os e w)) = AList.update (segment_path (length segs))
      (segment_bytes (last segs) @ take k (wal_record_bytes e)) (wal_dir w)"
    using assms(2,3) fd last_segment_content [OF dir segs]
    by (simp add: wal_append_def os_written_def min_def)
  then show "wal_dir_is (wal_dir (snd (wal_append os e w))) segs (take k (wal_record_bytes e))"
    using dir segs by (cases segs rule: rev_cases) (auto simp: wal_dir_is_def max_segment_update nth_append)
qed

text \<open>When the process dies, or the disk fills, with only the first \<open>k\<close> bytes of a record
  written, the append reports the failure and a later read yields exactly the events of before,
  detects the tear if there is one, and gives the end of the intact records as the clean end.
  The number of torn bytes reported is \<open>k\<close> below a header's length and twice \<open>k\<close> from there on.\<close>

theorem wal_torn_write:
  assumes "wal_ok w" and "os_write os 78 = int k" and "k < 78"
  shows "fst (wal_append os e w) = Inl (Runtime_error ''WAL write failed'') \<and>
    (case read_all (wal_dir (snd (wal_append os e w))) of (st, clean_end) \<Rightarrow>
      map rec_event (rs_records st) = wal_events (wal_dir w) \<and> rs_torn st = (0 < k) \<and>
      rs_torn_bytes st = (if 13 \<le> k then 2 * k else k) \<and> clean_end = current_offset w)"
proof -
  obtain segs where inv: "wal_inv w segs" using assms(1) by (auto simp: wal_ok_def)
  then have segs: "segs \<noteq> []" and off: "current_offset w = 78 * length (last segs)"
    by (simp_all add: wal_inv_def)
  note short = wal_append_short_write [OF inv assms(2,3), of e]
  show ?thesis
    using short(1) read_all_torn [OF short(2) segs assms(3)] off
    by (simp add: wal_events_inv [OF inv] no_records_def)
qed

lemma wal_torn_write_witness:
  "fst (wal_append \<lparr>os_open = \<lambda>_. True, os_write = \<lambda>_. 20\<rparr> (sample_event 10 1 Trade) (snd (wal_writer os_ok 1000 [])))
      = Inl (Runtime_error ''WAL write failed'') \<and>
   (case read_all (wal_dir (snd (wal_append \<lparr>os_open = \<lambda>_. True, os_write = \<lambda>_. 20\<rparr>
        (sample_event 10 1 Trade) (snd (wal_writer os_ok 1000 []))))) of (st, clean_end) \<Rightarrow>
      map rec_event (rs_records st) = wal_events (wal_dir (snd (wal_writer os_ok 1000 []))) \<and>
      rs_torn st = (0 < (20::nat)) \<and> rs_torn_bytes st = (if 13 \<le> (20::nat) then 2 * 20 else 20) \<and>
      clean_end = current_offset (snd (wal_writer os_ok 1000 [])))"
  by (rule wal_torn_write [OF fresh_wal_ok]) simp_all

text \<open>C26: The recovery sequence of \<^verbatim>\<open>DB::open\<close> after such a tear (read, reopen the writer,
  truncate the last segment at the clean end and seal it) restores a well-formed log with the
  same events, so that later appends are read back behind them.\<close>

theorem wal_recovery_after_tear:
  assumes "wal_ok w" and "os_write os 78 = int k" and "k < 78" and "list_all event_wf es"
    and "read_all (wal_dir (snd (wal_append os e w))) = (st, clean_end)"
    and "wal_writer os_ok m (wal_dir (snd (wal_append os e w))) = (r2, w2)"
    and "truncate_and_seal os_ok clean_end w2 = (r3, w3)"
  shows "r2 = Inr () \<and> r3 = Inr () \<and> wal_ok w3 \<and>
    wal_events (wal_dir (fold (\<lambda>e w. snd (wal_append os_ok e w)) es w3)) = wal_events (wal_dir w) @ es"
proof -
  obtain segs where inv: "wal_inv w segs" using assms(1) by (auto simp: wal_ok_def)
  then have segs: "segs \<noteq> []" by (simp add: wal_inv_def)
  note short = wal_append_short_write [OF inv assms(2,3), of e]
  have clean: "clean_end = 78 * length (last segs)"
    using read_all_torn [OF short(2) segs assms(3)] assms(5) by simp
  note re = wal_writer_reopen [OF _ short(2) segs, of os_ok m, unfolded assms(6)]
  have "r3 = Inr ()" "wal_inv w3 (segs @ [[]])"
    using truncate_and_seal_clean [OF _ re(4) segs re(2) re(3) re(5), of os_ok] assms(7)
    by (simp_all add: clean)
  moreover from this have "wal_ok w3" "wal_events (wal_dir w3) = wal_events (wal_dir w)"
    using wal_events_inv [OF inv] wal_events_inv [of w3 "segs @ [[]]"] by (auto simp: wal_ok_def)
  moreover have "r2 = Inr ()" using re(1) by simp
  ultimately show ?thesis using wal_log.replay_append_all [OF _ assms(4)] by simp
qed

lemma wal_recovery_after_tear_witness:
  "let w = snd (wal_writer os_ok 1000 []);
       w' = snd (wal_append \<lparr>os_open = \<lambda>_. True, os_write = \<lambda>_. 20\<rparr> (sample_event 10 1 Trade) w);
       w2 = snd (wal_writer os_ok 1000 (wal_dir w'));
       w3 = snd (truncate_and_seal os_ok (snd (read_all (wal_dir w'))) w2)
   in wal_events (wal_dir (fold (\<lambda>e w. snd (wal_append os_ok e w)) [sample_event 11 1 Quote] w3))
      = wal_events (wal_dir w) @ [sample_event 11 1 Quote]"
  using wal_recovery_after_tear [of "snd (wal_writer os_ok 1000 [])"
      "\<lparr>os_open = \<lambda>_. True, os_write = \<lambda>_. 20\<rparr>" 20
      "[sample_event 11 1 Quote]" "sample_event 10 1 Trade", OF _ _ _ _ prod.collapse [symmetric]
      prod.collapse [symmetric] prod.collapse [symmetric], of 1000]
  by (simp add: fresh_wal_ok Let_def)



end
