(* ===== verification/Recovery.thy ===== *)
theory Recovery
  imports Wal MemTable
begin

text \<open>
  Recovery (db/recovery.hpp, db/recovery.cpp): replaying a log directory into a memtable,
  and the crash demonstration of the server (net/server.cpp), which writes a log, cuts 384
  bytes off its end and recovers it. The durations the results carry are not modelled.
\<close>

record recovery_result =
  records_recovered :: u64
  rr_torn_bytes :: nat
  rr_torn_detected :: bool
  rr_clean_end_offset :: nat

text \<open>A directory that does not exist is \<open>None\<close>; the insertion loop is an option as the skip list's.\<close>

definition recover :: "(nat \<Rightarrow> u32) \<Rightarrow> dir option \<Rightarrow> memtable \<Rightarrow> (recovery_result \<times> memtable) option" where
  "recover rng wdir target =
     (case wdir of
        None \<Rightarrow> Some (\<lparr>records_recovered = 0, rr_torn_bytes = 0, rr_torn_detected = False, rr_clean_end_offset = 0\<rparr>, target)
      | Some d \<Rightarrow>
          (let (st, clean_end) = read_all d
           in do {
             m \<leftarrow> memtable_insert_all rng (map rec_event (rs_records st)) target;
             Some (\<lparr>records_recovered = word_of_nat (length (rs_records st)), rr_torn_bytes = rs_torn_bytes st,
                    rr_torn_detected = rs_torn st, rr_clean_end_offset = clean_end\<rparr>, m)
           }))"

section \<open>The crash demonstration\<close>

record demo_result =
  records_before_crash :: nat
  demo_recovery :: recovery_result
  committed_records_lost :: nat

definition demo_event :: "u64 \<Rightarrow> event" where
  "demo_event i =
     \<lparr>timestamp_ns = i * 1000, symbol_id = 1, sequence_id = i, event_type = Trade, price_ticks = 100,
      bid_px_ticks = 0, ask_px_ticks = 0, quantity = 0, bid_qty = 0, ask_qty = 0, order_id = 0\<rparr>"

primrec wal_append_all :: "os \<Rightarrow> event list \<Rightarrow> wal \<Rightarrow> (exn + unit) \<times> wal" where
  "wal_append_all os [] w = (Inr (), w)"
| "wal_append_all os (e # es) w = and_then (wal_append os e w) (\<lambda>_. wal_append_all os es)"

definition demo_corrupt :: "dir \<Rightarrow> dir" where
  "demo_corrupt d = map (\<lambda>(name, file). (name, if length file > 384 then take (length file - 384) file else file)) d"

text \<open>The handler with \<open>n\<close> records, on the contents the demo directory had before.\<close>

definition recovery_demo :: "os \<Rightarrow> (nat \<Rightarrow> u32) \<Rightarrow> nat \<Rightarrow> dir \<Rightarrow> (exn + demo_result) option" where
  "recovery_demo os rng n d =
     (case and_then (wal_writer os (128 * 1024 * 1024) d)
             (\<lambda>_. wal_append_all os (map (\<lambda>i. demo_event (word_of_nat i)) [0..<n])) of
        (Inl ex, w) \<Rightarrow> Some (Inl ex)
      | (Inr _, w) \<Rightarrow> do {
          (rr, m) \<leftarrow> recover rng (Some (demo_corrupt (wal_dir (wal_close w)))) (memtable_new (64 * 1024 * 1024));
          Some (Inr \<lparr>records_before_crash = n, demo_recovery = rr, committed_records_lost = 0\<rparr>)
        })"

section \<open>What recovery restores\<close>

lemma recover_spec:
  assumes "read_all d = (st, clean_end)"
  shows "\<exists>m. recover rng (Some d) (memtable_new t) =
      Some (\<lparr>records_recovered = word_of_nat (length (rs_records st)), rr_torn_bytes = rs_torn_bytes st,
             rr_torn_detected = rs_torn st, rr_clean_end_offset = clean_end\<rparr>, m) \<and>
    memtable_rel m (fold event_upsert (map rec_event (rs_records st)) [])"
  using memtable_insert_all_spec [OF memtable_rel_new [of t], where rng = rng and ins = "map rec_event (rs_records st)"]
  by (auto simp: recover_def assms)

text \<open>Appending a run of events that all fit into the last segment.\<close>

lemma segments_append_fit:
  assumes "segs \<noteq> []" and "78 * (length (last segs) + 1) < m"
  shows "segments_append m segs e = butlast segs @ [last segs @ [e]]"
  using assms by (simp add: segments_append_def)

lemma wal_append_all_fit:
  assumes "opens os" and "os_write os 78 = 78"
  shows "wal_inv w segs \<Longrightarrow> list_all event_wf es \<Longrightarrow> 78 * (length (last segs) + length es) < max_segment_bytes w \<Longrightarrow>
    fst (wal_append_all os es w) = Inr () \<and> wal_inv (snd (wal_append_all os es w)) (butlast segs @ [last segs @ es])"
proof (induction es arbitrary: w segs)
  case Nil
  then show ?case by (simp add: wal_inv_nonempty)
next
  case (Cons e es)
  have ne: "segs \<noteq> []" using Cons.prems(1) by (rule wal_inv_nonempty)
  have wf: "event_wf e" "list_all event_wf es" using Cons.prems(2) by simp_all
  note app = wal_append_good [OF Cons.prems(1) assms wf(1)]
  let ?w = "snd (wal_append os e w)"
  have inv: "wal_inv ?w (butlast segs @ [last segs @ [e]])"
    using app(2) segments_append_fit [OF ne, of "max_segment_bytes w" e] Cons.prems(3) by simp
  have "wal_append os e w = (Inr \<lparr>file_offset = 78 * length (last segs), result_segment_id = length segs\<rparr>, ?w)"
    using app(1) by (metis prod.collapse)
  then have "wal_append_all os (e # es) w = wal_append_all os es ?w" by (metis and_then_simps(2) wal_append_all.simps(2))
  then show ?case using Cons.IH [OF inv wf(2)] Cons.prems(3) app(3) by simp
qed


section \<open>The cut of the demonstration\<close>

lemma map_of_demo_corrupt:
  "map_of (demo_corrupt d) p = map_option (\<lambda>f. if length f > 384 then take (length f - 384) f else f) (map_of d p)"
  by (induction d) (auto simp: demo_corrupt_def)

lemma max_segment_cong: "map fst d' = map fst d \<Longrightarrow> max_segment d' = max_segment d"
proof -
  assume n: "map fst d' = map fst d"
  have "max_segment d = foldl (\<lambda>max_id name. case sscanf_wal name of None \<Rightarrow> max_id | Some i \<Rightarrow> max max_id i) 0 (map fst d)" for d :: dir
    by (simp add: max_segment_def foldl_map case_prod_unfold)
  then show ?thesis using n by metis
qed

lemma max_segment_corrupt [simp]: "max_segment (demo_corrupt d) = max_segment d"
  by (rule max_segment_cong) (simp add: demo_corrupt_def comp_def case_prod_unfold)

lemma segment_bytes_cut:
  assumes "5 \<le> length es"
  shows "take (length (segment_bytes es) - 384) (segment_bytes es) =
    segment_bytes (take (length es - 5) es) @ take 6 (wal_record_bytes (es ! (length es - 5)))"
proof -
  let ?k = "length es - 5"
  have "es = take ?k es @ es ! ?k # drop (Suc ?k) es" using assms by (intro id_take_nth_drop) simp
  then have c: "segment_bytes es = segment_bytes (take ?k es) @ wal_record_bytes (es ! ?k) @ segment_bytes (drop (Suc ?k) es)"
    by (metis segment_bytes_simps(2,3))
  have "length (segment_bytes es) - 384 = length (segment_bytes (take ?k es)) + 6" using assms by simp
  then show ?thesis by (subst (2) c) simp
qed

lemma demo_corrupt_dir:
  assumes "wal_dir_is d [es] []" and "5 \<le> length es"
  shows "wal_dir_is (demo_corrupt d) [take (length es - 5) es] (take 6 (wal_record_bytes (es ! (length es - 5))))"
proof -
  have "map_of d (segment_path 1) = Some (segment_bytes es)" "list_all event_wf es" "max_segment d = 1"
    using assms(1) by (simp_all add: wal_dir_is_def)
  then show ?thesis using segment_bytes_cut [OF assms(2)] assms(2)
    by (auto simp: wal_dir_is_def map_of_demo_corrupt list_all_iff dest: in_set_takeD)
qed

section \<open>Properties\<close>

text \<open>Replaying a log into a new memtable restores, for every key, the event appended last
  under it, counts all records, and reports nothing torn.\<close>

theorem recovery_restores:
  assumes "wal_ok w" and "list_all event_wf es"
  shows "\<exists>rr m es'. recover rng (Some (wal_dir (fold (\<lambda>e w. snd (wal_append os_ok e w)) es w))) (memtable_new t) = Some (rr, m) \<and>
    to_sorted_events m = Some es' \<and>
    map_of (keyed es') = map_of (rev (keyed (wal_events (wal_dir w) @ es))) \<and>
    records_recovered rr = word_of_nat (length (wal_events (wal_dir w) @ es)) \<and> \<not> rr_torn_detected rr \<and> rr_torn_bytes rr = 0"
proof -
  let ?d = "wal_dir (fold (\<lambda>e w. snd (wal_append os_ok e w)) es w)"
  obtain st clean where rd: "read_all ?d = (st, clean)" by fastforce
  obtain segs where "wal_inv (fold (\<lambda>e w. snd (wal_append os_ok e w)) es w) segs"
    using wal_log.append_all_inv [OF assms] by (auto simp: wal_ok_def)
  then have "wal_dir_is ?d segs []" "segs \<noteq> []" by (simp_all add: wal_inv_def)
  then have st: "\<not> rs_torn st" "rs_torn_bytes st = 0"
    using read_all_clean [of ?d segs] rd by (auto simp: no_records_def)
  have ev: "map rec_event (rs_records st) = wal_events (wal_dir w) @ es"
    using wal_log.replay_append_all [OF assms] rd by (simp add: wal_events_def)
  obtain m where m: "recover rng (Some ?d) (memtable_new t) =
      Some (\<lparr>records_recovered = word_of_nat (length (rs_records st)), rr_torn_bytes = rs_torn_bytes st,
             rr_torn_detected = rs_torn st, rr_clean_end_offset = clean\<rparr>, m)"
      "memtable_rel m (fold event_upsert (map rec_event (rs_records st)) [])"
    using recover_spec [OF rd] by blast
  have "map_of (keyed (fold event_upsert (map rec_event (rs_records st)) [])) = map_of (rev (keyed (wal_events (wal_dir w) @ es)))"
    using map_of_fold_upsert [of "[]" "map rec_event (rs_records st)"] by (simp add: ev)
  moreover have "length (rs_records st) = length (wal_events (wal_dir w) @ es)" using arg_cong [OF ev, of length] by simp
  ultimately show ?thesis using m(1) to_sorted_events_spec [OF m(2)] st by auto
qed

lemma recovery_restores_witness:
  "\<exists>rr m es'. recover (\<lambda>_. 1) (Some (wal_dir (fold (\<lambda>e w. snd (wal_append os_ok e w))
      [sample_event 10 1 Trade, sample_event 10 1 Tombstone] (snd (wal_writer os_ok 100 []))))) (memtable_new 4096) = Some (rr, m) \<and>
    to_sorted_events m = Some es' \<and>
    map_of (keyed es') = map_of (rev (keyed (wal_events (wal_dir (snd (wal_writer os_ok 100 []))) @
      [sample_event 10 1 Trade, sample_event 10 1 Tombstone]))) \<and>
    records_recovered rr = word_of_nat (length (wal_events (wal_dir (snd (wal_writer os_ok 100 []))) @
      [sample_event 10 1 Trade, sample_event 10 1 Tombstone])) \<and> \<not> rr_torn_detected rr \<and> rr_torn_bytes rr = 0"
  by (rule recovery_restores [OF fresh_wal_ok]) simp

text \<open>The crash demonstration cuts 384 bytes off the log, which destroys the last five
  records; the recovery detects the tear and restores all but those five. The answer of the
  handler still says that no committed record was lost.\<close>

theorem recovery_demo_loses_five:
  assumes "5 \<le> n" and "78 * n < 128 * 1024 * 1024"
  shows "\<exists>r. recovery_demo os_ok rng n [] = Some (Inr r) \<and>
    records_before_crash r = n \<and> records_recovered (demo_recovery r) = word_of_nat (n - 5) \<and>
    rr_torn_detected (demo_recovery r) \<and> rr_torn_bytes (demo_recovery r) = 6 \<and> committed_records_lost r = 0"
proof -
  let ?es = "map (\<lambda>i. demo_event (word_of_nat i)) [0..<n]" and ?m = "128 * 1024 * 1024 :: nat"
  obtain r0 w0 where w0: "wal_writer os_ok ?m [] = (r0, w0)" by fastforce
  have f: "r0 = Inr ()" "wal_inv w0 [[]]" "max_segment_bytes w0 = ?m"
    using wal_writer_fresh [of os_ok ?m] unfolding w0 by simp_all
  have wf: "list_all event_wf ?es" by (simp add: list_all_iff event_wf_def demo_event_def)
  obtain r1 w1 where w1: "wal_append_all os_ok ?es w0 = (r1, w1)" by fastforce
  have app: "r1 = Inr ()" "wal_inv w1 [?es]"
    using wal_append_all_fit [of os_ok w0 "[[]]" ?es] f(2,3) wf assms(2) unfolding w1 by simp_all
  have dir: "wal_dir_is (wal_dir (wal_close w1)) [?es] []"
    using app(2) by (simp add: wal_inv_def wal_close_def)
  define d where "d = demo_corrupt (wal_dir (wal_close w1))"
  have "wal_dir_is d [take (n - 5) ?es] (take 6 (wal_record_bytes (?es ! (n - 5))))"
    using demo_corrupt_dir [OF dir] assms(1) by (simp add: d_def)
  from read_all_torn [OF this] have rd: "read_all d = ((add_records no_records (all_records [take (n - 5) ?es]))
      \<lparr>rs_torn := True, rs_torn_bytes := 6\<rparr>, 78 * (n - 5))"
    by simp
  have l: "length (all_records [take (n - 5) ?es]) = n - 5" by (simp add: all_records_def)
  obtain m where rec: "recover rng (Some d) (memtable_new (64 * 1024 * 1024)) =
      Some (\<lparr>records_recovered = word_of_nat (n - 5), rr_torn_bytes = 6, rr_torn_detected = True,
             rr_clean_end_offset = 78 * (n - 5)\<rparr>, m)"
    using recover_spec [OF rd, of rng "64 * 1024 * 1024"] l by (auto simp: no_records_def)
  have "recovery_demo os_ok rng n [] = Some (Inr \<lparr>records_before_crash = n,
      demo_recovery = \<lparr>records_recovered = word_of_nat (n - 5), rr_torn_bytes = 6, rr_torn_detected = True,
             rr_clean_end_offset = 78 * (n - 5)\<rparr>, committed_records_lost = 0\<rparr>)"
    unfolding recovery_demo_def w0 f(1) and_then_simps w1 app(1) prod.case sum.case d_def [symmetric] rec by simp
  then show ?thesis by simp
qed

lemma recovery_demo_loses_five_witness:
  "\<exists>r. recovery_demo os_ok (\<lambda>_. 1) 100000 [] = Some (Inr r) \<and>
    records_before_crash r = 100000 \<and> records_recovered (demo_recovery r) = word_of_nat (100000 - 5) \<and>
    rr_torn_detected (demo_recovery r) \<and> rr_torn_bytes (demo_recovery r) = 6 \<and> committed_records_lost r = 0"
  by (rule recovery_demo_loses_five) simp_all

end
