(* ===== verification/Metrics.thy ===== *)
theory Metrics
  imports Prelude Complex_Main "HOL-Library.Multiset"
begin

text \<open>
  Metrics (util/metrics.hpp, util/metrics.cpp): the power-of-two latency histogram with its
  percentiles, the throughput tracker, sequentially and under any interleaving of the threads
  that call it, and the counters. Floating-point values are exact rationals where the code's
  are exact; where they are not (the product \<open>p * total\<close>, the moving average), the operation
  is a parameter.
\<close>

section \<open>The histogram\<close>

definition kBuckets :: nat where
  "kBuckets = 64"

record histogram =
  buckets :: "u64 list"
  h_total :: u64
  h_sum :: u64

definition histogram_new :: histogram where
  "histogram_new = \<lparr>buckets = replicate kBuckets 0, h_total = 0, h_sum = 0\<rparr>"

text \<open>\<^verbatim>\<open>__builtin_clzll\<close>: the number of leading zero bits.\<close>

definition clzll :: "u64 \<Rightarrow> nat" where
  "clzll w = length (takeWhile (\<lambda>i. \<not> bit w i) (rev [0..<64]))"

definition bucket_for :: "u64 \<Rightarrow> nat" where
  "bucket_for us = (if us = 0 then 0 else min (64 - clzll us) (kBuckets - 1))"

definition histogram_record :: "u64 \<Rightarrow> histogram \<Rightarrow> histogram" where
  "histogram_record us h =
     h\<lparr>buckets := (buckets h)[bucket_for us := buckets h ! bucket_for us + 1],
       h_total := h_total h + 1, h_sum := h_sum h + us\<rparr>"

text \<open>The value returned for bucket \<open>i\<close>.\<close>

definition bucket_value :: "nat \<Rightarrow> rat" where
  "bucket_value i =
     (if i = 0 then 1 / 2
      else let lo = push_bit (i - 1) 1; hi = push_bit i 1 :: u64 in of_nat (unat ((lo + hi) div 2)))"

fun percentile_loop :: "u64 list \<Rightarrow> nat \<Rightarrow> u64 \<Rightarrow> u64 \<Rightarrow> rat" where
  "percentile_loop [] i cumulative target = of_nat (unat (push_bit (kBuckets - 1) 1 :: u64))"
| "percentile_loop (b # bs) i cumulative target =
     (if cumulative + b \<ge> target then bucket_value i
      else percentile_loop bs (i + 1) (cumulative + b) target)"

text \<open>\<open>mul p total\<close> is the truncated product of two doubles.\<close>

definition percentile :: "(rat \<Rightarrow> u64 \<Rightarrow> u64) \<Rightarrow> rat \<Rightarrow> histogram \<Rightarrow> rat" where
  "percentile mul p0 h =
     (if p0 \<le> 0 then 0
      else let p = (if p0 \<ge> 1 then 1 else p0); total = h_total h
           in if total = 0 then 0
              else let target0 = mul p total; target = (if target0 = 0 then 1 else target0)
                   in percentile_loop (buckets h) 0 0 target)"

definition histogram_reset :: "histogram \<Rightarrow> histogram" where
  "histogram_reset h = h\<lparr>buckets := map (\<lambda>_. 0) (buckets h), h_total := 0, h_sum := 0\<rparr>"

section \<open>The buckets\<close>

lemma takeWhile_rev_upt:
  "i < n \<Longrightarrow> P i \<Longrightarrow> (\<And>j. i < j \<Longrightarrow> j < n \<Longrightarrow> \<not> P j) \<Longrightarrow>
     length (takeWhile (\<lambda>j. \<not> P j) (rev [0..<n])) = n - 1 - i"
proof (induction n)
  case (Suc n)
  show ?case
  proof (cases "i = n")
    case True
    then show ?thesis using Suc.prems by simp
  next
    case False
    then show ?thesis using Suc by simp
  qed
qed simp

text \<open>The highest bit set decides the bucket.\<close>

lemma highest_bit: "(us :: u64) \<noteq> 0 \<Longrightarrow> \<exists>i < 64. bit us i \<and> (\<forall>j. i < j \<longrightarrow> \<not> bit us j) \<and> 2 ^ i \<le> unat us \<and> unat us < 2 ^ Suc i"
proof -
  assume "us \<noteq> 0"
  then have pos: "0 < unat us" by (simp add: unat_gt_0)
  define i where "i = (GREATEST i. 2 ^ i \<le> unat us)"
  have ub: "2 ^ k \<le> unat us \<Longrightarrow> k \<le> unat us" for k using less_exp [of k] by linarith
  have le: "2 ^ i \<le> unat us"
    unfolding i_def
    by (rule GreatestI_nat [where P = "\<lambda>i. 2 ^ i \<le> unat us" and k = 0 and b = "unat us"])
      (use pos in simp, use ub in blast)
  have "\<not> 2 ^ Suc i \<le> unat us"
  proof
    assume "2 ^ Suc i \<le> unat us"
    then have "Suc i \<le> i"
      unfolding i_def
      by (intro Greatest_le_nat [where P = "\<lambda>i. 2 ^ i \<le> unat us" and b = "unat us"]) (use ub in blast)+
    then show False by simp
  qed
  then have lt: "unat us < 2 ^ Suc i" by (simp only: not_le)
  have 64: "unat us < 2 ^ 64" using unsigned_less [of us] by simp
  have i: "i < 64" using power_less_imp_less_exp [of "2::nat" i 64] le 64 by simp
  have bit: "bit us j = odd (unat us div 2 ^ j)" for j
  proof -
    have "bit us j = bit (unat us) j" by (simp add: bit_unsigned_iff)
    then show ?thesis by (simp only: bit_iff_odd)
  qed
  have "unat us div 2 ^ i = 1" using le lt by (intro div_nat_eqI) simp_all
  then have "bit us i" by (simp add: bit)
  moreover have "\<not> bit us j" if "i < j" for j
  proof -
    have "(2::nat) ^ Suc i \<le> 2 ^ j" using that by (intro power_increasing) auto
    then have "unat us div 2 ^ j = 0" using lt by simp
    then show ?thesis by (simp add: bit)
  qed
  ultimately show ?thesis using i le lt by blast
qed

lemma bucket_for_range:
  assumes "us \<noteq> 0" and "bucket_for us = b"
  shows "1 \<le> b \<and> b < 64 \<and> 2 ^ (b - 1) \<le> unat us \<and> (b < 63 \<longrightarrow> unat us < 2 ^ b)"
proof -
  obtain i where i: "i < 64" "bit us i" "\<forall>j. i < j \<longrightarrow> \<not> bit us j" "2 ^ i \<le> unat us" "unat us < 2 ^ Suc i"
    using highest_bit [OF assms(1)] by blast
  have "clzll us = 63 - i" using takeWhile_rev_upt [of i 64 "bit us"] i by (simp add: clzll_def)
  then have b: "b = min (Suc i) 63" using assms i(1) by (simp add: bucket_for_def kBuckets_def)
  show ?thesis
  proof (cases "i = 63")
    case True
    then have "(2::nat) ^ (b - 1) \<le> 2 ^ i" using b by (intro power_increasing) simp_all
    then show ?thesis using True b i(4) by simp
  next
    case False
    then show ?thesis using b i by simp
  qed
qed

lemma bucket_for_less [simp]: "bucket_for us < 64"
  using bucket_for_range [of us] by (cases "us = 0") (auto simp: bucket_for_def)

lemma bucket_for_mono: "us \<le> us' \<Longrightarrow> bucket_for us \<le> bucket_for us'"
proof (rule ccontr)
  assume le: "us \<le> us'" and n: "\<not> bucket_for us \<le> bucket_for us'"
  then have nz: "us \<noteq> 0" by (auto simp: bucket_for_def)
  then have nz': "us' \<noteq> 0" using le by auto
  have r: "2 ^ (bucket_for us - 1) \<le> unat us" "bucket_for us < 64" using bucket_for_range [OF nz refl] by simp_all
  have r': "bucket_for us' < 63 \<longrightarrow> unat us' < 2 ^ bucket_for us'" using bucket_for_range [OF nz' refl] by simp
  have "(2::nat) ^ bucket_for us' \<le> 2 ^ (bucket_for us - 1)" using n by (intro power_increasing) auto
  moreover have "unat us \<le> unat us'" using le by (simp add: word_le_nat_alt)
  moreover have "bucket_for us' < 63" using n r(2) by linarith
  ultimately show False using r r' by linarith
qed


section \<open>Percentiles of recorded samples\<close>

definition recorded :: "u64 list \<Rightarrow> histogram" where
  "recorded xs = fold histogram_record xs histogram_new"

definition in_bucket :: "nat \<Rightarrow> u64 list \<Rightarrow> nat" where
  "in_bucket i xs = length (filter (\<lambda>x. bucket_for x = i) xs)"

definition below_bucket :: "nat \<Rightarrow> u64 list \<Rightarrow> nat" where
  "below_bucket i xs = length (filter (\<lambda>x. bucket_for x < i) xs)"

lemma below_bucket_Suc: "below_bucket (Suc i) xs = below_bucket i xs + in_bucket i xs"
  by (induction xs) (auto simp: below_bucket_def in_bucket_def less_Suc_eq)

lemma below_bucket_le: "below_bucket i xs \<le> length xs"
  by (simp add: below_bucket_def)

lemma below_bucket_mono: "i \<le> j \<Longrightarrow> below_bucket i xs \<le> below_bucket j xs"
  unfolding below_bucket_def by (induction xs) auto

lemma recorded_simps [simp]:
  "recorded [] = histogram_new" "recorded (xs @ [x]) = histogram_record x (recorded xs)"
  by (simp_all add: recorded_def)

lemma recorded_spec:
  "buckets (recorded xs) = map (\<lambda>i. word_of_nat (in_bucket i xs)) [0..<64] \<and>
   h_total (recorded xs) = word_of_nat (length xs) \<and> h_sum (recorded xs) = sum_list xs"
proof (induction xs rule: rev_induct)
  case Nil
  show ?case by (simp add: histogram_new_def kBuckets_def in_bucket_def map_replicate_const)
next
  case (snoc x xs)
  have "(map (\<lambda>i. word_of_nat (in_bucket i xs)) [0..<64])[bucket_for x := word_of_nat (in_bucket (bucket_for x) xs) + 1]
      = (map (\<lambda>i. word_of_nat (in_bucket i (xs @ [x]))) [0..<64] :: u64 list)"
    by (rule nth_equalityI) (auto simp: nth_list_update in_bucket_def)
  then show ?case using snoc by (simp add: histogram_record_def)
qed

lemma sorted_counts:
  assumes "sorted (ys :: nat list)" and "k < length ys"
  shows "length (filter (\<lambda>y. y < ys ! k) ys) \<le> k" and "k < length (filter (\<lambda>y. y \<le> ys ! k) ys)"
proof -
  have y: "ys = take k ys @ drop k ys" by simp
  have "filter (\<lambda>y. y < ys ! k) (drop k ys) = []"
    using assms by (auto simp: filter_empty_conv in_set_conv_nth sorted_iff_nth_mono not_less)
  then have "filter (\<lambda>y. y < ys ! k) ys = filter (\<lambda>y. y < ys ! k) (take k ys)"
    by (subst y, subst filter_append) simp
  then have "length (filter (\<lambda>y. y < ys ! k) ys) \<le> length (take k ys)" by (metis length_filter_le)
  then show "length (filter (\<lambda>y. y < ys ! k) ys) \<le> k" using assms(2) by simp
  have "filter (\<lambda>y. y \<le> ys ! k) (take (Suc k) ys) = take (Suc k) ys"
    using assms by (auto simp: filter_id_conv in_set_conv_nth sorted_iff_nth_mono)
  then have "filter (\<lambda>y. y \<le> ys ! k) ys = take (Suc k) ys @ filter (\<lambda>y. y \<le> ys ! k) (drop (Suc k) ys)"
    by (metis append_take_drop_id filter_append)
  then have "length (filter (\<lambda>y. y \<le> ys ! k) ys) \<ge> length (take (Suc k) ys)" by simp
  then show "k < length (filter (\<lambda>y. y \<le> ys ! k) ys)" using assms(2) by simp
qed

text \<open>The bucket of the \<open>k\<close>-th smallest sample.\<close>

lemma sample_bucket:
  assumes "k < length xs"
  defines "b \<equiv> bucket_for (sort xs ! k)"
  shows "below_bucket b xs \<le> k" and "k < below_bucket (Suc b) xs"
proof -
  let ?ys = "map bucket_for (sort xs)"
  have srt: "sorted ?ys" by (simp add: sorted_map sorted_wrt_mono_rel [OF _ sorted_sort] bucket_for_mono)
  have yk: "?ys ! k = b" "k < length ?ys" using assms by simp_all
  have perm: "length (filter P xs) = length (filter P (sort xs))" for P
    by (metis mset_filter mset_sort size_mset)
  have "length (filter (\<lambda>y. y < b) ?ys) = below_bucket b xs"
    unfolding below_bucket_def perm by (simp add: filter_map comp_def)
  moreover have "length (filter (\<lambda>y. y \<le> b) ?ys) = below_bucket (Suc b) xs"
    unfolding below_bucket_def perm by (simp add: filter_map comp_def less_Suc_eq_le)
  ultimately show "below_bucket b xs \<le> k" "k < below_bucket (Suc b) xs"
    using sorted_counts [OF srt yk(2)] unfolding yk(1) by simp_all
qed

lemma unat_u64: "m < 2 ^ 64 \<Longrightarrow> unat (word_of_nat m :: u64) = m"
  by (intro unat_word_of_nat) simp

lemma percentile_loop_spec:
  assumes n: "length xs < 2 ^ 64" and t: "below_bucket b xs < t" "t \<le> below_bucket (Suc b) xs" and b: "b < 64"
  shows "i \<le> b \<Longrightarrow> percentile_loop (drop i (map (\<lambda>i. word_of_nat (in_bucket i xs)) [0..<64])) i
    (word_of_nat (below_bucket i xs)) (word_of_nat t) = bucket_value b"
proof (induction "b - i" arbitrary: i)
  case (0 i)
  let ?bs = "map (\<lambda>i. word_of_nat (in_bucket i xs)) [0..<64] :: u64 list"
  have i: "i = b" using 0 by simp
  have d: "drop i ?bs = word_of_nat (in_bucket i xs) # drop (Suc i) ?bs"
    using b i by (subst Cons_nth_drop_Suc [symmetric]) simp_all
  have "t < 2 ^ 64" "below_bucket (Suc b) xs < 2 ^ 64" using n t(2) below_bucket_le [of "Suc b" xs] by linarith+
  then have "word_of_nat t \<le> (word_of_nat (below_bucket (Suc b) xs) :: u64)" using t(2)
    by (simp add: word_le_nat_alt unat_u64)
  then show ?case unfolding d by (simp add: i below_bucket_Suc)
next
  case (Suc k i)
  let ?bs = "map (\<lambda>i. word_of_nat (in_bucket i xs)) [0..<64] :: u64 list"
  have i: "i < b" using Suc.hyps(2) by simp
  have d: "drop i ?bs = word_of_nat (in_bucket i xs) # drop (Suc i) ?bs"
    using b i by (subst Cons_nth_drop_Suc [symmetric]) simp_all
  have "below_bucket (Suc i) xs < t" using below_bucket_mono [of "Suc i" b xs] i t(1) by linarith
  moreover have "t < 2 ^ 64" using n t(2) below_bucket_le [of "Suc b" xs] by linarith
  ultimately have "\<not> word_of_nat t \<le> (word_of_nat (below_bucket (Suc i) xs) :: u64)"
    by (simp add: word_le_nat_alt unat_u64)
  then show ?case unfolding d using Suc.hyps(1) [of "Suc i"] Suc.hyps(2) i by (simp add: below_bucket_Suc)
qed


lemma unat_push_bit_u64: "i < 64 \<Longrightarrow> unat (push_bit i 1 :: u64) = 2 ^ i"
proof -
  assume "i < 64"
  then have "(2::nat) ^ i < 2 ^ 64" by (intro power_strict_increasing) simp_all
  moreover have "(push_bit i 1 :: u64) = word_of_nat (2 ^ i)" by (simp add: push_bit_eq_mult)
  ultimately show ?thesis by (simp only: unat_u64)
qed

lemma bucket_value_eq:
  assumes "1 \<le> b" and "b < 64"
  shows "bucket_value b = of_nat ((2 ^ (b - 1) + 2 ^ b) div 2)"
proof -
  have p: "(2::nat) ^ b = 2 * 2 ^ (b - 1)" using assms(1) by (cases b) simp_all
  have "(2::nat) ^ (b - 1) \<le> 2 ^ 62" using assms by (intro power_increasing) simp_all
  then have s: "(2::nat) ^ (b - 1) + 2 ^ b < 2 ^ 64" unfolding p by simp
  have "unat (push_bit (b - 1) 1 + push_bit b 1 :: u64) = 2 ^ (b - 1) + 2 ^ b"
    using s assms unat_push_bit_u64 [of b] unat_push_bit_u64 [of "b - 1"]
    by (subst unat_add_lem [THEN iffD1]) (simp_all del: push_bit_of_1)
  then have "unat ((push_bit (b - 1) 1 + push_bit b 1 :: u64) div 2) = (2 ^ (b - 1) + 2 ^ b) div 2"
    by (simp add: unat_div)
  then show ?thesis using assms(1) unfolding bucket_value_def Let_def by simp
qed

lemma bucket_value_close:
  assumes "0 < us" and "us < 2 ^ 63"
  shows "3 / 4 * of_nat (unat us) \<le> bucket_value (bucket_for us) \<and> bucket_value (bucket_for us) \<le> 3 / 2 * of_nat (unat us)"
proof -
  let ?b = "bucket_for us"
  have nz: "us \<noteq> 0" using assms(1) by auto
  have b: "1 \<le> ?b" "?b < 64" "2 ^ (?b - 1) \<le> unat us" "?b < 63 \<longrightarrow> unat us < 2 ^ ?b"
    using bucket_for_range [OF nz refl] by simp_all
  have "unat us < 2 ^ 63" using assms(2) by (simp add: word_less_nat_alt)
  then have "?b = 63 \<longrightarrow> unat us < 2 ^ ?b" by simp
  moreover have "?b < 63 \<or> ?b = 63" using b(2) by linarith
  ultimately have ub: "unat us < 2 ^ ?b" using b(4) by blast
  show ?thesis
  proof (cases "?b = 1")
    case True
    then have "unat us = 1" using b(3) ub by simp
    then show ?thesis using True by (simp add: bucket_value_eq)
  next
    case False
    define c where "c = ?b - 2"
    have bc: "?b = Suc (Suc c)" using False b(1) by (simp add: c_def)
    have "bucket_value ?b = of_nat ((2 ^ (?b - 1) + 2 ^ ?b) div 2)" by (rule bucket_value_eq [OF b(1,2)])
    also have "(2 ^ (?b - 1) + 2 ^ ?b) div 2 = (3 * 2 ^ c :: nat)" unfolding bc by simp
    finally have v: "bucket_value ?b = of_nat (3 * 2 ^ c)" .
    have "unat us < 4 * 2 ^ c" "2 * 2 ^ c \<le> unat us" using ub b(3) unfolding bc by simp_all
    then have "(of_nat (unat us) :: rat) \<le> of_nat (4 * 2 ^ c)" "(of_nat (2 * 2 ^ c) :: rat) \<le> of_nat (unat us)"
      by (simp_all only: of_nat_le_iff less_imp_le)
    then show ?thesis unfolding v by (simp add: field_simps)
  qed
qed

section \<open>Throughput\<close>

text \<open>
  The tracker is called by many threads. \<open>small dt\<close> is the test \<^verbatim>\<open>dt_s < 0.1\<close> on the
  nanoseconds \<open>dt\<close>, \<open>ema cnt dt old\<close> the new moving average; both are floating point.
\<close>

record 'd tracker =
  t_ema :: 'd
  t_last_ns :: u64
  t_pending :: u64

definition tracker_add :: "(u64 \<Rightarrow> bool) \<Rightarrow> (u64 \<Rightarrow> u64 \<Rightarrow> 'd \<Rightarrow> 'd) \<Rightarrow> u64 \<Rightarrow> u64 \<Rightarrow> 'd tracker \<Rightarrow> 'd tracker" where
  "tracker_add small ema now n t0 =
     (let t = t0\<lparr>t_pending := t_pending t0 + n\<rparr>; last = t_last_ns t
      in if last = 0 then t\<lparr>t_last_ns := now\<rparr>
         else if small (now - last) then t
         else let t1 = t\<lparr>t_last_ns := now\<rparr>; cnt = t_pending t1; t2 = t1\<lparr>t_pending := 0\<rparr>
              in if cnt = 0 then t2
                 else t2\<lparr>t_ema := ema cnt (now - last) (t_ema t2)\<rparr>)"

text \<open>The same call as the atomic steps one thread performs; \<open>now\<close> is read from the clock.\<close>

datatype 'd thread =
    Start u64
  | Added
  | Clocked u64
  | Loaded u64 u64
  | Won u64
  | Exchanged u64 u64
  | Averaging u64 u64 'd
  | Finished

fun thread_step :: "(u64 \<Rightarrow> bool) \<Rightarrow> (u64 \<Rightarrow> u64 \<Rightarrow> 'd \<Rightarrow> 'd) \<Rightarrow> u64 \<Rightarrow> 'd thread \<times> 'd tracker \<Rightarrow> 'd thread \<times> 'd tracker" where
  "thread_step small ema now (Start n, t) = (Added, t\<lparr>t_pending := t_pending t + n\<rparr>)"
| "thread_step small ema now (Added, t) = (Clocked now, t)"
| "thread_step small ema now (Clocked w, t) = (Loaded w (t_last_ns t), t)"
| "thread_step small ema now (Loaded w l, t) =
     (if l = 0 then (Finished, if t_last_ns t = l then t\<lparr>t_last_ns := w\<rparr> else t)
      else if small (w - l) then (Finished, t)
      else if t_last_ns t = l then (Won (w - l), t\<lparr>t_last_ns := w\<rparr>)
      else (Finished, t))"
| "thread_step small ema now (Won dt, t) = (Exchanged (t_pending t) dt, t\<lparr>t_pending := 0\<rparr>)"
| "thread_step small ema now (Exchanged cnt dt, t) =
     (if cnt = 0 then (Finished, t) else (Averaging cnt dt (t_ema t), t))"
| "thread_step small ema now (Averaging cnt dt old, t) = (Finished, t\<lparr>t_ema := ema cnt dt old\<rparr>)"
| "thread_step small ema now (Finished, t) = (Finished, t)"

text \<open>
  All interleavings: the threads, the tracker, and two ghosts, the sum of all counts that
  were added and of all counts that went into an average.
\<close>

record 'd tracking =
  threads :: "'d thread list"
  shared :: "'d tracker"
  g_added :: u64
  g_averaged :: u64

definition step_added :: "'d thread \<Rightarrow> u64" where
  "step_added th = (case th of Start n \<Rightarrow> n | _ \<Rightarrow> 0)"

definition step_averaged :: "'d thread \<Rightarrow> u64" where
  "step_averaged th = (case th of Averaging cnt dt old \<Rightarrow> cnt | _ \<Rightarrow> 0)"

inductive tracking_step :: "(u64 \<Rightarrow> bool) \<Rightarrow> (u64 \<Rightarrow> u64 \<Rightarrow> 'd \<Rightarrow> 'd) \<Rightarrow> 'd tracking \<Rightarrow> 'd tracking \<Rightarrow> bool"
  for small ema where
  call: "tracking_step small ema s (s\<lparr>threads := threads s @ [Start n]\<rparr>)"
| run: "i < length (threads s) \<Longrightarrow> thread_step small ema now (threads s ! i, shared s) = (th, t) \<Longrightarrow>
    tracking_step small ema s
      (s\<lparr>threads := (threads s)[i := th], shared := t,
         g_added := g_added s + step_added (threads s ! i),
         g_averaged := g_averaged s + step_averaged (threads s ! i)\<rparr>)"

definition tracking_new :: "'d \<Rightarrow> 'd tracking" where
  "tracking_new e = \<lparr>threads = [], shared = \<lparr>t_ema = e, t_last_ns = 0, t_pending = 0\<rparr>, g_added = 0, g_averaged = 0\<rparr>"

text \<open>The count a thread carries between its exchange and its average.\<close>

definition in_flight :: "'d thread \<Rightarrow> u64" where
  "in_flight th = (case th of Exchanged cnt dt \<Rightarrow> cnt | Averaging cnt dt old \<Rightarrow> cnt | _ \<Rightarrow> 0)"

definition counts_kept :: "'d tracking \<Rightarrow> bool" where
  "counts_kept s \<longleftrightarrow> g_added s = g_averaged s + sum_list (map in_flight (threads s)) + t_pending (shared s)"

lemma thread_step_counts:
  assumes "thread_step small ema now (th, t) = (th', t')"
  shows "in_flight th' + t_pending t' + step_averaged th = in_flight th + t_pending t + step_added th"
  using assms by (cases th) (auto simp: in_flight_def step_added_def step_averaged_def split: if_splits)

lemma sum_list_in_flight_update:
  "i < length ths \<Longrightarrow> sum_list (map in_flight (ths[i := th])) + in_flight (ths ! i) = sum_list (map in_flight ths) + in_flight th"
proof (induction ths arbitrary: i)
  case (Cons x ths)
  then show ?case by (cases i) (simp_all add: algebra_simps)
qed simp

lemma counts_balance:
  fixes g :: u64
  assumes "f' + p' + av = f + p + ad" and "s' + f = s + f'" and "g = ga + s + p"
  shows "g + ad = (ga + av) + s' + p'"
proof -
  have "ad = f' + p' + av - f - p" "s' = s + f' - f"
    using assms(1,2) by (simp_all add: eq_diff_eq algebra_simps)
  then show ?thesis by (simp add: assms(3))
qed

lemma tracking_step_counts:
  assumes "tracking_step small ema s s'" and "counts_kept s"
  shows "counts_kept s'"
  using assms(1)
proof cases
  case (call n)
  then show ?thesis using assms(2) by (simp add: counts_kept_def in_flight_def)
next
  case (run i now th t)
  have "g_added s + step_added (threads s ! i) =
      (g_averaged s + step_averaged (threads s ! i)) + sum_list (map in_flight ((threads s)[i := th])) + t_pending t"
    by (rule counts_balance [OF thread_step_counts [OF run(3)] sum_list_in_flight_update [OF run(2)]])
      (use assms(2) in \<open>simp add: counts_kept_def\<close>)
  then show ?thesis by (simp add: run(1) counts_kept_def)
qed


lemma reachable_counts: "(tracking_step small ema)\<^sup>*\<^sup>* (tracking_new e) s \<Longrightarrow> counts_kept s"
proof (induction rule: rtranclp_induct)
  case base
  show ?case by (simp add: tracking_new_def counts_kept_def)
next
  case (step y z)
  then show ?case using tracking_step_counts by blast
qed

section \<open>The counters\<close>

record counters =
  events_ingested_total :: u64
  wal_bytes_written :: u64
  memtable_bytes :: u64
  immutable_memtable_count :: u32
  flush_count :: u64
  compaction_count :: u64

record 'd metrics = counters +
  block_cache_hits :: u64
  block_cache_lookups :: u64
  append_latency_us :: histogram
  query_latency_ms :: histogram
  ingest_rate :: "'d tracker"
  wal_rate :: "'d tracker"

definition block_cache_hit_rate :: "'d metrics \<Rightarrow> rat" where
  "block_cache_hit_rate m =
     (let lookups = block_cache_lookups m; hits = block_cache_hits m
      in if lookups = 0 then 0 else of_nat (unat hits) / of_nat (unat lookups))"

definition tracker_reset :: "'d \<Rightarrow> 'd tracker \<Rightarrow> 'd tracker" where
  "tracker_reset zero t = t\<lparr>t_ema := zero, t_last_ns := 0, t_pending := 0\<rparr>"

section \<open>Properties\<close>

text \<open>A percentile of recorded samples is the value of the bucket that holds the sample of
  that rank: with \<open>k\<close> the truncated product of \<open>p\<close> and the count, at least 1, it is the bucket
  value of the \<open>k\<close>-th smallest sample.\<close>

theorem percentile_is_ranked_sample:
  assumes "xs \<noteq> []" and "length xs < 2 ^ 64" and "0 < p"
    and "unat (mul (min p 1) (word_of_nat (length xs))) \<le> length xs"
  shows "percentile mul p (recorded xs) =
    bucket_value (bucket_for (sort xs ! (max 1 (unat (mul (min p 1) (word_of_nat (length xs)))) - 1)))"
proof -
  let ?n = "word_of_nat (length xs) :: u64" and ?m = "mul (min p 1) (word_of_nat (length xs))"
  define t where "t = max 1 (unat ?m)"
  define b where "b = bucket_for (sort xs ! (t - 1))"
  have t: "1 \<le> t" "t \<le> length xs" using assms(1,4) by (simp_all add: t_def Suc_le_eq)
  have tw: "(if ?m = 0 then 1 else ?m) = word_of_nat t"
    by (auto simp: t_def max_def unat_eq_0 [symmetric] not_le simp flip: unat_gt_0)
  have k: "t - 1 < length xs" using t by simp
  have bb: "below_bucket b xs < t" "t \<le> below_bucket (Suc b) xs"
    using sample_bucket [OF k] t(1) unfolding b_def by linarith+
  have "below_bucket 0 xs = 0" by (simp add: below_bucket_def)
  then have loop: "percentile_loop (buckets (recorded xs)) 0 0 (word_of_nat t) = bucket_value b"
    using percentile_loop_spec [OF assms(2) bb, of 0] recorded_spec [of xs] by (simp add: b_def)
  have "?n \<noteq> 0" using assms(1,2) unat_u64 [OF assms(2)] by (metis length_0_conv unat_0)
  moreover have "(if 1 \<le> p then 1 else p) = min p 1" by (simp add: min_def)
  ultimately show ?thesis
    using assms(3) recorded_spec [of xs] loop tw by (simp add: percentile_def Let_def b_def t_def not_le)
qed

lemma percentile_is_ranked_sample_witness:
  "percentile (\<lambda>p n. word_of_int \<lfloor>p * of_nat (unat n)\<rfloor>) (1 / 2) (recorded [900, 3, 5, 70]) =
    bucket_value (bucket_for (sort [900, 3, 5, 70] ! (max 1 (unat (word_of_int \<lfloor>min (1 / 2 :: rat) 1 *
      of_nat (unat (word_of_nat (length [900, 3, 5, 70 :: u64]) :: u64))\<rfloor> :: u64)) - 1)))"
  by (rule percentile_is_ranked_sample) (simp_all add: min_def)

text \<open>The value of a bucket is within a factor of 3/4 to 3/2 of every latency below 2 to the
  63 that is recorded in it, so a percentile is that close to the ranked sample.\<close>

theorem bucket_value_accuracy:
  assumes "0 < us" and "us < 2 ^ 63"
  shows "3 / 4 * of_nat (unat us) \<le> bucket_value (bucket_for us) \<and>
    bucket_value (bucket_for us) \<le> 3 / 2 * of_nat (unat us) \<and>
    2 ^ (bucket_for us - 1) \<le> unat us \<and> unat us < 2 ^ bucket_for us"
proof -
  have nz: "us \<noteq> 0" using assms(1) by auto
  have b: "bucket_for us < 64" "2 ^ (bucket_for us - 1) \<le> unat us" "bucket_for us < 63 \<longrightarrow> unat us < 2 ^ bucket_for us"
    using bucket_for_range [OF nz refl] by simp_all
  have "unat us < 2 ^ 63" using assms(2) by (simp add: word_less_nat_alt)
  then have "bucket_for us = 63 \<longrightarrow> unat us < 2 ^ bucket_for us" by simp
  moreover have "bucket_for us < 63 \<or> bucket_for us = 63" using b(1) by linarith
  ultimately have "unat us < 2 ^ bucket_for us" using b(3) by blast
  then show ?thesis using bucket_value_close [OF assms] b(2) by blast
qed

lemma bucket_value_accuracy_witness:
  "3 / 4 * of_nat (unat (1000 :: u64)) \<le> bucket_value (bucket_for 1000) \<and>
    bucket_value (bucket_for 1000) \<le> 3 / 2 * of_nat (unat (1000 :: u64)) \<and>
    2 ^ (bucket_for 1000 - 1) \<le> unat (1000 :: u64) \<and> unat (1000 :: u64) < 2 ^ bucket_for 1000"
  by (rule bucket_value_accuracy) (simp_all add: word_less_nat_alt)

text \<open>C39: However the atomic steps of any number of threads that add to a throughput tracker
  interleave, no count is lost: what was added is what went into averages, plus what winners
  carry between their exchange and their average, plus what is still pending.\<close>

theorem tracker_counts_kept:
  assumes "(tracking_step small ema)\<^sup>*\<^sup>* (tracking_new e) s"
  shows "g_added s = g_averaged s + sum_list (map in_flight (threads s)) + t_pending (shared s)"
  using reachable_counts [OF assms] by (simp add: counts_kept_def)

lemma tracker_counts_kept_witness:
  "\<exists>s. (tracking_step (\<lambda>_. False) (\<lambda>cnt dt old. old + cnt))\<^sup>*\<^sup>* (tracking_new 0) s \<and> threads s = [Added] \<and>
    g_added s = 5 \<and> g_added s = g_averaged s + sum_list (map in_flight (threads s)) + t_pending (shared s)"
proof -
  let ?R = "tracking_step (\<lambda>_. False) (\<lambda>cnt dt old. old + cnt :: u64)"
  let ?s1 = "(tracking_new (0 :: u64))\<lparr>threads := threads (tracking_new 0) @ [Start 5]\<rparr>"
  have 1: "?R (tracking_new 0) ?s1" by (rule tracking_step.call)
  have st: "thread_step (\<lambda>_. False) (\<lambda>cnt dt old. old + cnt :: u64) 7 (threads ?s1 ! 0, shared ?s1) =
      (Added, (shared ?s1)\<lparr>t_pending := t_pending (shared ?s1) + 5\<rparr>)"
    by (simp add: tracking_new_def)
  have i: "0 < length (threads ?s1)" by simp
  note 2 = tracking_step.run [OF i st]
  have r: "?R\<^sup>*\<^sup>* (tracking_new 0) (?s1\<lparr>threads := (threads ?s1)[0 := Added],
      shared := (shared ?s1)\<lparr>t_pending := t_pending (shared ?s1) + 5\<rparr>,
      g_added := g_added ?s1 + step_added (threads ?s1 ! 0),
      g_averaged := g_averaged ?s1 + step_averaged (threads ?s1 ! 0)\<rparr>)" (is "?R\<^sup>*\<^sup>* _ ?s2")
    by (rule rtranclp.rtrancl_into_rtrancl, rule r_into_rtranclp, rule 1, rule 2)
  have "threads ?s2 = [Added]" "g_added ?s2 = 5"
    by (simp_all add: tracking_new_def step_added_def)
  then show ?thesis using r tracker_counts_kept [OF r] by blast
qed

text \<open>A thread that runs alone through its steps does what the sequential reading of the
  function does.\<close>

theorem tracker_add_alone:
  "((thread_step small ema now) ^^ 7) (Start n, t) = (Finished, tracker_add small ema now n t)"
  by (simp add: numeral_eq_Suc tracker_add_def Let_def)

end
