(* ===== verification/DB.thy ===== *)
theory DB
  imports CompactionRun MemTable SymbolTable Recovery Metrics
begin

text \<open>
  The database (db/db.hpp, db/db.cpp, db/query.hpp): its state and its operations, each as a
  function of the state. The outer option of a result is \<open>None\<close> where the code would loop or
  dereference a null memtable; the lemmas of the next theories show that it is \<open>Some\<close>. What is
  a parameter: the kernel \<open>os\<close>, the random stream \<open>rng\<close> of a skip list, the constructor
  \<open>new_filter\<close> of a table's Bloom filter. Durations and rates are not modelled.
\<close>

section \<open>Configuration and state\<close>

record db_config =
  cfg_path :: string
  wal_enabled :: bool
  memtable_flush_bytes :: nat
  wal_segment_bytes :: nat
  block_target_bytes :: nat
  sstable_target_bytes :: nat
  background_compaction :: bool
  block_cache_bytes :: nat

text \<open>What a database directory holds: the symbol file, the log directory, the table files by path.\<close>

record disk =
  dk_symbols :: "bytes option"
  dk_wal :: "dir option"
  dk_tables :: dir

record db =
  db_cfg :: db_config
  db_closed :: bool
  db_symbols :: symtab
  db_wal :: "wal option"
  db_io :: read_io
  db_active :: "memtable option"
  db_imm :: "memtable list"
  db_levels :: "sst_info list list"
  db_next_seq :: u64
  db_sst_seq :: u64
  db_tables :: dir
  db_counters :: counters

record append_result =
  ar_sequence_id :: u64
  ar_wal_offset :: u64

definition db_kMaxLevels :: nat where
  "db_kMaxLevels = 4"

definition level_dir :: "db_config \<Rightarrow> nat \<Rightarrow> string" where
  "level_dir cfg l = cfg_path cfg @ ''/'' @ ''l'' @ decimal l"

section \<open>Opening\<close>

text \<open>The regular files of a directory whose extension is \<^verbatim>\<open>.sst\<close>, in directory order.\<close>

definition sst_file_of :: "string \<Rightarrow> string \<Rightarrow> bool" where
  "sst_file_of d p \<longleftrightarrow>
     (let name = drop (length d + 1) p
      in take (length d + 1) p = d @ ''/'' \<and> CHR ''/'' \<notin> set name \<and>
         length name > 4 \<and> drop (length name - 4) name = ''.sst'')"

fun open_tables :: "os \<Rightarrow> dir \<Rightarrow> string list \<Rightarrow> sst_info list" where
  "open_tables os d [] = []"
| "open_tables os d (p # ps) =
     (case sst_reader_new os p d of
        Inl _ \<Rightarrow> open_tables os d ps
      | Inr r \<Rightarrow> sr_info r # open_tables os d ps)"

definition info_seq :: "sst_info \<Rightarrow> u64" where
  "info_seq info = sm_sequence (si_meta info)"

text \<open>
  The iterator meets every name once. \<^verbatim>\<open>std::sort\<close> is by sequence number; tables with
  equal numbers stay in order here.
\<close>

definition load_level :: "os \<Rightarrow> db_config \<Rightarrow> dir \<Rightarrow> nat \<Rightarrow> sst_info list" where
  "load_level os cfg d l =
     sort_key info_seq (open_tables os d (filter (sst_file_of (level_dir cfg l)) (remdups (map fst d))))"

definition counters_zero :: counters where
  "counters_zero = \<lparr>events_ingested_total = 0, wal_bytes_written = 0, memtable_bytes = 0,
     immutable_memtable_count = 0, flush_count = 0, compaction_count = 0\<rparr>"

definition open_wal :: "os \<Rightarrow> db_config \<Rightarrow> dir option \<Rightarrow> (exn + wal) \<times> wal_record list" where
  "open_wal os cfg wd =
     (case wd of
        None \<Rightarrow> (case wal_writer os (wal_segment_bytes cfg) [] of (Inl ex, w) \<Rightarrow> (Inl ex, []) | (Inr _, w) \<Rightarrow> (Inr w, []))
      | Some d \<Rightarrow>
          (let (st, clean_end_offset) = read_all d
           in case wal_writer os (wal_segment_bytes cfg) d of
                (Inl ex, w) \<Rightarrow> (Inl ex, rs_records st)
              | (Inr _, w) \<Rightarrow>
                  if rs_torn st
                  then (case truncate_and_seal os clean_end_offset w of
                          (Inl ex, w') \<Rightarrow> (Inl ex, rs_records st)
                        | (Inr _, w') \<Rightarrow> (Inr w', rs_records st))
                  else (Inr w, rs_records st)))"

definition db_open :: "os \<Rightarrow> (nat \<Rightarrow> u32) \<Rightarrow> db_config \<Rightarrow> disk \<Rightarrow> (exn + db) option" where
  "db_open os rng cfg dk =
     (let st = \<lparr>db_cfg = cfg, db_closed = False,
                db_symbols = symtab_new os (cfg_path cfg @ ''/symbol_table.bin'') (dk_symbols dk),
                db_wal = None, db_io = fresh_io (Some (block_cache_bytes cfg)),
                db_active = None, db_imm = [],
                db_levels = map (load_level os cfg (dk_tables dk)) [0..<db_kMaxLevels],
                db_next_seq = 1, db_sst_seq = 1, db_tables = dk_tables dk, db_counters = counters_zero\<rparr>;
          m = memtable_new (memtable_flush_bytes cfg)
      in if \<not> wal_enabled cfg then Some (Inr (st\<lparr>db_active := Some m\<rparr>))
         else (case open_wal os cfg (dk_wal dk) of
                 (Inl ex, recs) \<Rightarrow> Some (Inl ex)
               | (Inr w, recs) \<Rightarrow> do {
                   m' \<leftarrow> memtable_insert_all rng (map rec_event recs) m;
                   Some (Inr (st\<lparr>db_active := Some m', db_wal := Some w,
                     db_next_seq := (if recs = [] then 1 else sequence_id (rec_event (last recs)) + 1)\<rparr>))
                 }))"

section \<open>Appending and removing\<close>

text \<open>The critical section on the memtables that both have.\<close>

definition insert_active :: "(nat \<Rightarrow> u32) \<Rightarrow> event \<Rightarrow> db \<Rightarrow> db option" where
  "insert_active rng e st = do {
     m \<leftarrow> db_active st;
     m' \<leftarrow> memtable_insert rng e m;
     Some (if should_flush m'
           then st\<lparr>db_imm := db_imm st @ [m'],
                   db_active := Some (memtable_new (memtable_flush_bytes (db_cfg st)))\<rparr>
           else st\<lparr>db_active := Some m'\<rparr>)
   }"

text \<open>The step on the log; without one the offset is 0.\<close>

definition log_event :: "os \<Rightarrow> event \<Rightarrow> db \<Rightarrow> (exn + u64) \<times> db" where
  "log_event os e st =
     (case db_wal st of
        None \<Rightarrow> (Inr 0, st)
      | Some w \<Rightarrow>
          (case wal_append os e w of
             (Inl ex, w') \<Rightarrow> (Inl ex, st\<lparr>db_wal := Some w'\<rparr>)
           | (Inr res, w') \<Rightarrow> (Inr (word_of_nat (file_offset res)), st\<lparr>db_wal := Some w'\<rparr>)))"

record append_args =
  aa_timestamp_ns :: u64
  aa_event_type :: event_type
  aa_price_ticks :: i64
  aa_bid_px_ticks :: i64
  aa_ask_px_ticks :: i64
  aa_quantity :: u32
  aa_bid_qty :: u32
  aa_ask_qty :: u32
  aa_order_id :: u64

definition append_event :: "append_args \<Rightarrow> u32 \<Rightarrow> u64 \<Rightarrow> event" where
  "append_event a sym_id seq =
     \<lparr>timestamp_ns = aa_timestamp_ns a, symbol_id = sym_id, sequence_id = seq, event_type = aa_event_type a,
      price_ticks = aa_price_ticks a, bid_px_ticks = aa_bid_px_ticks a, ask_px_ticks = aa_ask_px_ticks a,
      quantity = aa_quantity a, bid_qty = aa_bid_qty a, ask_qty = aa_ask_qty a, order_id = aa_order_id a\<rparr>"

definition db_append :: "os \<Rightarrow> (nat \<Rightarrow> u32) \<Rightarrow> string \<Rightarrow> append_args \<Rightarrow> db \<Rightarrow> ((exn + append_result) \<times> db) option" where
  "db_append os rng symbol a st =
     (if db_closed st then Some (Inl (Runtime_error ''DB is closed''), st)
      else case symtab_intern os symbol (db_symbols st) of
             (Inl ex, sy) \<Rightarrow> Some (Inl ex, st\<lparr>db_symbols := sy\<rparr>)
           | (Inr sym_id, sy) \<Rightarrow>
               let seq = db_next_seq st; e = append_event a sym_id seq;
                   st1 = st\<lparr>db_symbols := sy, db_next_seq := seq + 1\<rparr>
               in case log_event os e st1 of
                    (Inl ex, st2) \<Rightarrow> Some (Inl ex, st2)
                  | (Inr wal_offset, st2) \<Rightarrow> do {
                      let wal_inc = (case db_wal st2 of None \<Rightarrow> 0
                                     | Some _ \<Rightarrow> word_of_nat (kWalHeaderSize + event_kEncodedSize));
                      st3 \<leftarrow> insert_active rng e st2;
                      m \<leftarrow> db_active st3;
                      Some (Inr \<lparr>ar_sequence_id = seq, ar_wal_offset = wal_offset\<rparr>,
                            st3\<lparr>db_counters := (db_counters st3)
                              \<lparr>wal_bytes_written := wal_bytes_written (db_counters st3) + wal_inc,
                               events_ingested_total := events_ingested_total (db_counters st3) + 1,
                               memtable_bytes := word_of_nat (memtable_size_bytes m),
                               immutable_memtable_count := word_of_nat (length (db_imm st3))\<rparr>\<rparr>)
                    })"

definition tombstone :: "u32 \<Rightarrow> u64 \<Rightarrow> u64 \<Rightarrow> event" where
  "tombstone sym_id ts seq =
     \<lparr>timestamp_ns = ts, symbol_id = sym_id, sequence_id = seq, event_type = Tombstone, price_ticks = 0,
      bid_px_ticks = 0, ask_px_ticks = 0, quantity = 0, bid_qty = 0, ask_qty = 0, order_id = 0\<rparr>"

definition db_remove :: "os \<Rightarrow> (nat \<Rightarrow> u32) \<Rightarrow> string \<Rightarrow> u64 \<Rightarrow> u64 \<Rightarrow> db \<Rightarrow> ((exn + append_result) \<times> db) option" where
  "db_remove os rng symbol ts seq st =
     (if db_closed st then Some (Inl (Runtime_error ''DB is closed''), st)
      else case symtab_intern os symbol (db_symbols st) of
             (Inl ex, sy) \<Rightarrow> Some (Inl ex, st\<lparr>db_symbols := sy\<rparr>)
           | (Inr sym_id, sy) \<Rightarrow>
               let e = tombstone sym_id ts seq
               in case log_event os e (st\<lparr>db_symbols := sy\<rparr>) of
                    (Inl ex, st2) \<Rightarrow> Some (Inl ex, st2)
                  | (Inr wal_offset, st2) \<Rightarrow> do {
                      st3 \<leftarrow> insert_active rng e st2;
                      Some (Inr \<lparr>ar_sequence_id = seq, ar_wal_offset = wal_offset\<rparr>, st3)
                    })"

section \<open>Querying\<close>

record query_request =
  rq_symbol :: string
  rq_start_ns :: u64
  rq_end_ns :: u64
  rq_event_type :: "event_type option"
  rq_limit :: u32

record query_stats =
  qs_files_considered :: u64
  qs_files_skipped :: u64
  qs_blocks_read :: u64

text \<open>What the callback captures.\<close>

record query_acc =
  qa_rows :: "event list"
  qa_rows_scanned :: u64
  qa_rows_returned :: u64
  qa_done :: bool

record query_result =
  qr_rows :: "event list"
  qr_stats :: query_stats
  qr_rows_scanned :: u64
  qr_rows_returned :: u64

definition filter_and_collect :: "event_type option \<Rightarrow> nat \<Rightarrow> event \<Rightarrow> query_acc \<Rightarrow> bool \<times> query_acc" where
  "filter_and_collect ty limit e acc =
     (if qa_done acc then (False, acc)
      else let acc1 = acc\<lparr>qa_rows_scanned := qa_rows_scanned acc + 1\<rparr>
           in if event_type e = Tombstone then (True, acc1)
              else if (case ty of None \<Rightarrow> False | Some t \<Rightarrow> event_type e \<noteq> t) then (True, acc1)
              else let acc2 = acc1\<lparr>qa_rows := qa_rows acc1 @ [e], qa_rows_returned := qa_rows_returned acc1 + 1\<rparr>
                   in if length (qa_rows acc2) \<ge> limit then (False, acc2\<lparr>qa_done := True\<rparr>)
                      else (True, acc2))"

fun query_memtables :: "memtable list \<Rightarrow> key \<Rightarrow> key \<Rightarrow> (event \<Rightarrow> query_acc \<Rightarrow> bool \<times> query_acc) \<Rightarrow> query_acc \<Rightarrow> query_acc option" where
  "query_memtables [] lo hi cb acc = Some acc"
| "query_memtables (m # ms) lo hi cb acc =
     (if qa_done acc then Some acc else memtable_scan m lo hi cb acc \<bind> query_memtables ms lo hi cb)"

definition may_contain :: "sst_info \<Rightarrow> key \<Rightarrow> key \<Rightarrow> bool" where
  "may_contain info s e \<longleftrightarrow> \<not> (e < sm_min_key (si_meta info) \<or> sm_max_key (si_meta info) < s)"

fun query_files ::
  "os \<Rightarrow> dir \<Rightarrow> sst_info list \<Rightarrow> key \<Rightarrow> key \<Rightarrow> (event \<Rightarrow> query_acc \<Rightarrow> bool \<times> query_acc)
     \<Rightarrow> query_acc \<times> query_stats \<times> read_io \<Rightarrow> query_acc \<times> query_stats \<times> read_io" where
  "query_files os d [] lo hi cb (acc, qs, io) = (acc, qs, io)"
| "query_files os d (info # infos) lo hi cb (acc, qs, io) =
     (if qa_done acc then (acc, qs, io)
      else let qs1 = qs\<lparr>qs_files_considered := qs_files_considered qs + 1\<rparr>
           in if \<not> may_contain info lo hi
              then query_files os d infos lo hi cb (acc, qs1\<lparr>qs_files_skipped := qs_files_skipped qs1 + 1\<rparr>, io)
              else case sst_reader_new os (si_path info) d of
                     Inl _ \<Rightarrow> query_files os d infos lo hi cb (acc, qs1, io)
                   | Inr r \<Rightarrow>
                       (case sst_scan r lo hi cb acc io of
                          (Inl _, acc', io') \<Rightarrow> query_files os d infos lo hi cb (acc', qs1, io')
                        | (Inr _, acc', io') \<Rightarrow>
                            let rows_in_file = qa_rows_scanned acc' - qa_rows_scanned acc
                            in query_files os d infos lo hi cb
                                 (acc', qs1\<lparr>qs_blocks_read := qs_blocks_read qs1 + max 1 ((rows_in_file + 983) div 984)\<rparr>, io')))"

definition query_limit :: "query_request \<Rightarrow> nat" where
  "query_limit req = (if rq_limit req > 0 then unat (rq_limit req) else 1000)"

definition db_query :: "os \<Rightarrow> query_request \<Rightarrow> db \<Rightarrow> ((exn + query_result) \<times> db) option" where
  "db_query os req st =
     (if db_closed st then Some (Inl (Runtime_error ''DB is closed''), st)
      else let qs0 = \<lparr>qs_files_considered = 0, qs_files_skipped = 0, qs_blocks_read = 0\<rparr>
      in case symtab_lookup (rq_symbol req) (db_symbols st) of
           None \<Rightarrow> Some (Inr \<lparr>qr_rows = [], qr_stats = qs0, qr_rows_scanned = 0, qr_rows_returned = 0\<rparr>, st)
         | Some sym_id \<Rightarrow>
             let lo = \<lparr>key_symbol_id = sym_id, key_timestamp_ns = rq_start_ns req, key_sequence_id = 0\<rparr>;
                 hi = \<lparr>key_symbol_id = sym_id, key_timestamp_ns = rq_end_ns req, key_sequence_id = - 1\<rparr>;
                 cb = filter_and_collect (rq_event_type req) (query_limit req);
                 acc0 = \<lparr>qa_rows = [], qa_rows_scanned = 0, qa_rows_returned = 0, qa_done = False\<rparr>;
                 mems = (case db_active st of None \<Rightarrow> [] | Some m \<Rightarrow> [m]) @ db_imm st
             in do {
               acc \<leftarrow> query_memtables mems lo hi cb acc0;
               let (acc', qs, io) = query_files os (db_tables st) (concat (db_levels st)) lo hi cb (acc, qs0, db_io st);
               Some (Inr \<lparr>qr_rows = qa_rows acc', qr_stats = qs, qr_rows_scanned = qa_rows_scanned acc',
                          qr_rows_returned = qa_rows_returned acc'\<rparr>, st\<lparr>db_io := io\<rparr>)
             })"

section \<open>Flushing\<close>

definition flush_path :: "db_config \<Rightarrow> u64 \<Rightarrow> string" where
  "flush_path cfg seq = level_dir cfg 0 @ ''/'' @ ''sst_l0_'' @ decimal06 (unat seq) @ ''.sst''"

text \<open>The memtable is the caller's: when writing the table throws, it is destroyed.\<close>

definition do_flush :: "os \<Rightarrow> (u32 \<Rightarrow> bloom) \<Rightarrow> memtable \<Rightarrow> u64 \<Rightarrow> db \<Rightarrow> ((exn + unit) \<times> db) option" where
  "do_flush os new_filter mem seq st =
     (if memtable_empty mem then Some (Inr (), st)
      else do {
        events \<leftarrow> to_sorted_events mem;
        if events = [] then Some (Inr (), st)
        else case write_table os new_filter (flush_path (db_cfg st) seq) 0 seq
                    (block_target_bytes (db_cfg st)) 0 events (db_tables st) of
               (Inl ex, d) \<Rightarrow> Some (Inl ex, st\<lparr>db_tables := d\<rparr>)
             | (Inr info, d) \<Rightarrow>
                 Some (Inr (), st\<lparr>db_tables := d, db_levels := (db_levels st)[0 := db_levels st ! 0 @ [info]],
                                 db_counters := (db_counters st)\<lparr>flush_count := flush_count (db_counters st) + 1\<rparr>\<rparr>)
      })"

text \<open>The loops that drain the immutable memtables; the list is that of the state.\<close>

primrec drain_imm :: "os \<Rightarrow> (u32 \<Rightarrow> bloom) \<Rightarrow> memtable list \<Rightarrow> db \<Rightarrow> ((exn + unit) \<times> db) option" where
  "drain_imm os nf [] st = Some (Inr (), st)"
| "drain_imm os nf (m # ms) st = do {
     (r, st') \<leftarrow> do_flush os nf m (db_sst_seq st) (st\<lparr>db_imm := ms, db_sst_seq := db_sst_seq st + 1\<rparr>);
     case r of Inl ex \<Rightarrow> Some (Inl ex, st') | Inr _ \<Rightarrow> drain_imm os nf ms st'
   }"

definition rotate_active :: "db \<Rightarrow> db" where
  "rotate_active st =
     (case db_active st of
        None \<Rightarrow> st
      | Some m \<Rightarrow>
          if memtable_empty m then st
          else st\<lparr>db_imm := db_imm st @ [m],
                  db_active := Some (memtable_new (memtable_flush_bytes (db_cfg st)))\<rparr>)"

definition flush_now :: "os \<Rightarrow> (u32 \<Rightarrow> bloom) \<Rightarrow> db \<Rightarrow> ((exn + unit) \<times> db) option" where
  "flush_now os nf st = (let st1 = rotate_active st in drain_imm os nf (db_imm st1) st1)"

section \<open>Compacting\<close>

definition needs_l0_compact :: "db \<Rightarrow> bool" where
  "needs_l0_compact st \<longleftrightarrow> length (db_levels st ! 0) \<ge> kL0CompactionTrigger"

definition remove_files :: "string list \<Rightarrow> dir \<Rightarrow> dir" where
  "remove_files ps d = fold AList.delete ps d"

definition do_compact_l0 :: "os \<Rightarrow> (u32 \<Rightarrow> bloom) \<Rightarrow> db \<Rightarrow> (exn + unit) \<times> db" where
  "do_compact_l0 os nf st =
     (let l0_files = db_levels st ! 0
      in if l0_files = [] then (Inr (), st)
         else let seq = db_sst_seq st; st1 = st\<lparr>db_sst_seq := seq + 1\<rparr>
         in case compaction_run os nf l0_files (level_dir (db_cfg st) 1) 1 seq
                   (sstable_target_bytes (db_cfg st)) (db_tables st) of
              (Inl ex, d) \<Rightarrow> (Inl ex, st1\<lparr>db_tables := d\<rparr>)
            | (Inr (new_files, stats), d) \<Rightarrow>
                if new_files = [] then (Inr (), st1\<lparr>db_tables := d\<rparr>)
                else let paths = map si_path l0_files
                     in (Inr (), st1\<lparr>db_tables := remove_files paths d,
                          db_levels := (db_levels st)
                            [0 := filter (\<lambda>info. si_path info \<notin> set paths) (db_levels st ! 0),
                             1 := sort_key info_seq (db_levels st ! 1 @ new_files)],
                          db_counters := (db_counters st)\<lparr>compaction_count := compaction_count (db_counters st) + 1\<rparr>\<rparr>))"

section \<open>The background threads\<close>

text \<open>
  One round of each thread after it woke up: the flush thread drains the immutable memtables,
  the compaction thread compacts when there are enough tables. The waiting is not modelled.
\<close>

definition flush_round :: "os \<Rightarrow> (u32 \<Rightarrow> bloom) \<Rightarrow> db \<Rightarrow> ((exn + unit) \<times> db) option" where
  "flush_round os nf st = drain_imm os nf (db_imm st) st"

definition compact_round :: "os \<Rightarrow> (u32 \<Rightarrow> bloom) \<Rightarrow> bool \<Rightarrow> db \<Rightarrow> (exn + unit) \<times> db" where
  "compact_round os nf stop st = (if \<not> stop \<and> needs_l0_compact st then do_compact_l0 os nf st else (Inr (), st))"

section \<open>Closing\<close>

definition db_close :: "os \<Rightarrow> (u32 \<Rightarrow> bloom) \<Rightarrow> ((string \<times> u32) list \<Rightarrow> (string \<times> u32) list) \<Rightarrow> db \<Rightarrow> ((exn + unit) \<times> db) option" where
  "db_close os nf order st =
     (if db_closed st then Some (Inr (), st)
      else let st1 = st\<lparr>db_closed := True\<rparr>;
               st2 = (case db_active st1 of
                        None \<Rightarrow> st1
                      | Some m \<Rightarrow> if memtable_empty m then st1
                                  else st1\<lparr>db_imm := db_imm st1 @ [m], db_active := None\<rparr>)
      in do {
        (r, st3) \<leftarrow> drain_imm os nf (db_imm st2) st2;
        case r of
          Inl ex \<Rightarrow> Some (Inl ex, st3)
        | Inr _ \<Rightarrow>
            (let st4 = st3\<lparr>db_wal := map_option wal_close (db_wal st3)\<rparr>
             in case symtab_flush os order (db_symbols st4) of
                  (Inl ex, sy) \<Rightarrow> Some (Inl ex, st4\<lparr>db_symbols := sy\<rparr>)
                | (Inr _, sy) \<Rightarrow> Some (Inr (), st4\<lparr>db_symbols := sy\<rparr>))
      })"

text \<open>What is on disk when a database is closed or its process dies.\<close>

definition disk_of :: "db \<Rightarrow> disk" where
  "disk_of st = \<lparr>dk_symbols = st_file (db_symbols st), dk_wal = map_option wal_dir (db_wal st), dk_tables = db_tables st\<rparr>"

section \<open>Reports\<close>

definition event_count :: "db \<Rightarrow> u64" where
  "event_count st = events_ingested_total (db_counters st)"

definition disk_usage_bytes :: "db \<Rightarrow> u64" where
  "disk_usage_bytes st =
     word_of_nat (sum_list (map (length \<circ> snd) (db_tables st))
       + (case db_wal st of None \<Rightarrow> 0 | Some w \<Rightarrow> sum_list (map (length \<circ> snd) (wal_dir w)))
       + (case st_file (db_symbols st) of None \<Rightarrow> 0 | Some f \<Rightarrow> length f))"

definition db_symbol_names :: "((string \<times> u32) list \<Rightarrow> (string \<times> u32) list) \<Rightarrow> db \<Rightarrow> string list" where
  "db_symbol_names order st = symtab_names order (db_symbols st)"

definition memtable_info :: "db \<Rightarrow> rat \<times> u32" where
  "memtable_info st =
     (case db_active st of
        None \<Rightarrow> 0
      | Some m \<Rightarrow> of_nat (memtable_size_bytes m) / (1024 * 1024), word_of_nat (length (db_imm st)))"

record level_info =
  li_level :: nat
  li_file_count :: u32
  li_size_bytes :: u64
  li_compaction_score :: rat

definition level_infos :: "db \<Rightarrow> level_info list" where
  "level_infos st =
     map (\<lambda>l. let sz = sum_list (map si_file_size (db_levels st ! l)); n = word_of_nat (length (db_levels st ! l))
              in \<lparr>li_level = l, li_file_count = n, li_size_bytes = sz,
                  li_compaction_score = compaction_score (int l) n sz\<rparr>)
       [0..<db_kMaxLevels]"

end
