(* ===== verification/DBState.thy ===== *)
theory DBState
  imports DB
begin

text \<open>
  What a database holds: the events of its active memtable, of its immutable memtables and of
  the tables of its levels, and what a query, a flush and a compaction do to them.
\<close>

section \<open>The rows of a query\<close>

definition wanted :: "event_type option \<Rightarrow> event \<Rightarrow> bool" where
  "wanted ty e \<longleftrightarrow> event_type e \<noteq> Tombstone \<and> (case ty of None \<Rightarrow> True | Some t \<Rightarrow> event_type e = t)"

definition acc_ok :: "nat \<Rightarrow> query_acc \<Rightarrow> bool" where
  "acc_ok limit acc \<longleftrightarrow> qa_done acc = (limit \<le> length (qa_rows acc)) \<and> length (qa_rows acc) \<le> limit \<and>
     qa_rows_returned acc = word_of_nat (length (qa_rows acc))"

lemma take_take_append: "take n (take n xs @ ys) = take n (xs @ ys)"
  by (cases "length xs \<le> n") simp_all

lemma filter_and_collect_done [simp]: "qa_done acc \<Longrightarrow> filter_and_collect ty limit e acc = (False, acc)"
  by (simp add: filter_and_collect_def)

lemma filter_and_collect_step:
  assumes "acc_ok limit acc" and "\<not> qa_done acc"
  shows "\<exists>acc'. filter_and_collect ty limit e acc = (\<not> qa_done acc', acc') \<and> acc_ok limit acc' \<and>
    qa_rows acc' = qa_rows acc @ (if wanted ty e then [e] else [])"
  using assms by (auto simp: filter_and_collect_def Let_def acc_ok_def wanted_def split: option.splits)

lemma run_collect:
  assumes "acc_ok limit acc"
  shows "acc_ok limit (snd (run_cb (filter_and_collect ty limit) es acc)) \<and>
    qa_rows (snd (run_cb (filter_and_collect ty limit) es acc)) = take limit (qa_rows acc @ filter (wanted ty) es)"
  using assms
proof (induction es arbitrary: acc)
  case Nil
  then show ?case by (simp add: acc_ok_def)
next
  case (Cons e es)
  show ?case
  proof (cases "qa_done acc")
    case True
    then show ?thesis using Cons.prems by (simp add: acc_ok_def)
  next
    case False
    obtain acc' where a: "filter_and_collect ty limit e acc = (\<not> qa_done acc', acc')" "acc_ok limit acc'"
        "qa_rows acc' = qa_rows acc @ (if wanted ty e then [e] else [])"
      using filter_and_collect_step [OF Cons.prems False] by blast
    show ?thesis
    proof (cases "qa_done acc'")
      case True
      then have "length (qa_rows acc') = limit" using a(2) by (simp add: acc_ok_def)
      then show ?thesis using True a by (auto simp: a(1))
    next
      case False
      then show ?thesis using Cons.IH [OF a(2)] a by (auto simp: a(1) simp del: take_append)
    qed
  qed
qed

abbreviation ranged :: "key \<Rightarrow> key \<Rightarrow> event list list \<Rightarrow> event list" where
  "ranged lo hi ess \<equiv> concat (map (filter (in_range lo hi)) ess)"

lemma query_memtables_spec:
  "list_all2 memtable_rel ms ess \<Longrightarrow> acc_ok limit acc \<Longrightarrow>
    \<exists>acc'. query_memtables ms lo hi (filter_and_collect ty limit) acc = Some acc' \<and> acc_ok limit acc' \<and>
      qa_rows acc' = take limit (qa_rows acc @ filter (wanted ty) (ranged lo hi ess))"
proof (induction ms ess arbitrary: acc rule: list_all2_induct)
  case Nil
  then show ?case by (simp add: acc_ok_def)
next
  case (Cons m ms es ess)
  show ?case
  proof (cases "qa_done acc")
    case True
    then show ?thesis using Cons.prems by (simp add: acc_ok_def)
  next
    case False
    define acc1 where "acc1 = snd (run_cb (filter_and_collect ty limit) (filter (in_range lo hi) es) acc)"
    have a1: "acc_ok limit acc1" "qa_rows acc1 = take limit (qa_rows acc @ filter (wanted ty) (filter (in_range lo hi) es))"
      using run_collect [OF Cons.prems] by (simp_all add: acc1_def)
    have sc: "memtable_scan m lo hi (filter_and_collect ty limit) acc = Some acc1"
      unfolding acc1_def by (rule memtable_scan.scan_run [OF Cons.hyps(1)])
    show ?thesis using Cons.IH [OF a1(1)] False a1(2) sc by (auto simp: take_take_append simp del: take_append filter_filter)
  qed
qed

lemma may_contain_false:
  assumes "table_on d r bs" and "\<not> may_contain (sr_info r) lo hi"
  shows "filter (in_range lo hi) (concat bs) = []"
  using assms table_on_range [OF assms(1)]
  by (force simp: filter_empty_conv in_range_def may_contain_def)

lemma query_files_spec:
  assumes op: "opens os" and h: "history_ok h"
  shows "tables_on d ts \<Longrightarrow> set ts \<subseteq> set h \<Longrightarrow> io_backed h io \<Longrightarrow> acc_ok limit acc \<Longrightarrow>
    \<exists>acc' qs' io'. query_files os d (infos_of ts) lo hi (filter_and_collect ty limit) (acc, qs, io) = (acc', qs', io') \<and>
      acc_ok limit acc' \<and> io_backed h io' \<and>
      qa_rows acc' = take limit (qa_rows acc @ filter (wanted ty) (ranged lo hi (events_of ts)))"
proof (induction ts arbitrary: acc qs io)
  case Nil
  then show ?case by (simp add: acc_ok_def)
next
  case (Cons rb ts)
  obtain r bs where rb: "rb = (r, bs)" by (cases rb)
  have t: "table_on d r bs" "tables_on d ts" "(r, bs) \<in> set h" "set ts \<subseteq> set h"
    using Cons.prems(1,2) by (simp_all add: rb)
  show ?case
  proof (cases "qa_done acc")
    case True
    then show ?thesis using Cons.prems by (simp add: acc_ok_def)
  next
    case nd: False
    show ?thesis
    proof (cases "may_contain (sr_info r) lo hi")
      case False
      then show ?thesis
        using nd Cons.IH [OF t(2,4) Cons.prems(3,4)] may_contain_false [OF t(1) False] by (simp add: rb Let_def)
    next
      case True
      let ?cb = "filter_and_collect ty limit"
      define acc1 where "acc1 = snd (run_cb ?cb (filter (in_range lo hi) (concat bs)) acc)"
      have a1: "acc_ok limit acc1" "qa_rows acc1 = take limit (qa_rows acc @ filter (wanted ty) (filter (in_range lo hi) (concat bs)))"
        using run_collect [OF Cons.prems(4)] by (simp_all add: acc1_def)
      obtain io1 where sc: "sst_scan r lo hi ?cb acc io = (Inr (), acc1, io1)" "io_backed h io1"
        using scan_backed [OF h t(3) Cons.prems(3), of lo hi ?cb acc] unfolding acc1_def by blast
      have "sst_reader_new os (si_path (sr_info r)) d = Inr r" using table_on_open [OF t(1)] op by blast
      then show ?thesis
        using nd True sc(1) Cons.IH [OF t(2,4) sc(2) a1(1)] a1(2)
        by (simp add: rb Let_def take_take_append del: filter_filter take_append)
    qed
  qed
qed

section \<open>The invariant\<close>

text \<open>Tables of level 0 have names of flushes, those of level 1 names of compactions, and the deeper
  levels stay empty.\<close>

definition placed :: "db_config \<Rightarrow> history list \<Rightarrow> bool" where
  "placed cfg levs \<longleftrightarrow> set (paths_of (levs ! 0)) \<subseteq> range (flush_path cfg) \<and>
     set (paths_of (levs ! 1)) \<subseteq> range (make_path (level_dir cfg 1) 1) \<and> levs ! 2 = [] \<and> levs ! 3 = []"

definition db_holds :: "db \<Rightarrow> history \<Rightarrow> event list \<Rightarrow> event list list \<Rightarrow> history list \<Rightarrow> bool" where
  "db_holds st h act imms levs \<longleftrightarrow>
     (\<exists>m. db_active st = Some m \<and> memtable_rel m act) \<and> list_all2 memtable_rel (db_imm st) imms \<and>
     length levs = 4 \<and> db_levels st = map infos_of levs \<and>
     set (concat levs) \<subseteq> set h \<and> distinct (paths_of (concat levs)) \<and> tables_on (db_tables st) (concat levs) \<and>
     history_ok h \<and> io_backed h (db_io st) \<and>
     list_all event_wf act \<and> list_all (list_all event_wf) imms \<and>
     dom (map_of (db_tables st)) = set (paths_of (concat levs)) \<and> placed (db_cfg st) levs"

text \<open>All events, in the order a query meets them.\<close>

definition sources :: "event list \<Rightarrow> event list list \<Rightarrow> history list \<Rightarrow> event list list" where
  "sources act imms levs = act # imms @ events_of (concat levs)"

lemma acc_ok_start:
  "0 < limit \<Longrightarrow> acc_ok limit \<lparr>qa_rows = [], qa_rows_scanned = 0, qa_rows_returned = 0, qa_done = False\<rparr>"
  by (simp add: acc_ok_def)

lemma query_limit_pos [simp]: "0 < query_limit req"
  by (simp add: query_limit_def unat_gt_0 word_gt_0)

lemma concat_infos: "concat (map infos_of levs) = infos_of (concat levs)"
  by (simp add: map_concat comp_def)

definition query_lo :: "query_request \<Rightarrow> u32 \<Rightarrow> key" where
  "query_lo req sid = \<lparr>key_symbol_id = sid, key_timestamp_ns = rq_start_ns req, key_sequence_id = 0\<rparr>"

definition query_hi :: "query_request \<Rightarrow> u32 \<Rightarrow> key" where
  "query_hi req sid = \<lparr>key_symbol_id = sid, key_timestamp_ns = rq_end_ns req, key_sequence_id = - 1\<rparr>"

lemma in_range_query:
  "in_range (query_lo req sid) (query_hi req sid) e \<longleftrightarrow>
     symbol_id e = sid \<and> rq_start_ns req \<le> timestamp_ns e \<and> timestamp_ns e \<le> rq_end_ns req"
proof -
  have "\<not> event_key e < query_lo req sid \<longleftrightarrow> sid < symbol_id e \<or> (symbol_id e = sid \<and> rq_start_ns req \<le> timestamp_ns e)"
    by (auto simp: query_lo_def key_less_iff event_key_def not_less)
  moreover have "\<not> query_hi req sid < event_key e \<longleftrightarrow> symbol_id e < sid \<or> (symbol_id e = sid \<and> timestamp_ns e \<le> rq_end_ns req)"
    by (auto simp: query_hi_def key_less_iff event_key_def not_less)
  ultimately show ?thesis unfolding in_range_def not_less by auto
qed

lemma db_query_spec:
  assumes op: "opens os" and st: "db_holds st h act imms levs" "\<not> db_closed st"
    and sym: "symtab_lookup (rq_symbol req) (db_symbols st) = Some sid"
  shows "\<exists>res io. db_query os req st = Some (Inr res, st\<lparr>db_io := io\<rparr>) \<and> db_holds (st\<lparr>db_io := io\<rparr>) h act imms levs \<and>
    qr_rows res = take (query_limit req) (filter (wanted (rq_event_type req))
      (ranged (query_lo req sid) (query_hi req sid) (sources act imms levs))) \<and>
    qr_rows_returned res = word_of_nat (length (qr_rows res))"
proof -
  obtain m where m: "db_active st = Some m" "memtable_rel m act" using st(1) unfolding db_holds_def by blast
  have s: "list_all2 memtable_rel (db_imm st) imms" "db_levels st = map infos_of levs"
      "set (concat levs) \<subseteq> set h" "tables_on (db_tables st) (concat levs)" "history_ok h" "io_backed h (db_io st)"
    using st(1) unfolding db_holds_def by blast+
  let ?lim = "query_limit req" and ?ty = "rq_event_type req"
  let ?acc0 = "\<lparr>qa_rows = [], qa_rows_scanned = 0, qa_rows_returned = 0, qa_done = False\<rparr>"
  let ?qs0 = "\<lparr>qs_files_considered = 0, qs_files_skipped = 0, qs_blocks_read = 0\<rparr>"
  let ?cb = "filter_and_collect ?ty ?lim" and ?lo = "query_lo req sid" and ?hi = "query_hi req sid"
  have mems: "list_all2 memtable_rel (m # db_imm st) (act # imms)" using m(2) s(1) by simp
  obtain acc1 where a1: "query_memtables (m # db_imm st) ?lo ?hi ?cb ?acc0 = Some acc1" "acc_ok ?lim acc1"
      "qa_rows acc1 = take ?lim (qa_rows ?acc0 @ filter (wanted ?ty) (ranged ?lo ?hi (act # imms)))"
    using query_memtables_spec [OF mems acc_ok_start [OF query_limit_pos]] by blast
  obtain acc2 qs io where f: "query_files os (db_tables st) (infos_of (concat levs)) ?lo ?hi ?cb (acc1, ?qs0, db_io st) = (acc2, qs, io)"
      "acc_ok ?lim acc2" "io_backed h io"
      "qa_rows acc2 = take ?lim (qa_rows acc1 @ filter (wanted ?ty) (ranged ?lo ?hi (events_of (concat levs))))"
    using query_files_spec [OF op s(5,4,3,6) a1(2)] by blast
  define res where "res = \<lparr>qr_rows = qa_rows acc2, qr_stats = qs, qr_rows_scanned = qa_rows_scanned acc2,
      qr_rows_returned = qa_rows_returned acc2\<rparr>"
  have "db_query os req st = Some (Inr res, st\<lparr>db_io := io\<rparr>)"
    using st(2) sym a1(1) f(1) m(1)
    by (simp add: db_query_def Let_def query_lo_def query_hi_def s(2) concat_infos res_def del: query_memtables.simps)
  moreover have "db_holds (st\<lparr>db_io := io\<rparr>) h act imms levs"
    using st(1) f(3) by (simp add: db_holds_def)
  moreover have "qr_rows res = take ?lim (filter (wanted ?ty) (ranged ?lo ?hi (sources act imms levs)))"
    unfolding res_def query_result.simps f(4) a1(3)
    by (simp add: sources_def take_take_append del: filter_filter take_append)
  moreover have "qr_rows_returned res = word_of_nat (length (qr_rows res))"
    using f(2) by (simp add: res_def acc_ok_def)
  ultimately show ?thesis by blast
qed


section \<open>Names of table files\<close>

lemma decimal_digit: "n < 10 \<Longrightarrow> decimal n = [digit n]"
  by (subst decimal.simps) simp

lemma digit_01: "digit 0 = CHR ''0''" "digit 1 = CHR ''1''"
  by code_simp+

lemma level_dir_01: "level_dir cfg 0 = cfg_path cfg @ ''/l0''" "level_dir cfg (Suc 0) = cfg_path cfg @ ''/l1''"
  using digit_01 by (simp_all add: level_dir_def decimal_digit)

lemma flush_path_inj [simp]: "flush_path cfg s = flush_path cfg s' \<longleftrightarrow> s = s'"
  by (auto simp: flush_path_def word_unat_eq_iff dest: decimal06_inj)

lemma flush_path_not_output [simp]:
  "flush_path cfg s \<noteq> make_path (level_dir cfg (Suc 0)) lvl s'" "make_path (level_dir cfg (Suc 0)) lvl s' \<noteq> flush_path cfg s"
  by (simp_all add: flush_path_def make_path_def level_dir_01)

text \<open>Every table ever written has a name with a number below the next one.\<close>

definition numbered :: "db_config \<Rightarrow> nat \<Rightarrow> history \<Rightarrow> bool" where
  "numbered cfg n h \<longleftrightarrow> (\<forall>p \<in> set (paths_of h). \<exists>k < n.
     p = flush_path cfg (word_of_nat k) \<or> p = make_path (level_dir cfg 1) 1 (word_of_nat k))"

lemma numbered_mono: "numbered cfg n h \<Longrightarrow> n \<le> n' \<Longrightarrow> numbered cfg n' h"
  unfolding numbered_def by (meson order_less_le_trans)

lemma numbered_append [simp]: "numbered cfg n (h @ h') \<longleftrightarrow> numbered cfg n h \<and> numbered cfg n h'"
  by (auto simp: numbered_def)

lemma word_nat_neq: "k < unat (s :: u64) \<Longrightarrow> word_of_nat k \<noteq> s"
proof
  assume k: "k < unat s" and e: "word_of_nat k = s"
  have "k < 2 ^ 64" using k unsigned_less [of s, where 'a = nat] by simp
  then have "unat (word_of_nat k :: u64) = k" by (rule unat_u64)
  then show False using k e by simp
qed

lemma numbered_fresh:
  assumes "numbered cfg (unat s) h"
  shows "flush_path cfg s \<notin> set (paths_of h)" and "make_path (level_dir cfg 1) 1 s \<notin> set (paths_of h)"
proof -
  have "p \<noteq> flush_path cfg s \<and> p \<noteq> make_path (level_dir cfg 1) 1 s" if "p \<in> set (paths_of h)" for p
  proof -
    have "\<exists>k < unat s. p = flush_path cfg (word_of_nat k) \<or> p = make_path (level_dir cfg 1) 1 (word_of_nat k)"
      using assms that unfolding numbered_def by (rule bspec)
    then obtain k where k: "k < unat s" "p = flush_path cfg (word_of_nat k) \<or> p = make_path (level_dir cfg 1) 1 (word_of_nat k)"
      by (elim exE conjE)
    show ?thesis using k(2) word_nat_neq [OF k(1)]
      by (metis flush_path_inj make_path_inj flush_path_not_output [folded One_nat_def])
  qed
  from this [of "flush_path cfg s"] this [of "make_path (level_dir cfg 1) 1 s"]
  show "flush_path cfg s \<notin> set (paths_of h)" "make_path (level_dir cfg 1) 1 s \<notin> set (paths_of h)" by argo+
qed

lemma unat_Suc_u64: "unat (s :: u64) + 1 < 2 ^ 64 \<Longrightarrow> unat (s + 1) = unat s + 1"
  by (subst unat_add_lem [THEN iffD1]) simp_all

section \<open>Flushing\<close>

lemma history_add:
  assumes "history_ok h" and "table_on d r bs" and "sr_path r \<notin> set (paths_of h)"
  shows "history_ok (h @ [(r, bs)])"
  using assms by (auto simp: table_on_def image_iff)

lemma concat_update0: "levs \<noteq> [] \<Longrightarrow> set (concat (levs[0 := hd levs @ ts])) = set (concat levs) \<union> set ts"
  by (cases levs) auto

abbreviation seqs_of :: "history \<Rightarrow> nat list" where
  "seqs_of h \<equiv> map (\<lambda>rb. unat (info_seq (sr_info (fst rb)))) h"

lemma do_flush_spec:
  assumes os: "os_progress os" and nf: "\<forall>n. bloom_wf (nf n)" and t: "block_target_bytes (db_cfg st) < 2 ^ 32"
    and st: "db_holds st h act imms levs" "flush_path (db_cfg st) seq \<notin> set (paths_of h)"
    and m: "memtable_rel m es" "list_all event_wf es" "length es < 2 ^ 32"
  shows "\<exists>ts d lv cn. do_flush os nf m seq st = Some (Inr (), st\<lparr>db_tables := d, db_levels := lv, db_counters := cn\<rparr>) \<and>
    db_holds (st\<lparr>db_tables := d, db_levels := lv, db_counters := cn\<rparr>) (h @ ts) act imms (levs[0 := hd levs @ ts]) \<and>
    set (paths_of ts) \<subseteq> {flush_path (db_cfg st) seq} \<and> events_of ts = (if es = [] then [] else [es]) \<and>
    set (seqs_of ts) \<subseteq> {unat seq}"
proof -
  have h: "history_ok h" "io_backed h (db_io st)" "length levs = 4" "db_levels st = map infos_of levs"
      "set (concat levs) \<subseteq> set h" "distinct (paths_of (concat levs))" "tables_on (db_tables st) (concat levs)"
    using st(1) unfolding db_holds_def by blast+
  obtain l0 ls where levs: "levs = l0 # ls" using h(3) by (cases levs) auto
  show ?thesis
  proof (cases "es = []")
    case True
    then have "do_flush os nf m seq st = Some (Inr (), st)"
      using memtable_empty_spec [OF m(1)] by (simp add: do_flush_def)
    then have "do_flush os nf m seq st = Some (Inr (), st\<lparr>db_tables := db_tables st, db_levels := db_levels st, db_counters := db_counters st\<rparr>)"
      by simp
    then show ?thesis using st(1) True
      by (intro exI [of _ "[]"] exI [of _ "db_tables st"] exI [of _ "db_levels st"] exI [of _ "db_counters st"]) (simp add: levs)
  next
    case False
    let ?p = "flush_path (db_cfg st) seq"
    have srt: "sorted_events es" using memtable_rel_sorted [OF m(1)] .
    obtain r bs where w: "write_table os nf ?p 0 seq (block_target_bytes (db_cfg st)) 0 es (db_tables st) =
          (Inr (sr_info r), AList.update ?p (sr_file r) (db_tables st))"
        "table_on (AList.update ?p (sr_file r) (db_tables st)) r bs" "sr_path r = ?p" "concat bs = es" "si_meta (sr_info r) = table_meta 0 seq bs"
      using write_table_on [OF os srt m(2,3) t, of nf ?p 0 seq 0 "db_tables st"] nf by auto
    note fresh = st(2)
    let ?d = "AList.update ?p (sr_file r) (db_tables st)"
    let ?lv = "(db_levels st)[0 := db_levels st ! 0 @ [sr_info r]]"
    let ?cn = "(db_counters st)\<lparr>flush_count := flush_count (db_counters st) + 1\<rparr>"
    have fl: "do_flush os nf m seq st = Some (Inr (), st\<lparr>db_tables := ?d, db_levels := ?lv, db_counters := ?cn\<rparr>)"
      using memtable_empty_spec [OF m(1)] to_sorted_events_spec [OF m(1)] False w(1) by (simp add: do_flush_def)
    have old: "tables_on ?d (concat levs)"
      by (rule tables_on_frame [OF h(7)]) (use fresh h(5) in \<open>auto simp: update_conv\<close>)
    have "db_holds (st\<lparr>db_tables := ?d, db_levels := ?lv, db_counters := ?cn\<rparr>) (h @ [(r, bs)]) act imms (levs[0 := hd levs @ [(r, bs)]])"
      unfolding db_holds_def
    proof (intro conjI)
      show "history_ok (h @ [(r, bs)])" by (rule history_add [OF h(1) w(2)]) (use fresh w(3) in simp)
      show "io_backed (h @ [(r, bs)]) (db_io (st\<lparr>db_tables := ?d, db_levels := ?lv, db_counters := ?cn\<rparr>))"
        using io_backed_mono [OF h(2)] by simp
      show "tables_on (db_tables (st\<lparr>db_tables := ?d, db_levels := ?lv, db_counters := ?cn\<rparr>)) (concat (levs[0 := hd levs @ [(r, bs)]]))"
        using old w(2) by (simp add: levs)
      show "distinct (paths_of (concat (levs[0 := hd levs @ [(r, bs)]])))"
        using h(5,6) fresh w(3) by (auto simp: levs)
      show "set (concat (levs[0 := hd levs @ [(r, bs)]])) \<subseteq> set (h @ [(r, bs)])"
        using h(5) by (auto simp: levs)
      show "db_levels (st\<lparr>db_tables := ?d, db_levels := ?lv, db_counters := ?cn\<rparr>) = map infos_of (levs[0 := hd levs @ [(r, bs)]])"
        using h(4) by (simp add: levs)
      show "dom (map_of (db_tables (st\<lparr>db_tables := ?d, db_levels := ?lv, db_counters := ?cn\<rparr>))) =
          set (paths_of (concat (levs[0 := hd levs @ [(r, bs)]])))"
        using st(1) w(3) by (auto simp: db_holds_def levs update_conv')
      show "placed (db_cfg (st\<lparr>db_tables := ?d, db_levels := ?lv, db_counters := ?cn\<rparr>)) (levs[0 := hd levs @ [(r, bs)]])"
        using st(1) w(3) by (simp add: db_holds_def placed_def levs)
    qed (use st(1) in \<open>simp_all add: db_holds_def levs\<close>)
    then show ?thesis using fl w(3-5) False
      by (intro exI [of _ "[(r, bs)]"] exI [of _ ?d] exI [of _ ?lv] exI [of _ ?cn])
        (simp add: info_seq_def table_meta_def)
  qed
qed

end
