(* ===== verification/DBOps.thy ===== *)
theory DBOps
  imports DBState
begin

text \<open>
  What each operation does to the events a database holds: an append or a removal puts an
  event into the active memtable, a flush turns the memtables into tables of level 0, and a
  compaction replaces the tables of level 0 by merged tables of level 1.
\<close>

section \<open>Flushing everything\<close>

definition flush_history :: "history list \<Rightarrow> history \<Rightarrow> history list" where
  "flush_history levs ts = levs[0 := hd levs @ ts]"

lemma flush_history_twice: "levs \<noteq> [] \<Longrightarrow> flush_history (flush_history levs ts) ts' = flush_history levs (ts @ ts')"
  by (cases levs) (simp_all add: flush_history_def)

lemma flush_history_Nil [simp]: "levs \<noteq> [] \<Longrightarrow> flush_history levs [] = levs"
  by (cases levs) (simp_all add: flush_history_def)

lemma flush_history_nonempty [simp]: "flush_history levs ts \<noteq> [] \<longleftrightarrow> levs \<noteq> []"
  by (simp add: flush_history_def)

lemma length_flush_history [simp]: "length (flush_history levs ts) = length levs"
  by (simp add: flush_history_def)

lemma events_flush_history:
  "levs \<noteq> [] \<Longrightarrow> mset (concat (events_of (concat (flush_history levs ts)))) =
     mset (concat (events_of (concat levs))) + mset (concat (events_of ts))"
  by (cases levs) (simp_all add: flush_history_def)

lemma db_holds_length: "db_holds st h act imms levs \<Longrightarrow> length levs = 4 \<and> levs \<noteq> []"
  by (auto simp: db_holds_def)

lemma db_holds_imm:
  "db_holds st h act imms levs \<Longrightarrow> list_all2 memtable_rel ms es \<Longrightarrow> list_all (list_all event_wf) es \<Longrightarrow>
     db_holds (st\<lparr>db_imm := ms, db_sst_seq := s\<rparr>) h act es levs"
  by (simp add: db_holds_def)

lemma numbered_flush:
  assumes "numbered cfg (unat s) h" and "set (paths_of ts) \<subseteq> {flush_path cfg s}" and "unat s + 1 < 2 ^ 64"
  shows "numbered cfg (unat (s + 1)) (h @ ts)"
proof -
  have "numbered cfg (unat s + 1) h" by (rule numbered_mono [OF assms(1)]) simp
  moreover have "numbered cfg (unat s + 1) ts"
    unfolding numbered_def
  proof
    fix p assume "p \<in> set (paths_of ts)"
    then have "p = flush_path cfg (word_of_nat (unat s))" using assms(2) by auto
    then show "\<exists>k < unat s + 1. p = flush_path cfg (word_of_nat k) \<or> p = make_path (level_dir cfg 1) 1 (word_of_nat k)"
      by (intro exI [of _ "unat s"] conjI disjI1) simp
  qed
  ultimately show ?thesis by (simp add: unat_Suc_u64 [OF assms(3)])
qed

lemma drain_imm_spec:
  assumes os: "os_progress os" and nf: "\<forall>n. bloom_wf (nf n)"
  shows "list_all2 memtable_rel ms ess \<Longrightarrow> db_imm st = ms \<Longrightarrow> db_holds st h act ess levs \<Longrightarrow>
    numbered (db_cfg st) (unat (db_sst_seq st)) h \<Longrightarrow> unat (db_sst_seq st) + length ms < 2 ^ 64 \<Longrightarrow>
    block_target_bytes (db_cfg st) < 2 ^ 32 \<Longrightarrow> \<forall>es \<in> set ess. length es < 2 ^ 32 \<Longrightarrow>
    \<exists>ts d lv cn. let st' = st\<lparr>db_imm := [], db_sst_seq := db_sst_seq st + word_of_nat (length ms),
                            db_tables := d, db_levels := lv, db_counters := cn\<rparr>
      in drain_imm os nf ms st = Some (Inr (), st') \<and> db_holds st' (h @ ts) act [] (flush_history levs ts) \<and>
         numbered (db_cfg st') (unat (db_sst_seq st')) (h @ ts) \<and> events_of ts = filter (\<lambda>es. es \<noteq> []) ess \<and>
         sorted_wrt (<) (seqs_of ts) \<and> set (seqs_of ts) \<subseteq> {unat (db_sst_seq st)..<unat (db_sst_seq st) + length ms}"
proof (induction ms ess arbitrary: st h levs rule: list_all2_induct)
  case Nil
  have eq: "st\<lparr>db_imm := [], db_sst_seq := db_sst_seq st + word_of_nat (length []),
      db_tables := db_tables st, db_levels := db_levels st, db_counters := db_counters st\<rparr> = st" using Nil(1) by simp
  have lv: "flush_history levs [] = levs" using db_holds_length [OF Nil(2)] by simp
  have ev: "events_of [] = filter (\<lambda>es. es \<noteq> []) []" by simp
  have d: "drain_imm os nf [] st = Some (Inr (), st)" by simp
  show ?case
    by (rule exI [of _ "[]"], rule exI [of _ "db_tables st"], rule exI [of _ "db_levels st"], rule exI [of _ "db_counters st"])
      (unfold Let_def eq append_Nil2 lv, intro conjI d Nil(2,3) ev, simp_all)
next
  case (Cons m ms es ess)
  let ?s = "db_sst_seq st" and ?cfg = "db_cfg st"
  define st1 where "st1 = st\<lparr>db_imm := ms, db_sst_seq := ?s + 1\<rparr>"
  have wf: "list_all event_wf es" "list_all (list_all event_wf) ess" using Cons.prems(2) by (simp_all add: db_holds_def)
  have h1: "db_holds st1 h act ess levs" unfolding st1_def by (rule db_holds_imm [OF Cons.prems(2) Cons.hyps(2) wf(2)])
  have c1: "db_cfg st1 = ?cfg" "db_sst_seq st1 = ?s + 1" "db_imm st1 = ms" by (simp_all add: st1_def)
  have nw: "unat ?s + 1 < 2 ^ 64" using Cons.prems(4) by simp
  obtain ts d lv cn where f: "do_flush os nf m ?s st1 = Some (Inr (), st1\<lparr>db_tables := d, db_levels := lv, db_counters := cn\<rparr>)"
      "db_holds (st1\<lparr>db_tables := d, db_levels := lv, db_counters := cn\<rparr>) (h @ ts) act ess (levs[0 := hd levs @ ts])"
      "set (paths_of ts) \<subseteq> {flush_path ?cfg ?s}" "events_of ts = (if es = [] then [] else [es])"
      "set (seqs_of ts) \<subseteq> {unat ?s}"
    using do_flush_spec [OF os nf _ h1 _ Cons.hyps(1) wf(1), of ?s] numbered_fresh(1) [OF Cons.prems(3)] Cons.prems(5,6)
    unfolding c1(1) by auto
  let ?st2 = "st1\<lparr>db_tables := d, db_levels := lv, db_counters := cn\<rparr>"
  have h2: "db_holds ?st2 (h @ ts) act ess (flush_history levs ts)" using f(2) by (simp add: flush_history_def)
  have n2: "numbered (db_cfg ?st2) (unat (db_sst_seq ?st2)) (h @ ts)"
    using numbered_flush [OF Cons.prems(3) f(3) nw] by (simp add: c1)
  have l2: "unat (db_sst_seq ?st2) + length ms < 2 ^ 64" using Cons.prems(4) nw by (simp add: c1 unat_Suc_u64)
  obtain ts' d' lv' cn' where r: "let st' = ?st2\<lparr>db_imm := [], db_sst_seq := db_sst_seq ?st2 + word_of_nat (length ms),
          db_tables := d', db_levels := lv', db_counters := cn'\<rparr>
      in drain_imm os nf ms ?st2 = Some (Inr (), st') \<and>
         db_holds st' ((h @ ts) @ ts') act [] (flush_history (flush_history levs ts) ts') \<and>
         numbered (db_cfg st') (unat (db_sst_seq st')) ((h @ ts) @ ts') \<and> events_of ts' = filter (\<lambda>es. es \<noteq> []) ess \<and>
         sorted_wrt (<) (seqs_of ts') \<and> set (seqs_of ts') \<subseteq> {unat (db_sst_seq ?st2)..<unat (db_sst_seq ?st2) + length ms}"
    using Cons.IH [OF _ h2 n2 l2] Cons.prems(5,6) c1(1,3) by fastforce
  have lv0: "levs \<noteq> []" using db_holds_length [OF Cons.prems(2)] by blast
  have st': "?st2\<lparr>db_imm := [], db_sst_seq := db_sst_seq ?st2 + word_of_nat (length ms), db_tables := d', db_levels := lv', db_counters := cn'\<rparr>
      = st\<lparr>db_imm := [], db_sst_seq := ?s + word_of_nat (length (m # ms)), db_tables := d', db_levels := lv', db_counters := cn'\<rparr>"
    by (simp add: st1_def add.commute add.left_commute)
  note r' = r [unfolded Let_def st' flush_history_twice [OF lv0] append_assoc]
  have ev: "events_of (ts @ ts') = filter (\<lambda>es. es \<noteq> []) (es # ess)" using f(4) r' by simp
  have "length ts \<le> 1" using arg_cong [OF f(4), of length] by (simp split: if_splits)
  then have s1: "sorted_wrt (<) (seqs_of ts)" by (cases ts) auto
  have su: "unat (db_sst_seq ?st2) = unat ?s + 1" using unat_Suc_u64 [OF nw] by (simp add: c1)
  have s2: "sorted_wrt (<) (seqs_of ts')" "set (seqs_of ts') \<subseteq> {unat ?s + 1..<unat ?s + 1 + length ms}"
    using r' unfolding su by blast+
  have sq: "sorted_wrt (<) (seqs_of (ts @ ts'))" "set (seqs_of (ts @ ts')) \<subseteq> {unat ?s..<unat ?s + length (m # ms)}"
    using s1 s2 f(5) by (fastforce simp: sorted_wrt_append)+
  have dr: "drain_imm os nf (m # ms) st = drain_imm os nf ms ?st2" using f(1) by (simp add: st1_def)
  show ?case
    by (rule exI [of _ "ts @ ts'"], rule exI [of _ d'], rule exI [of _ lv'], rule exI [of _ cn'])
      (unfold Let_def dr, use r' ev sq in blast)
qed

end
