(* ===== verification/DBCompact.thy ===== *)
theory DBCompact
  imports DBOps
begin

text \<open>
  What a compaction of level 0 does to the events a database holds: the tables of level 0 give
  way to one table of level 1 with their merge.
\<close>

section \<open>The histories of the levels\<close>

lemma map_insort_key: "map g (insort_key (\<lambda>x. f (g x)) x xs) = insort_key f (g x) (map g xs)"
  by (induction xs) simp_all

lemma map_sort_key: "map g (sort_key (\<lambda>x. f (g x)) xs) = sort_key f (map g xs)"
  by (induction xs) (simp_all add: map_insort_key)

lemma map_of_remove_files [simp]: "map_of (remove_files ps d) p = (if p \<in> set ps then None else map_of d p)"
  unfolding remove_files_def by (induction ps arbitrary: d) (auto simp: delete_conv)

text \<open>The tables of level 1 after the outputs were added.\<close>

definition level1_history :: "history \<Rightarrow> history" where
  "level1_history ts = sort_key (\<lambda>rb. info_seq (sr_info (fst rb))) ts"

lemma set_level1_history [simp]: "set (level1_history ts) = set ts"
  by (simp add: level1_history_def)

lemma mset_level1_history [simp]: "mset (level1_history ts) = mset ts"
  by (simp add: level1_history_def)

lemma infos_level1_history: "infos_of (level1_history ts) = sort_key info_seq (infos_of ts)"
  unfolding level1_history_def by (rule map_sort_key)

definition compact_history :: "history list \<Rightarrow> history \<Rightarrow> history list" where
  "compact_history levs outs = levs[0 := [], Suc 0 := level1_history (levs ! Suc 0 @ outs)]"

lemma history4: "length (levs :: history list) = 4 \<Longrightarrow> \<exists>l0 l1 l2 l3. levs = [l0, l1, l2, l3]"
  by (auto simp: numeral_eq_Suc length_Suc_conv)

lemma mset_compact_history:
  assumes "length levs = 4"
  shows "mset (concat (compact_history levs outs)) + mset (hd levs) = mset (concat levs) + mset outs"
  using history4 [OF assms] by (auto simp: compact_history_def)

lemma mset_events_of: "mset (concat (events_of h)) = (\<Sum>rb \<in># mset h. mset (concat (snd rb)))"
  by (induction h) simp_all

section \<open>The merge of the tables of level 0\<close>

definition merged_l0 :: "history list \<Rightarrow> event list" where
  "merged_l0 levs = merge_events 1 (concat (map tagged_input (hd levs)))"

lemma map_fst_tagged [simp]: "map fst (tagged_input rb) = concat (snd rb)"
  by (simp add: tagged_input_def comp_def)

lemma map_fst_tagged_inputs: "map fst (concat (map tagged_input ts)) = concat (events_of ts)"
  by (induction ts) simp_all

lemma length_tagged_inputs: "length (concat (map tagged_input ts)) = length (concat (events_of ts))"
  unfolding map_fst_tagged_inputs [symmetric] by (simp only: length_map)

text \<open>Events with distinct keys are all kept.\<close>

lemma merge_distinct:
  assumes "distinct (map event_key (map fst all))"
  shows "mset (merge_events 1 all) = mset (map fst all)"
proof -
  have d1: "distinct (map fst all)" using assms by (simp only: distinct_map)
  have d2: "distinct (merge_events 1 all)"
    using sorted_events_distinct [OF merge_events_sorted [of 1 all]] by (simp only: distinct_map)
  have nb: "\<not> bottom_level 1" by (simp add: bottom_level_def word_le_nat_alt)
  have "set (merge_events 1 all) = set (map fst all)"
  proof
    show "set (merge_events 1 all) \<subseteq> set (map fst all)" using merge_events_subset [of 1 all] by simp
    show "set (map fst all) \<subseteq> set (merge_events 1 all)"
    proof
      fix e assume "e \<in> set (map fst all)"
      then obtain s where m: "(e, s) \<in> set all" by auto
      obtain e' s' where e': "(e', s') \<in> set all" "event_key e' = event_key e" "e' \<in> set (merge_events 1 all)"
        using merge_events_keys [OF m, of 1] nb by blast
      have "fst (e, s) \<in> set (map fst all)" "fst (e', s') \<in> set (map fst all)" using m e'(1) by force+
      then have "e' = e" using assms e'(2) by (simp only: distinct_map fst_conv inj_on_def)
      then show "e \<in> set (merge_events 1 all)" using e'(3) by simp
    qed
  qed
  then show ?thesis by (simp only: set_eq_iff_mset_eq_distinct [OF d2 d1])
qed

section \<open>The compaction\<close>

text \<open>How many events fit into one output file.\<close>

definition one_output :: "nat \<Rightarrow> nat \<Rightarrow> bool" where
  "one_output target n \<longleftrightarrow> n * event_kEncodedSize * 105 div 100 < target"

lemma split_one_output:
  "one_output target (length (acc @ es)) \<Longrightarrow> split_outputs target acc es = (if acc @ es = [] then [] else [acc @ es])"
proof (induction es arbitrary: acc)
  case (Cons e es)
  have "(length acc + 1) * event_kEncodedSize * 105 div 100 \<le> length (acc @ e # es) * event_kEncodedSize * 105 div 100"
    by (intro div_le_mono mult_le_mono) simp_all
  then have "\<not> rotate_now target (length acc + 1)" using Cons.prems by (simp add: one_output_def rotate_now_def)
  then show ?case using Cons.IH [of "acc @ [e]"] Cons.prems by simp
qed simp

lemma one_output_mono: "one_output target n \<Longrightarrow> m \<le> n \<Longrightarrow> one_output target m"
  unfolding one_output_def by (meson div_le_mono mult_le_mono1 order_le_less_trans)

text \<open>The files that are left are those of the tables that are left.\<close>

lemma dom_compacted:
  assumes dm: "dom (map_of d0) = set (paths_of (concat levs))" and l4: "length levs = 4" and dj: "distinct (paths_of (concat levs))"
    and tb: "table_on d r bs" and fr: "\<forall>p. p \<noteq> sr_path r \<longrightarrow> map_of d p = map_of d0 p"
    and p: "sr_path r \<notin> set (paths_of (hd levs))"
  shows "dom (map_of (remove_files (paths_of (hd levs)) d)) = set (paths_of (concat (compact_history levs [(r, bs)])))"
proof -
  obtain l0 l1 l2 l3 where levs: "levs = [l0, l1, l2, l3]" using history4 [OF l4] by blast
  let ?rest = "l1 @ l2 @ l3"
  have some: "map_of d (sr_path r) \<noteq> None" using tb by (simp add: table_on_def)
  have "dom (map_of d) = insert (sr_path r) (dom (map_of d0))"
  proof (rule set_eqI)
    fix q show "q \<in> dom (map_of d) \<longleftrightarrow> q \<in> insert (sr_path r) (dom (map_of d0))"
      using fr some by (cases "q = sr_path r") (simp_all add: domIff)
  qed
  moreover have "dom (map_of (remove_files (paths_of (hd levs)) d)) = dom (map_of d) - set (paths_of (hd levs))"
    by (auto simp: dom_def)
  ultimately have l: "dom (map_of (remove_files (paths_of (hd levs)) d)) =
      insert (sr_path r) (set (paths_of (concat levs)) - set (paths_of (hd levs)))"
    using p by (simp only: dm insert_Diff_if if_False)
  have pq: "paths_of (concat levs) = paths_of l0 @ paths_of ?rest" "hd levs = l0" by (simp_all add: levs)
  have "set (paths_of l0) \<inter> set (paths_of ?rest) = {}" using dj unfolding pq by (simp only: distinct_append)
  then have "set (paths_of (concat levs)) - set (paths_of (hd levs)) = set (paths_of ?rest)" unfolding pq set_append by blast
  moreover have "set (concat (compact_history levs [(r, bs)])) = insert (r, bs) (set ?rest)"
    by (auto simp: compact_history_def levs)
  then have "set (paths_of (concat (compact_history levs [(r, bs)]))) = insert (sr_path r) (set (paths_of ?rest))"
    by (simp only: set_map image_insert fst_conv)
  ultimately show ?thesis using l by (simp only:)
qed

text \<open>Replacing the tables of level 0 by one new table of level 1.\<close>

lemma compact_holds:
  assumes st: "db_holds st h act imms levs" and p: "sr_path r \<notin> set (paths_of h)" and tb: "table_on d r bs"
    and fr: "\<forall>p. p \<noteq> sr_path r \<longrightarrow> map_of d p = map_of (db_tables st) p"
    and pl: "sr_path r \<in> range (make_path (level_dir (db_cfg st) 1) 1)"
  shows "db_holds (st\<lparr>db_sst_seq := s, db_tables := remove_files (paths_of (hd levs)) d,
      db_levels := map infos_of (compact_history levs [(r, bs)]), db_counters := cn\<rparr>)
    (h @ [(r, bs)]) act imms (compact_history levs [(r, bs)])"
proof -
  have h: "history_ok h" "io_backed h (db_io st)" "length levs = 4"
      "set (concat levs) \<subseteq> set h" "distinct (paths_of (concat levs))" "tables_on (db_tables st) (concat levs)"
    using st unfolding db_holds_def by blast+
  obtain l0 l1 l2 l3 where levs: "levs = [l0, l1, l2, l3]" using history4 [OF h(3)] by blast
  let ?d = "remove_files (paths_of (hd levs)) d" and ?rest = "l1 @ l2 @ l3" and ?levs = "compact_history levs [(r, bs)]"
  have sub: "set (paths_of (concat levs)) \<subseteq> set (paths_of h)" using h(4) by auto
  have rest: "set (paths_of ?rest) \<subseteq> set (paths_of (concat levs))" "set (paths_of l0) \<subseteq> set (paths_of (concat levs))"
    by (auto simp: levs)
  have keep: "map_of ?d q = map_of (db_tables st) q" if "q \<in> set (paths_of ?rest)" for q
  proof -
    have "q \<in> set (paths_of h)" by (rule subsetD [OF sub], rule subsetD [OF rest(1)], rule that)
    then have "q \<noteq> sr_path r" using p by (intro notI) (simp only:)
    moreover have "q \<notin> set (paths_of l0)" using h(5) that unfolding levs by auto
    ultimately show ?thesis using fr by (simp add: levs)
  qed
  have "tables_on (db_tables st) ?rest" using h(6) by (simp add: levs)
  then have "tables_on ?d ?rest" by (rule tables_on_frame) (rule keep)
  moreover have "sr_path r \<notin> set (paths_of (hd levs))" using p sub rest(2) by (auto simp: levs)
  then have "table_on ?d r bs" by (intro table_on_frame [OF tb]) (simp only: map_of_remove_files if_False)
  moreover have set: "set (concat ?levs) = insert (r, bs) (set ?rest)" by (auto simp: compact_history_def levs)
  ultimately have t: "tables_on ?d (concat ?levs)" by (auto simp: tables_on_def)
  have "distinct (paths_of ((l1 @ [(r, bs)]) @ l2 @ l3))" using h(5) p sub rest(1) unfolding levs by auto
  moreover have "mset (paths_of (concat ?levs)) = mset (paths_of ((l1 @ [(r, bs)]) @ l2 @ l3))"
    by (simp add: compact_history_def levs)
  ultimately have d: "distinct (paths_of (concat ?levs))" using mset_eq_imp_distinct_iff by blast
  have ho: "history_ok (h @ [(r, bs)])" by (rule history_add [OF h(1) tb p])
  have "set (concat ?levs) \<subseteq> set (h @ [(r, bs)])" using h(4) unfolding set by (auto simp: levs)
  moreover have "dom (map_of ?d) = set (paths_of (concat ?levs))"
    by (rule dom_compacted [OF _ h(3,5) tb fr]) (use st p sub rest(2) in \<open>auto simp: db_holds_def levs\<close>)
  moreover have "placed (db_cfg st) ?levs"
    using st pl by (auto simp: placed_def compact_history_def levs db_holds_def)
  ultimately show ?thesis using st t d ho io_backed_mono [OF h(2)]
    by (simp add: db_holds_def) (simp add: compact_history_def)
qed

lemma do_compact_l0_spec:
  assumes os: "os_progress os" and nf: "\<forall>n. bloom_wf (nf n)"
    and st: "db_holds st h act imms levs" "numbered (db_cfg st) (unat (db_sst_seq st)) h" "unat (db_sst_seq st) + 1 < 2 ^ 64"
    and len: "length (concat (events_of (hd levs))) < 2 ^ 32"
    and one: "one_output (sstable_target_bytes (db_cfg st)) (length (concat (events_of (hd levs))))"
  shows "\<exists>outs levs' s d lv cn. let st' = st\<lparr>db_sst_seq := s, db_tables := d, db_levels := lv, db_counters := cn\<rparr> in
    do_compact_l0 os nf st = (Inr (), st') \<and> db_holds st' (h @ outs) act imms levs' \<and>
    numbered (db_cfg st) (unat s) (h @ outs) \<and> unat (db_sst_seq st) \<le> unat s \<and> unat s \<le> unat (db_sst_seq st) + 1 \<and>
    concat (events_of outs) = merged_l0 levs \<and>
    levs' = (if merged_l0 levs = [] then levs else compact_history levs outs)"
proof -
  have h: "history_ok h" "io_backed h (db_io st)" "length levs = 4" "db_levels st = map infos_of levs"
      "set (concat levs) \<subseteq> set h" "distinct (paths_of (concat levs))" "tables_on (db_tables st) (concat levs)"
    using st(1) unfolding db_holds_def by blast+
  obtain l0 l1 l2 l3 where levs: "levs = [l0, l1, l2, l3]" using history4 [OF h(3)] by blast
  let ?s = "db_sst_seq st" and ?cfg = "db_cfg st" and ?es = "merged_l0 levs"
  show ?thesis
  proof (cases "l0 = []")
    case True
    have eq: "st\<lparr>db_sst_seq := ?s, db_tables := db_tables st, db_levels := db_levels st, db_counters := db_counters st\<rparr> = st" by simp
    have "do_compact_l0 os nf st = (Inr (), st)" using True by (simp add: do_compact_l0_def h(4) levs)
    moreover have "merged_l0 levs = []" using merge_events_subset [of 1 "[]"] by (simp add: merged_l0_def levs True)
    ultimately show ?thesis
      by (intro exI [of _ "[]"] exI [of _ levs] exI [of _ ?s] exI [of _ "db_tables st"] exI [of _ "db_levels st"] exI [of _ "db_counters st"])
        (use st in \<open>simp add: Let_def eq\<close>)
  next
    case False
    have t0: "tables_on (db_tables st) l0" using h(7) by (simp add: levs)
    have ln: "length (concat (map tagged_input l0)) < 2 ^ 32" using len by (simp add: length_tagged_inputs levs del: length_concat)
    obtain outs d st' where run: "compaction_run os nf (infos_of l0) (level_dir ?cfg 1) 1 ?s (sstable_target_bytes ?cfg) (db_tables st) =
          (Inr (infos_of outs, Some st'), d)" "tables_on d outs" "events_of outs = split_outputs (sstable_target_bytes ?cfg) [] ?es"
        "paths_of outs = out_paths (level_dir ?cfg 1) 1 ?s (length outs)"
        "\<forall>p. p \<notin> set (paths_of outs) \<longrightarrow> map_of d p = map_of (db_tables st) p"
      using compaction_run_spec [OF os nf False t0 ln, of "level_dir ?cfg 1" 1 ?s "sstable_target_bytes ?cfg"]
      unfolding merged_l0_def levs list.sel by blast
    have "length ?es \<le> length (concat (events_of l0))"
      using length_merge_events [of 1 "concat (map tagged_input l0)"] length_tagged_inputs [of l0] by (simp add: merged_l0_def levs del: length_concat)
    then have one': "one_output (sstable_target_bytes ?cfg) (length ([] @ ?es))"
      using one_output_mono [OF one, of "length ?es"] by (simp add: levs del: length_concat)
    note ev = run(3) [unfolded split_one_output [OF one'] append_Nil]
    have su: "unat (?s + 1) = unat ?s + 1" using st(3) by (rule unat_Suc_u64)
    show ?thesis
    proof (cases "?es = []")
      case True
      have outs: "outs = []" using ev True by simp
      let ?st = "st\<lparr>db_sst_seq := ?s + 1, db_tables := d, db_levels := db_levels st, db_counters := db_counters st\<rparr>"
      have "do_compact_l0 os nf st = (Inr (), ?st)" using False run(1) by (simp add: do_compact_l0_def h(4) levs outs Let_def)
      moreover have "db_holds ?st h act imms levs"
      proof -
        have "map_of d = map_of (db_tables st)" using run(5) by (auto simp: outs)
        then show ?thesis using st(1) tables_on_frame [OF h(7), of d] by (simp add: db_holds_def)
      qed
      ultimately show ?thesis
        by (intro exI [of _ "[]"] exI [of _ levs] exI [of _ "?s + 1"] exI [of _ d] exI [of _ "db_levels st"] exI [of _ "db_counters st"])
          (use numbered_mono [OF st(2), of "unat ?s + 1"] True in \<open>simp add: Let_def su\<close>)
    next
      case ne: False
      let ?p = "make_path (level_dir ?cfg 1) 1 ?s"
      from ne obtain r bs where outs: "outs = [(r, bs)]" "concat bs = ?es" using ev by (auto simp: map_eq_Cons_conv)
      have rp: "sr_path r = ?p" using run(4) by (simp add: outs)
      have tb: "table_on d r bs" using run(2) by (simp add: outs)
      have fresh: "?p \<notin> set (paths_of h)" by (rule numbered_fresh(2) [OF st(2)])
      have paths: "map si_path (infos_of l0) = paths_of l0" using t0 by (auto simp: tables_on_def table_on_def)
      let ?d = "remove_files (paths_of l0) d"
      let ?lv = "map infos_of (compact_history levs outs)"
      let ?cn = "(db_counters st)\<lparr>compaction_count := compaction_count (db_counters st) + 1\<rparr>"
      let ?st = "st\<lparr>db_sst_seq := ?s + 1, db_tables := ?d, db_levels := ?lv, db_counters := ?cn\<rparr>"
      have lv0: "db_levels st ! 0 = infos_of l0" "infos_of l0 \<noteq> []" "infos_of outs \<noteq> []"
        using False by (simp_all add: h(4) levs outs(1))
      have "filter (\<lambda>info. si_path info \<notin> set (paths_of l0)) (infos_of l0) = []"
        using paths by (auto simp: filter_empty_conv)
      then have lv: "(db_levels st)[0 := filter (\<lambda>info. si_path info \<notin> set (paths_of l0)) (infos_of l0),
          1 := sort_key info_seq (db_levels st ! 1 @ infos_of outs)] = ?lv"
        by (simp add: h(4) levs compact_history_def infos_level1_history)
      have "do_compact_l0 os nf st = (Inr (), ?st)"
        unfolding do_compact_l0_def Let_def lv0(1) run(1) by (simp only: lv0(2,3) paths lv if_False prod.case sum.case)
      moreover have "db_holds ?st (h @ outs) act imms (compact_history levs outs)"
        using compact_holds [OF st(1), of r d bs] tb rp fresh run(5) by (simp add: outs(1) levs)
      moreover have "numbered ?cfg (unat (?s + 1)) (h @ outs)"
      proof -
        have "numbered ?cfg (unat ?s + 1) outs"
          unfolding numbered_def outs(1) by (auto simp: rp intro!: exI [of _ "unat ?s"])
        then show ?thesis using numbered_mono [OF st(2), of "unat ?s + 1"] by (simp add: su)
      qed
      ultimately show ?thesis
        by (intro exI [of _ outs] exI [of _ "compact_history levs outs"] exI [of _ "?s + 1"] exI [of _ ?d] exI [of _ ?lv] exI [of _ ?cn])
          (use ne outs(2) in \<open>simp add: Let_def su outs(1)\<close>)
    qed
  qed
qed

end
