(* ===== verification/DBWrites.thy ===== *)
theory DBWrites
  imports DBCompact
begin

text \<open>
  What the writing operations do to the events a database holds: an append and a removal put
  an event into the active memtable, a flush turns the memtables into tables of level 0.
\<close>

section \<open>Flushing everything\<close>

definition same_front :: "db \<Rightarrow> db \<Rightarrow> bool" where
  "same_front st st' \<longleftrightarrow> db_cfg st' = db_cfg st \<and> db_closed st' = db_closed st \<and> db_symbols st' = db_symbols st \<and>
     db_wal st' = db_wal st \<and> db_next_seq st' = db_next_seq st"

lemma rotate_active_spec:
  assumes "db_holds st h act imms levs"
  shows "db_holds (rotate_active st) h [] (imms @ (if act = [] then [] else [act])) levs \<and>
    same_front st (rotate_active st) \<and> db_sst_seq (rotate_active st) = db_sst_seq st"
proof -
  obtain m where m: "db_active st = Some m" "memtable_rel m act" using assms unfolding db_holds_def by blast
  show ?thesis
  proof (cases "act = []")
    case True
    then show ?thesis using assms m memtable_empty_spec [OF m(2)] by (simp add: rotate_active_def same_front_def)
  next
    case False
    then show ?thesis using assms m memtable_empty_spec [OF m(2)] memtable_rel_new
      by (auto simp: rotate_active_def same_front_def db_holds_def list_all2_appendI)
  qed
qed

lemma flush_now_spec:
  assumes os: "os_progress os" and nf: "\<forall>n. bloom_wf (nf n)"
    and st: "db_holds st h act imms levs" "numbered (db_cfg st) (unat (db_sst_seq st)) h"
    and b: "unat (db_sst_seq st) + length imms + 1 < 2 ^ 64" "block_target_bytes (db_cfg st) < 2 ^ 32"
      "\<forall>es \<in> set (act # imms). length es < 2 ^ 32"
  shows "\<exists>ts st'. flush_now os nf st = Some (Inr (), st') \<and> db_holds st' (h @ ts) [] [] (flush_history levs ts) \<and>
    numbered (db_cfg st') (unat (db_sst_seq st')) (h @ ts) \<and> events_of ts = filter (\<lambda>es. es \<noteq> []) (imms @ [act]) \<and>
    same_front st st' \<and> unat (db_sst_seq st') \<le> unat (db_sst_seq st) + length imms + 1 \<and>
    unat (db_sst_seq st) \<le> unat (db_sst_seq st') \<and>
    sorted_wrt (<) (seqs_of ts) \<and> set (seqs_of ts) \<subseteq> {unat (db_sst_seq st)..<unat (db_sst_seq st')}"
proof -
  let ?st1 = "rotate_active st" and ?imms = "imms @ (if act = [] then [] else [act])"
  have r: "db_holds ?st1 h [] ?imms levs" "same_front st ?st1" "db_sst_seq ?st1 = db_sst_seq st"
    using rotate_active_spec [OF st(1)] by blast+
  have c: "db_cfg ?st1 = db_cfg st" using r(2) by (simp add: same_front_def)
  have rel: "list_all2 memtable_rel (db_imm ?st1) ?imms" using r(1) by (simp add: db_holds_def)
  then have l: "length (db_imm ?st1) = length ?imms" by (rule list_all2_lengthD)
  have li: "length ?imms \<le> length imms + 1" by simp
  have ls: "unat (db_sst_seq ?st1) + length (db_imm ?st1) < 2 ^ 64" using b(1) li l r(3) by simp
  have le: "\<forall>es \<in> set ?imms. length es < 2 ^ 32" using b(3) by simp
  obtain ts d lv cn where f: "let st' = ?st1\<lparr>db_imm := [], db_sst_seq := db_sst_seq ?st1 + word_of_nat (length (db_imm ?st1)),
          db_tables := d, db_levels := lv, db_counters := cn\<rparr>
      in drain_imm os nf (db_imm ?st1) ?st1 = Some (Inr (), st') \<and> db_holds st' (h @ ts) [] [] (flush_history levs ts) \<and>
         numbered (db_cfg st') (unat (db_sst_seq st')) (h @ ts) \<and> events_of ts = filter (\<lambda>es. es \<noteq> []) ?imms \<and>
         sorted_wrt (<) (seqs_of ts) \<and> set (seqs_of ts) \<subseteq> {unat (db_sst_seq ?st1)..<unat (db_sst_seq ?st1) + length (db_imm ?st1)}"
    using drain_imm_spec [OF os nf rel refl r(1) _ ls _ le] st(2) b(2) unfolding c r(3) by blast
  define st' where "st' = ?st1\<lparr>db_imm := [], db_sst_seq := db_sst_seq ?st1 + word_of_nat (length (db_imm ?st1)),
      db_tables := d, db_levels := lv, db_counters := cn\<rparr>"
  note f' = f [unfolded Let_def, folded st'_def]
  have u: "unat (db_sst_seq st') = unat (db_sst_seq ?st1) + length (db_imm ?st1)"
    using ls by (simp add: st'_def unat_word_ariths unat_of_nat take_bit_eq_mod)
  then have s: "unat (db_sst_seq st') \<le> unat (db_sst_seq st) + length imms + 1" using l li unfolding u r(3) by linarith
  have "same_front st st'" using r(2) by (simp add: same_front_def st'_def)
  moreover have "events_of ts = filter (\<lambda>es. es \<noteq> []) (imms @ [act])" using f' by simp
  moreover have "flush_now os nf st = Some (Inr (), st')" using f' by (simp add: flush_now_def)
  moreover have "sorted_wrt (<) (seqs_of ts)" "set (seqs_of ts) \<subseteq> {unat (db_sst_seq st)..<unat (db_sst_seq st')}"
    using f' unfolding u r(3) by blast+
  moreover have "unat (db_sst_seq st) \<le> unat (db_sst_seq st')" unfolding u r(3) by simp
  ultimately show ?thesis using f' s by blast
qed

section \<open>The active memtable\<close>

text \<open>Where an inserted event ends up: in the active memtable, or at the end of the immutable ones.\<close>

definition inserted :: "event \<Rightarrow> event list \<Rightarrow> event list list \<Rightarrow> event list \<Rightarrow> event list list \<Rightarrow> bool" where
  "inserted e act imms act' imms' \<longleftrightarrow>
     act' = event_upsert e act \<and> imms' = imms \<or> act' = [] \<and> imms' = imms @ [event_upsert e act]"

lemma insert_active_spec:
  assumes st: "db_holds st h act imms levs" and e: "event_wf e"
  shows "\<exists>m ms act' imms'. insert_active rng e st = Some (st\<lparr>db_active := Some m, db_imm := ms\<rparr>) \<and>
    db_holds (st\<lparr>db_active := Some m, db_imm := ms\<rparr>) h act' imms' levs \<and> inserted e act imms act' imms'"
proof -
  obtain m where m: "db_active st = Some m" "memtable_rel m act" using st unfolding db_holds_def by blast
  obtain m' where m': "memtable_insert rng e m = Some m'" "memtable_rel m' (event_upsert e act)"
    using memtable_insert_spec [OF m(2)] by blast
  have wf: "list_all event_wf (event_upsert e act)"
    using st e set_event_upsert [OF memtable_rel_sorted [OF m(2)]] by (auto simp: db_holds_def list_all_iff)
  show ?thesis
  proof (cases "should_flush m'")
    case True
    let ?new = "memtable_new (memtable_flush_bytes (db_cfg st))"
    have "insert_active rng e st = Some (st\<lparr>db_active := Some ?new, db_imm := db_imm st @ [m']\<rparr>)"
      using m(1) m'(1) True by (simp add: insert_active_def)
    moreover have "db_holds (st\<lparr>db_active := Some ?new, db_imm := db_imm st @ [m']\<rparr>) h [] (imms @ [event_upsert e act]) levs"
      using st m'(2) wf memtable_rel_new by (auto simp: db_holds_def list_all2_appendI)
    ultimately show ?thesis unfolding inserted_def by blast
  next
    case False
    have "insert_active rng e st = Some (st\<lparr>db_active := Some m', db_imm := db_imm st\<rparr>)"
      using m(1) m'(1) False by (simp add: insert_active_def)
    moreover have "db_holds (st\<lparr>db_active := Some m', db_imm := db_imm st\<rparr>) h (event_upsert e act) imms levs"
      using st m'(2) wf by (simp add: db_holds_def)
    ultimately show ?thesis unfolding inserted_def by blast
  qed
qed

section \<open>The log\<close>

definition log_holds :: "wal option \<Rightarrow> event list \<Rightarrow> bool" where
  "log_holds w es \<longleftrightarrow> (case w of None \<Rightarrow> True | Some w \<Rightarrow> wal_ok w \<and> wal_events (wal_dir w) = es)"

lemma log_event_spec:
  assumes os: "os_good os" and w: "log_holds (db_wal st) es" and e: "event_wf e"
  shows "\<exists>off w'. log_event os e st = (Inr off, st\<lparr>db_wal := w'\<rparr>) \<and> log_holds w' (es @ [e]) \<and>
    (w' = None) = (db_wal st = None)"
proof (cases "db_wal st")
  case None
  then show ?thesis by (intro exI [of _ 0] exI [of _ None]) (simp add: log_event_def log_holds_def)
next
  case (Some w0)
  then obtain segs where inv: "wal_inv w0 segs" "wal_events (wal_dir w0) = es"
    using w by (auto simp: log_holds_def wal_ok_def)
  have "opens os" using os by simp
  note app = wal_append_good [OF inv(1) this _ e]
  obtain r w1 where w1: "wal_append os e w0 = (r, w1)" by fastforce
  have i: "r = Inr \<lparr>file_offset = 78 * length (last segs), result_segment_id = length segs\<rparr>"
      "wal_inv w1 (segments_append (max_segment_bytes w0) segs e)"
    using app(1,2) os unfolding w1 by simp_all
  then have "wal_events (wal_dir w1) = es @ [e]"
    using wal_events_inv [OF i(2)] wal_events_inv [OF inv(1)] inv(2) wal_inv_nonempty [OF inv(1)] by simp
  then show ?thesis using Some i w1
    by (intro exI [of _ "word_of_nat (78 * length (last segs))"] exI [of _ "Some w1"])
      (auto simp: log_event_def log_holds_def wal_ok_def)
qed

section \<open>Appending and removing\<close>

definition names_good :: "symtab \<Rightarrow> bool" where
  "names_good sy \<longleftrightarrow> symtab_maps sy \<and> symtab_stored sy"

definition names_kept :: "symtab \<Rightarrow> symtab \<Rightarrow> bool" where
  "names_kept sy sy' \<longleftrightarrow> (\<forall>name sid. symtab_lookup name sy = Some sid \<longrightarrow> symtab_lookup name sy' = Some sid) \<and>
     unat (next_id sy') \<le> unat (next_id sy) + 1"

lemma intern_spec:
  assumes "os_good os" and "names_good sy" and "length name < 2 ^ 16" and "unat (next_id sy) < 2 ^ 32 - 1"
  shows "\<exists>sid sy'. symtab_intern os name sy = (Inr sid, sy') \<and> names_good sy' \<and> names_kept sy sy' \<and>
    symtab_lookup name sy' = Some sid"
proof -
  obtain sid sy' where "symtab_intern os name sy = (Inr sid, sy')" "symtab_maps sy'" "symtab_stored sy'"
      "map_of (name_to_id sy') = (map_of (name_to_id sy))(name \<mapsto> sid)" "unat (next_id sy') \<le> unat (next_id sy) + 1"
      "map_of (name_to_id sy) \<subseteq>\<^sub>m map_of (name_to_id sy')"
    using symtab_intern_step [OF assms(1) _ _ assms(3,4)] assms(2) unfolding names_good_def by blast
  then show ?thesis
    by (intro exI [of _ sid] exI [of _ sy']) (auto simp: names_good_def names_kept_def symtab_lookup_def map_le_def dom_def)
qed

text \<open>What an append and a removal share: what becomes of everything but the counters.\<close>

definition wrote :: "event \<Rightarrow> db \<Rightarrow> db \<Rightarrow> bool" where
  "wrote e st st' \<longleftrightarrow> db_cfg st' = db_cfg st \<and> db_closed st' = db_closed st \<and> db_sst_seq st' = db_sst_seq st \<and>
     db_tables st' = db_tables st \<and> db_levels st' = db_levels st \<and>
     names_good (db_symbols st') \<and> names_kept (db_symbols st) (db_symbols st') \<and>
     (\<forall>es. log_holds (db_wal st) es \<longrightarrow> log_holds (db_wal st') (es @ [e])) \<and>
     (db_wal st' = None) = (db_wal st = None)"

lemma db_append_spec:
  assumes os: "os_good os" and st: "db_holds st h act imms levs" "\<not> db_closed st" "log_holds (db_wal st) es"
    and sy: "names_good (db_symbols st)" "length symbol < 2 ^ 16" "unat (next_id (db_symbols st)) < 2 ^ 32 - 1"
    and a: "event_type_wf (aa_event_type a)"
  shows "\<exists>res st' sid act' imms'. db_append os rng symbol a st = Some (Inr res, st') \<and> ar_sequence_id res = db_next_seq st \<and>
    db_next_seq st' = db_next_seq st + 1 \<and> symtab_lookup symbol (db_symbols st') = Some sid \<and>
    wrote (append_event a sid (db_next_seq st)) st st' \<and> db_holds st' h act' imms' levs \<and>
    inserted (append_event a sid (db_next_seq st)) act imms act' imms'"
proof -
  obtain sid sy' where s: "symtab_intern os symbol (db_symbols st) = (Inr sid, sy')" "names_good sy'"
      "names_kept (db_symbols st) sy'" "symtab_lookup symbol sy' = Some sid"
    using intern_spec [OF os sy] by blast
  define e where "e = append_event a sid (db_next_seq st)"
  have e: "event_wf e" using a by (simp add: e_def append_event_def event_wf_def)
  let ?st1 = "st\<lparr>db_symbols := sy', db_next_seq := db_next_seq st + 1\<rparr>"
  have l1: "log_holds (db_wal ?st1) es" using st(3) by simp
  obtain off w' where l: "log_event os e ?st1 = (Inr off, ?st1\<lparr>db_wal := w'\<rparr>)" "log_holds w' (es @ [e])"
      "(w' = None) = (db_wal st = None)"
    using log_event_spec [OF os l1 e] by auto
  let ?st2 = "?st1\<lparr>db_wal := w'\<rparr>"
  have h2: "db_holds ?st2 h act imms levs" using st(1) by (simp add: db_holds_def)
  obtain m ms act' imms' where i: "insert_active rng e ?st2 = Some (?st2\<lparr>db_active := Some m, db_imm := ms\<rparr>)"
      "db_holds (?st2\<lparr>db_active := Some m, db_imm := ms\<rparr>) h act' imms' levs" "inserted e act imms act' imms'"
    using insert_active_spec [OF h2 e] by blast
  let ?st3 = "?st2\<lparr>db_active := Some m, db_imm := ms\<rparr>"
  obtain cn where r: "db_append os rng symbol a st = Some (Inr \<lparr>ar_sequence_id = db_next_seq st, ar_wal_offset = off\<rparr>, ?st3\<lparr>db_counters := cn\<rparr>)"
    using st(2) s(1) l(1) i(1) by (simp add: db_append_def Let_def e_def [symmetric])
  have "log_holds w' (es' @ [e])" if "log_holds (db_wal st) es'" for es'
    using l(2,3) st(3) that by (auto simp: log_holds_def split: option.splits)
  then have "wrote e st (?st3\<lparr>db_counters := cn\<rparr>)" using s(2,3) l(3) by (simp add: wrote_def)
  moreover have "db_holds (?st3\<lparr>db_counters := cn\<rparr>) h act' imms' levs" using i(2) by (simp add: db_holds_def)
  moreover have "db_next_seq (?st3\<lparr>db_counters := cn\<rparr>) = db_next_seq st + 1"
      "symtab_lookup symbol (db_symbols (?st3\<lparr>db_counters := cn\<rparr>)) = Some sid" using s(4) by simp_all
  moreover have "ar_sequence_id \<lparr>ar_sequence_id = db_next_seq st, ar_wal_offset = off\<rparr> = db_next_seq st" by simp
  ultimately show ?thesis using r i(3) unfolding e_def by blast
qed

lemma db_remove_spec:
  assumes os: "os_good os" and st: "db_holds st h act imms levs" "\<not> db_closed st" "log_holds (db_wal st) es"
    and sy: "names_good (db_symbols st)" "length symbol < 2 ^ 16" "unat (next_id (db_symbols st)) < 2 ^ 32 - 1"
  shows "\<exists>res st' sid act' imms'. db_remove os rng symbol ts sq st = Some (Inr res, st') \<and> ar_sequence_id res = sq \<and>
    db_next_seq st' = db_next_seq st \<and> symtab_lookup symbol (db_symbols st') = Some sid \<and>
    wrote (tombstone sid ts sq) st st' \<and> db_holds st' h act' imms' levs \<and>
    inserted (tombstone sid ts sq) act imms act' imms'"
proof -
  obtain sid sy' where s: "symtab_intern os symbol (db_symbols st) = (Inr sid, sy')" "names_good sy'"
      "names_kept (db_symbols st) sy'" "symtab_lookup symbol sy' = Some sid"
    using intern_spec [OF os sy] by blast
  define e where "e = tombstone sid ts sq"
  have e: "event_wf e" by (simp add: e_def tombstone_def event_wf_def)
  let ?st1 = "st\<lparr>db_symbols := sy'\<rparr>"
  have l1: "log_holds (db_wal ?st1) es" using st(3) by simp
  obtain off w' where l: "log_event os e ?st1 = (Inr off, ?st1\<lparr>db_wal := w'\<rparr>)" "log_holds w' (es @ [e])"
      "(w' = None) = (db_wal st = None)"
    using log_event_spec [OF os l1 e] by auto
  let ?st2 = "?st1\<lparr>db_wal := w'\<rparr>"
  have h2: "db_holds ?st2 h act imms levs" using st(1) by (simp add: db_holds_def)
  obtain m ms act' imms' where i: "insert_active rng e ?st2 = Some (?st2\<lparr>db_active := Some m, db_imm := ms\<rparr>)"
      "db_holds (?st2\<lparr>db_active := Some m, db_imm := ms\<rparr>) h act' imms' levs" "inserted e act imms act' imms'"
    using insert_active_spec [OF h2 e] by blast
  let ?st3 = "?st2\<lparr>db_active := Some m, db_imm := ms\<rparr>"
  have r: "db_remove os rng symbol ts sq st = Some (Inr \<lparr>ar_sequence_id = sq, ar_wal_offset = off\<rparr>, ?st3)"
    using st(2) s(1) l(1) i(1) by (simp add: db_remove_def Let_def e_def [symmetric])
  have "log_holds w' (es' @ [e])" if "log_holds (db_wal st) es'" for es'
    using l(2,3) st(3) that by (auto simp: log_holds_def split: option.splits)
  then have "wrote e st ?st3" using s(2,3) l(3) by (simp add: wrote_def)
  moreover have "db_next_seq ?st3 = db_next_seq st" "symtab_lookup symbol (db_symbols ?st3) = Some sid" using s(4) by simp_all
  moreover have "ar_sequence_id \<lparr>ar_sequence_id = sq, ar_wal_offset = off\<rparr> = sq" by simp
  ultimately show ?thesis using r i(2,3) unfolding e_def by blast
qed

end
