(* ===== verification/DBRun.thy ===== *)
theory DBRun
  imports DBWrites
begin

text \<open>
  A database seen by its clients: whatever appends, removals, flushes, compactions and
  background rounds come in whatever order, a query answers from the log of the appended
  events, minus at most the removed ones.
\<close>

section \<open>Operations and answers\<close>

datatype db_op =
  Op_append string append_args
| Op_remove string u64 u64
| Op_query query_request
| Op_flush
| Op_compact
| Op_flush_round
| Op_compact_round

datatype db_answer =
  Wrote append_result
| Rows query_result
| Finished
| Thrown exn

definition answer :: "('a \<Rightarrow> db_answer) \<Rightarrow> exn + 'a \<Rightarrow> db_answer" where
  "answer f r = (case r of Inl ex \<Rightarrow> Thrown ex | Inr a \<Rightarrow> f a)"

lemma answer_simps [simp]: "answer f (Inl ex) = Thrown ex" "answer f (Inr a) = f a"
  by (simp_all add: answer_def)

fun db_exec :: "os \<Rightarrow> (nat \<Rightarrow> u32) \<Rightarrow> (u32 \<Rightarrow> bloom) \<Rightarrow> db_op \<Rightarrow> db \<Rightarrow> (db_answer \<times> db) option" where
  "db_exec os rng nf (Op_append name a) st = map_option (apfst (answer Wrote)) (db_append os rng name a st)"
| "db_exec os rng nf (Op_remove name ts sq) st = map_option (apfst (answer Wrote)) (db_remove os rng name ts sq st)"
| "db_exec os rng nf (Op_query req) st = map_option (apfst (answer Rows)) (db_query os req st)"
| "db_exec os rng nf Op_flush st = map_option (apfst (answer (\<lambda>_. Finished))) (flush_now os nf st)"
| "db_exec os rng nf Op_compact st = Some (apfst (answer (\<lambda>_. Finished)) (do_compact_l0 os nf st))"
| "db_exec os rng nf Op_flush_round st = map_option (apfst (answer (\<lambda>_. Finished))) (flush_round os nf st)"
| "db_exec os rng nf Op_compact_round st = Some (apfst (answer (\<lambda>_. Finished)) (compact_round os nf False st))"

primrec db_run :: "os \<Rightarrow> (nat \<Rightarrow> u32) \<Rightarrow> (u32 \<Rightarrow> bloom) \<Rightarrow> db_op list \<Rightarrow> db \<Rightarrow> (db_answer list \<times> db) option" where
  "db_run os rng nf [] st = Some ([], st)"
| "db_run os rng nf (op # ops) st = do {
     (a, st1) \<leftarrow> db_exec os rng nf op st;
     (as, st2) \<leftarrow> db_run os rng nf ops st1;
     Some (a # as, st2)
   }"

section \<open>The specification\<close>

text \<open>
  What a client knows: the appended events under the name of their symbol, with the symbol
  number erased, and what was asked to be removed.
\<close>

record client_log =
  appended :: "(string \<times> event) list"
  removed :: "(string \<times> u64 \<times> u64) list"

definition erase :: "event \<Rightarrow> event" where
  "erase e = e\<lparr>symbol_id := 0\<rparr>"

definition matches :: "query_request \<Rightarrow> string \<times> event \<Rightarrow> bool" where
  "matches req x \<longleftrightarrow> fst x = rq_symbol req \<and> rq_start_ns req \<le> timestamp_ns (snd x) \<and>
     timestamp_ns (snd x) \<le> rq_end_ns req \<and> wanted (rq_event_type req) (snd x)"

definition not_removed :: "client_log \<Rightarrow> string \<times> event \<Rightarrow> bool" where
  "not_removed cl x \<longleftrightarrow> (fst x, timestamp_ns (snd x), sequence_id (snd x)) \<notin> set (removed cl)"

text \<open>The rows are the first ones of an arrangement of matching events that omits no event
  that was not removed.\<close>

definition answers :: "query_request \<Rightarrow> client_log \<Rightarrow> event list \<Rightarrow> bool" where
  "answers req cl rows \<longleftrightarrow>
     (\<exists>es. map erase rows = take (query_limit req) es \<and>
        mset es \<subseteq># mset (map snd (filter (matches req) (appended cl))) \<and>
        mset (map snd (filter (\<lambda>x. matches req x \<and> not_removed cl x) (appended cl))) \<subseteq># mset es)"

fun log_spec :: "client_log \<Rightarrow> db_op list \<Rightarrow> db_answer list \<Rightarrow> bool" where
  "log_spec cl [] [] = True"
| "log_spec cl (Op_append name a # ops) (Wrote r # as) =
     (ar_sequence_id r = word_of_nat (length (appended cl) + 1) \<and>
      log_spec (cl\<lparr>appended := appended cl @ [(name, append_event a 0 (ar_sequence_id r))]\<rparr>) ops as)"
| "log_spec cl (Op_remove name ts sq # ops) (Wrote r # as) =
     (ar_sequence_id r = sq \<and> log_spec (cl\<lparr>removed := removed cl @ [(name, ts, sq)]\<rparr>) ops as)"
| "log_spec cl (Op_query req # ops) (Rows q # as) =
     (answers req cl (qr_rows q) \<and> qr_rows_returned q = word_of_nat (length (qr_rows q)) \<and> log_spec cl ops as)"
| "log_spec cl (Op_flush # ops) (Finished # as) = log_spec cl ops as"
| "log_spec cl (Op_compact # ops) (Finished # as) = log_spec cl ops as"
| "log_spec cl (Op_flush_round # ops) (Finished # as) = log_spec cl ops as"
| "log_spec cl (Op_compact_round # ops) (Finished # as) = log_spec cl ops as"
| "log_spec cl _ _ = False"

text \<open>The log of the client after an operation with its answer, and after a run.\<close>

fun client_step :: "db_op \<Rightarrow> db_answer \<Rightarrow> client_log \<Rightarrow> client_log" where
  "client_step (Op_append name a) (Wrote r) cl = cl\<lparr>appended := appended cl @ [(name, append_event a 0 (ar_sequence_id r))]\<rparr>"
| "client_step (Op_remove name ts sq) (Wrote r) cl = cl\<lparr>removed := removed cl @ [(name, ts, sq)]\<rparr>"
| "client_step _ _ cl = cl"

definition client_after :: "client_log \<Rightarrow> db_op list \<Rightarrow> db_answer list \<Rightarrow> client_log" where
  "client_after cl ops as = fold (\<lambda>(op, an). client_step op an) (zip ops as) cl"

lemma client_after_simps [simp]:
  "client_after cl [] as = cl" "client_after cl (op # ops) (an # as) = client_after (client_step op an cl) ops as"
  by (simp_all add: client_after_def)

text \<open>What a client may pass: names that the symbol file can hold, and event types of the enumeration.\<close>

fun op_ok :: "db_op \<Rightarrow> bool" where
  "op_ok (Op_append name a) = (length name < 2 ^ 16 \<and> event_type_wf (aa_event_type a))"
| "op_ok (Op_remove name ts sq) = (length name < 2 ^ 16)"
| "op_ok _ = True"

section \<open>The events that are there\<close>

text \<open>
  The events of a database against the events appended to it, both with their symbol
  numbers: every event is an appended one or the tombstone of a removed one, none is there
  twice, and none that was not removed is missing.
\<close>

definition is_row :: "event \<Rightarrow> bool" where
  "is_row e \<longleftrightarrow> event_type e \<noteq> Tombstone"

record entries =
  en_log :: "(string \<times> event) list"
  en_removed :: "(string \<times> u64 \<times> u64) list"
  en_names :: "string \<Rightarrow> u32 option"

definition entry_removed :: "entries \<Rightarrow> event \<Rightarrow> bool" where
  "entry_removed en e \<longleftrightarrow> (\<exists>name. en_names en name = Some (symbol_id e) \<and> (name, timestamp_ns e, sequence_id e) \<in> set (en_removed en))"

definition kept :: "entries \<Rightarrow> event multiset \<Rightarrow> bool" where
  "kept en M \<longleftrightarrow>
     (\<forall>e \<in># M. e \<in> snd ` set (en_log en) \<or> (event_type e = Tombstone \<and> entry_removed en e)) \<and>
     filter_mset is_row M \<subseteq># mset (map snd (en_log en)) \<and>
     (\<forall>e \<in> snd ` set (en_log en). is_row e \<and> \<not> entry_removed en e \<longrightarrow> e \<in># M)"

definition entries_ok :: "entries \<Rightarrow> bool" where
  "entries_ok en \<longleftrightarrow>
     map (sequence_id \<circ> snd) (en_log en) = map word_of_nat [1..<length (en_log en) + 1] \<and> length (en_log en) < 2 ^ 64 - 1 \<and>
     (\<forall>(name, e) \<in> set (en_log en). en_names en name = Some (symbol_id e)) \<and>
     (\<forall>(name, ts, sq) \<in> set (en_removed en). en_names en name \<noteq> None) \<and>
     (\<forall>a b sid. en_names en a = Some sid \<longrightarrow> en_names en b = Some sid \<longrightarrow> a = b)"

lemma distinct_mset_subset: "distinct xs \<Longrightarrow> set xs \<subseteq> set_mset M \<Longrightarrow> mset xs \<subseteq># M"
proof (rule mset_subset_eqI)
  fix x assume "distinct xs" and "set xs \<subseteq> set_mset M"
  then show "count (mset xs) x \<le> count M x"
    by (cases "x \<in> set xs") (auto simp: distinct_count_atmost_1 Suc_le_eq count_greater_zero_iff)
qed

lemma entries_seqs:
  assumes "entries_ok en"
  shows "inj_on sequence_id (snd ` set (en_log en))" and "distinct (map snd (en_log en))"
    and "e \<in> snd ` set (en_log en) \<Longrightarrow> sequence_id e \<noteq> word_of_nat (length (en_log en) + 1)"
proof -
  let ?n = "length (en_log en)"
  have m: "map sequence_id (map snd (en_log en)) = map word_of_nat [1..<?n + 1]" and n: "?n < 2 ^ 64 - 1"
    using assms by (simp_all add: entries_ok_def)
  have inj: "inj_on (word_of_nat :: nat \<Rightarrow> u64) {..?n + 1}"
    using n by (intro inj_onI) (simp add: word_of_nat_eq_iff take_bit_eq_mod)
  have "distinct (map (word_of_nat :: nat \<Rightarrow> u64) [1..<?n + 1])"
    unfolding distinct_map by (intro conjI distinct_upt inj_on_subset [OF inj]) auto
  then have d: "distinct (map sequence_id (map snd (en_log en)))" by (simp only: m)
  then show "distinct (map snd (en_log en))" by (simp only: distinct_map [of sequence_id])
  show "inj_on sequence_id (snd ` set (en_log en))" using d unfolding distinct_map [of sequence_id] by simp
  assume "e \<in> snd ` set (en_log en)"
  then have "sequence_id e \<in> set (map sequence_id (map snd (en_log en)))" by auto
  then obtain i where i: "i \<in> {1..<?n + 1}" "sequence_id e = word_of_nat i" unfolding m by (auto simp del: upt_Suc)
  show "sequence_id e \<noteq> word_of_nat (?n + 1)"
  proof
    assume "sequence_id e = word_of_nat (?n + 1)"
    then have "(word_of_nat i :: u64) = word_of_nat (?n + 1)" using i(2) by simp
    from inj_onD [OF inj this] i(1) show False by simp
  qed
qed

lemma key_fields: "event_key e = event_key e' \<longleftrightarrow>
    symbol_id e = symbol_id e' \<and> timestamp_ns e = timestamp_ns e' \<and> sequence_id e = sequence_id e'"
  by (simp add: event_key_def)

lemma entry_removed_key: "event_key e = event_key e' \<Longrightarrow> entry_removed en e = entry_removed en e'"
  by (simp add: entry_removed_def key_fields)

lemma mset_event_upsert:
  assumes "sorted_events es"
  shows "mset (event_upsert e es) = add_mset e (filter_mset (\<lambda>x. event_key x \<noteq> event_key e) (mset es))"
proof -
  have "distinct (event_upsert e es)" "distinct (e # filter (\<lambda>x. event_key x \<noteq> event_key e) es)"
    using sorted_events_distinct [OF sorted_event_upsert [OF assms]] sorted_events_distinct [OF assms]
    by (auto simp: distinct_map)
  moreover have "set (event_upsert e es) = set (e # filter (\<lambda>x. event_key x \<noteq> event_key e) es)"
    using set_event_upsert [OF assms] by auto
  ultimately have "mset (event_upsert e es) = mset (e # filter (\<lambda>x. event_key x \<noteq> event_key e) es)"
    using set_eq_iff_mset_eq_distinct by blast
  then show ?thesis by simp
qed

text \<open>New names change nothing.\<close>

lemma entry_removed_names:
  assumes "entries_ok en" and "en_names en \<subseteq>\<^sub>m names"
  shows "entry_removed (en\<lparr>en_names := names\<rparr>) e = entry_removed en e"
proof -
  have eq: "names name = en_names en name" if "(name, timestamp_ns e, sequence_id e) \<in> set (en_removed en)" for name
  proof -
    have "\<forall>(name, ts, sq) \<in> set (en_removed en). en_names en name \<noteq> None"
      using assms(1) unfolding entries_ok_def by (elim conjE)
    from bspec [OF this that] have "name \<in> dom (en_names en)" by (simp add: dom_def)
    then show ?thesis using assms(2) by (simp add: map_le_def)
  qed
  show ?thesis unfolding entry_removed_def by (rule ex_cong1) (auto simp: eq)
qed

lemma kept_names:
  "entries_ok en \<Longrightarrow> en_names en \<subseteq>\<^sub>m names \<Longrightarrow> kept (en\<lparr>en_names := names\<rparr>) M = kept en M"
  by (simp add: kept_def entry_removed_names)

text \<open>An event put into the active memtable, on top of the rest.\<close>

lemma kept_append:
  assumes k: "kept en (mset act + R)" and en: "entries_ok en" and act: "sorted_events act"
    and e: "sequence_id e = word_of_nat (length (en_log en) + 1)"
  shows "kept (en\<lparr>en_log := en_log en @ [(name, e)]\<rparr>) (mset (event_upsert e act) + R)"
  unfolding kept_def
proof (intro conjI)
  let ?en = "en\<lparr>en_log := en_log en @ [(name, e)]\<rparr>" and ?A = "filter_mset (\<lambda>x. event_key x \<noteq> event_key e) (mset act)"
  have rem: "entry_removed ?en x = entry_removed en x" for x by (simp add: entry_removed_def)
  show "\<forall>x \<in># mset (event_upsert e act) + R. x \<in> snd ` set (en_log ?en) \<or> (event_type x = Tombstone \<and> entry_removed ?en x)"
    using k unfolding kept_def mset_event_upsert [OF act] by (auto simp: rem)
  have "?A + R \<subseteq># mset act + R" by simp
  then have "filter_mset is_row (?A + R) \<subseteq># mset (map snd (en_log en))"
    using k unfolding kept_def by (meson multiset_filter_mono subset_mset.order_trans)
  then show "filter_mset is_row (mset (event_upsert e act) + R) \<subseteq># mset (map snd (en_log ?en))"
    unfolding mset_event_upsert [OF act] by (auto intro: subset_mset.order_trans)
  show "\<forall>x \<in> snd ` set (en_log ?en). is_row x \<and> \<not> entry_removed ?en x \<longrightarrow> x \<in># mset (event_upsert e act) + R"
  proof (intro ballI impI)
    fix x assume x: "x \<in> snd ` set (en_log ?en)" and r: "is_row x \<and> \<not> entry_removed ?en x"
    show "x \<in># mset (event_upsert e act) + R"
    proof (cases "x = e")
      case True
      then show ?thesis by (simp add: mset_event_upsert [OF act])
    next
      case False
      then have l: "x \<in> snd ` set (en_log en)" using x by auto
      then have "event_key x \<noteq> event_key e" using entries_seqs(3) [OF en l] e by (simp add: key_fields)
      moreover have "x \<in># mset act + R" using k l r unfolding kept_def rem by blast
      ultimately show ?thesis by (auto simp: mset_event_upsert [OF act])
    qed
  qed
qed

lemma kept_remove:
  assumes k: "kept en (mset act + R)" and act: "sorted_events act"
    and t: "event_type t = Tombstone" "en_names en name = Some (symbol_id t)"
  shows "kept (en\<lparr>en_removed := en_removed en @ [(name, timestamp_ns t, sequence_id t)]\<rparr>) (mset (event_upsert t act) + R)"
  unfolding kept_def
proof (intro conjI)
  let ?en = "en\<lparr>en_removed := en_removed en @ [(name, timestamp_ns t, sequence_id t)]\<rparr>"
    and ?A = "filter_mset (\<lambda>x. event_key x \<noteq> event_key t) (mset act)"
  have rem: "entry_removed en x \<Longrightarrow> entry_removed ?en x" for x by (auto simp: entry_removed_def)
  have rt: "event_key x = event_key t \<Longrightarrow> entry_removed ?en x" for x using t(2) by (auto simp: entry_removed_def key_fields)
  show "\<forall>x \<in># mset (event_upsert t act) + R. x \<in> snd ` set (en_log ?en) \<or> (event_type x = Tombstone \<and> entry_removed ?en x)"
    using k rem rt [OF refl] t(1) unfolding kept_def mset_event_upsert [OF act] by auto
  have "?A + R \<subseteq># mset act + R" by simp
  then have "filter_mset is_row (?A + R) \<subseteq># mset (map snd (en_log en))"
    using k unfolding kept_def by (meson multiset_filter_mono subset_mset.order_trans)
  then show "filter_mset is_row (mset (event_upsert t act) + R) \<subseteq># mset (map snd (en_log ?en))"
    using t(1) by (simp add: mset_event_upsert [OF act] is_row_def)
  show "\<forall>x \<in> snd ` set (en_log ?en). is_row x \<and> \<not> entry_removed ?en x \<longrightarrow> x \<in># mset (event_upsert t act) + R"
    using k rem rt unfolding kept_def mset_event_upsert [OF act] by fastforce
qed

text \<open>Some events replaced by the merge of them.\<close>

lemma kept_merge:
  assumes k: "kept en (mset xs + R)" and en: "entries_ok en"
    and ms: "distinct ms" "set ms \<subseteq> set xs" "\<forall>x \<in> set xs. \<exists>y \<in> set ms. event_key y = event_key x"
  shows "kept en (mset ms + R)"
  unfolding kept_def
proof (intro conjI)
  have sub: "mset ms \<subseteq># mset xs" using ms(1,2) by (intro distinct_mset_subset) simp_all
  show "\<forall>x \<in># mset ms + R. x \<in> snd ` set (en_log en) \<or> (event_type x = Tombstone \<and> entry_removed en x)"
    using k ms(2) unfolding kept_def by auto
  have "mset ms + R \<subseteq># mset xs + R" using sub by simp
  then show "filter_mset is_row (mset ms + R) \<subseteq># mset (map snd (en_log en))"
    using k unfolding kept_def by (meson multiset_filter_mono subset_mset.order_trans)
  show "\<forall>e \<in> snd ` set (en_log en). is_row e \<and> \<not> entry_removed en e \<longrightarrow> e \<in># mset ms + R"
  proof (intro ballI impI)
    fix e assume e: "e \<in> snd ` set (en_log en)" "is_row e \<and> \<not> entry_removed en e"
    then have "e \<in># mset xs + R" using k unfolding kept_def by blast
    then consider "e \<in># R" | "e \<in> set xs" by auto
    then show "e \<in># mset ms + R"
    proof cases
      case 2
      then obtain y where y: "y \<in> set ms" "event_key y = event_key e" using ms(3) by blast
      have "\<not> entry_removed en y" using e(2) entry_removed_key [OF y(2)] by simp
      then have "y \<in> snd ` set (en_log en)" using k y(1) ms(2) unfolding kept_def by auto
      then have "y = e" using inj_onD [OF entries_seqs(1) [OF en]] y(2) e(1) by (simp add: key_fields)
      then show ?thesis using y(1) by simp
    qed simp
  qed
qed

section \<open>Queries against the log\<close>

definition client_of :: "entries \<Rightarrow> client_log" where
  "client_of en = \<lparr>appended = map (apsnd erase) (en_log en), removed = en_removed en\<rparr>"

definition selects :: "query_request \<Rightarrow> u32 \<Rightarrow> event \<Rightarrow> bool" where
  "selects req sid e \<longleftrightarrow> wanted (rq_event_type req) e \<and> in_range (query_lo req sid) (query_hi req sid) e"

lemma erase_simps [simp]:
  "timestamp_ns (erase e) = timestamp_ns e" "sequence_id (erase e) = sequence_id e" "wanted ty (erase e) = wanted ty e"
  by (simp_all add: erase_def wanted_def split: option.split)

lemma selects_matches:
  assumes en: "entries_ok en" and sid: "en_names en (rq_symbol req) = Some sid" and x: "x \<in> set (en_log en)"
  shows "matches req (apsnd erase x) \<longleftrightarrow> selects req sid (snd x)"
    and "not_removed (client_of en) (apsnd erase x) \<longleftrightarrow> \<not> entry_removed en (snd x)"
proof -
  obtain name e where xe: "x = (name, e)" by fastforce
  have logged: "\<forall>(name, e) \<in> set (en_log en). en_names en name = Some (symbol_id e)"
    using en unfolding entries_ok_def by (elim conjE)
  have inj: "\<And>a b s. en_names en a = Some s \<Longrightarrow> en_names en b = Some s \<Longrightarrow> a = b"
    using en unfolding entries_ok_def by (elim conjE) blast
  have n: "en_names en name = Some (symbol_id e)" using bspec [OF logged x] by (simp add: xe)
  have "name = rq_symbol req \<longleftrightarrow> symbol_id e = sid" using n sid inj by auto
  then show "matches req (apsnd erase x) \<longleftrightarrow> selects req sid (snd x)"
    by (auto simp: matches_def selects_def in_range_query xe)
  show "not_removed (client_of en) (apsnd erase x) \<longleftrightarrow> \<not> entry_removed en (snd x)"
    using n inj by (auto simp: not_removed_def client_of_def entry_removed_def xe)
qed

lemma filter_log:
  assumes "entries_ok en" and "en_names en (rq_symbol req) = Some sid"
  shows "filter (matches req) (appended (client_of en)) = map (apsnd erase) (filter (\<lambda>x. selects req sid (snd x)) (en_log en))"
    and "filter (\<lambda>x. matches req x \<and> not_removed (client_of en) x) (appended (client_of en)) =
      map (apsnd erase) (filter (\<lambda>x. selects req sid (snd x) \<and> \<not> entry_removed en (snd x)) (en_log en))"
proof -
  have a: "appended (client_of en) = map (apsnd erase) (en_log en)" by (simp add: client_of_def)
  show "filter (matches req) (appended (client_of en)) = map (apsnd erase) (filter (\<lambda>x. selects req sid (snd x)) (en_log en))"
    unfolding a filter_map by (intro arg_cong [where f = "map (apsnd erase)"] filter_cong refl)
      (simp only: comp_def selects_matches(1) [OF assms])
  show "filter (\<lambda>x. matches req x \<and> not_removed (client_of en) x) (appended (client_of en)) =
      map (apsnd erase) (filter (\<lambda>x. selects req sid (snd x) \<and> \<not> entry_removed en (snd x)) (en_log en))"
    unfolding a filter_map by (intro arg_cong [where f = "map (apsnd erase)"] filter_cong refl)
      (simp only: comp_def selects_matches [OF assms])
qed

lemma map_snd_erase: "map snd (map (apsnd erase) xs) = map erase (map snd xs)"
  by simp

lemma map_snd_filter: "map snd (filter (\<lambda>x. P (snd x)) xs) = filter P (map snd xs)"
  by (simp add: filter_map comp_def)

text \<open>The events a query selects, from above and from below.\<close>

lemma kept_above:
  assumes "kept en M"
  shows "filter_mset (selects req sid) M \<subseteq># mset (filter (selects req sid) (map snd (en_log en)))"
proof -
  have "filter_mset (selects req sid) M = filter_mset (selects req sid) (filter_mset is_row M)"
    unfolding filter_filter_mset by (intro filter_mset_cong refl) (auto simp: selects_def wanted_def is_row_def)
  also have "\<dots> \<subseteq># filter_mset (selects req sid) (mset (map snd (en_log en)))"
    using assms unfolding kept_def by (intro multiset_filter_mono) (elim conjE)
  finally show ?thesis by simp
qed

lemma kept_below:
  assumes "kept en M" and "entries_ok en"
  shows "mset (filter (\<lambda>e. selects req sid e \<and> \<not> entry_removed en e) (map snd (en_log en))) \<subseteq># filter_mset (selects req sid) M"
proof (rule distinct_mset_subset)
  show "distinct (filter (\<lambda>e. selects req sid e \<and> \<not> entry_removed en e) (map snd (en_log en)))"
    using entries_seqs(2) [OF assms(2)] by (rule distinct_filter)
  have "e \<in># M" if "e \<in> snd ` set (en_log en)" "selects req sid e" "\<not> entry_removed en e" for e
    using assms(1) that unfolding kept_def by (auto simp: selects_def wanted_def is_row_def)
  then show "set (filter (\<lambda>e. selects req sid e \<and> \<not> entry_removed en e) (map snd (en_log en))) \<subseteq> set_mset (filter_mset (selects req sid) M)"
    by auto
qed

lemma client_matching:
  assumes "entries_ok en" and "en_names en (rq_symbol req) = Some sid"
  shows "mset (map snd (filter (matches req) (appended (client_of en)))) =
      image_mset erase (mset (filter (selects req sid) (map snd (en_log en))))"
    and "mset (map snd (filter (\<lambda>x. matches req x \<and> not_removed (client_of en) x) (appended (client_of en)))) =
      image_mset erase (mset (filter (\<lambda>e. selects req sid e \<and> \<not> entry_removed en e) (map snd (en_log en))))"
  unfolding filter_log [OF assms] map_snd_erase map_snd_filter [of "selects req sid"]
    map_snd_filter [of "\<lambda>e. selects req sid e \<and> \<not> entry_removed en e"] mset_map by (rule refl)+

lemma kept_answers:
  assumes k: "kept en (mset all)" and en: "entries_ok en" and sid: "en_names en (rq_symbol req) = Some sid"
    and rows: "rows = take (query_limit req) (filter (selects req sid) all)"
  shows "answers req (client_of en) rows"
  unfolding answers_def client_matching [OF en sid]
proof (intro exI conjI)
  show "map erase rows = take (query_limit req) (map erase (filter (selects req sid) all))" by (simp add: rows take_map)
  show "mset (map erase (filter (selects req sid) all)) \<subseteq># image_mset erase (mset (filter (selects req sid) (map snd (en_log en))))"
    using image_mset_subseteq_mono [OF kept_above [OF k, of req sid], of erase] by simp
  show "image_mset erase (mset (filter (\<lambda>e. selects req sid e \<and> \<not> entry_removed en e) (map snd (en_log en)))) \<subseteq>#
      mset (map erase (filter (selects req sid) all))"
    using image_mset_subseteq_mono [OF kept_below [OF k en, of req sid], of erase] by simp
qed

lemma no_answers:
  assumes en: "entries_ok en" and sid: "en_names en (rq_symbol req) = None"
  shows "answers req (client_of en) []"
proof -
  have "\<not> matches req (apsnd erase x)" if x: "x \<in> set (en_log en)" for x
  proof -
    have "\<forall>(name, e) \<in> set (en_log en). en_names en name = Some (symbol_id e)"
      using en unfolding entries_ok_def by (elim conjE)
    from bspec [OF this x] have "fst x \<noteq> rq_symbol req" using sid by auto
    then show ?thesis by (simp add: matches_def)
  qed
  then have "filter (matches req) (appended (client_of en)) = []"
      "filter (\<lambda>x. matches req x \<and> not_removed (client_of en) x) (appended (client_of en)) = []"
    by (simp_all add: client_of_def filter_empty_conv)
  then show ?thesis unfolding answers_def by (intro exI [of _ "[]"]) simp
qed

section \<open>The invariant of a run\<close>

definition entries_of :: "db \<Rightarrow> (string \<times> event) list \<Rightarrow> (string \<times> u64 \<times> u64) list \<Rightarrow> entries" where
  "entries_of st lg rm = \<lparr>en_log = lg, en_removed = rm, en_names = (\<lambda>name. symtab_lookup name (db_symbols st))\<rparr>"

definition contents :: "event list \<Rightarrow> event list list \<Rightarrow> history list \<Rightarrow> event multiset" where
  "contents act imms levs = mset (concat (sources act imms levs))"

definition rest_of :: "event list list \<Rightarrow> history list \<Rightarrow> event multiset" where
  "rest_of imms levs = mset (concat imms) + mset (concat (events_of (concat levs)))"

text \<open>The tables of level 0 carry numbers that were handed out before.\<close>

definition l0_older :: "nat \<Rightarrow> history list \<Rightarrow> bool" where
  "l0_older n levs \<longleftrightarrow> set (seqs_of (hd levs)) \<subseteq> {..<n}"

text \<open>The log can be replayed: the versions it keeps are those of the entries, too.\<close>

definition logged :: "db \<Rightarrow> (string \<times> event) list \<Rightarrow> (string \<times> u64 \<times> u64) list \<Rightarrow> bool" where
  "logged st lg rm \<longleftrightarrow>
     (\<exists>es. log_holds (db_wal st) es \<and> kept (entries_of st lg rm) (mset (fold event_upsert es [])) \<and> length es \<le> length lg + length rm) \<and>
     (db_wal st = None) = (\<not> wal_enabled (db_cfg st))"

definition run_at ::
  "db_config \<Rightarrow> nat \<Rightarrow> db \<Rightarrow> (string \<times> event) list \<Rightarrow> (string \<times> u64 \<times> u64) list
     \<Rightarrow> history \<Rightarrow> event list \<Rightarrow> event list list \<Rightarrow> history list \<Rightarrow> bool" where
  "run_at cfg k st lg rm h act imms levs \<longleftrightarrow>
     db_cfg st = cfg \<and> \<not> db_closed st \<and> names_good (db_symbols st) \<and> unat (next_id (db_symbols st)) \<le> k + 1 \<and>
     logged st lg rm \<and> db_next_seq st = word_of_nat (length lg + 1) \<and> length lg \<le> k \<and>
     entries_ok (entries_of st lg rm) \<and>
     db_holds st h act imms levs \<and> numbered cfg (unat (db_sst_seq st)) h \<and>
     unat (db_sst_seq st) + length imms \<le> k + 1 \<and> size (contents act imms levs) \<le> k \<and>
     kept (entries_of st lg rm) (contents act imms levs) \<and> l0_older (unat (db_sst_seq st)) levs"

definition run_inv :: "db_config \<Rightarrow> nat \<Rightarrow> db \<Rightarrow> (string \<times> event) list \<Rightarrow> (string \<times> u64 \<times> u64) list \<Rightarrow> bool" where
  "run_inv cfg k st lg rm \<longleftrightarrow> (\<exists>h act imms levs. run_at cfg k st lg rm h act imms levs)"

lemma contents_eq: "contents act imms levs = mset act + rest_of imms levs"
  by (simp add: contents_def rest_of_def sources_def)

lemma contents_inserted:
  assumes "inserted e act imms act' imms'"
  shows "contents act' imms' levs = mset (event_upsert e act) + rest_of imms levs"
  using assms by (auto simp: inserted_def contents_def rest_of_def sources_def)

lemma length_inserted: "inserted e act imms act' imms' \<Longrightarrow> length imms' \<le> length imms + 1"
  by (auto simp: inserted_def)

lemma size_inserted:
  assumes "inserted e act imms act' imms'" and "sorted_events act"
  shows "size (contents act' imms' levs) \<le> size (contents act imms levs) + 1"
proof -
  have "size (filter_mset P (mset act)) \<le> size (mset act)" for P by (intro size_mset_mono) simp
  then show ?thesis by (simp add: contents_inserted [OF assms(1)] mset_event_upsert [OF assms(2)] contents_eq [of act imms levs] del: size_mset mset_filter)
qed

lemma act_sorted: "db_holds st h act imms levs \<Longrightarrow> sorted_events act"
  by (auto simp: db_holds_def dest: memtable_rel_sorted)

lemma names_good_inj: "names_good sy \<Longrightarrow> symtab_lookup a sy = Some s \<Longrightarrow> symtab_lookup b sy = Some s \<Longrightarrow> a = b"
  unfolding names_good_def by (metis symtab_names_inj option.inject)

lemma entries_of_later:
  assumes "names_kept (db_symbols st) (db_symbols st')" and "names_good (db_symbols st')" and "entries_ok (entries_of st lg rm)"
  shows "entries_ok (entries_of st' lg rm)" and "kept (entries_of st' lg rm) M = kept (entries_of st lg rm) M"
proof -
  let ?en = "entries_of st lg rm" and ?names = "\<lambda>name. symtab_lookup name (db_symbols st')"
  have le: "en_names ?en \<subseteq>\<^sub>m ?names" using assms(1) by (auto simp: entries_of_def names_kept_def map_le_def dom_def)
  have eq: "entries_of st' lg rm = ?en\<lparr>en_names := ?names\<rparr>" by (simp add: entries_of_def)
  show "kept (entries_of st' lg rm) M = kept ?en M" unfolding eq by (rule kept_names [OF assms(3) le])
  have "(name, e) \<in> set lg \<Longrightarrow> ?names name = Some (symbol_id e)" for name e
    using assms(1,3) by (auto simp: entries_ok_def entries_of_def names_kept_def)
  moreover have "(name, ts, sq) \<in> set rm \<Longrightarrow> ?names name \<noteq> None" for name ts sq
    using assms(1,3) by (fastforce simp: entries_ok_def entries_of_def names_kept_def)
  ultimately show "entries_ok (entries_of st' lg rm)"
    using assms(3) names_good_inj [OF assms(2)] by (auto simp: entries_ok_def entries_of_def)
qed

lemma entries_append:
  assumes "entries_ok (entries_of st lg rm)" and "symtab_lookup name (db_symbols st) = Some (symbol_id e)"
    and "sequence_id e = word_of_nat (length lg + 1)" and "length lg + 1 < 2 ^ 64 - 1"
  shows "entries_ok (entries_of st (lg @ [(name, e)]) rm)"
  using assms by (auto simp: entries_ok_def entries_of_def)

lemma entries_remove:
  assumes "entries_ok (entries_of st lg rm)" and "symtab_lookup name (db_symbols st) = Some sid"
  shows "entries_ok (entries_of st lg (rm @ [(name, ts, sq)]))"
  using assms by (auto simp: entries_ok_def entries_of_def)

text \<open>An answer that moves the log of the client on.\<close>

definition answered :: "db_op \<Rightarrow> db_answer \<Rightarrow> client_log \<Rightarrow> client_log \<Rightarrow> bool" where
  "answered op an cl cl' \<longleftrightarrow> client_step op an cl = cl' \<and> (\<forall>ops as. log_spec cl' ops as \<longrightarrow> log_spec cl (op # ops) (an # as))"

abbreviation client :: "(string \<times> event) list \<Rightarrow> (string \<times> u64 \<times> u64) list \<Rightarrow> client_log" where
  "client lg rm \<equiv> \<lparr>appended = map (apsnd erase) lg, removed = rm\<rparr>"

lemma client_of_entries: "client_of (entries_of st lg rm) = client lg rm"
  by (simp add: client_of_def entries_of_def)

lemma append_answered:
  assumes "ar_sequence_id r = word_of_nat (length lg + 1)"
  shows "answered (Op_append name a) (Wrote r) (client lg rm) (client (lg @ [(name, append_event a sid (ar_sequence_id r))]) rm)"
  using assms by (simp add: answered_def append_event_def erase_def)

lemma remove_answered:
  "ar_sequence_id r = sq \<Longrightarrow> answered (Op_remove name ts sq) (Wrote r) (client lg rm) (client lg (rm @ [(name, ts, sq)]))"
  by (simp add: answered_def)

section \<open>Every operation keeps it\<close>

lemma sorted_fold_upsert: "sorted_events (fold event_upsert es [])"
proof -
  have "sorted_events xs \<Longrightarrow> sorted_events (fold event_upsert es xs)" for xs
    by (induction es arbitrary: xs) (auto simp: sorted_event_upsert simp del: sorted_wrt_map)
  then show ?thesis by simp
qed

lemma append_event_symbol: "symbol_id (append_event a sid q) = sid"
  by (simp add: append_event_def)

lemma run_at_appended:
  assumes at: "run_at cfg k st lg rm h act imms levs" and k: "k < 2 ^ 32 - 2"
    and r: "db_next_seq st' = db_next_seq st + 1" "symtab_lookup name (db_symbols st') = Some sid"
      "wrote (append_event a sid (db_next_seq st)) st st'" "db_holds st' h act' imms' levs"
      "inserted (append_event a sid (db_next_seq st)) act imms act' imms'"
  shows "run_at cfg (k + 1) st' (lg @ [(name, append_event a sid (db_next_seq st))]) rm h act' imms' levs"
proof -
  have i: "db_cfg st = cfg" "\<not> db_closed st" "names_good (db_symbols st)"
      "unat (next_id (db_symbols st)) \<le> k + 1" "logged st lg rm" "db_next_seq st = word_of_nat (length lg + 1)" "length lg \<le> k"
      "entries_ok (entries_of st lg rm)" "db_holds st h act imms levs" "numbered cfg (unat (db_sst_seq st)) h"
      "unat (db_sst_seq st) + length imms \<le> k + 1" "size (contents act imms levs) \<le> k" "kept (entries_of st lg rm) (contents act imms levs)"
      "l0_older (unat (db_sst_seq st)) levs"
    using at unfolding run_at_def by blast+
  obtain es where es: "log_holds (db_wal st) es" "kept (entries_of st lg rm) (mset (fold event_upsert es []))"
      "length es \<le> length lg + length rm" and wn: "(db_wal st = None) = (\<not> wal_enabled (db_cfg st))"
    using i(5) unfolding logged_def by (elim conjE exE) (rule that)
  let ?e = "append_event a sid (db_next_seq st)"
  note w = r(3) [unfolded wrote_def]
  have en: "entries_ok (entries_of st' lg rm)" and kp: "kept (entries_of st' lg rm) (mset act + rest_of imms levs)"
    using entries_of_later [of st st' lg rm] w i(8,13) by (simp_all add: contents_eq)
  have e: "sequence_id ?e = word_of_nat (length lg + 1)" "symbol_id ?e = sid" using i(6) by (simp_all add: append_event_def)
  have "length lg + 1 < 2 ^ 64 - 1" using i(7) k by simp
  then have en': "entries_ok (entries_of st' (lg @ [(name, ?e)]) rm)" using entries_append [OF en _ e(1)] r(2) e(2) by simp
  have srt: "sorted_events (fold event_upsert es [])" by (rule sorted_fold_upsert)
  have "kept (entries_of st' lg rm) (mset (fold event_upsert es []) + {#})"
    using entries_of_later(2) [of st st' lg rm] w i(8) es(2) by simp
  then have "kept (entries_of st' (lg @ [(name, ?e)]) rm) (mset (fold event_upsert (es @ [?e]) []))"
    using kept_append [OF _ en srt, of "{#}" ?e name] e(1) by (simp add: entries_of_def)
  then have lgd: "logged st' (lg @ [(name, ?e)]) rm"
    using w es(1,3) wn unfolding logged_def by (intro conjI exI [of _ "es @ [?e]"]) simp_all
  have "kept (entries_of st' (lg @ [(name, ?e)]) rm) (contents act' imms' levs)"
    using kept_append [OF kp en act_sorted [OF i(9)], of ?e name] e(1) by (simp add: contents_inserted [OF r(5)] entries_of_def)
  moreover have sq: "db_sst_seq st' = db_sst_seq st" using w by (elim conjE)
  moreover have "unat (db_sst_seq st') + length imms' \<le> (k + 1) + 1"
    using i(11) length_inserted [OF r(5)] unfolding sq by linarith
  moreover have "size (contents act' imms' levs) \<le> k + 1"
    using i(12) size_inserted [OF r(5) act_sorted [OF i(9)], of levs] by linarith
  moreover have "unat (next_id (db_symbols st')) \<le> (k + 1) + 1" using w i(4) by (auto simp: names_kept_def)
  moreover have "db_next_seq st' = word_of_nat (length (lg @ [(name, ?e)]) + 1)" using r(1) i(6) by simp
  ultimately show ?thesis
    unfolding run_at_def using w i(1,2,7,10,14) lgd r(4) en' by (metis add_le_mono1 length_append_singleton Suc_eq_plus1)
qed

text \<open>What an operation needs of the state it starts in.\<close>

lemma run_at_log:
  assumes "run_at cfg k st lg rm h act imms levs" and "k < 2 ^ 32 - 2"
  shows "\<not> db_closed st" and "names_good (db_symbols st)" and "unat (next_id (db_symbols st)) < 2 ^ 32 - 1"
    and "\<exists>es. log_holds (db_wal st) es" and "db_next_seq st = word_of_nat (length lg + 1)"
  using assms by (auto simp: run_at_def logged_def)

lemma run_at_append:
  assumes os: "os_good os" and at: "run_at cfg k st lg rm h act imms levs" and k: "k < 2 ^ 32 - 2" and ok: "op_ok (Op_append name a)"
  shows "\<exists>res st' e act' imms'. db_append os rng name a st = Some (Inr res, st') \<and> ar_sequence_id res = word_of_nat (length lg + 1) \<and>
    e = append_event a (symbol_id e) (ar_sequence_id res) \<and> symtab_lookup name (db_symbols st') = Some (symbol_id e) \<and>
    names_kept (db_symbols st) (db_symbols st') \<and> inserted e act imms act' imms' \<and>
    run_at cfg (k + 1) st' (lg @ [(name, e)]) rm h act' imms' levs"
proof -
  note l = run_at_log [OF at k]
  have h: "db_holds st h act imms levs" using at by (simp add: run_at_def)
  obtain es where es: "log_holds (db_wal st) es" using l(4) by blast
  obtain res st' sid act' imms' where r: "db_append os rng name a st = Some (Inr res, st')" "ar_sequence_id res = db_next_seq st"
      "db_next_seq st' = db_next_seq st + 1" "symtab_lookup name (db_symbols st') = Some sid"
      "wrote (append_event a sid (db_next_seq st)) st st'" "db_holds st' h act' imms' levs"
      "inserted (append_event a sid (db_next_seq st)) act imms act' imms'"
    using db_append_spec [OF os h l(1) es l(2) _ l(3), of name a rng] ok by auto
  let ?e = "append_event a sid (db_next_seq st)"
  have "run_at cfg (k + 1) st' (lg @ [(name, ?e)]) rm h act' imms' levs" by (rule run_at_appended [OF at k r(3-7)])
  moreover have "names_kept (db_symbols st) (db_symbols st')" using r(5) by (simp add: wrote_def)
  ultimately show ?thesis using r(1,2,4,7) l(5)
    by (intro exI [of _ res] exI [of _ st'] exI [of _ ?e] exI [of _ act'] exI [of _ imms']) (simp add: append_event_symbol)
qed

lemma run_append:
  assumes os: "os_good os" and inv: "run_inv cfg k st lg rm" and k: "k < 2 ^ 32 - 2" and ok: "op_ok (Op_append name a)"
  shows "\<exists>an st' lg'. db_exec os rng nf (Op_append name a) st = Some (an, st') \<and> run_inv cfg (k + 1) st' lg' rm \<and>
    answered (Op_append name a) an (client lg rm) (client lg' rm)"
proof -
  obtain h act imms levs where at: "run_at cfg k st lg rm h act imms levs" using inv unfolding run_inv_def by blast
  obtain res st' e act' imms' where r: "db_append os rng name a st = Some (Inr res, st')" "ar_sequence_id res = word_of_nat (length lg + 1)"
      "e = append_event a (symbol_id e) (ar_sequence_id res)" "run_at cfg (k + 1) st' (lg @ [(name, e)]) rm h act' imms' levs"
    using run_at_append [OF os at k ok, of rng] by blast
  have "answered (Op_append name a) (Wrote res) (client lg rm) (client (lg @ [(name, e)]) rm)"
    using append_answered [OF r(2), of name a rm "symbol_id e"] unfolding r(3) [symmetric] .
  moreover have "run_inv cfg (k + 1) st' (lg @ [(name, e)]) rm" using r(4) unfolding run_inv_def by blast
  moreover have "db_exec os rng nf (Op_append name a) st = Some (Wrote res, st')" using r(1) by simp
  ultimately show ?thesis by blast
qed

lemma run_at_removed:
  assumes at: "run_at cfg k st lg rm h act imms levs" and k: "k < 2 ^ 32 - 2"
    and r: "db_next_seq st' = db_next_seq st" "symtab_lookup name (db_symbols st') = Some sid"
      "wrote (tombstone sid ts sq) st st'" "db_holds st' h act' imms' levs" "inserted (tombstone sid ts sq) act imms act' imms'"
  shows "run_at cfg (k + 1) st' lg (rm @ [(name, ts, sq)]) h act' imms' levs"
proof -
  have i: "db_cfg st = cfg" "\<not> db_closed st" "names_good (db_symbols st)"
      "unat (next_id (db_symbols st)) \<le> k + 1" "logged st lg rm" "db_next_seq st = word_of_nat (length lg + 1)" "length lg \<le> k"
      "entries_ok (entries_of st lg rm)" "db_holds st h act imms levs" "numbered cfg (unat (db_sst_seq st)) h"
      "unat (db_sst_seq st) + length imms \<le> k + 1" "size (contents act imms levs) \<le> k" "kept (entries_of st lg rm) (contents act imms levs)"
      "l0_older (unat (db_sst_seq st)) levs"
    using at unfolding run_at_def by blast+
  obtain es where es: "log_holds (db_wal st) es" "kept (entries_of st lg rm) (mset (fold event_upsert es []))"
      "length es \<le> length lg + length rm" and wn: "(db_wal st = None) = (\<not> wal_enabled (db_cfg st))"
    using i(5) unfolding logged_def by (elim conjE exE) (rule that)
  let ?t = "tombstone sid ts sq" and ?rm = "rm @ [(name, ts, sq)]"
  note w = r(3) [unfolded wrote_def]
  have en: "entries_ok (entries_of st' lg rm)" and kp: "kept (entries_of st' lg rm) (mset act + rest_of imms levs)"
    using entries_of_later [of st st' lg rm] w i(8,13) by (simp_all add: contents_eq)
  have t: "event_type ?t = Tombstone" "symbol_id ?t = sid" "timestamp_ns ?t = ts" "sequence_id ?t = sq" by (simp_all add: tombstone_def)
  have en': "entries_ok (entries_of st' lg ?rm)" by (rule entries_remove [OF en r(2)])
  have srt: "sorted_events (fold event_upsert es [])" by (rule sorted_fold_upsert)
  have "kept (entries_of st' lg rm) (mset (fold event_upsert es []) + {#})"
    using entries_of_later(2) [of st st' lg rm] w i(8) es(2) by simp
  then have "kept (entries_of st' lg ?rm) (mset (fold event_upsert (es @ [?t]) []))"
    using kept_remove [OF _ srt t(1), of "entries_of st' lg rm" "{#}" name] r(2) t by (simp add: entries_of_def)
  then have lgd: "logged st' lg ?rm"
    using w es(1,3) wn unfolding logged_def by (intro conjI exI [of _ "es @ [?t]"]) simp_all
  have "kept (entries_of st' lg ?rm) (contents act' imms' levs)"
    using kept_remove [OF kp act_sorted [OF i(9)] t(1), of name] r(2) t
    by (simp add: contents_inserted [OF r(5)] entries_of_def)
  moreover have sq: "db_sst_seq st' = db_sst_seq st" using w by (elim conjE)
  moreover have "unat (db_sst_seq st') + length imms' \<le> (k + 1) + 1"
    using i(11) length_inserted [OF r(5)] unfolding sq by linarith
  moreover have "size (contents act' imms' levs) \<le> k + 1"
    using i(12) size_inserted [OF r(5) act_sorted [OF i(9)], of levs] by linarith
  moreover have "unat (next_id (db_symbols st')) \<le> (k + 1) + 1" using w i(4) by (auto simp: names_kept_def)
  moreover have "length lg \<le> k + 1" using i(7) by simp
  ultimately show ?thesis
    unfolding run_at_def using w i(1,2,6,10,14) lgd r(1,4) en' by metis
qed

lemma run_at_remove:
  assumes os: "os_good os" and at: "run_at cfg k st lg rm h act imms levs" and k: "k < 2 ^ 32 - 2" and ok: "op_ok (Op_remove name ts sq)"
  shows "\<exists>res st' sid act' imms'. db_remove os rng name ts sq st = Some (Inr res, st') \<and> ar_sequence_id res = sq \<and>
    symtab_lookup name (db_symbols st') = Some sid \<and> names_kept (db_symbols st) (db_symbols st') \<and>
    inserted (tombstone sid ts sq) act imms act' imms' \<and> run_at cfg (k + 1) st' lg (rm @ [(name, ts, sq)]) h act' imms' levs"
proof -
  note l = run_at_log [OF at k]
  have h: "db_holds st h act imms levs" using at by (simp add: run_at_def)
  obtain es where es: "log_holds (db_wal st) es" using l(4) by blast
  obtain res st' sid act' imms' where r: "db_remove os rng name ts sq st = Some (Inr res, st')" "ar_sequence_id res = sq"
      "db_next_seq st' = db_next_seq st" "symtab_lookup name (db_symbols st') = Some sid"
      "wrote (tombstone sid ts sq) st st'" "db_holds st' h act' imms' levs" "inserted (tombstone sid ts sq) act imms act' imms'"
    using db_remove_spec [OF os h l(1) es l(2) _ l(3), of name rng ts sq] ok by auto
  have "names_kept (db_symbols st) (db_symbols st')" using r(5) by (simp add: wrote_def)
  then show ?thesis using r(1,2,4,7) run_at_removed [OF at k r(3-7)] by blast
qed

lemma run_remove:
  assumes os: "os_good os" and inv: "run_inv cfg k st lg rm" and k: "k < 2 ^ 32 - 2" and ok: "op_ok (Op_remove name ts sq)"
  shows "\<exists>an st'. db_exec os rng nf (Op_remove name ts sq) st = Some (an, st') \<and> run_inv cfg (k + 1) st' lg (rm @ [(name, ts, sq)]) \<and>
    answered (Op_remove name ts sq) an (client lg rm) (client lg (rm @ [(name, ts, sq)]))"
proof -
  obtain h act imms levs where at: "run_at cfg k st lg rm h act imms levs" using inv unfolding run_inv_def by blast
  obtain res st' where r: "db_remove os rng name ts sq st = Some (Inr res, st')" "ar_sequence_id res = sq"
      "run_inv cfg (k + 1) st' lg (rm @ [(name, ts, sq)])"
    using run_at_remove [OF os at k ok, of rng] unfolding run_inv_def by blast
  have "db_exec os rng nf (Op_remove name ts sq) st = Some (Wrote res, st')" using r(1) by simp
  then show ?thesis using r(3) remove_answered [OF r(2)] by blast
qed

lemma query_selects:
  assumes os: "os_good os" and st: "db_holds st h act imms levs" "\<not> db_closed st"
    and sid: "symtab_lookup (rq_symbol req) (db_symbols st) = Some sid"
  shows "\<exists>res io. db_query os req st = Some (Inr res, st\<lparr>db_io := io\<rparr>) \<and> db_holds (st\<lparr>db_io := io\<rparr>) h act imms levs \<and>
    qr_rows res = take (query_limit req) (filter (selects req sid) (concat (sources act imms levs))) \<and>
    qr_rows_returned res = word_of_nat (length (qr_rows res))"
proof -
  have "opens os" using os by simp
  then obtain res io where q: "db_query os req st = Some (Inr res, st\<lparr>db_io := io\<rparr>)" "db_holds (st\<lparr>db_io := io\<rparr>) h act imms levs"
      "qr_rows res = take (query_limit req) (filter (wanted (rq_event_type req))
        (ranged (query_lo req sid) (query_hi req sid) (sources act imms levs)))"
      "qr_rows_returned res = word_of_nat (length (qr_rows res))"
    using db_query_spec [OF _ st sid] by blast
  have "qr_rows res = take (query_limit req) (filter (selects req sid) (concat (sources act imms levs)))"
    unfolding q(3) by (simp add: selects_def [abs_def] conj_commute flip: filter_concat)
  then show ?thesis using q(1,2,4) by blast
qed

text \<open>A name that was never interned.\<close>

lemma query_unknown:
  assumes "\<not> db_closed st" and "symtab_lookup (rq_symbol req) (db_symbols st) = None"
  shows "\<exists>res. db_query os req st = Some (Inr res, st\<lparr>db_io := db_io st\<rparr>) \<and> qr_rows res = [] \<and> qr_rows_returned res = 0"
  using assms by (simp add: db_query_def)

lemma run_at_answers:
  assumes os: "os_good os" and at: "run_at cfg k st lg rm h act imms levs"
  shows "\<exists>res io. db_query os req st = Some (Inr res, st\<lparr>db_io := io\<rparr>) \<and> db_holds (st\<lparr>db_io := io\<rparr>) h act imms levs \<and>
    answers req (client lg rm) (qr_rows res) \<and> qr_rows_returned res = word_of_nat (length (qr_rows res))"
proof -
  have i: "\<not> db_closed st" "entries_ok (entries_of st lg rm)" "db_holds st h act imms levs"
      "kept (entries_of st lg rm) (contents act imms levs)"
    using at unfolding run_at_def by blast+
  show ?thesis
  proof (cases "symtab_lookup (rq_symbol req) (db_symbols st)")
    case None
    have "answers req (client lg rm) []"
      using no_answers [OF i(2), of req] None client_of_entries [of st lg rm] by (simp add: entries_of_def)
    then show ?thesis using query_unknown [OF i(1) None] i(3) by fastforce
  next
    case (Some sid)
    obtain res io where q: "db_query os req st = Some (Inr res, st\<lparr>db_io := io\<rparr>)" "db_holds (st\<lparr>db_io := io\<rparr>) h act imms levs"
        "qr_rows res = take (query_limit req) (filter (selects req sid) (concat (sources act imms levs)))"
        "qr_rows_returned res = word_of_nat (length (qr_rows res))"
      using query_selects [OF os i(3,1) Some] by blast
    moreover have "en_names (entries_of st lg rm) (rq_symbol req) = Some sid" using Some by (simp add: entries_of_def)
    ultimately have "answers req (client lg rm) (qr_rows res)"
      using kept_answers [OF _ i(2)] i(4) client_of_entries [of st lg rm] unfolding contents_def by metis
    then show ?thesis using q by blast
  qed
qed

lemma run_query:
  assumes os: "os_good os" and inv: "run_inv cfg k st lg rm"
  shows "\<exists>an st'. db_exec os rng nf (Op_query req) st = Some (an, st') \<and> run_inv cfg (k + 1) st' lg rm \<and>
    answered (Op_query req) an (client lg rm) (client lg rm)"
proof -
  obtain h act imms levs where at: "run_at cfg k st lg rm h act imms levs" using inv unfolding run_inv_def by blast
  obtain res io where q: "db_query os req st = Some (Inr res, st\<lparr>db_io := io\<rparr>)"
      "answers req (client lg rm) (qr_rows res)" "qr_rows_returned res = word_of_nat (length (qr_rows res))"
      "db_holds (st\<lparr>db_io := io\<rparr>) h act imms levs"
    using run_at_answers [OF os at] by blast
  have "run_at cfg (k + 1) (st\<lparr>db_io := io\<rparr>) lg rm h act imms levs"
    using at q(4) by (simp add: run_at_def logged_def entries_of_def)
  moreover have "answered (Op_query req) (Rows res) (client lg rm) (client lg rm)"
    using q(2,3) by (simp add: answered_def)
  moreover have "db_exec os rng nf (Op_query req) st = Some (Rows res, st\<lparr>db_io := io\<rparr>)" using q(1) by simp
  ultimately show ?thesis unfolding run_inv_def by blast
qed

text \<open>Operations that only move events around.\<close>

lemma run_moved:
  assumes at: "run_at cfg k st lg rm h act imms levs" and f: "same_front st st'"
    and st': "db_holds st' h' act' imms' levs'" "numbered cfg (unat (db_sst_seq st')) h'"
    and b: "unat (db_sst_seq st') + length imms' \<le> unat (db_sst_seq st) + length imms + 1"
    and k: "kept (entries_of st lg rm) (contents act' imms' levs')" "size (contents act' imms' levs') \<le> size (contents act imms levs)"
      "l0_older (unat (db_sst_seq st')) levs'"
  shows "run_at cfg (k + 1) st' lg rm h' act' imms' levs'"
proof -
  have "entries_of st' lg rm = entries_of st lg rm" using f by (simp add: entries_of_def same_front_def)
  then show ?thesis using at f st' b k by (auto simp: run_at_def same_front_def logged_def)
qed

lemma rest_flush_history:
  assumes "levs \<noteq> []"
  shows "rest_of imms (flush_history levs ts) = rest_of imms levs + mset (concat (events_of ts))"
  by (simp add: rest_of_def events_flush_history [OF assms] add.assoc)

lemma concat_nonempty: "concat (filter (\<lambda>es. es \<noteq> []) ess) = concat ess"
  by (induction ess) auto

lemma run_bounds:
  assumes "run_at cfg k st lg rm h act imms levs" and "k < 2 ^ 32 - 2"
  shows "unat (db_sst_seq st) + length imms + 1 < 2 ^ 64" and "\<forall>es \<in> set (act # imms). length es < 2 ^ 32"
    and "length (concat (events_of (hd levs))) \<le> k"
proof -
  have i: "unat (db_sst_seq st) + length imms \<le> k + 1" "size (contents act imms levs) \<le> k" "db_holds st h act imms levs"
    using assms(1) by (simp_all add: run_at_def)
  show "unat (db_sst_seq st) + length imms + 1 < 2 ^ 64" using i(1) assms(2) by simp
  have "length es \<le> length (concat ess)" if "es \<in> set ess" for es and ess :: "event list list"
    using that by (induction ess) auto
  from this [of _ "act # imms"] have "\<forall>es \<in> set (act # imms). length es \<le> length (concat (act # imms))" by blast
  moreover have "length (concat (act # imms)) \<le> k" using i(2) by (simp add: contents_def sources_def)
  ultimately show "\<forall>es \<in> set (act # imms). length es < 2 ^ 32" using assms(2) by fastforce
  obtain l0 ls where "levs = l0 # ls" using db_holds_length [OF i(3)] by (cases levs) auto
  then show "length (concat (events_of (hd levs))) \<le> k" using i(2) by (simp add: contents_def sources_def)
qed

lemma l0_older_flush:
  assumes "l0_older n levs" and "levs \<noteq> []" and "set (seqs_of ts) \<subseteq> {n..<n'}" and "n \<le> n'"
  shows "l0_older n' (flush_history levs ts)"
  using assms by (cases levs) (fastforce simp: l0_older_def flush_history_def)+

lemma run_at_flush:
  assumes os: "os_progress os" and nf: "\<forall>n. bloom_wf (nf n)" and at: "run_at cfg k st lg rm h act imms levs" and k: "k < 2 ^ 32 - 2"
    and t: "block_target_bytes cfg < 2 ^ 32"
  shows "\<exists>ts st'. flush_now os nf st = Some (Inr (), st') \<and> run_at cfg (k + 1) st' lg rm (h @ ts) [] [] (flush_history levs ts) \<and>
    events_of ts = filter (\<lambda>es. es \<noteq> []) (imms @ [act]) \<and> sorted_wrt (<) (seqs_of ts) \<and>
    set (seqs_of ts) \<subseteq> {unat (db_sst_seq st)..<unat (db_sst_seq st')} \<and> db_symbols st' = db_symbols st"
proof -
  have i: "db_cfg st = cfg" "db_holds st h act imms levs" "numbered cfg (unat (db_sst_seq st)) h"
      "kept (entries_of st lg rm) (contents act imms levs)"
    using at unfolding run_at_def by blast+
  obtain ts st' where f: "flush_now os nf st = Some (Inr (), st')" "db_holds st' (h @ ts) [] [] (flush_history levs ts)"
      "numbered (db_cfg st') (unat (db_sst_seq st')) (h @ ts)" "events_of ts = filter (\<lambda>es. es \<noteq> []) (imms @ [act])"
      "same_front st st'" "unat (db_sst_seq st') \<le> unat (db_sst_seq st) + length imms + 1"
      "set (seqs_of ts) \<subseteq> {unat (db_sst_seq st)..<unat (db_sst_seq st')}" "unat (db_sst_seq st) \<le> unat (db_sst_seq st')"
      "sorted_wrt (<) (seqs_of ts)"
    using flush_now_spec [OF os nf i(2) _ run_bounds(1) [OF at k] _ run_bounds(2) [OF at k]] i(1,3) t by blast
  have ne: "levs \<noteq> []" using db_holds_length [OF i(2)] by blast
  have c: "contents [] [] (flush_history levs ts) = contents act imms levs"
    unfolding contents_eq rest_flush_history [OF ne] f(4) concat_nonempty by (simp add: rest_of_def)
  have "run_at cfg (k + 1) st' lg rm (h @ ts) [] [] (flush_history levs ts)"
  proof (rule run_moved [OF at f(5,2)])
    show "numbered cfg (unat (db_sst_seq st')) (h @ ts)" using f(3,5) i(1) by (simp add: same_front_def)
    show "l0_older (unat (db_sst_seq st')) (flush_history levs ts)"
      by (rule l0_older_flush [OF _ ne f(7,8)]) (use at in \<open>simp add: run_at_def\<close>)
  qed (use f(6) i(4) c in simp_all)
  moreover have "db_symbols st' = db_symbols st" using f(5) by (simp add: same_front_def)
  ultimately show ?thesis using f(1,4,7,9) by blast
qed

lemma run_flush:
  assumes os: "os_progress os" and nf: "\<forall>n. bloom_wf (nf n)" and inv: "run_inv cfg k st lg rm" and k: "k < 2 ^ 32 - 2"
    and t: "block_target_bytes cfg < 2 ^ 32"
  shows "\<exists>an st'. db_exec os rng nf Op_flush st = Some (an, st') \<and> run_inv cfg (k + 1) st' lg rm \<and>
    answered Op_flush an (client lg rm) (client lg rm)"
proof -
  obtain h act imms levs where at: "run_at cfg k st lg rm h act imms levs" using inv unfolding run_inv_def by blast
  obtain st' where f: "flush_now os nf st = Some (Inr (), st')" "run_inv cfg (k + 1) st' lg rm"
    using run_at_flush [OF os nf at k t] unfolding run_inv_def by blast
  have "answered Op_flush Finished (client lg rm) (client lg rm)" by (simp add: answered_def)
  moreover have "db_exec os rng nf Op_flush st = Some (Finished, st')" using f(1) by simp
  ultimately show ?thesis using f(2) by blast
qed

lemma run_flush_round:
  assumes os: "os_progress os" and nf: "\<forall>n. bloom_wf (nf n)" and inv: "run_inv cfg k st lg rm" and k: "k < 2 ^ 32 - 2"
    and t: "block_target_bytes cfg < 2 ^ 32"
  shows "\<exists>an st'. db_exec os rng nf Op_flush_round st = Some (an, st') \<and> run_inv cfg (k + 1) st' lg rm \<and>
    answered Op_flush_round an (client lg rm) (client lg rm)"
proof -
  obtain h act imms levs where at: "run_at cfg k st lg rm h act imms levs" using inv unfolding run_inv_def by blast
  then have i: "db_cfg st = cfg" "db_holds st h act imms levs" "numbered cfg (unat (db_sst_seq st)) h"
      "kept (entries_of st lg rm) (contents act imms levs)"
    unfolding run_at_def by blast+
  have rel: "list_all2 memtable_rel (db_imm st) imms" using i(2) by (simp add: db_holds_def)
  have l: "length (db_imm st) = length imms" by (rule list_all2_lengthD [OF rel])
  have b: "unat (db_sst_seq st) + length (db_imm st) < 2 ^ 64" "\<forall>es \<in> set imms. length es < 2 ^ 32"
    using run_bounds [OF at k] l by simp_all
  obtain ts d lv cn where f: "let st' = st\<lparr>db_imm := [], db_sst_seq := db_sst_seq st + word_of_nat (length (db_imm st)),
          db_tables := d, db_levels := lv, db_counters := cn\<rparr>
      in drain_imm os nf (db_imm st) st = Some (Inr (), st') \<and> db_holds st' (h @ ts) act [] (flush_history levs ts) \<and>
         numbered (db_cfg st') (unat (db_sst_seq st')) (h @ ts) \<and> events_of ts = filter (\<lambda>es. es \<noteq> []) imms \<and>
         set (seqs_of ts) \<subseteq> {unat (db_sst_seq st)..<unat (db_sst_seq st) + length (db_imm st)}"
    using drain_imm_spec [OF os nf rel refl i(2) _ b(1) _ b(2)] i(3) t unfolding i(1) Let_def by blast
  define st' where "st' = st\<lparr>db_imm := [], db_sst_seq := db_sst_seq st + word_of_nat (length (db_imm st)),
      db_tables := d, db_levels := lv, db_counters := cn\<rparr>"
  note f' = f [unfolded Let_def, folded st'_def]
  have sf: "same_front st st'" by (simp add: same_front_def st'_def)
  have s: "unat (db_sst_seq st') = unat (db_sst_seq st) + length imms"
    using b(1) l by (simp add: st'_def unat_word_ariths unat_of_nat take_bit_eq_mod)
  have ne: "levs \<noteq> []" using db_holds_length [OF i(2)] by blast
  have ev: "events_of ts = filter (\<lambda>es. es \<noteq> []) imms" using f' by (elim conjE)
  have c: "contents act [] (flush_history levs ts) = contents act imms levs"
    unfolding contents_eq rest_flush_history [OF ne] ev concat_nonempty by (simp add: rest_of_def)
  have "run_at cfg (k + 1) st' lg rm (h @ ts) act [] (flush_history levs ts)"
  proof (rule run_moved [OF at sf])
    show "db_holds st' (h @ ts) act [] (flush_history levs ts)" using f' by (elim conjE)
    show "numbered cfg (unat (db_sst_seq st')) (h @ ts)" using f' i(1) sf by (simp add: same_front_def)
    show "l0_older (unat (db_sst_seq st')) (flush_history levs ts)"
      by (rule l0_older_flush [of "unat (db_sst_seq st)", OF _ ne]) (use at f' s l in \<open>simp_all add: run_at_def\<close>)
  qed (use s i(4) c in simp_all)
  moreover have "answered Op_flush_round Finished (client lg rm) (client lg rm)" by (simp add: answered_def)
  moreover have "db_exec os rng nf Op_flush_round st = Some (Finished, st')" using f' by (simp add: flush_round_def)
  ultimately show ?thesis unfolding run_inv_def by blast
qed

lemma merged_l0_facts:
  shows "distinct (merged_l0 levs)" and "set (merged_l0 levs) \<subseteq> set (concat (events_of (hd levs)))"
    and "\<forall>x \<in> set (concat (events_of (hd levs))). \<exists>y \<in> set (merged_l0 levs). event_key y = event_key x"
proof -
  let ?all = "concat (map tagged_input (hd levs))"
  have nb: "\<not> bottom_level 1" by (simp add: bottom_level_def word_le_nat_alt)
  show "distinct (merged_l0 levs)"
    using sorted_events_distinct [OF merge_events_sorted [of 1 ?all]] unfolding merged_l0_def by (simp only: distinct_map)
  have f: "set (concat (events_of (hd levs))) = fst ` set ?all"
    unfolding map_fst_tagged_inputs [symmetric] by (simp only: set_map)
  show "set (merged_l0 levs) \<subseteq> set (concat (events_of (hd levs)))"
    unfolding f merged_l0_def by (rule merge_events_subset)
  show "\<forall>x \<in> set (concat (events_of (hd levs))). \<exists>y \<in> set (merged_l0 levs). event_key y = event_key x"
    unfolding f merged_l0_def using merge_events_keys [of _ _ ?all 1] nb by fastforce
qed

lemma rest_compact_history:
  assumes "length levs = 4" and "concat (events_of outs) = merged_l0 levs"
  shows "rest_of imms (compact_history levs outs) = mset (merged_l0 levs) + (mset (concat imms) + mset (concat (events_of (concat (tl levs)))))"
    and "rest_of imms levs = mset (concat (events_of (hd levs))) + (mset (concat imms) + mset (concat (events_of (concat (tl levs)))))"
proof -
  obtain l0 l1 l2 l3 where levs: "levs = [l0, l1, l2, l3]" using history4 [OF assms(1)] by blast
  have "mset (concat (compact_history levs outs)) = mset (l1 @ outs @ l2 @ l3)" by (simp add: compact_history_def levs)
  then have "mset (concat (events_of (concat (compact_history levs outs)))) = mset (concat (events_of (l1 @ outs @ l2 @ l3)))"
    unfolding mset_events_of by simp
  then show "rest_of imms (compact_history levs outs) = mset (merged_l0 levs) + (mset (concat imms) + mset (concat (events_of (concat (tl levs)))))"
    unfolding rest_of_def assms(2) [symmetric] by (simp add: levs)
  show "rest_of imms levs = mset (concat (events_of (hd levs))) + (mset (concat imms) + mset (concat (events_of (concat (tl levs)))))"
    by (simp add: rest_of_def levs)
qed

lemma run_at_compact:
  assumes os: "os_progress os" and nf: "\<forall>n. bloom_wf (nf n)" and at: "run_at cfg k st lg rm h act imms levs" and k: "k < 2 ^ 32 - 2"
    and one: "one_output (sstable_target_bytes cfg) k"
  shows "\<exists>st' outs. do_compact_l0 os nf st = (Inr (), st') \<and> concat (events_of outs) = merged_l0 levs \<and> same_front st st' \<and>
    run_at cfg (k + 1) st' lg rm (h @ outs) act imms (if merged_l0 levs = [] then levs else compact_history levs outs)"
proof -
  have i: "db_cfg st = cfg" "db_holds st h act imms levs" "numbered cfg (unat (db_sst_seq st)) h"
      "kept (entries_of st lg rm) (contents act imms levs)" "entries_ok (entries_of st lg rm)"
    using at unfolding run_at_def by blast+
  have l0: "length (concat (events_of (hd levs))) \<le> k" by (rule run_bounds(3) [OF at k])
  then have b: "unat (db_sst_seq st) + 1 < 2 ^ 64" "length (concat (events_of (hd levs))) < 2 ^ 32"
      "one_output (sstable_target_bytes cfg) (length (concat (events_of (hd levs))))"
    using run_bounds(1) [OF at k] k one_output_mono [OF one l0] by simp_all
  obtain outs levs' s d lv cn where c0: "let st' = st\<lparr>db_sst_seq := s, db_tables := d, db_levels := lv, db_counters := cn\<rparr> in
      do_compact_l0 os nf st = (Inr (), st') \<and> db_holds st' (h @ outs) act imms levs' \<and>
      numbered cfg (unat s) (h @ outs) \<and> unat (db_sst_seq st) \<le> unat s \<and> unat s \<le> unat (db_sst_seq st) + 1 \<and>
      concat (events_of outs) = merged_l0 levs \<and> levs' = (if merged_l0 levs = [] then levs else compact_history levs outs)"
    using do_compact_l0_spec [OF os nf i(2) _ b(1,2)] i(3) b(3) unfolding i(1) by metis
  define st' where "st' = st\<lparr>db_sst_seq := s, db_tables := d, db_levels := lv, db_counters := cn\<rparr>"
  have sq: "db_sst_seq st' = s" by (simp add: st'_def)
  have c: "do_compact_l0 os nf st = (Inr (), st')" "db_holds st' (h @ outs) act imms levs'" "numbered cfg (unat (db_sst_seq st')) (h @ outs)"
      "unat (db_sst_seq st') \<le> unat (db_sst_seq st) + 1" "concat (events_of outs) = merged_l0 levs"
      "unat (db_sst_seq st) \<le> unat (db_sst_seq st')"
      "levs' = (if merged_l0 levs = [] then levs else compact_history levs outs)"
    using c0 [unfolded Let_def, folded st'_def] unfolding sq by blast+
  have l4: "length levs = 4" using db_holds_length [OF i(2)] by blast
  note rest = rest_compact_history [OF l4 c(5), of imms]
  have m: "kept (entries_of st lg rm) (contents act imms levs') \<and> size (contents act imms levs') \<le> size (contents act imms levs)"
  proof (cases "merged_l0 levs = []")
    case True
    then show ?thesis using i(4) c(7) by simp
  next
    case False
    let ?R = "mset act + (mset (concat imms) + mset (concat (events_of (concat (tl levs)))))"
    have eq: "contents act imms levs = mset (concat (events_of (hd levs))) + ?R" "contents act imms levs' = mset (merged_l0 levs) + ?R"
      using c(7) False rest by (simp_all only: contents_eq if_False add.left_commute)
    have "mset (merged_l0 levs) \<subseteq># mset (concat (events_of (hd levs)))"
      using merged_l0_facts(1,2) [of levs] by (intro distinct_mset_subset) simp_all
    then have "size (mset (merged_l0 levs)) \<le> size (mset (concat (events_of (hd levs))))" by (rule size_mset_mono)
    then show ?thesis unfolding eq using kept_merge [OF i(4) [unfolded eq] i(5) merged_l0_facts] by simp
  qed
  have "l0_older (unat (db_sst_seq st)) levs" using at by (simp add: run_at_def)
  then have "l0_older (unat (db_sst_seq st')) levs'"
    using c(6,7) history4 [OF l4] by (fastforce simp: l0_older_def compact_history_def)
  moreover have "same_front st st'" by (simp add: same_front_def st'_def)
  ultimately have "run_at cfg (k + 1) st' lg rm (h @ outs) act imms levs'"
    by (intro run_moved [OF at _ c(2,3)]) (use m c(4) in simp_all)
  then show ?thesis using c(1,5) \<open>same_front st st'\<close> unfolding c(7) by blast
qed

lemma run_compact:
  assumes os: "os_progress os" and nf: "\<forall>n. bloom_wf (nf n)" and inv: "run_inv cfg k st lg rm" and k: "k < 2 ^ 32 - 2"
    and one: "one_output (sstable_target_bytes cfg) k"
  shows "\<exists>st'. do_compact_l0 os nf st = (Inr (), st') \<and> run_inv cfg (k + 1) st' lg rm"
  using inv run_at_compact [OF os nf _ k one] unfolding run_inv_def by blast

lemma run_inv_later: "run_inv cfg k st lg rm \<Longrightarrow> run_inv cfg (k + 1) st lg rm"
  unfolding run_inv_def run_at_def by fastforce

lemma run_step:
  assumes os: "os_good os" and nf: "\<forall>n. bloom_wf (nf n)" and inv: "run_inv cfg k st lg rm" and k: "k < 2 ^ 32 - 2"
    and t: "block_target_bytes cfg < 2 ^ 32" and one: "one_output (sstable_target_bytes cfg) k" and ok: "op_ok op"
  shows "\<exists>an st' lg' rm'. db_exec os rng nf op st = Some (an, st') \<and> run_inv cfg (k + 1) st' lg' rm' \<and>
    answered op an (client lg rm) (client lg' rm')"
proof -
  have op: "os_progress os" using os by (simp add: os_progress_def)
  have fin: "answered Op_compact Finished cl cl" "answered Op_compact_round Finished cl cl" for cl
    by (simp_all add: answered_def)
  show ?thesis
  proof (cases op)
    case (Op_append name a)
    then show ?thesis using run_append [OF os inv k] ok by blast
  next
    case (Op_remove name ts sq)
    then show ?thesis using run_remove [OF os inv k] ok by blast
  next
    case (Op_query req)
    then show ?thesis using run_query [OF os inv] by blast
  next
    case Op_flush
    then show ?thesis using run_flush [OF op nf inv k t] by blast
  next
    case Op_flush_round
    then show ?thesis using run_flush_round [OF op nf inv k t] by blast
  next
    case Op_compact
    obtain st' where "do_compact_l0 os nf st = (Inr (), st')" "run_inv cfg (k + 1) st' lg rm"
      using run_compact [OF op nf inv k one] by blast
    then show ?thesis using fin(1) unfolding Op_compact
      by (intro exI [of _ Finished] exI [of _ st'] exI [of _ lg] exI [of _ rm]) simp
  next
    case Op_compact_round
    obtain st' where c: "do_compact_l0 os nf st = (Inr (), st')" "run_inv cfg (k + 1) st' lg rm"
      using run_compact [OF op nf inv k one] by blast
    show ?thesis
    proof (cases "needs_l0_compact st")
      case True
      then show ?thesis using fin(2) c unfolding Op_compact_round
        by (intro exI [of _ Finished] exI [of _ st'] exI [of _ lg] exI [of _ rm]) (simp add: compact_round_def)
    next
      case False
      then show ?thesis using fin(2) run_inv_later [OF inv] unfolding Op_compact_round
        by (intro exI [of _ Finished] exI [of _ st] exI [of _ lg] exI [of _ rm]) (simp add: compact_round_def)
    qed
  qed
qed

lemma run_all:
  assumes os: "os_good os" and nf: "\<forall>n. bloom_wf (nf n)" and t: "block_target_bytes cfg < 2 ^ 32"
  shows "run_inv cfg k st lg rm \<Longrightarrow> k + length ops < 2 ^ 32 - 2 \<Longrightarrow> one_output (sstable_target_bytes cfg) (k + length ops) \<Longrightarrow>
    list_all op_ok ops \<Longrightarrow>
    \<exists>as st' lg' rm'. db_run os rng nf ops st = Some (as, st') \<and> run_inv cfg (k + length ops) st' lg' rm' \<and>
      log_spec (client lg rm) ops as \<and> client_after (client lg rm) ops as = client lg' rm'"
proof (induction ops arbitrary: k st lg rm)
  case Nil
  then show ?case by (intro exI [of _ "[]"] exI [of _ st] exI [of _ lg] exI [of _ rm]) simp
next
  case (Cons op ops)
  have k: "k < 2 ^ 32 - 2" "k + 1 + length ops < 2 ^ 32 - 2" using Cons.prems(2) by simp_all
  have one: "one_output (sstable_target_bytes cfg) k" using Cons.prems(3) by (rule one_output_mono) simp
  have one': "one_output (sstable_target_bytes cfg) (k + 1 + length ops)" using Cons.prems(3) by simp
  obtain an st1 lg1 rm1 where s: "db_exec os rng nf op st = Some (an, st1)" "run_inv cfg (k + 1) st1 lg1 rm1"
      "answered op an (client lg rm) (client lg1 rm1)"
    using run_step [OF os nf Cons.prems(1) k(1) t one, of op rng] Cons.prems(4) by auto
  have ok: "list_all op_ok ops" using Cons.prems(4) by simp
  obtain as st' lg' rm' where r: "db_run os rng nf ops st1 = Some (as, st')" "run_inv cfg (k + 1 + length ops) st' lg' rm'"
      "log_spec (client lg1 rm1) ops as" "client_after (client lg1 rm1) ops as = client lg' rm'"
    using Cons.IH [OF s(2) k(2) one' ok] by blast
  have "log_spec (client lg rm) (op # ops) (an # as)" using s(3) r(3) unfolding answered_def by blast
  moreover have "client_step op an (client lg rm) = client lg1 rm1" using s(3) unfolding answered_def by (rule conjunct1)
  then have "client_after (client lg rm) (op # ops) (an # as) = client lg' rm'" using r(4) by (simp only: client_after_simps)
  moreover have "db_run os rng nf (op # ops) st = Some (an # as, st')" using s(1) r(1) by simp
  moreover have "run_inv cfg (k + length (op # ops)) st' lg' rm'" using r(2) by simp
  ultimately show ?case by blast
qed

section \<open>A new database\<close>

definition empty_disk :: disk where
  "empty_disk = \<lparr>dk_symbols = None, dk_wal = None, dk_tables = []\<rparr>"

lemma load_level_empty [simp]: "load_level os cfg [] l = []"
  by (simp add: load_level_def)

lemma open_wal_fresh:
  assumes "opens os"
  shows "\<exists>w. open_wal os cfg None = (Inr w, []) \<and> log_holds (Some w) []"
proof -
  obtain r w where w: "wal_writer os (wal_segment_bytes cfg) [] = (r, w)" by fastforce
  have i: "r = Inr ()" "wal_inv w [[]]" using wal_writer_fresh [OF assms, of "wal_segment_bytes cfg"] unfolding w by simp_all
  then have "open_wal os cfg None = (Inr w, [])" by (simp add: open_wal_def w)
  moreover have "log_holds (Some w) []" using i(2) wal_events_inv [OF i(2)] by (auto simp: log_holds_def wal_ok_def)
  ultimately show ?thesis by blast
qed

lemma db_open_fresh:
  assumes os: "os_good os"
  shows "\<exists>st. db_open os rng cfg empty_disk = Some (Inr st) \<and> run_at cfg 0 st [] [] [] [] [] [[], [], [], []]"
proof -
  have op: "opens os" using os by simp
  obtain w where w: "open_wal os cfg None = (Inr w, [])" "log_holds (Some w) []" using open_wal_fresh [OF op] by blast
  let ?sy = "symtab_new os (cfg_path cfg @ ''/symbol_table.bin'') None"
  let ?st = "\<lparr>db_cfg = cfg, db_closed = False, db_symbols = ?sy, db_wal = (if wal_enabled cfg then Some w else None),
      db_io = fresh_io (Some (block_cache_bytes cfg)), db_active = Some (memtable_new (memtable_flush_bytes cfg)), db_imm = [],
      db_levels = map (load_level os cfg []) [0..<db_kMaxLevels], db_next_seq = 1, db_sst_seq = 1, db_tables = [],
      db_counters = counters_zero\<rparr>"
  have o: "db_open os rng cfg empty_disk = Some (Inr ?st)"
    using w(1) by (simp add: db_open_def empty_disk_def Let_def)
  have sy: "names_good ?sy" "next_id ?sy = 1" "symtab_lookup name ?sy = None" for name
    by (simp_all add: names_good_def symtab_new_None symtab_empty_maps symtab_lookup_def)
      (simp_all add: symtab_stored_def symtab_empty_def entries_bytes_def)
  have "log_holds (db_wal ?st) []" using w(2) by (simp add: log_holds_def)
  then have lg: "logged ?st [] []" by (auto simp: logged_def kept_def entries_of_def)
  have "db_holds ?st [] [] [] [[], [], [], []]"
    using memtable_rel_new by (simp add: db_holds_def db_kMaxLevels_def history_ok_def placed_def numeral_eq_Suc)
  moreover have "numbered cfg (unat (db_sst_seq ?st)) []" by (simp add: numbered_def)
  moreover have "kept (entries_of ?st [] []) (contents [] [] [[], [], [], []])"
    by (simp add: kept_def contents_def sources_def entries_of_def)
  moreover have "entries_ok (entries_of ?st [] [])"
    using sy(3) by (simp add: entries_ok_def entries_of_def)
  ultimately have "run_at cfg 0 ?st [] [] [] [] [] [[], [], [], []]"
    unfolding run_at_def using sy(1,2) lg by (intro conjI) (simp_all add: contents_def sources_def l0_older_def)
  then show ?thesis using o by blast
qed

section \<open>Properties\<close>

text \<open>C1: A new database refines an append-only log: whatever sequence of appends, removals,
  queries, flushes, compactions and rounds of the background threads follows, every operation
  returns; an append gets the next sequence number; and the rows of a query are the first
  ones (up to its limit) of an arrangement of the appended events that match it, in which only
  events that were asked to be removed may be missing and none occurs twice. The bounds are
  that fewer than \<open>2 ^ 32 - 2\<close> operations run and that their events fit into one output file.\<close>

theorem db_refines_log:
  assumes "os_good os" and "\<forall>n. bloom_wf (new_filter n)" and "block_target_bytes cfg < 2 ^ 32"
    and "one_output (sstable_target_bytes cfg) (length ops)" and "length ops < 2 ^ 32 - 2" and "list_all op_ok ops"
  shows "\<exists>st0 as st. db_open os rng cfg empty_disk = Some (Inr st0) \<and> db_run os rng new_filter ops st0 = Some (as, st) \<and>
    log_spec \<lparr>appended = [], removed = []\<rparr> ops as"
proof -
  obtain st0 where o: "db_open os rng cfg empty_disk = Some (Inr st0)" "run_inv cfg 0 st0 [] []"
    using db_open_fresh [OF assms(1)] unfolding run_inv_def by blast
  then show ?thesis using run_all [OF assms(1-3) o(2), of ops rng] assms(4-6) by fastforce
qed

definition sample_config :: "bool \<Rightarrow> db_config" where
  "sample_config wal = \<lparr>cfg_path = ''data'', wal_enabled = wal, memtable_flush_bytes = 64 * 1024 * 1024,
     wal_segment_bytes = 128 * 1024 * 1024, block_target_bytes = 64 * 1024, sstable_target_bytes = 64 * 1024 * 1024,
     background_compaction = False, block_cache_bytes = 64 * 1024 * 1024\<rparr>"

definition sample_args :: "u64 \<Rightarrow> append_args" where
  "sample_args ts = \<lparr>aa_timestamp_ns = ts, aa_event_type = Trade, aa_price_ticks = 100, aa_bid_px_ticks = 99,
     aa_ask_px_ticks = 101, aa_quantity = 5, aa_bid_qty = 1, aa_ask_qty = 2, aa_order_id = 7\<rparr>"

definition sample_request :: query_request where
  "sample_request = \<lparr>rq_symbol = ''AAPL'', rq_start_ns = 0, rq_end_ns = - 1, rq_event_type = None, rq_limit = 1000\<rparr>"

lemma db_refines_log_witness:
  "let ops = [Op_append ''AAPL'' (sample_args 10), Op_flush, Op_append ''MSFT'' (sample_args 20), Op_remove ''MSFT'' 20 2,
              Op_compact, Op_query sample_request] in
   \<exists>st0 as st. db_open os_ok (\<lambda>_. 1) (sample_config True) empty_disk = Some (Inr st0) \<and>
    db_run os_ok (\<lambda>_. 1) sample_filter ops st0 = Some (as, st) \<and> log_spec \<lparr>appended = [], removed = []\<rparr> ops as"
  unfolding Let_def
  by (rule db_refines_log)
    (simp_all add: os_good_def sample_filter_wf sample_config_def sample_args_def one_output_def event_kEncodedSize_def)

end
