(* ===== verification/DBDelete.thy ===== *)
theory DBDelete
  imports DBRun
begin

text \<open>
  Removals: a tombstone overwrites the event in the active memtable at once, does not hide an
  event that is elsewhere, and takes effect on tables of level 0 with the next compaction.
\<close>

section \<open>The newest version in level 0\<close>

text \<open>An event of the table with the largest number wins the merge.\<close>

lemma merged_newest:
  assumes l0: "hd levs = ts @ [(r, bs)]" and tb: "table_on d r bs" and t: "t \<in> set (concat bs)"
    and old: "\<forall>s \<in> set (seqs_of ts). s < unat (info_seq (sr_info r))"
    and e: "e \<in> set (merged_l0 levs)" "event_key e = event_key t"
  shows "e = t"
proof -
  let ?all = "concat (map tagged_input (hd levs))" and ?sq = "info_seq (sr_info r)"
  have "newest ?all e" using e(1) unfolding merged_l0_def by (rule merge_events_newest)
  then obtain s where s: "(e, s) \<in> set ?all" "\<forall>(e', s') \<in> set ?all. event_key e' = event_key e \<longrightarrow> s' \<le> s"
    unfolding newest_def by blast
  have "(t, ?sq) \<in> set (tagged_input (r, bs))" using t by (simp add: tagged_input_def info_seq_def)
  then have "(t, ?sq) \<in> set ?all" by (simp add: l0)
  then have le: "?sq \<le> s" using s(2) e(2) by fastforce
  have "(e, s) \<notin> set (concat (map tagged_input ts))"
  proof
    assume "(e, s) \<in> set (concat (map tagged_input ts))"
    then obtain rb where rb: "rb \<in> set ts" "s = info_seq (sr_info (fst rb))"
      by (auto simp: tagged_input_def info_seq_def)
    then have "unat s < unat ?sq" using old by simp
    then show False using le by (simp add: word_le_nat_alt)
  qed
  then have "(e, s) \<in> set (tagged_input (r, bs))" using s(1) by (simp add: l0)
  then have "e \<in> set (concat bs)" by (auto simp: tagged_input_def)
  moreover have "inj_on event_key (set (concat bs))"
    using table_on_sorted [OF tb] sorted_events_distinct by (metis distinct_map)
  ultimately show ?thesis using t e(2) by (meson inj_onD)
qed

section \<open>Where a removed event may still be\<close>

text \<open>No row of a query has a key that only tombstones carry.\<close>

lemma query_no_row:
  assumes op: "opens os" and st: "db_holds st h act imms levs" "\<not> db_closed st"
    and no: "\<forall>e \<in># contents act imms levs. event_key e = k \<longrightarrow> event_type e = Tombstone"
    and q: "db_query os req st = Some (Inr res, st')"
  shows "k \<notin> event_key ` set (qr_rows res)"
proof (cases "symtab_lookup (rq_symbol req) (db_symbols st)")
  case None
  then have "qr_rows res = []" using q st(2) by (auto simp: db_query_def)
  then show ?thesis by simp
next
  case (Some sid)
  have "qr_rows res = take (query_limit req) (filter (wanted (rq_event_type req))
      (ranged (query_lo req sid) (query_hi req sid) (sources act imms levs)))"
    using db_query_spec [OF op st Some] q by auto
  then have "set (qr_rows res) \<subseteq> {e. e \<in># contents act imms levs \<and> wanted (rq_event_type req) e}"
    by (auto simp: contents_def dest: in_set_takeD)
  then show ?thesis using no by (auto simp: wanted_def)
qed

definition removal_key :: "u32 \<Rightarrow> u64 \<Rightarrow> u64 \<Rightarrow> key" where
  "removal_key sid ts sq = \<lparr>key_symbol_id = sid, key_timestamp_ns = ts, key_sequence_id = sq\<rparr>"

lemma tombstone_key [simp]: "event_key (tombstone sid ts sq) = removal_key sid ts sq" "event_type (tombstone sid ts sq) = Tombstone"
  by (simp_all add: event_key_def tombstone_def removal_key_def)

text \<open>Only tombstones carry the key \<open>k\<close> among these events.\<close>

definition dead :: "key \<Rightarrow> event multiset \<Rightarrow> bool" where
  "dead k M \<longleftrightarrow> (\<forall>e \<in># M. event_key e = k \<longrightarrow> event_type e = Tombstone)"

lemma dead_simps [simp]: "dead k (M + N) \<longleftrightarrow> dead k M \<and> dead k N"
  by (auto simp: dead_def)

lemma dead_upsert: "sorted_events es \<Longrightarrow> event_type t = Tombstone \<Longrightarrow> dead (event_key t) (mset (event_upsert t es))"
  by (auto simp: dead_def mset_event_upsert)

lemma removed_no_row:
  assumes os: "os_good os" and at: "run_at cfg k st lg rm h act imms levs" and d: "dead key (contents act imms levs)"
  shows "\<forall>req r st'. db_query os req st = Some (Inr r, st') \<longrightarrow> key \<notin> event_key ` set (qr_rows r)"
proof (intro allI impI)
  fix req r st' assume q: "db_query os req st = Some (Inr r, st')"
  have "opens os" using os by simp
  moreover have "db_holds st h act imms levs" "\<not> db_closed st" using at by (simp_all add: run_at_def)
  ultimately show "key \<notin> event_key ` set (qr_rows r)"
    using query_no_row [OF _ _ _ _ q] d unfolding dead_def by blast
qed

section \<open>A removal, a flush and a compaction\<close>

lemma flushed_upsert:
  assumes "inserted t act imms act' imms'"
  shows "filter (\<lambda>es. es \<noteq> []) (imms' @ [act']) = filter (\<lambda>es. es \<noteq> []) imms @ [event_upsert t act]"
  using assms event_upsert_nonempty [of t act] by (auto simp: inserted_def)

lemma flushed_tombstone_wins:
  assumes at: "run_at cfg k st lg rm h [] [] (flush_history levs ts)"
    and old: "l0_older n levs" "levs \<noteq> []" "set (seqs_of ts) \<subseteq> {n..<n'}" "sorted_wrt (<) (seqs_of ts)"
    and ts: "events_of ts = ess @ [es]" "t \<in> set es"
    and e: "e \<in> set (merged_l0 (flush_history levs ts))" "event_key e = event_key t"
  shows "e = t"
proof -
  obtain ts' r bs where t: "ts = ts' @ [(r, bs)]" "concat bs = es" using ts(1) by (auto simp: map_eq_append_conv)
  have hd: "hd (flush_history levs ts) = (hd levs @ ts') @ [(r, bs)]"
    using old(2) by (cases levs) (simp_all add: flush_history_def t(1))
  have "tables_on (db_tables st) (concat (flush_history levs ts))" using at by (simp add: run_at_def db_holds_def)
  moreover have "(r, bs) \<in> set (concat (flush_history levs ts))"
    using old(2) by (cases levs) (simp_all add: flush_history_def t(1))
  ultimately have tb: "table_on (db_tables st) r bs" by (auto simp: tables_on_def)
  have "\<forall>s \<in> set (seqs_of ts'). s < unat (info_seq (sr_info r))" using old(4) by (simp add: t(1) sorted_wrt_append)
  moreover have "\<forall>s \<in> set (seqs_of (hd levs)). s < unat (info_seq (sr_info r))"
    using old(1,3) by (fastforce simp: l0_older_def t(1))
  ultimately have "\<forall>s \<in> set (seqs_of (hd levs @ ts')). s < unat (info_seq (sr_info r))" by auto
  then show ?thesis using merged_newest [OF hd tb _ _ e] ts(2) t(2) by simp
qed

lemma contents_compacted:
  assumes "length levs = 4" and "concat (events_of outs) = merged_l0 levs"
  shows "contents [] [] (if merged_l0 levs = [] then levs else compact_history levs outs) =
    mset (merged_l0 levs) + mset (concat (events_of (concat (tl levs))))"
proof (cases "merged_l0 levs = []")
  case True
  have "concat (events_of (hd levs)) = []"
    using merged_l0_facts(3) [of levs] True by (metis empty_iff empty_set list.set_intros(1) neq_Nil_conv)
  then show ?thesis using True rest_compact_history(2) [OF assms, of "[]"] by (simp add: contents_eq)
next
  case False
  then show ?thesis using rest_compact_history(1) [OF assms, of "[]"] by (simp add: contents_eq)
qed

text \<open>A query after which a dead key shows no row.\<close>

lemma query_answers:
  assumes os: "os_good os" and at: "run_at cfg k st lg rm h act imms levs"
  shows "\<exists>r st'. db_query os req st = Some (Inr r, st')"
proof -
  have "opens os" "db_holds st h act imms levs" "\<not> db_closed st" using os at by (simp_all add: run_at_def)
  then show ?thesis
    using db_query_spec [of os st h act imms levs req] by (cases "symtab_lookup (rq_symbol req) (db_symbols st)")
      (auto simp: db_query_def)
qed

lemma dead_query:
  assumes os: "os_good os" and at: "run_at cfg k st lg rm h act imms levs" and d: "dead key (contents act imms levs)"
  shows "\<exists>r st'. db_query os req st = Some (Inr r, st') \<and> key \<notin> event_key ` set (qr_rows r)"
  using query_answers [OF os at] removed_no_row [OF os at d] by blast

text \<open>A state with one event in the active memtable, and one with one event in level 0.\<close>

lemma zero_less_small: "(0 :: nat) < 2 ^ 32 - 2"
  by simp

lemma one_event_active:
  "\<exists>st e h. run_at (sample_config True) 1 st [(''AAPL'', e)] [] h [e] [] [[], [], [], []] \<and>
    e = append_event (sample_args 10) (symbol_id e) 1 \<and> symtab_lookup ''AAPL'' (db_symbols st) = Some (symbol_id e)"
proof -
  have os: "os_good os_ok" by (simp add: os_good_def)
  obtain st0 where o: "run_at (sample_config True) 0 st0 [] [] [] [] [] [[], [], [], []]"
    using db_open_fresh [OF os] by blast
  have ok: "op_ok (Op_append ''AAPL'' (sample_args 10))" by (simp add: sample_args_def)
  obtain res st e act imms where r: "ar_sequence_id res = word_of_nat (length ([] :: (string \<times> event) list) + 1)"
      "e = append_event (sample_args 10) (symbol_id e) (ar_sequence_id res)" "symtab_lookup ''AAPL'' (db_symbols st) = Some (symbol_id e)"
      "inserted e [] [] act imms" "run_at (sample_config True) (0 + 1) st ([] @ [(''AAPL'', e)]) [] [] act imms [[], [], [], []]"
      "db_append os_ok (\<lambda>_. 1) ''AAPL'' (sample_args 10) st0 = Some (Inr res, st)"
    using run_at_append [OF os o zero_less_small ok, of "\<lambda>_. 1"] by (elim exE conjE) (rule that, assumption+)
  have e1: "event_upsert e [] = [e]" by (simp add: event_upsert_def)
  show ?thesis
  proof (cases "imms = []")
    case True
    then have "act = [e]" using r(4) e1 by (auto simp: inserted_def)
    then show ?thesis using r True by (intro exI [of _ st] exI [of _ e] exI [of _ "[]"]) simp
  next
    case False
    then have ai: "act = []" "imms = [[e]]" using r(4) e1 by (auto simp: inserted_def)
    obtain m where m: "db_imm st = [m]" "memtable_rel m [e]"
      using r(5) unfolding run_at_def db_holds_def ai by (auto simp: list_all2_Cons2)
    let ?st = "st\<lparr>db_active := Some m, db_imm := []\<rparr>"
    have "entries_of ?st = entries_of st" by (simp add: entries_of_def fun_eq_iff)
    moreover have "contents [e] [] [[], [], [], []] = contents [] [[e]] [[], [], [], []]"
      by (simp add: contents_def sources_def)
    moreover have "db_holds ?st [] [e] [] [[], [], [], []]"
      using r(5) m unfolding run_at_def db_holds_def ai by (simp add: placed_def)
    ultimately have "run_at (sample_config True) 1 ?st [(''AAPL'', e)] [] [] [e] [] [[], [], [], []]"
      using r(5) unfolding run_at_def ai by (simp add: logged_def)
    then show ?thesis using r(1-3) by (intro exI [of _ ?st] exI [of _ e] exI [of _ "[]"]) simp
  qed
qed

lemma one_event_flushed:
  "\<exists>st e h ts. run_at (sample_config True) 2 st [(''AAPL'', e)] [] h [] [] [ts, [], [], []] \<and> events_of ts = [[e]] \<and>
    e = append_event (sample_args 10) (symbol_id e) 1 \<and> symtab_lookup ''AAPL'' (db_symbols st) = Some (symbol_id e)"
proof -
  have os: "os_progress os_ok" by (simp add: os_ok_progress)
  have nf: "\<forall>n. bloom_wf (sample_filter n)" by (simp add: sample_filter_wf)
  obtain st e h where a: "run_at (sample_config True) 1 st [(''AAPL'', e)] [] h [e] [] [[], [], [], []]"
      "e = append_event (sample_args 10) (symbol_id e) 1" "symtab_lookup ''AAPL'' (db_symbols st) = Some (symbol_id e)"
    using one_event_active by (elim exE conjE) (rule that)
  obtain ts st' where f: "run_at (sample_config True) (1 + 1) st' [(''AAPL'', e)] [] (h @ ts) [] [] (flush_history [[], [], [], []] ts)"
      "events_of ts = filter (\<lambda>es. es \<noteq> []) ([] @ [[e]])" "db_symbols st' = db_symbols st"
    using run_at_flush [OF os nf a(1)] by (auto simp: sample_config_def)
  then show ?thesis using a(2,3)
    by (intro exI [of _ st'] exI [of _ e] exI [of _ "h @ ts"] exI [of _ ts]) (simp add: flush_history_def flip: One_nat_def)
qed

section \<open>Properties\<close>

text \<open>C19: A removal hides the event with that symbol, time and sequence number at once from every
  query, when the event is in the active memtable (or nowhere).\<close>

theorem removal_hides_active:
  assumes "os_good os" and "run_at cfg k st lg rm h act imms levs" and "k < 2 ^ 32 - 2" and "length name < 2 ^ 16"
    and "symtab_lookup name (db_symbols st) = Some sid" and "dead (removal_key sid ts sq) (rest_of imms levs)"
  shows "\<exists>r1 st1 r2 st2. db_remove os rng name ts sq st = Some (Inr r1, st1) \<and>
    db_query os req st1 = Some (Inr r2, st2) \<and> removal_key sid ts sq \<notin> event_key ` set (qr_rows r2)"
proof -
  have ok: "op_ok (Op_remove name ts sq)" using assms(4) by simp
  obtain r1 st1 sid' act1 imms1 where r: "db_remove os rng name ts sq st = Some (Inr r1, st1)"
      "symtab_lookup name (db_symbols st1) = Some sid'" "names_kept (db_symbols st) (db_symbols st1)"
      "inserted (tombstone sid' ts sq) act imms act1 imms1" "run_at cfg (k + 1) st1 lg (rm @ [(name, ts, sq)]) h act1 imms1 levs"
    using run_at_remove [OF assms(1-3) ok, of rng] by blast
  have sid: "sid' = sid" using r(2,3) assms(5) by (simp add: names_kept_def)
  have "sorted_events act" using assms(2) act_sorted by (auto simp: run_at_def)
  then have "dead (removal_key sid ts sq) (contents act1 imms1 levs)"
    using dead_upsert [of act "tombstone sid ts sq"] assms(6) by (simp add: contents_inserted [OF r(4)] sid)
  then show ?thesis using dead_query [OF assms(1) r(5)] r(1) by blast
qed

lemma removal_hides_active_witness:
  "\<exists>st e r1 st1 r2 st2. db_remove os_ok (\<lambda>_. 1) ''AAPL'' 10 1 st = Some (Inr r1, st1) \<and>
    (\<exists>m. db_active st = Some m \<and> memtable_rel m [e]) \<and> event_key e = removal_key (symbol_id e) 10 1 \<and>
    db_query os_ok sample_request st1 = Some (Inr r2, st2) \<and> event_key e \<notin> event_key ` set (qr_rows r2)"
proof -
  obtain st e h where a: "run_at (sample_config True) 1 st [(''AAPL'', e)] [] h [e] [] [[], [], [], []]"
      "e = append_event (sample_args 10) (symbol_id e) 1" "symtab_lookup ''AAPL'' (db_symbols st) = Some (symbol_id e)"
    using one_event_active by (elim exE conjE) (rule that)
  have key: "event_key e = removal_key (symbol_id e) 10 1"
    by (subst a(2)) (simp add: event_key_def append_event_def removal_key_def sample_args_def)
  have m: "\<exists>m. db_active st = Some m \<and> memtable_rel m [e]" using a(1) unfolding run_at_def db_holds_def by blast
  have d: "dead (removal_key (symbol_id e) 10 1) (rest_of [] [[], [], [], []])" by (simp add: dead_def rest_of_def)
  have "\<exists>r1 st1 r2 st2. db_remove os_ok (\<lambda>_. 1) ''AAPL'' 10 1 st = Some (Inr r1, st1) \<and>
    db_query os_ok sample_request st1 = Some (Inr r2, st2) \<and> removal_key (symbol_id e) 10 1 \<notin> event_key ` set (qr_rows r2)"
    by (rule removal_hides_active [OF _ a(1) _ _ a(3) d]) (simp_all add: os_good_def)
  then show ?thesis using key m by metis
qed

text \<open>C20: A removal followed by a flush and a compaction hides the event from every query when it
  was in a memtable or in a table of level 0: the tombstone is in the table with the largest
  number, so it wins the merge.\<close>

theorem removal_compacted:
  assumes "os_good os" and "\<forall>n. bloom_wf (new_filter n)" and "run_at cfg k st lg rm h act imms levs"
    and "k < 2 ^ 32 - 4" and "block_target_bytes cfg < 2 ^ 32" and "one_output (sstable_target_bytes cfg) (k + 2)"
    and "length name < 2 ^ 16" and "symtab_lookup name (db_symbols st) = Some sid"
    and "dead (removal_key sid ts sq) (mset (concat (events_of (concat (tl levs)))))"
  shows "\<exists>r1 st1 st2 st3 r4 st4. db_remove os rng name ts sq st = Some (Inr r1, st1) \<and>
    flush_now os new_filter st1 = Some (Inr (), st2) \<and> do_compact_l0 os new_filter st2 = (Inr (), st3) \<and>
    db_query os req st3 = Some (Inr r4, st4) \<and> removal_key sid ts sq \<notin> event_key ` set (qr_rows r4)"
proof -
  let ?t = "tombstone sid ts sq" and ?K = "removal_key sid ts sq"
  have pr: "os_progress os" using assms(1) by (simp add: os_progress_def)
  have k: "k < 2 ^ 32 - 2" "k + 1 < 2 ^ 32 - 2" "k + 2 < 2 ^ 32 - 2" using assms(4) by simp_all
  have ok: "op_ok (Op_remove name ts sq)" using assms(7) by simp
  obtain r1 st1 sid' act1 imms1 where r: "db_remove os rng name ts sq st = Some (Inr r1, st1)"
      "symtab_lookup name (db_symbols st1) = Some sid'" "names_kept (db_symbols st) (db_symbols st1)"
      "inserted (tombstone sid' ts sq) act imms act1 imms1" "run_at cfg (k + 1) st1 lg (rm @ [(name, ts, sq)]) h act1 imms1 levs"
    using run_at_remove [OF assms(1,3) k(1) ok, of rng] by blast
  have "sid' = sid" using r(2,3) assms(8) by (simp add: names_kept_def)
  note ins = r(4) [unfolded this]
  have hd: "db_holds st h act imms levs" using assms(3) by (simp add: run_at_def)
  note srt = act_sorted [OF hd]
  have l4: "length levs = 4" "levs \<noteq> []" using db_holds_length [OF hd] by blast+
  obtain ts2 st2 where f: "flush_now os new_filter st1 = Some (Inr (), st2)"
      "run_at cfg (k + 2) st2 lg (rm @ [(name, ts, sq)]) (h @ ts2) [] [] (flush_history levs ts2)"
      "events_of ts2 = filter (\<lambda>es. es \<noteq> []) (imms1 @ [act1])" "sorted_wrt (<) (seqs_of ts2)"
      "set (seqs_of ts2) \<subseteq> {unat (db_sst_seq st1)..<unat (db_sst_seq st2)}"
    using run_at_flush [OF pr assms(2) r(5) k(2) assms(5)] by auto
  let ?levs = "flush_history levs ts2"
  obtain st3 outs where c: "do_compact_l0 os new_filter st2 = (Inr (), st3)" "concat (events_of outs) = merged_l0 ?levs"
      "run_at cfg (k + 2 + 1) st3 lg (rm @ [(name, ts, sq)]) ((h @ ts2) @ outs) [] [] (if merged_l0 ?levs = [] then ?levs else compact_history ?levs outs)"
    using run_at_compact [OF pr assms(2) f(2) k(3) assms(6)] by blast
  have old: "l0_older (unat (db_sst_seq st1)) levs" using r(5) by (simp add: run_at_def)
  have tl: "tl ?levs = tl levs" using l4(2) by (cases levs) (simp_all add: flush_history_def)
  have "?t \<in> set (event_upsert ?t act)" using set_event_upsert [OF srt] by simp
  note win = flushed_tombstone_wins [OF f(2) old l4(2) f(5,4) f(3) [unfolded flushed_upsert [OF ins]] this]
  have "event_type e = Tombstone" if "e \<in> set (merged_l0 ?levs)" "event_key e = ?K" for e
    using win [OF that(1)] that(2) by simp
  then have "dead ?K (mset (merged_l0 ?levs))" by (simp add: dead_def)
  then have "dead ?K (contents [] [] (if merged_l0 ?levs = [] then ?levs else compact_history ?levs outs))"
    using contents_compacted [of ?levs outs] l4(1) c(2) assms(9) tl by simp
  then show ?thesis using dead_query [OF assms(1) c(3)] r(1) f(1) c(1) by blast
qed

lemma removal_compacted_witness:
  "\<exists>st e r1 st1 st2 st3 r4 st4. db_remove os_ok (\<lambda>_. 1) ''AAPL'' 10 1 st = Some (Inr r1, st1) \<and>
    (\<exists>ts h. db_holds st h [] [] [ts, [], [], []] \<and> events_of ts = [[e]]) \<and>
    flush_now os_ok sample_filter st1 = Some (Inr (), st2) \<and> do_compact_l0 os_ok sample_filter st2 = (Inr (), st3) \<and>
    db_query os_ok sample_request st3 = Some (Inr r4, st4) \<and> event_key e \<notin> event_key ` set (qr_rows r4)"
proof -
  obtain st e h ts where a: "run_at (sample_config True) 2 st [(''AAPL'', e)] [] h [] [] [ts, [], [], []]" "events_of ts = [[e]]"
      "e = append_event (sample_args 10) (symbol_id e) 1" "symtab_lookup ''AAPL'' (db_symbols st) = Some (symbol_id e)"
    using one_event_flushed by (elim exE conjE) (rule that)
  have key: "event_key e = removal_key (symbol_id e) 10 1"
    by (subst a(3)) (simp add: event_key_def append_event_def removal_key_def sample_args_def)
  have d: "dead (removal_key (symbol_id e) 10 1) (mset (concat (events_of (concat (tl [ts, [], [], []])))))" by (simp add: dead_def)
  have hd: "db_holds st h [] [] [ts, [], [], []]" using a(1) by (simp add: run_at_def)
  have "\<exists>r1 st1 st2 st3 r4 st4. db_remove os_ok (\<lambda>_. 1) ''AAPL'' 10 1 st = Some (Inr r1, st1) \<and>
    flush_now os_ok sample_filter st1 = Some (Inr (), st2) \<and> do_compact_l0 os_ok sample_filter st2 = (Inr (), st3) \<and>
    db_query os_ok sample_request st3 = Some (Inr r4, st4) \<and> removal_key (symbol_id e) 10 1 \<notin> event_key ` set (qr_rows r4)"
    by (rule removal_compacted [OF _ _ a(1) _ _ _ _ a(4) d])
      (simp_all add: os_good_def sample_filter_wf sample_config_def one_output_def event_kEncodedSize_def)
  then show ?thesis using key hd a(2) by metis
qed

text \<open>C21: A removal does not hide an event that is in an immutable memtable or in a table: as long
  as no compaction ran, every query that selects the event still returns it.\<close>

theorem removal_misses_flushed:
  assumes "os_good os" and "run_at cfg k st lg rm h act imms levs" and "k < 2 ^ 32 - 2" and "length name < 2 ^ 16"
    and "symtab_lookup name (db_symbols st) = Some (symbol_id e)" and "e \<in># rest_of imms levs"
    and "rq_symbol req = name" and "selects req (symbol_id e) e" and "k + 1 \<le> query_limit req"
  shows "\<exists>r1 st1 r st2. db_remove os rng name (timestamp_ns e) (sequence_id e) st = Some (Inr r1, st1) \<and>
    db_query os req st1 = Some (Inr r, st2) \<and> e \<in> set (qr_rows r)"
proof -
  have ok: "op_ok (Op_remove name (timestamp_ns e) (sequence_id e))" using assms(4) by simp
  obtain r1 st1 sid act1 imms1 where r: "db_remove os rng name (timestamp_ns e) (sequence_id e) st = Some (Inr r1, st1)"
      "symtab_lookup name (db_symbols st1) = Some sid" "names_kept (db_symbols st) (db_symbols st1)"
      "inserted (tombstone sid (timestamp_ns e) (sequence_id e)) act imms act1 imms1"
      "run_at cfg (k + 1) st1 lg (rm @ [(name, timestamp_ns e, sequence_id e)]) h act1 imms1 levs"
    using run_at_remove [OF assms(1,2,3) ok, of rng] by blast
  have sid: "sid = symbol_id e" using r(2,3) assms(5) by (simp add: names_kept_def)
  have in1: "e \<in> set (concat (sources act1 imms1 levs))"
    using contents_inserted [OF r(4), of levs] assms(6) by (metis contents_def set_mset_mset union_iff)
  have len: "length (concat (sources act1 imms1 levs)) \<le> k + 1" using r(5) by (simp add: run_at_def contents_def)
  have "opens os" "db_holds st1 h act1 imms1 levs" "\<not> db_closed st1" "symtab_lookup (rq_symbol req) (db_symbols st1) = Some (symbol_id e)"
    using assms(1,7) r(2,5) sid by (simp_all add: run_at_def)
  then obtain res io where q: "db_query os req st1 = Some (Inr res, st1\<lparr>db_io := io\<rparr>)"
      "qr_rows res = take (query_limit req) (filter (wanted (rq_event_type req))
        (ranged (query_lo req (symbol_id e)) (query_hi req (symbol_id e)) (sources act1 imms1 levs)))"
    using db_query_spec by blast
  have "qr_rows res = take (query_limit req) (filter (selects req (symbol_id e)) (concat (sources act1 imms1 levs)))"
    unfolding q(2) by (simp add: selects_def [abs_def] conj_commute flip: filter_concat)
  moreover have "length (filter (selects req (symbol_id e)) (concat (sources act1 imms1 levs))) \<le> query_limit req"
    using len assms(9) length_filter_le by (metis order_trans)
  ultimately have "e \<in> set (qr_rows res)" using in1 assms(8) by simp
  then show ?thesis using r(1) q(1) by blast
qed

lemma removal_misses_flushed_witness:
  "\<exists>st e r1 st1 r st2. db_remove os_ok (\<lambda>_. 1) ''AAPL'' (timestamp_ns e) (sequence_id e) st = Some (Inr r1, st1) \<and>
    db_query os_ok sample_request st1 = Some (Inr r, st2) \<and> e \<in> set (qr_rows r)"
proof -
  obtain st e h ts where a: "run_at (sample_config True) 2 st [(''AAPL'', e)] [] h [] [] [ts, [], [], []]" "events_of ts = [[e]]"
      "e = append_event (sample_args 10) (symbol_id e) 1" "symtab_lookup ''AAPL'' (db_symbols st) = Some (symbol_id e)"
    using one_event_flushed by (elim exE conjE) (rule that)
  have t: "timestamp_ns e = 10" "event_type e = Trade"
    by (subst a(3), simp add: append_event_def sample_args_def)+
  have "selects sample_request (symbol_id e) e"
    using t by (simp add: selects_def in_range_query wanted_def sample_request_def)
  moreover have "e \<in># rest_of [] [ts, [], [], []]" using a(2) by (simp add: rest_of_def)
  ultimately show ?thesis
    using removal_misses_flushed [OF _ a(1) _ _ a(4), of os_ok sample_request "\<lambda>_. 1"]
    by (simp add: os_good_def sample_request_def query_limit_def) blast
qed

end
