(* ===== verification/DBReopen.thy ===== *)
theory DBReopen
  imports DBDelete
begin

text \<open>
  Opening a database again: which tables the level directories yield, what the log and the
  symbol file give back, and what a query of the new database returns. The directory is the
  one a closed database leaves behind, or one whose process died between two operations.
\<close>

section \<open>The table files of a level\<close>

lemma sst_file_of_level:
  assumes "l < 10" and "l' < 10" and "CHR ''/'' \<notin> set n" and "n \<noteq> []"
  shows "sst_file_of (level_dir cfg l) (level_dir cfg l' @ ''/'' @ n @ ''.sst'') \<longleftrightarrow> l = l'"
proof -
  have len: "length (level_dir cfg l) = length (level_dir cfg l')"
    using assms(1,2) by (simp add: level_dir_def decimal_digit)
  have "digit l = digit l' \<longleftrightarrow> l = l'"
    using assms(1,2) of_char_digit by (metis add_left_cancel)
  then have "level_dir cfg l' = level_dir cfg l \<longleftrightarrow> l = l'"
    using assms(1,2) by (auto simp: level_dir_def decimal_digit)
  then show ?thesis using assms(3,4) len by (auto simp: sst_file_of_def)
qed

lemma no_slash_decimal06 [simp]: "CHR ''/'' \<notin> set (decimal06 n)"
  using digits_decimal06 [of n] by (auto simp: is_digit_def)

lemma sst_file_of_flush: "l < 10 \<Longrightarrow> sst_file_of (level_dir cfg l) (flush_path cfg s) \<longleftrightarrow> l = 0"
  using sst_file_of_level [of l 0 "''sst_l0_'' @ decimal06 (unat s)" cfg] by (simp add: flush_path_def)

lemma sst_file_of_output: "l < 10 \<Longrightarrow> sst_file_of (level_dir cfg l) (make_path (level_dir cfg 1) 1 s) \<longleftrightarrow> l = 1"
  using sst_file_of_level [of l 1 "''sst_'' @ decimal06 1 @ ''_'' @ decimal06 (unat s)" cfg] by (simp add: make_path_def)

text \<open>The table of a history under a path.\<close>

definition table_at :: "history \<Rightarrow> string \<Rightarrow> sst_reader \<times> event list list" where
  "table_at h p = the (map_of (map (\<lambda>rb. (sr_path (fst rb), rb)) h) p)"

lemma table_at_path: "distinct (paths_of h) \<Longrightarrow> rb \<in> set h \<Longrightarrow> table_at h (sr_path (fst rb)) = rb"
  unfolding table_at_def by (subst map_of_is_SomeI [of _ _ rb]) (auto simp: comp_def)

lemma open_tables_at:
  assumes "opens os" and "tables_on d h" and "distinct (paths_of h)"
  shows "set ps \<subseteq> set (paths_of h) \<Longrightarrow> open_tables os d ps = infos_of (map (table_at h) ps)"
proof (induction ps)
  case (Cons p ps)
  then obtain rb where rb: "rb \<in> set h" "p = sr_path (fst rb)" by auto
  obtain r bs where e: "rb = (r, bs)" by fastforce
  have t: "table_on d r bs" using assms(2) rb(1) unfolding tables_on_def e by blast
  have "sst_reader_new os p d = Inr r"
    using table_on_open [OF t] assms(1) t unfolding rb(2) e by (simp add: table_on_def)
  moreover have "table_at h p = rb" using table_at_path [OF assms(3) rb(1)] by (simp add: rb(2))
  ultimately show ?case using Cons by (simp add: e)
qed simp

text \<open>The tables of a directory that belong to a level, as they are loaded.\<close>

definition loaded :: "db_config \<Rightarrow> dir \<Rightarrow> history \<Rightarrow> nat \<Rightarrow> history" where
  "loaded cfg d h l = level1_history (map (table_at h) (filter (sst_file_of (level_dir cfg l)) (remdups (map fst d))))"

lemma load_level_loaded:
  assumes "opens os" and "tables_on d h" and "distinct (paths_of h)" and "dom (map_of d) = set (paths_of h)"
  shows "load_level os cfg d l = infos_of (loaded cfg d h l)"
proof -
  have "set (filter (sst_file_of (level_dir cfg l)) (remdups (map fst d))) \<subseteq> set (paths_of h)"
    using assms(4) by (auto simp: dom_map_of_conv_image_fst)
  from open_tables_at [OF assms(1-3) this] show ?thesis
    by (simp add: load_level_def loaded_def infos_level1_history del: map_map)
qed

text \<open>The files of a level as the names of its tables.\<close>

lemma placed_files:
  assumes "placed cfg levs" and "length levs = 4" and "l < 4"
  shows "{p \<in> set (paths_of (concat levs)). sst_file_of (level_dir cfg l) p} = set (paths_of (levs ! l))"
proof -
  obtain l0 l1 l2 l3 where levs: "levs = [l0, l1, l2, l3]" using history4 [OF assms(2)] by blast
  have p: "set (paths_of l0) \<subseteq> range (flush_path cfg)" "set (paths_of l1) \<subseteq> range (make_path (level_dir cfg 1) 1)" "l2 = []" "l3 = []"
    using assms(1) by (simp_all add: placed_def levs)
  have f0: "sst_file_of (level_dir cfg l) p \<longleftrightarrow> l = 0" if "p \<in> set (paths_of l0)" for p
  proof -
    have "p \<in> range (flush_path cfg)" using p(1) that by (rule subsetD)
    then obtain s where "p = flush_path cfg s" by (rule rangeE)
    then show ?thesis using assms(3) by (simp only: sst_file_of_flush)
  qed
  have f1: "sst_file_of (level_dir cfg l) p \<longleftrightarrow> l = 1" if "p \<in> set (paths_of l1)" for p
  proof -
    have "p \<in> range (make_path (level_dir cfg 1) 1)" using p(2) that by (rule subsetD)
    then obtain s where "p = make_path (level_dir cfg 1) 1 s" by (rule rangeE)
    then show ?thesis using assms(3) by (simp only: sst_file_of_output)
  qed
  have "{p \<in> set (paths_of (concat levs)). sst_file_of (level_dir cfg l) p} =
      (if l = 0 then set (paths_of l0) else {}) \<union> (if l = 1 then set (paths_of l1) else {})"
    using f0 f1 unfolding levs p(3,4) by (cases "l = 0"; cases "l = 1") (auto simp del: set_map)
  also have "\<dots> = set (paths_of (levs ! l))"
    using assms(3) unfolding levs p(3,4) by (cases "l = 0"; cases "l = 1") (auto simp: less_Suc_eq numeral_eq_Suc)
  finally show ?thesis .
qed

lemma loaded_level:
  assumes "placed cfg levs" and "length levs = 4" and "l < 4" and "distinct (paths_of (concat levs))"
    and "dom (map_of d) = set (paths_of (concat levs))"
  shows "mset (loaded cfg d (concat levs) l) = mset (levs ! l)"
proof -
  let ?h = "concat levs" and ?ps = "filter (sst_file_of (level_dir cfg l)) (remdups (map fst d))"
  have sp: "set ?ps = set (paths_of (levs ! l))"
    using assms(5) placed_files [OF assms(1-3)] by (auto simp: dom_map_of_conv_image_fst)
  have sub: "set (levs ! l) \<subseteq> set ?h" using assms(2,3) by (auto intro!: bexI [of _ "levs ! l"])
  have at: "table_at ?h (sr_path (fst rb)) = rb" if "rb \<in> set (levs ! l)" for rb
    using table_at_path [OF assms(4)] sub that by blast
  have "set (map (table_at ?h) ?ps) = table_at ?h ` set (paths_of (levs ! l))" unfolding set_map sp ..
  also have "\<dots> = set (levs ! l)" using at by (force simp: image_iff)
  finally have s: "set (map (table_at ?h) ?ps) = set (levs ! l)" .
  have inj: "inj_on (table_at ?h) (set ?ps)"
    unfolding sp by (rule inj_on_inverseI [where g = "\<lambda>rb. sr_path (fst rb)"]) (use at in auto)
  have "distinct (map (table_at ?h) ?ps)" using inj by (simp add: distinct_map)
  moreover have "distinct (levs ! l)"
  proof -
    have "distinct (concat levs)" using assms(4) unfolding distinct_map by blast
    then show ?thesis using assms(2,3) by (auto simp: distinct_concat_iff)
  qed
  ultimately have "mset (map (table_at ?h) ?ps) = mset (levs ! l)"
    using s by (simp only: set_eq_iff_mset_eq_distinct)
  then show ?thesis by (simp add: loaded_def)
qed

definition loaded_levels :: "db_config \<Rightarrow> dir \<Rightarrow> history \<Rightarrow> history list" where
  "loaded_levels cfg d h = map (loaded cfg d h) [0..<4]"

lemma loaded_levels_spec:
  assumes op: "opens os" and st: "db_holds st h act imms levs"
  defines "levs' \<equiv> loaded_levels (db_cfg st) (db_tables st) (concat levs)"
  shows "map (load_level os (db_cfg st) (db_tables st)) [0..<db_kMaxLevels] = map infos_of levs'"
    and "\<forall>l < 4. mset (levs' ! l) = mset (levs ! l)" and "length levs' = 4"
proof -
  have i: "tables_on (db_tables st) (concat levs)" "distinct (paths_of (concat levs))"
      "dom (map_of (db_tables st)) = set (paths_of (concat levs))" "placed (db_cfg st) levs" "length levs = 4"
    using st unfolding db_holds_def by blast+
  show "map (load_level os (db_cfg st) (db_tables st)) [0..<db_kMaxLevels] = map infos_of levs'"
    using load_level_loaded [OF op i(1-3)] by (simp add: levs'_def loaded_levels_def db_kMaxLevels_def del: map_map)
      (simp add: comp_def)
  show "\<forall>l < 4. mset (levs' ! l) = mset (levs ! l)"
    using loaded_level [OF i(4,5) _ i(2,3)] by (simp add: levs'_def loaded_levels_def)
  show "length levs' = 4" by (simp add: levs'_def loaded_levels_def)
qed

lemma levels_mset:
  assumes "length levs = 4" and "length levs' = 4" and "\<forall>l < 4. mset (levs' ! l) = mset (levs ! l)"
  shows "mset (concat levs') = mset (concat levs)" and "placed cfg levs \<Longrightarrow> placed cfg levs'"
proof -
  obtain l0 l1 l2 l3 where levs: "levs = [l0, l1, l2, l3]" using history4 [OF assms(1)] by blast
  obtain m0 m1 m2 m3 where levs': "levs' = [m0, m1, m2, m3]" using history4 [OF assms(2)] by blast
  have m: "mset m0 = mset l0" "mset m1 = mset l1" "mset m2 = mset l2" "mset m3 = mset l3"
    using assms(3) [rule_format, of 0] assms(3) [rule_format, of 1] assms(3) [rule_format, of 2]
      assms(3) [rule_format, of 3] by (simp_all add: levs levs')
  then show "mset (concat levs') = mset (concat levs)" by (simp add: levs levs')
  show "placed cfg levs \<Longrightarrow> placed cfg levs'"
    using m mset_eq_setD [OF m(1)] mset_eq_setD [OF m(2)] by (simp add: placed_def levs levs')
qed

section \<open>The log and the symbols\<close>

text \<open>What the log directory of a disk replays to; a database without a log has nothing there.\<close>

definition replays :: "db_config \<Rightarrow> disk \<Rightarrow> event list \<Rightarrow> bool" where
  "replays cfg dk es \<longleftrightarrow>
     (if wal_enabled cfg then \<exists>w segs. dk_wal dk = Some (wal_dir w) \<and> wal_inv w segs \<and> concat segs = es else es = [])"

lemma open_wal_replays:
  assumes "opens os" and "wal_inv w segs"
  shows "\<exists>w' recs. open_wal os cfg (Some (wal_dir w)) = (Inr w', recs) \<and> map rec_event recs = concat segs \<and>
    log_holds (Some w') (concat segs)"
proof -
  have d: "wal_dir_is (wal_dir w) segs []" "segs \<noteq> []" using assms(2) by (simp_all add: wal_inv_def)
  obtain r w' where w': "wal_writer os (wal_segment_bytes cfg) (wal_dir w) = (r, w')" by fastforce
  have i: "r = Inr ()" "wal_inv w' segs"
    using wal_writer_reopen(1) [OF assms(1) d, of "wal_segment_bytes cfg"]
      wal_writer_reopen_inv [OF assms(1) d, of "wal_segment_bytes cfg"] unfolding w' by simp_all
  have "open_wal os cfg (Some (wal_dir w)) = (Inr w', all_records segs)"
    using read_all_clean [OF d] by (simp add: open_wal_def w' i(1) no_records_def)
  moreover have "log_holds (Some w') (concat segs)"
    using i(2) wal_events_inv [OF i(2)] by (auto simp: log_holds_def wal_ok_def)
  ultimately show ?thesis by (intro exI [of _ w'] exI [of _ "all_records segs"]) simp
qed

lemma replays_wf: "replays cfg dk es \<Longrightarrow> list_all event_wf es"
  by (auto simp: replays_def wal_inv_def wal_dir_is_def list_all_iff split: if_splits)

text \<open>The symbol file of a disk yields the names of a table.\<close>

definition names_on :: "os \<Rightarrow> db_config \<Rightarrow> disk \<Rightarrow> symtab \<Rightarrow> bool" where
  "names_on os cfg dk sy \<longleftrightarrow> (let sy' = symtab_new os (cfg_path cfg @ ''/symbol_table.bin'') (dk_symbols dk) in
     names_good sy' \<and> map_of (name_to_id sy') = map_of (name_to_id sy) \<and> next_id sy' = next_id sy)"

lemma names_on_left:
  assumes os: "os_good os" and sy: "names_good sy" and order: "\<forall>xs. mset (order xs) = mset xs"
    and dk: "dk_symbols dk = st_file sy \<or> dk_symbols dk = st_file (snd (symtab_flush os order sy))"
  shows "names_on os cfg dk sy"
  using symtab_reload [OF _ _ os order dk, of "cfg_path cfg @ ''/symbol_table.bin''"] sy
  by (simp add: names_on_def names_good_def Let_def)

section \<open>Opening again\<close>

text \<open>
  The new database has the tables of the old one in its levels, the whole log in its active
  memtable, and the numbers of the symbols; it counts tables from 1 again, and events from
  the last record of the log on.
\<close>

definition next_seq_after :: "event list \<Rightarrow> u64" where
  "next_seq_after es = (if es = [] then 1 else sequence_id (last es) + 1)"

definition reopened :: "db \<Rightarrow> event list \<Rightarrow> db \<Rightarrow> history list \<Rightarrow> db \<Rightarrow> bool" where
  "reopened st es st0 levs' st' \<longleftrightarrow>
     db_cfg st' = db_cfg st \<and> \<not> db_closed st' \<and> log_holds (db_wal st') es \<and> (db_wal st' = None) = (\<not> wal_enabled (db_cfg st)) \<and>
     names_good (db_symbols st') \<and> (\<forall>name. symtab_lookup name (db_symbols st') = symtab_lookup name (db_symbols st)) \<and>
     next_id (db_symbols st') = next_id (db_symbols st) \<and>
     db_next_seq st' = next_seq_after es \<and> db_sst_seq st' = 1 \<and> db_tables st' = db_tables st0 \<and>
     db_io st' = fresh_io (Some (block_cache_bytes (db_cfg st))) \<and>
     db_holds st' (concat levs') (fold event_upsert es []) [] levs'"

lemma rec_event_last: "recs \<noteq> [] \<Longrightarrow> map rec_event recs = es \<Longrightarrow> sequence_id (rec_event (last recs)) = sequence_id (last es)"
  by (auto simp: last_map)

lemma fold_upsert_subset: "sorted_events xs \<Longrightarrow> set (fold event_upsert es xs) \<subseteq> set es \<union> set xs"
proof (induction es arbitrary: xs)
  case (Cons e es)
  then show ?case using Cons.IH [OF sorted_event_upsert [OF Cons.prems]] set_event_upsert [OF Cons.prems] by auto
qed simp

lemma db_open_eq:
  assumes op: "opens os" and rp: "replays cfg dk es"
  shows "\<exists>w m. db_open os rng cfg dk = Some (Inr
     \<lparr>db_cfg = cfg, db_closed = False, db_symbols = symtab_new os (cfg_path cfg @ ''/symbol_table.bin'') (dk_symbols dk),
      db_wal = w, db_io = fresh_io (Some (block_cache_bytes cfg)), db_active = Some m, db_imm = [],
      db_levels = map (load_level os cfg (dk_tables dk)) [0..<db_kMaxLevels], db_next_seq = next_seq_after es, db_sst_seq = 1,
      db_tables = dk_tables dk, db_counters = counters_zero\<rparr>) \<and>
    memtable_rel m (fold event_upsert es []) \<and> log_holds w es \<and> (w = None) = (\<not> wal_enabled cfg)"
proof (cases "wal_enabled cfg")
  case False
  then have "es = []" using rp by (simp add: replays_def)
  then show ?thesis using False memtable_rel_new
    by (intro exI [of _ None] exI [of _ "memtable_new (memtable_flush_bytes cfg)"])
      (simp add: db_open_def Let_def next_seq_after_def log_holds_def)
next
  case True
  then obtain w0 segs where w0: "dk_wal dk = Some (wal_dir w0)" "wal_inv w0 segs" "concat segs = es"
    using rp by (auto simp: replays_def)
  obtain w recs where w: "open_wal os cfg (dk_wal dk) = (Inr w, recs)" "map rec_event recs = es" "log_holds (Some w) es"
    using open_wal_replays [OF op w0(2), of cfg] unfolding w0(1,3) by blast
  obtain m where m: "memtable_insert_all rng es (memtable_new (memtable_flush_bytes cfg)) = Some m" "memtable_rel m (fold event_upsert es [])"
    using memtable_insert_all_spec [OF memtable_rel_new] by blast
  have "recs = [] \<longleftrightarrow> es = []" unfolding w(2) [symmetric] by simp
  then have "(if recs = [] then 1 else sequence_id (rec_event (last recs)) + 1) = next_seq_after es"
    using rec_event_last [OF _ w(2)] by (simp add: next_seq_after_def)
  then show ?thesis using True w m
    by (intro exI [of _ "Some w"] exI [of _ m]) (simp add: db_open_def Let_def)
qed

lemma db_reopen_spec:
  assumes os: "os_good os" and st: "db_holds st h act imms levs" and sy: "names_on os (db_cfg st) dk (db_symbols st)"
    and tb: "dk_tables dk = db_tables st" and rp: "replays (db_cfg st) dk es"
  shows "\<exists>st' levs'. db_open os rng (db_cfg st) dk = Some (Inr st') \<and> reopened st es st levs' st' \<and>
    length levs' = 4 \<and> (\<forall>l < 4. mset (levs' ! l) = mset (levs ! l))"
proof -
  have op: "opens os" using os by simp
  let ?cfg = "db_cfg st" and ?levs = "loaded_levels (db_cfg st) (db_tables st) (concat levs)"
  note lv = loaded_levels_spec [OF op st]
  have i: "tables_on (db_tables st) (concat levs)" "distinct (paths_of (concat levs))" "history_ok h" "set (concat levs) \<subseteq> set h"
      "dom (map_of (db_tables st)) = set (paths_of (concat levs))" "placed ?cfg levs" "length levs = 4"
    using st unfolding db_holds_def by blast+
  note lm = levels_mset [OF i(7) lv(3,2)]
  obtain w m where o: "db_open os rng ?cfg dk = Some (Inr
     \<lparr>db_cfg = ?cfg, db_closed = False, db_symbols = symtab_new os (cfg_path ?cfg @ ''/symbol_table.bin'') (dk_symbols dk),
      db_wal = w, db_io = fresh_io (Some (block_cache_bytes ?cfg)), db_active = Some m, db_imm = [],
      db_levels = map infos_of ?levs, db_next_seq = next_seq_after es, db_sst_seq = 1,
      db_tables = db_tables st, db_counters = counters_zero\<rparr>)" (is "_ = Some (Inr ?st')")
      "memtable_rel m (fold event_upsert es [])" "log_holds w es" "(w = None) = (\<not> wal_enabled ?cfg)"
    using db_open_eq [OF op rp, of rng] unfolding tb lv(1) by (elim exE conjE) (rule that, assumption+)
  have ts: "tables_on (db_tables st) (concat ?levs)" "set (concat ?levs) = set (concat levs)"
    using i(1) mset_eq_setD [OF lm(1)] unfolding tables_on_def by simp_all
  have dp: "distinct (paths_of (concat ?levs))"
    using i(2) mset_eq_imp_distinct_iff [of "paths_of (concat ?levs)" "paths_of (concat levs)"]
    unfolding mset_map lm(1) by blast
  have hk: "history_ok (concat ?levs)"
    using dp i(3,4) ts(2) by (auto simp: history_ok_def comp_def)
  have wf: "list_all event_wf (fold event_upsert es [])"
    using fold_upsert_subset [of "[]" es] replays_wf [OF rp] by (auto simp: list_all_iff)
  have "db_holds ?st' (concat ?levs) (fold event_upsert es []) [] ?levs"
    using o(2) ts dp hk wf lv(3) i(5) lm(2) [OF i(6)] by (simp add: db_holds_def)
  then have "reopened st es st ?levs ?st'"
    using o(3,4) sy by (simp add: reopened_def names_on_def Let_def symtab_lookup_def)
  then show ?thesis using o(1) lv(2,3) by blast
qed

section \<open>What a query returns afterwards\<close>

text \<open>As \<open>answers\<close>, but an event may be there twice.\<close>

definition answers_twice :: "query_request \<Rightarrow> client_log \<Rightarrow> event list \<Rightarrow> bool" where
  "answers_twice req cl rows \<longleftrightarrow>
     (let matching = mset (map snd (filter (matches req) (appended cl))) in
      \<exists>es. map erase rows = take (query_limit req) es \<and> mset es \<subseteq># matching + matching \<and>
        mset (map snd (filter (\<lambda>x. matches req x \<and> not_removed cl x) (appended cl))) \<subseteq># mset es)"

lemma kept_answers_twice:
  assumes k: "kept en A" "kept en B" and en: "entries_ok en" and sid: "en_names en (rq_symbol req) = Some sid"
    and all: "mset all \<subseteq># A + B" "A \<subseteq># mset all" and rows: "rows = take (query_limit req) (filter (selects req sid) all)"
  shows "answers_twice req (client_of en) rows"
  unfolding answers_twice_def client_matching [OF en sid] Let_def
proof (intro exI conjI)
  let ?log = "map snd (en_log en)" and ?S = "selects req sid"
  show "map erase rows = take (query_limit req) (map erase (filter ?S all))" by (simp add: rows take_map)
  have "mset (filter ?S all) \<subseteq># filter_mset ?S A + filter_mset ?S B"
    using multiset_filter_mono [OF all(1), of ?S] by simp
  also have "\<dots> \<subseteq># mset (filter ?S ?log) + mset (filter ?S ?log)"
    by (intro subset_mset.add_mono kept_above k)
  finally show "mset (map erase (filter ?S all)) \<subseteq># image_mset erase (mset (filter ?S ?log)) + image_mset erase (mset (filter ?S ?log))"
    using image_mset_subseteq_mono by fastforce
  have "mset (filter (\<lambda>e. ?S e \<and> \<not> entry_removed en e) ?log) \<subseteq># filter_mset ?S A" by (rule kept_below [OF k(1) en])
  also have "\<dots> \<subseteq># mset (filter ?S all)" using multiset_filter_mono [OF all(2), of ?S] by simp
  finally show "image_mset erase (mset (filter (\<lambda>e. ?S e \<and> \<not> entry_removed en e) ?log)) \<subseteq># mset (map erase (filter ?S all))"
    using image_mset_subseteq_mono by fastforce
qed

lemma contents_reopened:
  assumes "length levs = 4" and "length levs' = 4" and "\<forall>l < 4. mset (levs' ! l) = mset (levs ! l)"
  shows "contents act' [] levs' = mset act' + mset (concat (events_of (concat levs)))"
proof -
  have "mset (concat (events_of (concat levs'))) = mset (concat (events_of (concat levs)))"
    unfolding mset_events_of using levels_mset(1) [OF assms] by simp
  then show ?thesis by (simp add: contents_eq rest_of_def)
qed

lemma reopened_query:
  assumes os: "os_good os" and at: "run_at cfg k st lg rm h act imms levs"
    and re: "reopened st es st levs' st'" and lv: "length levs' = 4" "\<forall>l < 4. mset (levs' ! l) = mset (levs ! l)"
    and kp: "kept (entries_of st lg rm) (mset (fold event_upsert es []))"
  shows "\<exists>r st2. db_query os req st' = Some (Inr r, st2) \<and> answers_twice req (client lg rm) (qr_rows r)"
proof -
  have i: "entries_ok (entries_of st lg rm)" "kept (entries_of st lg rm) (contents act imms levs)" "length levs = 4"
    using at unfolding run_at_def db_holds_def by blast+
  have r: "db_holds st' (concat levs') (fold event_upsert es []) [] levs'" "\<not> db_closed st'"
      "symtab_lookup (rq_symbol req) (db_symbols st') = symtab_lookup (rq_symbol req) (db_symbols st)"
    using re by (simp_all add: reopened_def)
  show ?thesis
  proof (cases "symtab_lookup (rq_symbol req) (db_symbols st)")
    case None
    obtain es0 where "take (query_limit req) es0 = ([] :: event list)" "mset es0 \<subseteq># mset (map snd (filter (matches req) (appended (client lg rm))))"
        "mset (map snd (filter (\<lambda>x. matches req x \<and> not_removed (client lg rm) x) (appended (client lg rm)))) \<subseteq># mset es0"
      using no_answers [OF i(1), of req] None client_of_entries [of st lg rm] by (auto simp: answers_def entries_of_def)
    then have "answers_twice req (client lg rm) []"
      unfolding answers_twice_def Let_def by (intro exI [of _ es0]) (simp add: subset_mset.add_increasing)
    then show ?thesis using query_unknown [OF r(2), of req os] None r(3) by fastforce
  next
    case (Some sid)
    let ?all = "concat (sources (fold event_upsert es []) [] levs')"
    obtain res io where q: "db_query os req st' = Some (Inr res, st'\<lparr>db_io := io\<rparr>)"
        "qr_rows res = take (query_limit req) (filter (selects req sid) ?all)"
      using query_selects [OF os r(1,2)] Some r(3) by fastforce
    have all: "mset ?all = mset (fold event_upsert es []) + mset (concat (events_of (concat levs)))"
      using contents_reopened [OF i(3) lv, of "fold event_upsert es []"] by (simp add: contents_def)
    have sub: "mset (concat (events_of (concat levs))) \<subseteq># contents act imms levs"
      by (simp add: contents_eq rest_of_def)
    have sid: "en_names (entries_of st lg rm) (rq_symbol req) = Some sid" using Some by (simp add: entries_of_def)
    have "answers_twice req (client_of (entries_of st lg rm)) (qr_rows res)"
      by (rule kept_answers_twice [OF kp i(2,1) sid _ _ q(2)]) (use sub in \<open>simp_all add: all\<close>)
    then show ?thesis using q(1) unfolding client_of_entries by blast
  qed
qed

lemma logged_replays:
  assumes "logged st lg rm" and "dk_wal dk = map_option wal_dir (db_wal st)" and "wal_enabled (db_cfg st)"
  shows "\<exists>es. replays (db_cfg st) dk es \<and> kept (entries_of st lg rm) (mset (fold event_upsert es []))"
proof -
  obtain es where es: "log_holds (db_wal st) es" "kept (entries_of st lg rm) (mset (fold event_upsert es []))"
      "(db_wal st = None) = (\<not> wal_enabled (db_cfg st))"
    using assms(1) unfolding logged_def by (elim conjE exE) (rule that)
  obtain w where w: "db_wal st = Some w" using es(3) assms(3) by auto
  obtain segs where "wal_inv w segs" using es(1) by (auto simp: w log_holds_def wal_ok_def)
  then have "replays (db_cfg st) dk es"
    using es(1) wal_events_inv assms(2,3) by (auto simp: replays_def w log_holds_def)
  then show ?thesis using es(2) by blast
qed

text \<open>A database whose process died, opened again.\<close>

lemma run_reopen:
  assumes os: "os_good os" and at: "run_at cfg k st lg rm h act imms levs" and wal: "wal_enabled cfg"
  shows "\<exists>es st1 levs'. db_open os rng cfg (disk_of st) = Some (Inr st1) \<and> reopened st es st levs' st1 \<and>
    length levs' = 4 \<and> (\<forall>l < 4. mset (levs' ! l) = mset (levs ! l)) \<and>
    kept (entries_of st lg rm) (mset (fold event_upsert es []))"
proof -
  have i: "db_cfg st = cfg" "names_good (db_symbols st)" "logged st lg rm" "db_holds st h act imms levs"
    using at unfolding run_at_def by blast+
  obtain es where es: "replays (db_cfg st) (disk_of st) es" "kept (entries_of st lg rm) (mset (fold event_upsert es []))"
    using logged_replays [OF i(3), of "disk_of st"] wal i(1) by (auto simp: disk_of_def)
  have "names_on os (db_cfg st) (disk_of st) (db_symbols st)"
    by (rule names_on_left [OF os i(2), of "\<lambda>xs. xs"]) (simp_all add: disk_of_def)
  moreover have "dk_tables (disk_of st) = db_tables st" by (simp add: disk_of_def)
  ultimately show ?thesis using db_reopen_spec [OF os i(4) _ _ es(1)] es(2) unfolding i(1) by blast
qed

section \<open>Properties\<close>



end
