(* ===== verification/DBRestart.thy ===== *)
theory DBRestart
  imports DBReopen
begin

text \<open>
  What a restart costs: events that were flushed are returned twice when the log is replayed
  over their tables, and without a log the first flush after a restart writes over the first
  table of the time before.
\<close>

section \<open>One event, flushed\<close>

text \<open>With a single event in the memtables, a flush writes one table.\<close>

lemma flush_one:
  assumes st: "db_holds st h act imms levs" and i: "inserted e [] [] act imms"
  shows "\<exists>m a. memtable_rel m [e] \<and> memtable_rel a [] \<and>
    flush_now os nf st = do_flush os nf m (db_sst_seq st)
      (st\<lparr>db_active := Some a, db_imm := [], db_sst_seq := db_sst_seq st + 1\<rparr>)"
proof -
  have u: "event_upsert e [] = [e]" by (simp add: event_upsert_def)
  obtain m0 where m0: "db_active st = Some m0" "memtable_rel m0 act" using st unfolding db_holds_def by blast
  have rel: "list_all2 memtable_rel (db_imm st) imms" using st unfolding db_holds_def by blast
  have tail: "(do { (r, st') \<leftarrow> x; case r of Inl ex \<Rightarrow> Some (Inl ex, st') | Inr _ \<Rightarrow> Some (Inr (), st') }) = x"
    for x :: "((exn + unit) \<times> db) option"
    by (cases x) (auto split: sum.split)
  show ?thesis
  proof (cases "imms = []")
    case True
    then have "act = [e]" using i u by (auto simp: inserted_def)
    then show ?thesis
      using m0 rel True memtable_rel_new [of "memtable_flush_bytes (db_cfg st)"] memtable_empty_spec [OF m0(2)] tail
      by - (rule exI [of _ m0], rule exI [of _ "memtable_new (memtable_flush_bytes (db_cfg st))"],
        simp add: flush_now_def rotate_active_def Let_def cong: sum.case_cong)
  next
    case False
    then have ai: "act = []" "imms = [[e]]" using i u by (auto simp: inserted_def)
    then obtain m where m: "db_imm st = [m]" "memtable_rel m [e]" using rel by (auto simp: list_all2_Cons2)
    have st_eq: "st\<lparr>db_imm := [], db_sst_seq := db_sst_seq st + 1\<rparr> =
        st\<lparr>db_active := Some m0, db_imm := [], db_sst_seq := db_sst_seq st + 1\<rparr>" using m0(1) by simp
    show ?thesis
      using m0 m ai memtable_empty_spec [OF m0(2)] tail
      by - (rule exI [of _ m], rule exI [of _ m0],
        simp add: flush_now_def rotate_active_def Let_def cong: sum.case_cong flip: st_eq)
  qed
qed

lemma db_open_sst_seq: "db_open os rng cfg dk = Some (Inr st) \<Longrightarrow> db_sst_seq st = 1"
  by (auto simp: db_open_def Let_def bind_eq_Some_conv split: if_splits prod.splits sum.splits)

text \<open>An append does not read any table.\<close>

lemma db_append_io: "db_append os rng name a st = Some (r, st') \<Longrightarrow> db_io st' = db_io st"
  by (auto simp: db_append_def log_event_def insert_active_def Let_def bind_eq_Some_conv
      split: if_splits prod.splits sum.splits option.splits)

text \<open>A state whose only event is in the only table, under the first name a flush uses.\<close>

definition one_table :: "db_config \<Rightarrow> db \<Rightarrow> string \<Rightarrow> event \<Rightarrow> sst_reader \<Rightarrow> event list list \<Rightarrow> bool" where
  "one_table cfg st name e r bs \<longleftrightarrow>
     db_holds st [(r, bs)] [] [] [[(r, bs)], [], [], []] \<and> sr_path r = flush_path cfg 1 \<and> concat bs = [e] \<and>
     symtab_lookup name (db_symbols st) = Some (symbol_id e) \<and> names_good (db_symbols st) \<and>
     unat (next_id (db_symbols st)) \<le> 2 \<and> db_cfg st = cfg \<and> \<not> db_closed st \<and>
     log_holds (db_wal st) [e] \<and> (db_wal st = None) = (\<not> wal_enabled cfg)"

lemma append_then_flush:
  assumes os: "os_good os" and nf: "\<forall>n. bloom_wf (nf n)" and t: "block_target_bytes cfg < 2 ^ 32"
    and ok: "length name < 2 ^ 16" "event_type_wf (aa_event_type a)"
  shows "\<exists>st0 r1 st1 st2 e r bs. db_open os rng cfg empty_disk = Some (Inr st0) \<and> db_append os rng name a st0 = Some (Inr r1, st1) \<and>
    flush_now os nf st1 = Some (Inr (), st2) \<and> one_table cfg st2 name e r bs \<and> e = append_event a (symbol_id e) 1"
proof -
  have op: "os_progress os" using os by (simp add: os_progress_def)
  obtain st0 where o: "db_open os rng cfg empty_disk = Some (Inr st0)" "run_at cfg 0 st0 [] [] [] [] [] [[], [], [], []]"
    using db_open_fresh [OF os] by blast
  have i: "db_cfg st0 = cfg" "\<not> db_closed st0" "names_good (db_symbols st0)" "unat (next_id (db_symbols st0)) \<le> 1"
      "db_next_seq st0 = 1" "db_holds st0 [] [] [] [[], [], [], []]" "logged st0 [] []"
    using o(2) by (simp_all add: run_at_def)
  have l: "log_holds (db_wal st0) []" "(db_wal st0 = None) = (\<not> wal_enabled cfg)"
    using i(1,7) by (auto simp: logged_def)
  have nx: "unat (next_id (db_symbols st0)) < 2 ^ 32 - 1" using i(4) by simp
  obtain r1 st1 sid act imms where a: "db_append os rng name a st0 = Some (Inr r1, st1)"
      "symtab_lookup name (db_symbols st1) = Some sid" "wrote (append_event a sid 1) st0 st1"
      "db_holds st1 [] act imms [[], [], [], []]" "inserted (append_event a sid 1) [] [] act imms"
    using db_append_spec [OF os i(6,2) l(1) i(3) ok(1) nx ok(2), of rng] unfolding i(5) by (elim exE conjE) (rule that)
  let ?e = "append_event a sid 1"
  note w = a(3) [unfolded wrote_def i(1)]
  have e: "event_wf ?e" using ok(2) by (simp add: append_event_def event_wf_def)
  have s1: "db_sst_seq st1 = 1" using w db_open_sst_seq [OF o(1)] by simp
  obtain m m' where f: "memtable_rel m [?e]" "memtable_rel m' []"
      "flush_now os nf st1 = do_flush os nf m 1 (st1\<lparr>db_active := Some m', db_imm := [], db_sst_seq := 2\<rparr>)"
    using flush_one [OF a(4,5), of os nf] unfolding s1 by auto
  let ?st = "st1\<lparr>db_active := Some m', db_imm := [], db_sst_seq := 2\<rparr>"
  have h: "db_holds ?st [] [] [] [[], [], [], []]" using a(4) f(2) by (simp add: db_holds_def)
  obtain ts d lv cn where g: "do_flush os nf m 1 ?st = Some (Inr (), ?st\<lparr>db_tables := d, db_levels := lv, db_counters := cn\<rparr>)"
      "db_holds (?st\<lparr>db_tables := d, db_levels := lv, db_counters := cn\<rparr>) ([] @ ts) [] [] [ts, [], [], []]"
      "set (paths_of ts) \<subseteq> {flush_path cfg 1}" "events_of ts = [[?e]]"
    using do_flush_spec [OF op nf _ h, of 1 m "[?e]"] t f(1) e w by auto
  obtain r bs where ts: "ts = [(r, bs)]" "concat bs = [?e]" using g(4) by auto
  have "one_table cfg (?st\<lparr>db_tables := d, db_levels := lv, db_counters := cn\<rparr>) name ?e r bs"
    using g(2,3) ts a(2) w i(2,4) l by (auto simp: one_table_def append_event_symbol names_kept_def)
  then show ?thesis using o(1) a(1) f(3) g(1) append_event_symbol by metis
qed

section \<open>The restart\<close>

lemma disk_replays:
  assumes "wal_enabled (db_cfg st)" and "(db_wal st = None) = (\<not> wal_enabled (db_cfg st))" and "log_holds (db_wal st) es"
  shows "replays (db_cfg st) (disk_of st) es"
proof -
  obtain w where w: "db_wal st = Some w" using assms(1,2) by auto
  then obtain segs where s: "wal_inv w segs" "concat segs = es"
    using assms(3) wal_events_inv by (auto simp: log_holds_def wal_ok_def)
  have "dk_wal (disk_of st) = Some (wal_dir w)" by (simp add: disk_of_def w)
  then show ?thesis using assms(1) s unfolding replays_def by (simp only: if_True) blast
qed

lemma disk_names: "os_good os \<Longrightarrow> names_good (db_symbols st) \<Longrightarrow> names_on os cfg (disk_of st) (db_symbols st)"
  by (rule names_on_left [where order = "\<lambda>xs. xs"]) (simp_all add: disk_of_def)

lemma levels_one:
  fixes x :: "sst_reader \<times> event list list"
  assumes "length levs' = 4" and "\<forall>l < 4. mset (levs' ! l) = mset ([[x], [], [], []] ! l)"
  shows "levs' = [[x], [], [], []]"
proof -
  obtain l0 l1 l2 l3 where l: "levs' = [l0, l1, l2, l3]" using history4 [OF assms(1)] by blast
  have "mset l0 = {#x#}" "mset l1 = {#}" "mset l2 = {#}" "mset l3 = {#}"
    using assms(2) [rule_format, of 0] assms(2) [rule_format, of 1] assms(2) [rule_format, of 2]
      assms(2) [rule_format, of 3] by (simp_all add: l)
  then show ?thesis by (simp add: l)
qed

lemma reopen_one_table:
  assumes os: "os_good os" and st: "one_table cfg st name e r bs"
  defines "es \<equiv> if wal_enabled cfg then [e] else []"
  shows "\<exists>st'. db_open os rng cfg (disk_of st) = Some (Inr st') \<and> reopened st es st [[(r, bs)], [], [], []] st' \<and>
    symtab_lookup name (db_symbols st') = Some (symbol_id e)"
proof -
  have i: "db_holds st [(r, bs)] [] [] [[(r, bs)], [], [], []]" "names_good (db_symbols st)" "db_cfg st = cfg"
      "log_holds (db_wal st) [e]" "(db_wal st = None) = (\<not> wal_enabled cfg)" "symtab_lookup name (db_symbols st) = Some (symbol_id e)"
    using st unfolding one_table_def by blast+
  have n: "names_on os (db_cfg st) (disk_of st) (db_symbols st)" by (rule disk_names [OF os i(2)])
  have t: "dk_tables (disk_of st) = db_tables st" by (simp add: disk_of_def)
  have rp: "replays (db_cfg st) (disk_of st) es"
    using disk_replays [of st "[e]"] i(3-5) by (cases "wal_enabled cfg") (simp_all add: es_def replays_def)
  obtain st' levs' where re: "db_open os rng (db_cfg st) (disk_of st) = Some (Inr st')" "reopened st es st levs' st'"
      "length levs' = 4" "\<forall>l < 4. mset (levs' ! l) = mset ([[(r, bs)], [], [], []] ! l)"
    using db_reopen_spec [OF os i(1) n t rp, of rng] by blast
  have "levs' = [[(r, bs)], [], [], []]" by (rule levels_one [OF re(3,4)])
  moreover have "symtab_lookup name (db_symbols st') = Some (symbol_id e)" using re(2) i(6) by (simp add: reopened_def)
  ultimately show ?thesis using re(1,2) unfolding i(3) by blast
qed

text \<open>The query of a request that asks for the event by its name.\<close>

lemma matches_selects:
  "matches req (rq_symbol req, erase e) \<longleftrightarrow> selects req (symbol_id e) e"
  by (auto simp: matches_def selects_def in_range_query)

lemma one_table_query:
  assumes os: "os_good os" and st: "one_table cfg st (rq_symbol req) e r bs" and m: "selects req (symbol_id e) e"
  shows "\<exists>q st'. db_query os req st = Some (Inr q, st') \<and> qr_rows q = [e]"
proof -
  have i: "db_holds st [(r, bs)] [] [] [[(r, bs)], [], [], []]" "\<not> db_closed st" "concat bs = [e]"
      "symtab_lookup (rq_symbol req) (db_symbols st) = Some (symbol_id e)"
    using st unfolding one_table_def by blast+
  obtain q io where "db_query os req st = Some (Inr q, st\<lparr>db_io := io\<rparr>)"
      "qr_rows q = take (query_limit req) (filter (selects req (symbol_id e)) (concat (sources [] [] [[(r, bs)], [], [], []])))"
    using query_selects [OF os i(1,2,4)] by blast
  then show ?thesis using m query_limit_pos [of req] i(3) by (auto simp: sources_def)
qed

section \<open>A table written over another\<close>

lemma query_files_only:
  assumes op: "opens os" and h: "history_ok h" "(r, bs) \<in> set h" and t: "table_on d r bs"
  shows "\<forall>info \<in> set infos. si_path info = sr_path r \<Longrightarrow> io_backed h io \<Longrightarrow> acc_ok limit acc \<Longrightarrow>
    \<exists>acc' qs' io'. query_files os d infos lo hi (filter_and_collect ty limit) (acc, qs, io) = (acc', qs', io') \<and>
      set (qa_rows acc') \<subseteq> set (qa_rows acc) \<union> set (concat bs)"
proof (induction infos arbitrary: acc qs io)
  case (Cons info infos)
  let ?cb = "filter_and_collect ty limit"
  have si: "si_path (sr_info r) = sr_path r" using t by (simp add: table_on_def)
  have "sst_reader_new os (si_path (sr_info r)) d = Inr r" using table_on_open [OF t] op by blast
  then have rd: "sst_reader_new os (si_path info) d = Inr r" using Cons.prems(1) si by simp
  show ?case
  proof (cases "qa_done acc \<or> \<not> may_contain info lo hi")
    case True
    then show ?thesis using Cons by (auto simp: Let_def)
  next
    case False
    define acc1 where "acc1 = snd (run_cb ?cb (filter (in_range lo hi) (concat bs)) acc)"
    have a1: "acc_ok limit acc1" "set (qa_rows acc1) \<subseteq> set (qa_rows acc) \<union> set (concat bs)"
      using run_collect [OF Cons.prems(3), of ty "filter (in_range lo hi) (concat bs)"]
      by (auto simp: acc1_def dest: in_set_takeD)
    obtain io1 where sc: "sst_scan r lo hi ?cb acc io = (Inr (), acc1, io1)" "io_backed h io1"
      using scan_backed [OF h Cons.prems(2), of lo hi ?cb acc] unfolding acc1_def by blast
    have pr: "\<forall>info \<in> set infos. si_path info = sr_path r" using Cons.prems(1) by simp
    obtain acc' qs' io' where q: "query_files os d infos lo hi ?cb (acc1, qs\<lparr>qs_files_considered := qs_files_considered qs + 1,
          qs_blocks_read := qs_blocks_read qs + max 1 ((qa_rows_scanned acc1 - qa_rows_scanned acc + 983) div 984)\<rparr>, io1) = (acc', qs', io')"
        "set (qa_rows acc') \<subseteq> set (qa_rows acc1) \<union> set (concat bs)"
      using Cons.IH [OF pr sc(2) a1(1)] by metis
    have "query_files os d (info # infos) lo hi ?cb (acc, qs, io) = (acc', qs', io')"
      using False rd sc(1) q(1) by (simp add: Let_def)
    then show ?thesis using q(2) a1(2) by blast
  qed
qed simp

text \<open>A flush under a name that is taken replaces the table; the information of the old one stays in the level.\<close>

lemma flush_over:
  assumes os: "os_good os" and nf: "\<forall>n. bloom_wf (nf n)" and t: "block_target_bytes (db_cfg st) < 2 ^ 32"
    and lv: "db_levels st = [[sr_info r], [], [], []]" "si_path (sr_info r) = flush_path (db_cfg st) sq"
    and m: "memtable_rel m [e]" "event_wf e" and a: "db_active st = Some a" "memtable_rel a []" "db_imm st = []"
    and io: "db_io st = fresh_io budget" "\<not> db_closed st" "symtab_lookup (rq_symbol req) (db_symbols st) = Some sid"
  shows "\<exists>st1 q st2. do_flush os nf m sq st = Some (Inr (), st1) \<and> db_query os req st1 = Some (Inr q, st2) \<and>
    set (qr_rows q) \<subseteq> {e}"
proof -
  have op: "os_progress os" "opens os" using os by (simp_all add: os_progress_def)
  let ?p = "flush_path (db_cfg st) sq" and ?lim = "query_limit req"
  have srt: "sorted_events [e]" "list_all event_wf [e]" "length [e] < 2 ^ 32" using m(2) by simp_all
  obtain r' bs' where w: "write_table os nf ?p 0 sq (block_target_bytes (db_cfg st)) 0 [e] (db_tables st) =
        (Inr (sr_info r'), AList.update ?p (sr_file r') (db_tables st))"
      "table_on (AList.update ?p (sr_file r') (db_tables st)) r' bs'" "sr_path r' = ?p" "concat bs' = [e]"
    using write_table_on [OF op(1) srt t, of nf ?p 0 sq 0 "db_tables st"] nf by auto
  let ?d = "AList.update ?p (sr_file r') (db_tables st)"
  let ?st1 = "st\<lparr>db_tables := ?d, db_levels := (db_levels st)[0 := db_levels st ! 0 @ [sr_info r']],
      db_counters := (db_counters st)\<lparr>flush_count := flush_count (db_counters st) + 1\<rparr>\<rparr>"
  have f: "do_flush os nf m sq st = Some (Inr (), ?st1)"
    using memtable_empty_spec [OF m(1)] to_sorted_events_spec [OF m(1)] w(1) by (simp add: do_flush_def)
  have rb: "reader_blocks r' bs'" and si: "si_path (sr_info r') = sr_path r'" using w(2) by (simp_all add: table_on_def)
  have h: "history_ok [(r', bs')]" using rb by (simp add: history_ok_def)
  have mem: "(r', bs') \<in> set [(r', bs')]" by simp
  have pt: "\<forall>info \<in> set [sr_info r, sr_info r']. si_path info = sr_path r'" using lv(2) w(3) si by simp
  let ?acc0 = "\<lparr>qa_rows = [], qa_rows_scanned = 0, qa_rows_returned = 0, qa_done = False\<rparr>"
  let ?qs0 = "\<lparr>qs_files_considered = 0, qs_files_skipped = 0, qs_blocks_read = 0\<rparr>"
  let ?cb = "filter_and_collect (rq_event_type req) ?lim" and ?lo = "query_lo req sid" and ?hi = "query_hi req sid"
  have mems: "list_all2 memtable_rel [a] [[]]" using a(2) by simp
  obtain acc1 where a1: "query_memtables [a] ?lo ?hi ?cb ?acc0 = Some acc1" "acc_ok ?lim acc1" "qa_rows acc1 = []"
    using query_memtables_spec [OF mems acc_ok_start [OF query_limit_pos], of ?lo ?hi "rq_event_type req" req] by auto
  obtain acc2 qs io' where q: "query_files os ?d [sr_info r, sr_info r'] ?lo ?hi ?cb (acc1, ?qs0, fresh_io budget) = (acc2, qs, io')"
      "set (qa_rows acc2) \<subseteq> set (qa_rows acc1) \<union> set (concat bs')"
    using query_files_only [OF op(2) h mem w(2) pt fresh_io_backed a1(2)] by blast
  have "\<exists>q st2. db_query os req ?st1 = Some (Inr q, st2) \<and> qr_rows q = qa_rows acc2"
    using io a(1,3) lv(1) a1(1) q(1)
    by (simp add: db_query_def Let_def query_lo_def query_hi_def del: query_memtables.simps query_files.simps)
  then show ?thesis using f q(2) a1(3) w(4) by auto
qed

lemma append_flush_over:
  assumes os: "os_good os" and nf: "\<forall>n. bloom_wf (nf n)" and t: "block_target_bytes cfg < 2 ^ 32"
    and st: "one_table cfg st2 name e0 r bs" and re: "reopened st2 [] st2 [[(r, bs)], [], [], []] st3"
    and b: "length (rq_symbol req) < 2 ^ 16" "event_type_wf (aa_event_type b)"
  shows "\<exists>r4 st4 st5 q' st6. db_append os rng (rq_symbol req) b st3 = Some (Inr r4, st4) \<and>
    flush_now os nf st4 = Some (Inr (), st5) \<and> db_query os req st5 = Some (Inr q', st6) \<and>
    erase ` set (qr_rows q') \<subseteq> {append_event b 0 1}"
proof -
  have c: "db_cfg st2 = cfg" "unat (next_id (db_symbols st2)) \<le> 2" "sr_path r = flush_path cfg 1"
      "db_holds st2 [(r, bs)] [] [] [[(r, bs)], [], [], []]"
    using st unfolding one_table_def by blast+
  have i: "db_cfg st3 = cfg" "\<not> db_closed st3" "log_holds (db_wal st3) []" "names_good (db_symbols st3)"
      "unat (next_id (db_symbols st3)) < 2 ^ 32 - 1" "db_next_seq st3 = 1" "db_sst_seq st3 = 1"
      "db_io st3 = fresh_io (Some (block_cache_bytes cfg))" "db_holds st3 [(r, bs)] [] [] [[(r, bs)], [], [], []]"
    using re c(1,2) by (simp_all add: reopened_def next_seq_after_def)
  obtain r4 st4 sid act imms where s4: "db_append os rng (rq_symbol req) b st3 = Some (Inr r4, st4)"
      "symtab_lookup (rq_symbol req) (db_symbols st4) = Some sid" "wrote (append_event b sid 1) st3 st4"
      "db_holds st4 [(r, bs)] act imms [[(r, bs)], [], [], []]" "inserted (append_event b sid 1) [] [] act imms"
    using db_append_spec [OF os i(9,2,3,4) b(1) i(5) b(2), of rng] unfolding i(6) by (elim exE conjE) (rule that)
  have io4: "db_io st4 = db_io st3"
    using db_append_io [OF s4(1)] .
  let ?e = "append_event b sid 1"
  note w = s4(3) [unfolded wrote_def i(1,7)]
  have e: "event_wf ?e" using b(2) by (simp add: append_event_def event_wf_def)
  have s: "db_sst_seq st4 = 1" using w by simp
  obtain m m' where f: "memtable_rel m [?e]" "memtable_rel m' []"
      "flush_now os nf st4 = do_flush os nf m 1 (st4\<lparr>db_active := Some m', db_imm := [], db_sst_seq := 2\<rparr>)"
    using flush_one [OF s4(4,5), of os nf] unfolding s by auto
  let ?st = "st4\<lparr>db_active := Some m', db_imm := [], db_sst_seq := 2\<rparr>"
  have k: "block_target_bytes (db_cfg ?st) < 2 ^ 32" "db_levels ?st = [[sr_info r], [], [], []]"
      "si_path (sr_info r) = flush_path (db_cfg ?st) 1" "db_io ?st = fresh_io (Some (block_cache_bytes cfg))" "\<not> db_closed ?st"
    using t w s4(4) c(3,4) io4 i(2,8) by (auto simp: db_holds_def tables_on_def table_on_def)
  obtain st5 q' st6 where g: "do_flush os nf m 1 ?st = Some (Inr (), st5)" "db_query os req st5 = Some (Inr q', st6)"
      "set (qr_rows q') \<subseteq> {?e}"
    using flush_over [OF os nf k(1-3) f(1) e _ f(2) _ k(4,5), of req sid] s4(2) by auto
  have "erase ?e = append_event b 0 1" by (simp add: erase_def append_event_def)
  then have "erase ` set (qr_rows q') \<subseteq> {append_event b 0 1}" using g(3) by auto
  moreover have "flush_now os nf st4 = Some (Inr (), st5)" using f(3) g(1) by simp
  ultimately show ?thesis using s4(1) g(2) by blast
qed

section \<open>Properties\<close>

text \<open>C23: The log is never cut when its events reach a table: an event that was flushed before the
  process died is returned twice by every matching query of the reopened database, from the
  replayed log and from its table.\<close>

theorem reopen_repeats_flushed:
  assumes "os_good os" and "\<forall>n. bloom_wf (new_filter n)" and "block_target_bytes cfg < 2 ^ 32" and "wal_enabled cfg"
    and "length (rq_symbol req) < 2 ^ 16" and "event_type_wf (aa_event_type a)"
    and "matches req (rq_symbol req, append_event a 0 1)" and "2 \<le> query_limit req"
  shows "\<exists>st0 r1 st1 st2 st3 q st4. db_open os rng cfg empty_disk = Some (Inr st0) \<and>
    db_append os rng (rq_symbol req) a st0 = Some (Inr r1, st1) \<and> flush_now os new_filter st1 = Some (Inr (), st2) \<and>
    db_open os rng cfg (disk_of st2) = Some (Inr st3) \<and> db_query os req st3 = Some (Inr q, st4) \<and>
    map erase (qr_rows q) = [append_event a 0 1, append_event a 0 1]"
proof -
  obtain st0 r1 st1 st2 e r bs where p: "db_open os rng cfg empty_disk = Some (Inr st0)"
      "db_append os rng (rq_symbol req) a st0 = Some (Inr r1, st1)" "flush_now os new_filter st1 = Some (Inr (), st2)"
      "one_table cfg st2 (rq_symbol req) e r bs" "e = append_event a (symbol_id e) 1"
    using append_then_flush [OF assms(1-3,5,6), of rng] by (elim exE conjE) (rule that, assumption+)
  obtain st3 where re: "db_open os rng cfg (disk_of st2) = Some (Inr st3)" "reopened st2 [e] st2 [[(r, bs)], [], [], []] st3"
      "symtab_lookup (rq_symbol req) (db_symbols st3) = Some (symbol_id e)"
    using reopen_one_table [OF assms(1) p(4), of rng] assms(4) by auto
  have i: "db_holds st3 (concat [[(r, bs)], [], [], []]) [e] [] [[(r, bs)], [], [], []]" "\<not> db_closed st3" "concat bs = [e]"
    using re(2) p(4) by (simp_all add: reopened_def one_table_def event_upsert_def)
  obtain q io where q: "db_query os req st3 = Some (Inr q, st3\<lparr>db_io := io\<rparr>)"
      "qr_rows q = take (query_limit req) (filter (selects req (symbol_id e)) (concat (sources [e] [] [[(r, bs)], [], [], []])))"
    using query_selects [OF assms(1) i(1,2) re(3)] by blast
  have er: "erase e = append_event a 0 1" by (subst p(5)) (simp add: erase_def append_event_def)
  then have "selects req (symbol_id e) e" using assms(7) matches_selects [of req e] by simp
  then have "qr_rows q = [e, e]" using q(2) i(3) assms(8) by (simp add: sources_def take_Cons' split: nat.split)
  then show ?thesis using p(1-3) re(1) q(1) er by auto
qed

lemma reopen_repeats_flushed_witness:
  "\<exists>st0 r1 st1 st2 st3 q st4. db_open os_ok (\<lambda>_. 1) (sample_config True) empty_disk = Some (Inr st0) \<and>
    db_append os_ok (\<lambda>_. 1) (rq_symbol sample_request) (sample_args 10) st0 = Some (Inr r1, st1) \<and>
    flush_now os_ok sample_filter st1 = Some (Inr (), st2) \<and>
    db_open os_ok (\<lambda>_. 1) (sample_config True) (disk_of st2) = Some (Inr st3) \<and>
    db_query os_ok sample_request st3 = Some (Inr q, st4) \<and>
    map erase (qr_rows q) = [append_event (sample_args 10) 0 1, append_event (sample_args 10) 0 1]"
  by (rule reopen_repeats_flushed)
    (simp_all add: os_good_def sample_filter_wf sample_config_def sample_args_def sample_request_def matches_def
      append_event_def wanted_def query_limit_def)

text \<open>C24: Without a log the numbers of tables start at 1 again after a restart, so the first flush
  afterwards writes its table over the first table of the time before: an event that was flushed
  and returned by a query is gone, and the query only finds the new one.\<close>

theorem restart_overwrites_table:
  assumes "os_good os" and "\<forall>n. bloom_wf (new_filter n)" and "block_target_bytes cfg < 2 ^ 32" and "\<not> wal_enabled cfg"
    and "length (rq_symbol req) < 2 ^ 16" and "event_type_wf (aa_event_type a)" and "event_type_wf (aa_event_type b)"
    and "matches req (rq_symbol req, append_event a 0 1)"
  shows "\<exists>st0 r1 st1 st2 q st2' st3 r4 st4 st5 q' st6. db_open os rng cfg empty_disk = Some (Inr st0) \<and>
    db_append os rng (rq_symbol req) a st0 = Some (Inr r1, st1) \<and> flush_now os new_filter st1 = Some (Inr (), st2) \<and>
    db_query os req st2 = Some (Inr q, st2') \<and> map erase (qr_rows q) = [append_event a 0 1] \<and>
    db_open os rng cfg (disk_of st2) = Some (Inr st3) \<and>
    db_append os rng (rq_symbol req) b st3 = Some (Inr r4, st4) \<and> flush_now os new_filter st4 = Some (Inr (), st5) \<and>
    db_query os req st5 = Some (Inr q', st6) \<and> erase ` set (qr_rows q') \<subseteq> {append_event b 0 1}"
proof -
  obtain st0 r1 st1 st2 e r bs where p: "db_open os rng cfg empty_disk = Some (Inr st0)"
      "db_append os rng (rq_symbol req) a st0 = Some (Inr r1, st1)" "flush_now os new_filter st1 = Some (Inr (), st2)"
      "one_table cfg st2 (rq_symbol req) e r bs" "e = append_event a (symbol_id e) 1"
    using append_then_flush [OF assms(1-3,5,6), of rng] by (elim exE conjE) (rule that, assumption+)
  have er: "erase e = append_event a 0 1" by (subst p(5)) (simp add: erase_def append_event_def)
  then have "selects req (symbol_id e) e" using assms(8) matches_selects [of req e] by simp
  then obtain q st2' where q: "db_query os req st2 = Some (Inr q, st2')" "qr_rows q = [e]"
    using one_table_query [OF assms(1) p(4)] by blast
  obtain st3 where re: "db_open os rng cfg (disk_of st2) = Some (Inr st3)" "reopened st2 [] st2 [[(r, bs)], [], [], []] st3"
    using reopen_one_table [OF assms(1) p(4), of rng] assms(4) by auto
  obtain r4 st4 st5 q' st6 where g: "db_append os rng (rq_symbol req) b st3 = Some (Inr r4, st4)"
      "flush_now os new_filter st4 = Some (Inr (), st5)" "db_query os req st5 = Some (Inr q', st6)"
      "erase ` set (qr_rows q') \<subseteq> {append_event b 0 1}"
    using append_flush_over [OF assms(1-3) p(4) re(2) assms(5,7), of rng] by blast
  have m: "map erase (qr_rows q) = [append_event a 0 1]" using q(2) er by simp
  show ?thesis
    by (intro exI conjI, rule p(1), rule p(2), rule p(3), rule q(1), rule m, rule re(1), (rule g)+)
qed

lemma restart_overwrites_table_witness:
  "\<exists>st0 r1 st1 st2 q st2' st3 r4 st4 st5 q' st6. db_open os_ok (\<lambda>_. 1) (sample_config False) empty_disk = Some (Inr st0) \<and>
    db_append os_ok (\<lambda>_. 1) (rq_symbol sample_request) (sample_args 10) st0 = Some (Inr r1, st1) \<and>
    flush_now os_ok sample_filter st1 = Some (Inr (), st2) \<and>
    db_query os_ok sample_request st2 = Some (Inr q, st2') \<and> map erase (qr_rows q) = [append_event (sample_args 10) 0 1] \<and>
    db_open os_ok (\<lambda>_. 1) (sample_config False) (disk_of st2) = Some (Inr st3) \<and>
    db_append os_ok (\<lambda>_. 1) (rq_symbol sample_request) (sample_args 20) st3 = Some (Inr r4, st4) \<and>
    flush_now os_ok sample_filter st4 = Some (Inr (), st5) \<and>
    db_query os_ok sample_request st5 = Some (Inr q', st6) \<and> erase ` set (qr_rows q') \<subseteq> {append_event (sample_args 20) 0 1}"
  by (rule restart_overwrites_table)
    (simp_all add: os_good_def sample_filter_wf sample_config_def sample_args_def sample_request_def matches_def
      append_event_def wanted_def query_limit_def)

text \<open>The numbers of events go on after the last record of the log, not after the largest: when
  that record is the removal of an older event, the first append after a restart gets a number
  that a later event already has.\<close>

theorem restart_repeats_number:
  assumes "os_good os" and "run_at cfg k st lg rm h act imms levs" and "k < 2 ^ 32 - 4" and "wal_enabled cfg"
    and "length name < 2 ^ 16" and "length name' < 2 ^ 16" and "event_type_wf (aa_event_type b)"
    and "(name', e) \<in> set lg" and "sequence_id e = sq + 1"
  shows "\<exists>r1 st1 st2 r3 st3. db_remove os rng name ts sq st = Some (Inr r1, st1) \<and>
    db_open os rng cfg (disk_of st1) = Some (Inr st2) \<and> db_append os rng name' b st2 = Some (Inr r3, st3) \<and>
    ar_sequence_id r3 = sequence_id e"
proof -
  have i: "db_cfg st = cfg" "\<not> db_closed st" "names_good (db_symbols st)" "unat (next_id (db_symbols st)) \<le> k + 1"
      "logged st lg rm" "db_holds st h act imms levs"
    using assms(2) unfolding run_at_def by blast+
  obtain es where es: "log_holds (db_wal st) es" "(db_wal st = None) = (\<not> wal_enabled cfg)"
    using i(5) unfolding logged_def i(1) by (elim conjE exE) (rule that)
  have nx: "unat (next_id (db_symbols st)) < 2 ^ 32 - 1" using i(4) assms(3) by simp
  obtain r1 st1 sid act' imms' where r: "db_remove os rng name ts sq st = Some (Inr r1, st1)" "wrote (tombstone sid ts sq) st st1"
      "db_holds st1 h act' imms' levs"
    using db_remove_spec [OF assms(1) i(6,2) es(1) i(3) assms(5) nx, of rng ts sq] by blast
  note w = r(2) [unfolded wrote_def i(1)]
  have lw: "log_holds (db_wal st1) (es @ [tombstone sid ts sq])" "(db_wal st1 = None) = (\<not> wal_enabled (db_cfg st1))"
      "wal_enabled (db_cfg st1)" "names_good (db_symbols st1)" "db_cfg st1 = cfg"
    using w es assms(4) by simp_all
  have t: "dk_tables (disk_of st1) = db_tables st1" by (simp add: disk_of_def)
  obtain st2 levs' where re: "db_open os rng cfg (disk_of st1) = Some (Inr st2)"
      "reopened st1 (es @ [tombstone sid ts sq]) st1 levs' st2"
    using db_reopen_spec [OF assms(1) r(3) disk_names [OF assms(1) lw(4)] t disk_replays [OF lw(3,2,1)], of rng]
    unfolding lw(5) by blast
  have j: "\<not> db_closed st2" "log_holds (db_wal st2) (es @ [tombstone sid ts sq])" "names_good (db_symbols st2)"
      "unat (next_id (db_symbols st2)) < 2 ^ 32 - 1" "db_next_seq st2 = sq + 1"
      "db_holds st2 (concat levs') (fold event_upsert (es @ [tombstone sid ts sq]) []) [] levs'"
    using re(2) w i(4) assms(3) by (simp_all add: reopened_def next_seq_after_def tombstone_def names_kept_def)
  obtain r3 st3 where "db_append os rng name' b st2 = Some (Inr r3, st3)" "ar_sequence_id r3 = sq + 1"
    using db_append_spec [OF assms(1) j(6,1,2,3) assms(6) j(4) assms(7), of rng] j(5) by auto
  then show ?thesis using r(1) re(1) assms(9) by auto
qed

lemma restart_repeats_number_witness:
  "\<exists>st e r1 st1 st2 r3 st3. (\<exists>m. db_active st = Some m \<and> memtable_rel m [e]) \<and>
    db_remove os_ok (\<lambda>_. 1) ''AAPL'' 10 0 st = Some (Inr r1, st1) \<and>
    db_open os_ok (\<lambda>_. 1) (sample_config True) (disk_of st1) = Some (Inr st2) \<and>
    db_append os_ok (\<lambda>_. 1) ''AAPL'' (sample_args 20) st2 = Some (Inr r3, st3) \<and> ar_sequence_id r3 = sequence_id e"
proof -
  obtain st e h where a: "run_at (sample_config True) 1 st [(''AAPL'', e)] [] h [e] [] [[], [], [], []]"
      "e = append_event (sample_args 10) (symbol_id e) 1"
    using one_event_active by (elim exE conjE) (rule that)
  have m: "\<exists>m. db_active st = Some m \<and> memtable_rel m [e]" using a(1) unfolding run_at_def db_holds_def by blast
  have sq: "sequence_id e = 0 + 1" by (subst a(2)) (simp add: append_event_def)
  have "\<exists>r1 st1 st2 r3 st3. db_remove os_ok (\<lambda>_. 1) ''AAPL'' 10 0 st = Some (Inr r1, st1) \<and>
    db_open os_ok (\<lambda>_. 1) (sample_config True) (disk_of st1) = Some (Inr st2) \<and>
    db_append os_ok (\<lambda>_. 1) ''AAPL'' (sample_args 20) st2 = Some (Inr r3, st3) \<and> ar_sequence_id r3 = sequence_id e"
    by (rule restart_repeats_number [OF _ a(1) _ _ _ _ _ _ sq])
      (simp_all add: os_good_def sample_config_def sample_args_def)
  then show ?thesis using m by blast
qed

end
