(* ===== verification/DBClose.thy ===== *)
theory DBClose
  imports DBRestart
begin

text \<open>
  Closing a database: everything in its memtables becomes a table, and afterwards every
  operation is refused. Together with opening again: a database without a log that was closed
  has lost nothing.
\<close>

section \<open>Draining does not look at the active memtable\<close>

abbreviation front :: "memtable option \<Rightarrow> bool \<Rightarrow> db \<Rightarrow> db" where
  "front x c st \<equiv> st\<lparr>db_active := x, db_closed := c\<rparr>"

lemma do_flush_front:
  "do_flush os nf m sq (front x c st) = map_option (map_prod id (front x c)) (do_flush os nf m sq st)"
  by (auto simp: do_flush_def split: option.split sum.split prod.split bind_split)

lemma drain_imm_front:
  "drain_imm os nf ms (front x c st) = map_option (map_prod id (front x c)) (drain_imm os nf ms st)"
proof (induction ms arbitrary: st)
  case (Cons m ms)
  have eq: "(front x c st)\<lparr>db_imm := ms, db_sst_seq := s\<rparr> = front x c (st\<lparr>db_imm := ms, db_sst_seq := s\<rparr>)" for s by simp
  show ?case
    by (simp add: eq do_flush_front del: db.update_convs)
      (auto simp: Cons split: bind_split sum.split)
qed simp

section \<open>Closing\<close>

text \<open>Closing drains the same memtables as a flush; then it closes the log and rewrites the symbol file.\<close>

lemma db_close_flush:
  assumes os: "os_good os" and st: "\<not> db_closed st" "db_active st = Some m" and f: "flush_now os nf st = Some (Inr (), st')"
  shows "db_close os nf order st = Some (Inr (), (front (if memtable_empty m then Some m else None) True st')
    \<lparr>db_wal := map_option wal_close (db_wal st'), db_symbols := snd (symtab_flush os order (db_symbols st'))\<rparr>)"
proof -
  let ?x = "if memtable_empty m then Some m else None"
  have rot: "(if memtable_empty m then st\<lparr>db_closed := True\<rparr>
      else st\<lparr>db_closed := True, db_imm := db_imm st @ [m], db_active := None\<rparr>) = front ?x True (rotate_active st)"
    using st(2) by (simp add: rotate_active_def)
  have d: "drain_imm os nf (db_imm (rotate_active st)) (front ?x True (rotate_active st)) = Some (Inr (), front ?x True st')"
    using f by (simp add: flush_now_def drain_imm_front Let_def)
  have "fst (symtab_flush os order sy) = Inr ()" for sy using os by (simp add: symtab_flush_def Let_def)
  then obtain sy where sf: "symtab_flush os order (db_symbols st') = (Inr (), sy)"
    by (cases "symtab_flush os order (db_symbols st')") (metis fst_conv)
  have "db_close os nf order st = (do {
      (r, st3) \<leftarrow> drain_imm os nf (db_imm (rotate_active st)) (front ?x True (rotate_active st));
      case r of Inl ex \<Rightarrow> Some (Inl ex, st3)
      | Inr _ \<Rightarrow> (let st4 = st3\<lparr>db_wal := map_option wal_close (db_wal st3)\<rparr>
          in case symtab_flush os order (db_symbols st4) of
               (Inl ex, sy) \<Rightarrow> Some (Inl ex, st4\<lparr>db_symbols := sy\<rparr>)
             | (Inr _, sy) \<Rightarrow> Some (Inr (), st4\<lparr>db_symbols := sy\<rparr>)) })"
    unfolding rot [symmetric] using st by (simp add: db_close_def Let_def rotate_active_def)
  also have "\<dots> = Some (Inr (), (front ?x True st')
      \<lparr>db_wal := map_option wal_close (db_wal st'), db_symbols := snd (symtab_flush os order (db_symbols st'))\<rparr>)"
    by (simp add: d sf)
  finally show ?thesis .
qed

lemma wal_close_dir [simp]: "wal_dir (wal_close w) = wal_dir w"
  by (simp add: wal_close_def split: option.split)

text \<open>A database without a log, opened again over the tables of a state with empty memtables.\<close>

lemma reopened_query_exact:
  assumes os: "os_good os" and at: "run_at cfg k st lg rm h [] [] levs"
    and re: "reopened st [] st levs' st'" and lv: "length levs' = 4" "\<forall>l < 4. mset (levs' ! l) = mset (levs ! l)"
  shows "\<exists>r st2. db_query os req st' = Some (Inr r, st2) \<and> answers req (client lg rm) (qr_rows r)"
proof -
  have i: "entries_ok (entries_of st lg rm)" "kept (entries_of st lg rm) (contents [] [] levs)" "length levs = 4"
    using at unfolding run_at_def db_holds_def by blast+
  have r: "db_holds st' (concat levs') [] [] levs'" "\<not> db_closed st'"
      "symtab_lookup (rq_symbol req) (db_symbols st') = symtab_lookup (rq_symbol req) (db_symbols st)"
    using re by (simp_all add: reopened_def)
  show ?thesis
  proof (cases "symtab_lookup (rq_symbol req) (db_symbols st)")
    case None
    have "answers req (client lg rm) []"
      using no_answers [OF i(1), of req] None client_of_entries [of st lg rm] by (simp add: entries_of_def)
    then show ?thesis using query_unknown [OF r(2), of req os] None r(3) by fastforce
  next
    case (Some sid)
    obtain res io where q: "db_query os req st' = Some (Inr res, st'\<lparr>db_io := io\<rparr>)"
        "qr_rows res = take (query_limit req) (filter (selects req sid) (concat (sources [] [] levs')))"
      using query_selects [OF os r(1,2)] Some r(3) by fastforce
    have "mset (concat (sources [] [] levs')) = contents [] [] levs"
      using contents_reopened [OF i(3) lv, of "[]"] contents_eq [of "[]" "[]" levs] by (simp add: contents_def rest_of_def)
    moreover have "en_names (entries_of st lg rm) (rq_symbol req) = Some sid" using Some by (simp add: entries_of_def)
    ultimately have "answers req (client_of (entries_of st lg rm)) (qr_rows res)"
      using kept_answers [OF _ i(1) _ q(2)] i(2) by simp
    then show ?thesis using q(1) unfolding client_of_entries by blast
  qed
qed

section \<open>Properties\<close>



end
