(* ===== verification/DBThreads.thy ===== *)
theory DBThreads
  imports DBClose
begin

text \<open>
  The database with flushes in flight: the flush thread and callers of \<^verbatim>\<open>flush_now\<close> take a memtable
  out of the immutable ones, draw a number for its table, and publish the table later; between
  these steps clients append, remove and query. Each step is one critical section of the code.
\<close>

section \<open>Steps\<close>

text \<open>A flush in flight: its memtable, and the number of its table once it is drawn.\<close>

record threads =
  th_db :: db
  th_flight :: "(memtable \<times> u64 option) list"

definition th_take :: "threads \<Rightarrow> threads option" where
  "th_take th =
     (case db_imm (th_db th) of
        [] \<Rightarrow> None
      | m # ms \<Rightarrow> Some \<lparr>th_db = (th_db th)\<lparr>db_imm := ms\<rparr>, th_flight = th_flight th @ [(m, None)]\<rparr>)"

definition th_number :: "nat \<Rightarrow> threads \<Rightarrow> threads option" where
  "th_number i th =
     (if i < length (th_flight th) \<and> snd (th_flight th ! i) = None
      then Some \<lparr>th_db = (th_db th)\<lparr>db_sst_seq := db_sst_seq (th_db th) + 1\<rparr>,
                 th_flight = (th_flight th)[i := (fst (th_flight th ! i), Some (db_sst_seq (th_db th)))]\<rparr>
      else None)"

text \<open>Writing the table and entering it into level 0; an exception here ends the thread.\<close>

definition th_done :: "os \<Rightarrow> (u32 \<Rightarrow> bloom) \<Rightarrow> nat \<Rightarrow> threads \<Rightarrow> threads option" where
  "th_done os nf i th =
     (if i < length (th_flight th)
      then (case th_flight th ! i of
              (m, None) \<Rightarrow> None
            | (m, Some sq) \<Rightarrow>
                do_flush os nf m sq (th_db th) \<bind>
                (\<lambda>(r, st). case r of Inl _ \<Rightarrow> None
                           | Inr _ \<Rightarrow> Some \<lparr>th_db = st, th_flight = take i (th_flight th) @ drop (Suc i) (th_flight th)\<rparr>))
      else None)"

inductive th_work :: "os \<Rightarrow> (u32 \<Rightarrow> bloom) \<Rightarrow> threads \<Rightarrow> threads \<Rightarrow> bool" for os nf where
  taking: "th_take th = Some th' \<Longrightarrow> th_work os nf th th'"
| numbering: "th_number i th = Some th' \<Longrightarrow> th_work os nf th th'"
| publishing: "th_done os nf i th = Some th' \<Longrightarrow> th_work os nf th th'"

fun client_op :: "db_op \<Rightarrow> bool" where
  "client_op (Op_append name a) = op_ok (Op_append name a)"
| "client_op (Op_remove name ts sq) = op_ok (Op_remove name ts sq)"
| "client_op (Op_query req) = True"
| "client_op _ = False"

text \<open>A step shows what a client asked and was answered, or nothing; the first critical section of
  \<^verbatim>\<open>flush_now\<close> is one of the silent ones.\<close>

inductive th_step ::
  "os \<Rightarrow> (nat \<Rightarrow> u32) \<Rightarrow> (u32 \<Rightarrow> bloom) \<Rightarrow> threads \<Rightarrow> (db_op \<times> db_answer) option \<Rightarrow> threads \<Rightarrow> bool" for os rng nf where
  client: "client_op op \<Longrightarrow> db_exec os rng nf op (th_db th) = Some (an, st) \<Longrightarrow> th_step os rng nf th (Some (op, an)) (th\<lparr>th_db := st\<rparr>)"
| rotate: "th_step os rng nf th None (th\<lparr>th_db := rotate_active (th_db th)\<rparr>)"
| work: "th_work os nf th th' \<Longrightarrow> th_step os rng nf th None th'"

inductive th_run ::
  "os \<Rightarrow> (nat \<Rightarrow> u32) \<Rightarrow> (u32 \<Rightarrow> bloom) \<Rightarrow> threads \<Rightarrow> (db_op \<times> db_answer) option list \<Rightarrow> threads \<Rightarrow> bool" for os rng nf th0 where
  start: "th_run os rng nf th0 [] th0"
| step: "th_run os rng nf th0 labs th \<Longrightarrow> th_step os rng nf th lab th' \<Longrightarrow> th_run os rng nf th0 (labs @ [lab]) th'"

definition log_of_run :: "(db_op \<times> db_answer) option list \<Rightarrow> client_log" where
  "log_of_run labs = fold (\<lambda>lab. case lab of None \<Rightarrow> id | Some (op, an) \<Rightarrow> client_step op an) labs \<lparr>appended = [], removed = []\<rparr>"

definition idle :: "threads \<Rightarrow> bool" where
  "idle th \<longleftrightarrow> db_imm (th_db th) = [] \<and> th_flight th = []"

section \<open>The invariant\<close>

text \<open>The state with the memtables in flight put back in front of the immutable ones.\<close>

definition whole :: "threads \<Rightarrow> db" where
  "whole th = (th_db th)\<lparr>db_imm := map fst (th_flight th) @ db_imm (th_db th)\<rparr>"

definition numbers :: "(memtable \<times> u64 option) list \<Rightarrow> u64 list" where
  "numbers fl = concat (map (\<lambda>(m, n). case n of None \<Rightarrow> [] | Some s \<Rightarrow> [s]) fl)"

lemma numbers_simps [simp]:
  "numbers [] = []" "numbers ((m, None) # fl) = numbers fl" "numbers ((m, Some s) # fl) = s # numbers fl"
  "numbers (fl @ fl') = numbers fl @ numbers fl'"
  by (simp_all add: numbers_def)

definition flights_ok :: "db_config \<Rightarrow> u64 \<Rightarrow> history \<Rightarrow> u64 list \<Rightarrow> bool" where
  "flights_ok cfg nxt h ns \<longleftrightarrow> distinct ns \<and> (\<forall>s \<in> set ns. unat s < unat nxt \<and> flush_path cfg s \<notin> set (paths_of h))"

definition th_at ::
  "db_config \<Rightarrow> nat \<Rightarrow> threads \<Rightarrow> (string \<times> event) list \<Rightarrow> (string \<times> u64 \<times> u64) list
     \<Rightarrow> history \<Rightarrow> event list \<Rightarrow> event list list \<Rightarrow> event list list \<Rightarrow> history list \<Rightarrow> bool" where
  "th_at cfg k th lg rm h act imms fes levs \<longleftrightarrow>
     run_at cfg k (whole th) lg rm h act (fes @ imms) levs \<and> length fes = length (th_flight th) \<and>
     flights_ok cfg (db_sst_seq (th_db th)) h (numbers (th_flight th))"

lemma whole_simps [simp]:
  "db_cfg (whole th) = db_cfg (th_db th)" "db_closed (whole th) = db_closed (th_db th)"
  "db_symbols (whole th) = db_symbols (th_db th)" "db_wal (whole th) = db_wal (th_db th)"
  "db_next_seq (whole th) = db_next_seq (th_db th)" "db_sst_seq (whole th) = db_sst_seq (th_db th)"
  "db_tables (whole th) = db_tables (th_db th)" "db_levels (whole th) = db_levels (th_db th)"
  by (simp_all add: whole_def)

lemma whole_holds:
  assumes "length fes = length (th_flight th)"
  shows "db_holds (whole th) h act (fes @ imms) levs \<longleftrightarrow>
    db_holds (th_db th) h act imms levs \<and> list_all2 memtable_rel (map fst (th_flight th)) fes \<and> list_all (list_all event_wf) fes"
  using assms by (auto simp: db_holds_def whole_def list_all2_append)

lemma th_at_holds:
  assumes "th_at cfg k th lg rm h act imms fes levs"
  shows "db_holds (th_db th) h act imms levs" and "list_all2 memtable_rel (map fst (th_flight th)) fes"
    and "list_all (list_all event_wf) fes" and "db_cfg (th_db th) = cfg"
proof -
  have "db_holds (whole th) h act (fes @ imms) levs" "length fes = length (th_flight th)"
    using assms by (simp_all add: th_at_def run_at_def)
  then show "db_holds (th_db th) h act imms levs" "list_all2 memtable_rel (map fst (th_flight th)) fes"
    "list_all (list_all event_wf) fes" using whole_holds by blast+
  show "db_cfg (th_db th) = cfg" using assms by (simp add: th_at_def run_at_def)
qed

lemma run_at_later: "run_at cfg k st lg rm h act imms levs \<Longrightarrow> run_at cfg (k + 1) st lg rm h act imms levs"
  unfolding run_at_def by fastforce

lemma th_start: "run_at cfg k st lg rm h act imms levs \<Longrightarrow> th_at cfg k \<lparr>th_db = st, th_flight = []\<rparr> lg rm h act imms [] levs"
  by (simp add: th_at_def flights_ok_def whole_def)

section \<open>Every step keeps it\<close>

lemma th_at_take:
  assumes at: "th_at cfg k th lg rm h act imms fes levs" and t: "th_take th = Some th'"
  shows "\<exists>es imms'. imms = es # imms' \<and> th_at cfg (k + 1) th' lg rm h act imms' (fes @ [es]) levs"
proof -
  obtain m ms where m: "db_imm (th_db th) = m # ms"
      "th' = \<lparr>th_db = (th_db th)\<lparr>db_imm := ms\<rparr>, th_flight = th_flight th @ [(m, None)]\<rparr>"
    using t by (auto simp: th_take_def split: list.splits)
  have "list_all2 memtable_rel (m # ms) imms" using th_at_holds(1) [OF at] m(1) by (simp add: db_holds_def)
  then obtain es imms' where i: "imms = es # imms'" by (auto simp: list_all2_Cons1)
  have w: "whole th' = whole th" using m by (simp add: whole_def)
  have "th_at cfg (k + 1) th' lg rm h act imms' (fes @ [es]) levs"
    using at run_at_later unfolding th_at_def w i by (auto simp: m(2))
  then show ?thesis using i by blast
qed

lemma split_at: "i < length xs \<Longrightarrow> xs = take i xs @ xs ! i # drop (Suc i) xs"
  by (rule id_take_nth_drop)

lemma th_at_number:
  assumes at: "th_at cfg k th lg rm h act imms fes levs" and t: "th_number i th = Some th'" and k: "k < 2 ^ 32 - 2"
  shows "th_at cfg (k + 1) th' lg rm h act imms fes levs"
proof -
  let ?fl = "th_flight th" and ?s = "db_sst_seq (th_db th)"
  have i: "i < length ?fl" "snd (?fl ! i) = None"
      "th' = \<lparr>th_db = (th_db th)\<lparr>db_sst_seq := ?s + 1\<rparr>, th_flight = ?fl[i := (fst (?fl ! i), Some ?s)]\<rparr>"
    using t by (auto simp: th_number_def split: if_splits)
  obtain xs m ys where fl: "?fl = xs @ (m, None) # ys" "length xs = i"
    using split_at [OF i(1)] i(2) by (metis length_take min.absorb4 i(1) prod.collapse)
  have fl': "th_flight th' = xs @ (m, Some ?s) # ys" unfolding i(3) fl(1) fl(2) [symmetric] by simp
  have r: "run_at cfg k (whole th) lg rm h act (fes @ imms) levs" "length fes = length ?fl"
      "flights_ok cfg ?s h (numbers ?fl)" using at by (simp_all add: th_at_def)
  have "unat ?s + 1 < 2 ^ 64" using r(1) k by (simp add: run_at_def)
  then have s: "unat (?s + 1) = unat ?s + 1" by (rule unat_Suc_u64)
  have mf: "map fst (th_flight th') = map fst ?fl" unfolding fl' fl(1) by simp
  have w: "whole th' = (whole th)\<lparr>db_sst_seq := ?s + 1\<rparr>" unfolding whole_def mf by (simp add: i(3))
  have "run_at cfg (k + 1) (whole th') lg rm h act (fes @ imms) levs"
  proof (rule run_moved [OF r(1)])
    show "numbered cfg (unat (db_sst_seq (whole th'))) h"
      using r(1) s by (auto simp: run_at_def w intro: numbered_mono)
    show "l0_older (unat (db_sst_seq (whole th'))) levs"
      using r(1) s by (auto simp: run_at_def l0_older_def w)
    have "db_holds (whole th) h act (fes @ imms) levs" using r(1) by (simp add: run_at_def)
    then show "db_holds (whole th') h act (fes @ imms) levs" unfolding w by (simp add: db_holds_def)
  qed (use r(1) s in \<open>simp_all add: same_front_def run_at_def w db_holds_def\<close>)
  moreover have "flights_ok cfg (?s + 1) h (numbers (th_flight th'))"
    using r(1,3) s numbered_fresh(1) [of cfg ?s h] unfolding fl' fl(1)
    by (auto simp: flights_ok_def run_at_def less_Suc_eq)
  moreover have "length (th_flight th') = length ?fl" using arg_cong [OF mf, of length] by simp
  moreover have "db_sst_seq (th_db th') = ?s + 1" by (simp add: i(3))
  ultimately show ?thesis using r(2) unfolding th_at_def by simp
qed

lemma th_at_done:
  assumes os: "os_progress os" and nf: "\<forall>n. bloom_wf (nf n)" and t: "block_target_bytes cfg < 2 ^ 32"
    and at: "th_at cfg k th lg rm h act imms fes levs" and k: "k < 2 ^ 32 - 2"
    and i: "i < length (th_flight th)" "th_flight th ! i = (m, Some sq)"
  shows "\<exists>th' h' fes' levs'. th_done os nf i th = Some th' \<and> th_at cfg (k + 1) th' lg rm h' act imms fes' levs' \<and>
    length (th_flight th') + 1 = length (th_flight th) \<and> contents act (fes' @ imms) levs' = contents act (fes @ imms) levs \<and>
    fes' = take i fes @ drop (Suc i) fes"
proof -
  let ?fl = "th_flight th"
  obtain xs ys where fl: "?fl = xs @ (m, Some sq) # ys" "length xs = i" "xs = take i ?fl" "ys = drop (Suc i) ?fl"
    using split_at [OF i(1)] i by (metis length_take min.absorb4)
  have r: "run_at cfg k (whole th) lg rm h act (fes @ imms) levs" "length fes = length ?fl"
      "flights_ok cfg (db_sst_seq (th_db th)) h (numbers ?fl)" using at by (simp_all add: th_at_def)
  have il: "i < length fes" using i(1) r(2) by simp
  obtain fx es fy where fes: "fes = fx @ es # fy" "length fx = i" using split_at [OF il] il by (metis length_take min.absorb4)
  note th = th_at_holds [OF at]
  have m: "memtable_rel m es" "list_all event_wf es"
    using th(2,3) fl(2) by (auto simp: fl(1) fes list_all2_append)
  have "size (contents act (fes @ imms) levs) \<le> k" using r(1) by (simp add: run_at_def)
  then have l: "length es < 2 ^ 32" using k by (simp add: contents_def sources_def fes)
  have sq: "unat sq < unat (db_sst_seq (th_db th))" "flush_path cfg sq \<notin> set (paths_of h)" "sq \<notin> set (numbers xs @ numbers ys)"
    using r(3) by (auto simp: flights_ok_def fl(1))
  obtain ts d lv cn where f: "do_flush os nf m sq (th_db th) = Some (Inr (), (th_db th)\<lparr>db_tables := d, db_levels := lv, db_counters := cn\<rparr>)"
      "db_holds ((th_db th)\<lparr>db_tables := d, db_levels := lv, db_counters := cn\<rparr>) (h @ ts) act imms (levs[0 := hd levs @ ts])"
      "set (paths_of ts) \<subseteq> {flush_path cfg sq}" "events_of ts = (if es = [] then [] else [es])" "set (seqs_of ts) \<subseteq> {unat sq}"
    using do_flush_spec [OF os nf _ th(1) _ m l, of sq] t sq(2) unfolding th(4) by auto
  let ?th = "\<lparr>th_db = (th_db th)\<lparr>db_tables := d, db_levels := lv, db_counters := cn\<rparr>, th_flight = xs @ ys\<rparr>"
  let ?levs = "flush_history levs ts"
  have d: "th_done os nf i th = Some ?th" using i f(1) fl(3,4) by (simp add: th_done_def)
  have ne: "levs \<noteq> []" using db_holds_length [OF th(1)] by blast
  have len: "length (fx @ fy) = length (th_flight ?th)" using r(2) fl(2) fes(2) by (simp add: fl(1) fes(1))
  have h': "db_holds (whole ?th) (h @ ts) act ((fx @ fy) @ imms) ?levs"
    unfolding whole_holds [OF len] using f(2) th(2,3) fl(2) by (auto simp: flush_history_def fl(1) fes list_all2_append)
  have c: "contents act ((fx @ fy) @ imms) ?levs = contents act (fes @ imms) levs"
    unfolding contents_eq rest_flush_history [OF ne] f(4) by (simp add: rest_of_def fes(1))
  have "run_at cfg (k + 1) (whole ?th) lg rm (h @ ts) act ((fx @ fy) @ imms) ?levs"
  proof (rule run_moved [OF r(1) _ h'])
    have "numbered cfg (unat (db_sst_seq (th_db th))) ts"
    proof -
      have "\<exists>k < unat (db_sst_seq (th_db th)). p = flush_path cfg (word_of_nat k) \<or> p = make_path (level_dir cfg 1) 1 (word_of_nat k)"
        if "p \<in> set (paths_of ts)" for p
        using f(3) sq(1) that by (intro exI [of _ "unat sq"] conjI disjI1) auto
      then show ?thesis unfolding numbered_def by blast
    qed
    then show "numbered cfg (unat (db_sst_seq (whole ?th))) (h @ ts)" using r(1) by (simp add: run_at_def)
    show "l0_older (unat (db_sst_seq (whole ?th))) ?levs"
      using r(1) f(5) sq(1) ne by (cases levs) (auto simp: run_at_def l0_older_def flush_history_def)
    show "unat (db_sst_seq (whole ?th)) + length ((fx @ fy) @ imms) \<le> unat (db_sst_seq (whole th)) + length (fes @ imms) + 1"
      by (simp add: fes(1))
    show "kept (entries_of (whole th) lg rm) (contents act ((fx @ fy) @ imms) ?levs)" using r(1) unfolding c by (simp add: run_at_def)
    show "size (contents act ((fx @ fy) @ imms) ?levs) \<le> size (contents act (fes @ imms) levs)" unfolding c by simp
  qed (simp add: same_front_def)
  moreover have "flights_ok cfg (db_sst_seq (th_db ?th)) (h @ ts) (numbers (th_flight ?th))"
    using r(3) f(3) sq(3) by (auto simp: flights_ok_def fl(1))
  ultimately have "th_at cfg (k + 1) ?th lg rm (h @ ts) act imms (fx @ fy) ?levs" using len by (simp add: th_at_def)
  moreover have "length (th_flight ?th) + 1 = length ?fl" by (simp add: fl(1))
  moreover have "fx @ fy = take i fes @ drop (Suc i) fes" using fes by simp
  ultimately show ?thesis using d c by blast
qed

lemma inserted_behind: "inserted e act imms act' imms' \<Longrightarrow> inserted e act (fes @ imms) act' (fes @ imms')"
  by (auto simp: inserted_def)

text \<open>An append or a removal wrote the database; the flights stay.\<close>

lemma wrote_whole: "wrote e (th_db th) st \<Longrightarrow> wrote e (whole th) (whole (th\<lparr>th_db := st\<rparr>))"
  by (simp add: wrote_def)

lemma th_at_wrote:
  assumes at: "th_at cfg k th lg rm h act imms fes levs" and st: "db_holds st h act' imms' levs" "db_sst_seq st = db_sst_seq (th_db th)"
    and r: "run_at cfg (k + 1) (whole (th\<lparr>th_db := st\<rparr>)) lg' rm' h act' (fes @ imms') levs"
  shows "th_at cfg (k + 1) (th\<lparr>th_db := st\<rparr>) lg' rm' h act' imms' fes levs"
  using at r st(2) by (simp add: th_at_def)

lemma whole_holds_update:
  assumes "th_at cfg k th lg rm h act imms fes levs" and "db_holds st h act' imms' levs"
  shows "db_holds (whole (th\<lparr>th_db := st\<rparr>)) h act' (fes @ imms') levs"
  using whole_holds [of fes "th\<lparr>th_db := st\<rparr>"] th_at_holds(2,3) [OF assms(1)] assms by (simp add: th_at_def)

lemma th_at_append:
  assumes os: "os_good os" and at: "th_at cfg k th lg rm h act imms fes levs" and k: "k < 2 ^ 32 - 2"
    and ok: "op_ok (Op_append name a)" and e: "db_append os rng name a (th_db th) = Some (r, st)"
  shows "\<exists>res lg' act' imms'. r = Inr res \<and> th_at cfg (k + 1) (th\<lparr>th_db := st\<rparr>) lg' rm h act' imms' fes levs \<and>
    client_step (Op_append name a) (Wrote res) (client lg rm) = client lg' rm"
proof -
  have rn: "run_at cfg k (whole th) lg rm h act (fes @ imms) levs" using at by (simp add: th_at_def)
  note l = run_at_log [OF rn k, simplified]
  obtain es where es: "log_holds (db_wal (th_db th)) es" using l(4) by blast
  obtain res sid act' imms' where w: "r = Inr res" "ar_sequence_id res = db_next_seq (th_db th)"
      "db_next_seq st = db_next_seq (th_db th) + 1" "symtab_lookup name (db_symbols st) = Some sid"
      "wrote (append_event a sid (db_next_seq (th_db th))) (th_db th) st" "db_holds st h act' imms' levs"
      "inserted (append_event a sid (db_next_seq (th_db th))) act imms act' imms'"
    using db_append_spec [OF os th_at_holds(1) [OF at] l(1) es l(2) _ _, of name a rng] ok l(3) e by auto
  let ?th = "th\<lparr>th_db := st\<rparr>" and ?e = "append_event a sid (db_next_seq (th_db th))"
  have "run_at cfg (k + 1) (whole ?th) (lg @ [(name, append_event a sid (db_next_seq (whole th)))]) rm h act' (fes @ imms') levs"
    by (rule run_at_appended [OF rn k])
      (use w wrote_whole [OF w(5)] whole_holds_update [OF at w(6)] inserted_behind [OF w(7)] in simp_all)
  then have "th_at cfg (k + 1) ?th (lg @ [(name, ?e)]) rm h act' imms' fes levs"
    using th_at_wrote [OF at w(6)] w(5) by (simp add: wrote_def)
  moreover have "client_step (Op_append name a) (Wrote res) (client lg rm) = client (lg @ [(name, ?e)]) rm"
    using w(2) by (simp add: append_event_def erase_def)
  ultimately show ?thesis using w(1) by blast
qed

lemma th_at_remove:
  assumes os: "os_good os" and at: "th_at cfg k th lg rm h act imms fes levs" and k: "k < 2 ^ 32 - 2"
    and ok: "op_ok (Op_remove name ts sq)" and e: "db_remove os rng name ts sq (th_db th) = Some (r, st)"
  shows "\<exists>res rm' act' imms'. r = Inr res \<and> th_at cfg (k + 1) (th\<lparr>th_db := st\<rparr>) lg rm' h act' imms' fes levs \<and>
    client_step (Op_remove name ts sq) (Wrote res) (client lg rm) = client lg rm'"
proof -
  have rn: "run_at cfg k (whole th) lg rm h act (fes @ imms) levs" using at by (simp add: th_at_def)
  note l = run_at_log [OF rn k, simplified]
  obtain es where es: "log_holds (db_wal (th_db th)) es" using l(4) by blast
  obtain res sid act' imms' where w: "r = Inr res" "db_next_seq st = db_next_seq (th_db th)"
      "symtab_lookup name (db_symbols st) = Some sid" "wrote (tombstone sid ts sq) (th_db th) st" "db_holds st h act' imms' levs"
      "inserted (tombstone sid ts sq) act imms act' imms'"
    using db_remove_spec [OF os th_at_holds(1) [OF at] l(1) es l(2) _ _, of name rng ts sq] ok l(3) e by auto
  let ?th = "th\<lparr>th_db := st\<rparr>"
  have "run_at cfg (k + 1) (whole ?th) lg (rm @ [(name, ts, sq)]) h act' (fes @ imms') levs"
    by (rule run_at_removed [OF rn k])
      (use w wrote_whole [OF w(4)] whole_holds_update [OF at w(5)] inserted_behind [OF w(6)] in simp_all)
  then have "th_at cfg (k + 1) ?th lg (rm @ [(name, ts, sq)]) h act' imms' fes levs"
    using th_at_wrote [OF at w(5)] w(4) by (simp add: wrote_def)
  then show ?thesis using w(1) by (intro exI [of _ res] exI [of _ "rm @ [(name, ts, sq)]"] exI [of _ act'] exI [of _ imms']) simp
qed

lemma th_at_query:
  assumes os: "os_good os" and at: "th_at cfg k th lg rm h act imms fes levs" and e: "db_query os req (th_db th) = Some (r, st)"
  shows "\<exists>q. r = Inr q \<and> th_at cfg (k + 1) (th\<lparr>th_db := st\<rparr>) lg rm h act imms fes levs"
proof -
  have rn: "run_at cfg k (whole th) lg rm h act (fes @ imms) levs" using at by (simp add: th_at_def)
  then have nc: "\<not> db_closed (th_db th)" by (simp add: run_at_def)
  have "\<exists>q io. r = Inr q \<and> st = (th_db th)\<lparr>db_io := io\<rparr> \<and> db_holds st h act imms levs"
  proof (cases "symtab_lookup (rq_symbol req) (db_symbols (th_db th))")
    case None
    obtain res where "db_query os req (th_db th) = Some (Inr res, (th_db th)\<lparr>db_io := db_io (th_db th)\<rparr>)"
      using query_unknown [OF nc None] by blast
    then show ?thesis using e th_at_holds(1) [OF at] by (intro exI [of _ res] exI [of _ "db_io (th_db th)"]) simp
  next
    case (Some sid)
    then show ?thesis using query_selects [OF os th_at_holds(1) [OF at] nc Some] e by auto
  qed
  then obtain q io where q: "r = Inr q" "st = (th_db th)\<lparr>db_io := io\<rparr>" "db_holds st h act imms levs" by blast
  let ?w = "whole (th\<lparr>th_db := st\<rparr>)"
  have w: "?w = (whole th)\<lparr>db_io := io\<rparr>" by (simp add: whole_def q(2))
  have "run_at cfg (k + 1) ?w lg rm h act (fes @ imms) levs"
    by (rule run_moved [OF rn _ whole_holds_update [OF at q(3)]])
      (use rn in \<open>simp_all add: same_front_def run_at_def w\<close>)
  then show ?thesis using q th_at_wrote [OF at q(3)] by simp
qed

lemma th_at_rotate:
  assumes at: "th_at cfg k th lg rm h act imms fes levs"
  shows "\<exists>act' imms'. th_at cfg (k + 1) (th\<lparr>th_db := rotate_active (th_db th)\<rparr>) lg rm h act' imms' fes levs"
proof -
  let ?st = "rotate_active (th_db th)" and ?imms = "imms @ (if act = [] then [] else [act])"
  have rn: "run_at cfg k (whole th) lg rm h act (fes @ imms) levs" using at by (simp add: th_at_def)
  have r: "db_holds ?st h [] ?imms levs" "same_front (th_db th) ?st" "db_sst_seq ?st = db_sst_seq (th_db th)"
    using rotate_active_spec [OF th_at_holds(1) [OF at]] by blast+
  have c: "contents [] (fes @ ?imms) levs = contents act (fes @ imms) levs"
    by (simp add: contents_eq rest_of_def)
  have f: "same_front (whole th) (whole (th\<lparr>th_db := ?st\<rparr>))" using r(2) by (simp add: same_front_def)
  have "run_at cfg (k + 1) (whole (th\<lparr>th_db := ?st\<rparr>)) lg rm h [] (fes @ ?imms) levs"
  proof (rule run_moved [OF rn f whole_holds_update [OF at r(1)]])
    show "size (contents [] (fes @ ?imms) levs) \<le> size (contents act (fes @ imms) levs)" unfolding c by simp
    show "kept (entries_of (whole th) lg rm) (contents [] (fes @ ?imms) levs)" unfolding c using rn by (simp add: run_at_def)
  qed (use rn r(3) in \<open>simp_all add: run_at_def\<close>)
  then show ?thesis using th_at_wrote [OF at r(1,3)] by blast
qed

definition th_inv :: "db_config \<Rightarrow> nat \<Rightarrow> threads \<Rightarrow> client_log \<Rightarrow> bool" where
  "th_inv cfg k th cl \<longleftrightarrow> (\<exists>lg rm h act imms fes levs. th_at cfg k th lg rm h act imms fes levs \<and> cl = client lg rm)"

lemma th_invI: "th_at cfg k th lg rm h act imms fes levs \<Longrightarrow> cl = client lg rm \<Longrightarrow> th_inv cfg k th cl"
  unfolding th_inv_def by blast

lemma th_inv_work:
  assumes os: "os_progress os" and nf: "\<forall>n. bloom_wf (nf n)" and t: "block_target_bytes cfg < 2 ^ 32"
    and inv: "th_inv cfg k th cl" and k: "k < 2 ^ 32 - 2" and w: "th_work os nf th th'"
  shows "th_inv cfg (k + 1) th' cl"
proof -
  obtain lg rm h act imms fes levs where at: "th_at cfg k th lg rm h act imms fes levs" "cl = client lg rm"
    using inv unfolding th_inv_def by blast
  from w show ?thesis
  proof cases
    case taking
    obtain es imms' where "th_at cfg (k + 1) th' lg rm h act imms' (fes @ [es]) levs"
      using th_at_take [OF at(1) taking] by (elim exE conjE) (rule that)
    then show ?thesis using at(2) by (rule th_invI)
  next
    case (numbering i)
    show ?thesis using th_at_number [OF at(1) numbering k] at(2) by (rule th_invI)
  next
    case (publishing i)
    then obtain m sq where i: "i < length (th_flight th)" "th_flight th ! i = (m, Some sq)"
      by (auto simp: th_done_def split: if_splits prod.splits option.splits)
    obtain th'' h' fes' levs' where "th_done os nf i th = Some th''" "th_at cfg (k + 1) th'' lg rm h' act imms fes' levs'"
      using th_at_done [OF os nf t at(1) k i] by blast
    moreover have "th'' = th'" using calculation(1) publishing by simp
    ultimately have "th_at cfg (k + 1) th' lg rm h' act imms fes' levs'" by simp
    then show ?thesis using at(2) by (rule th_invI)
  qed
qed

lemma th_inv_step:
  assumes os: "os_good os" and nf: "\<forall>n. bloom_wf (nf n)" and t: "block_target_bytes cfg < 2 ^ 32"
    and inv: "th_inv cfg k th cl" and k: "k < 2 ^ 32 - 2" and s: "th_step os rng nf th lab th'"
  shows "th_inv cfg (k + 1) th' (case lab of None \<Rightarrow> cl | Some (op, an) \<Rightarrow> client_step op an cl)"
proof -
  have op: "os_progress os" using os by (simp add: os_progress_def)
  obtain lg rm h act imms fes levs where at: "th_at cfg k th lg rm h act imms fes levs" "cl = client lg rm"
    using inv unfolding th_inv_def by blast
  from s show ?thesis
  proof cases
    case (client c an st)
    show ?thesis
    proof (cases c)
      case (Op_append name a)
      then obtain r where r: "db_append os rng name a (th_db th) = Some (r, st)" "an = answer Wrote r" "op_ok (Op_append name a)"
        using client by auto
      obtain res lg' act' imms' where a: "r = Inr res" "th_at cfg (k + 1) (th\<lparr>th_db := st\<rparr>) lg' rm h act' imms' fes levs"
          "client_step (Op_append name a) (Wrote res) (client lg rm) = client lg' rm"
        using th_at_append [OF os at(1) k r(3,1)] by blast
      show ?thesis using th_invI [OF a(2)] a(1,3) client(1,2) at(2) Op_append r(2) by simp
    next
      case (Op_remove name ts sq)
      then obtain r where r: "db_remove os rng name ts sq (th_db th) = Some (r, st)" "an = answer Wrote r" "op_ok (Op_remove name ts sq)"
        using client by auto
      obtain res rm' act' imms' where a: "r = Inr res" "th_at cfg (k + 1) (th\<lparr>th_db := st\<rparr>) lg rm' h act' imms' fes levs"
          "client_step (Op_remove name ts sq) (Wrote res) (client lg rm) = client lg rm'"
        using th_at_remove [OF os at(1) k r(3,1)] by blast
      show ?thesis using th_invI [OF a(2)] a(1,3) client(1,2) at(2) Op_remove r(2) by simp
    next
      case (Op_query req)
      then obtain r where r: "db_query os req (th_db th) = Some (r, st)" "an = answer Rows r" using client by auto
      obtain q where q: "r = Inr q" "th_at cfg (k + 1) (th\<lparr>th_db := st\<rparr>) lg rm h act imms fes levs"
        using th_at_query [OF os at(1) r(1)] by blast
      show ?thesis using th_invI [OF q(2)] client(1,2) at(2) Op_query r(2) by simp
    qed (use client in auto)
  next
    case rotate
    obtain act' imms' where "th_at cfg (k + 1) (th\<lparr>th_db := rotate_active (th_db th)\<rparr>) lg rm h act' imms' fes levs"
      using th_at_rotate [OF at(1)] by blast
    then have "th_at cfg (k + 1) th' lg rm h act' imms' fes levs" using rotate by simp
    then show ?thesis using th_invI [OF _ at(2)] rotate(1) by simp
  next
    case work
    then show ?thesis using th_inv_work [OF op nf t inv k] by simp
  qed
qed

lemma th_inv_run:
  assumes os: "os_good os" and nf: "\<forall>n. bloom_wf (nf n)" and t: "block_target_bytes cfg < 2 ^ 32"
    and th0: "th_inv cfg 0 th0 \<lparr>appended = [], removed = []\<rparr>"
  shows "th_run os rng nf th0 labs th \<Longrightarrow> length labs < 2 ^ 32 - 1 \<Longrightarrow> th_inv cfg (length labs) th (log_of_run labs)"
proof (induction labs th rule: th_run.induct)
  case start
  then show ?case using th0 by (simp add: log_of_run_def)
next
  case (step labs th lab th')
  have inv: "th_inv cfg (length labs) th (log_of_run labs)" using step by simp
  have "length labs < 2 ^ 32 - 2" using step.prems by simp
  note st = th_inv_step [OF os nf t inv this step.hyps(2)]
  have "log_of_run (labs @ [lab]) = (case lab of None \<Rightarrow> log_of_run labs | Some (op, an) \<Rightarrow> client_step op an (log_of_run labs))"
    by (cases lab) (auto simp: log_of_run_def)
  then show ?case using st by simp
qed

section \<open>Progress\<close>

definition work_left :: "threads \<Rightarrow> nat" where
  "work_left th = 3 * length (db_imm (th_db th)) + (\<Sum>(m, n) \<leftarrow> th_flight th. case n of None \<Rightarrow> 2 | Some _ \<Rightarrow> 1)"

lemma do_flush_imm: "do_flush os nf m sq st = Some (r, st') \<Longrightarrow> db_imm st' = db_imm st \<and> db_symbols st' = db_symbols st"
  by (auto simp: do_flush_def bind_eq_Some_conv split: if_splits prod.splits sum.splits)

lemma th_done_step:
  assumes "th_done os nf i th = Some th'"
  shows "\<exists>m sq st. i < length (th_flight th) \<and> th_flight th ! i = (m, Some sq) \<and> do_flush os nf m sq (th_db th) = Some (Inr (), st) \<and>
    th' = \<lparr>th_db = st, th_flight = take i (th_flight th) @ drop (Suc i) (th_flight th)\<rparr>"
proof -
  obtain m n where f: "th_flight th ! i = (m, n)" by fastforce
  have i: "i < length (th_flight th)" using assms by (simp add: th_done_def split: if_splits)
  then obtain sq where n: "n = Some sq" using assms f by (cases n) (simp_all add: th_done_def)
  obtain r st where d: "do_flush os nf m sq (th_db th) = Some (r, st)"
    using assms i f n by (cases "do_flush os nf m sq (th_db th)") (auto simp: th_done_def)
  then obtain u where "r = Inr u" using assms i f n by (cases r) (simp_all add: th_done_def)
  then show ?thesis using assms i f n d by (simp add: th_done_def)
qed

lemma th_work_decreases: "th_work os nf th th' \<Longrightarrow> work_left th' < work_left th"
proof (induction rule: th_work.induct)
  case (taking th th')
  then show ?case by (auto simp: th_take_def work_left_def split: list.splits)
next
  case (numbering i th th')
  then have i: "i < length (th_flight th)" "snd (th_flight th ! i) = None" by (auto simp: th_number_def split: if_splits)
  obtain xs m ys where "th_flight th = xs @ (m, None) # ys" "length xs = i"
    using split_at [OF i(1)] i by (metis length_take min.absorb4 prod.collapse)
  then show ?case using numbering by (auto simp: th_number_def work_left_def)
next
  case (publishing i th th')
  obtain m sq st where i: "i < length (th_flight th)" "th_flight th ! i = (m, Some sq)"
      "do_flush os nf m sq (th_db th) = Some (Inr (), st)" "th' = \<lparr>th_db = st, th_flight = take i (th_flight th) @ drop (Suc i) (th_flight th)\<rparr>"
    using th_done_step [OF publishing] by blast
  obtain xs ys where "th_flight th = xs @ (m, Some sq) # ys" "length xs = i"
    using split_at [OF i(1)] i(1,2) by (metis length_take min.absorb4)
  then show ?case using do_flush_imm [OF i(3)] by (auto simp: work_left_def i(4))
qed

lemma th_work_progress:
  assumes os: "os_progress os" and nf: "\<forall>n. bloom_wf (nf n)" and t: "block_target_bytes cfg < 2 ^ 32"
    and inv: "th_inv cfg k th cl" and k: "k < 2 ^ 32 - 2"
  shows "(\<exists>th'. th_work os nf th th') \<longleftrightarrow> \<not> idle th"
proof
  assume "\<exists>th'. th_work os nf th th'"
  then obtain th' where "th_work os nf th th'" by blast
  from th_work_decreases [OF this] show "\<not> idle th" by (auto simp: idle_def work_left_def)
next
  assume ni: "\<not> idle th"
  obtain lg rm h act imms fes levs where at: "th_at cfg k th lg rm h act imms fes levs"
    using inv unfolding th_inv_def by (elim exE conjE) (rule that)
  show "\<exists>th'. th_work os nf th th'"
  proof (cases "th_flight th")
    case Nil
    then obtain m ms where "db_imm (th_db th) = m # ms" using ni by (auto simp: idle_def neq_Nil_conv)
    then have "th_take th = Some \<lparr>th_db = (th_db th)\<lparr>db_imm := ms\<rparr>, th_flight = th_flight th @ [(m, None)]\<rparr>"
      by (simp add: th_take_def)
    then show ?thesis by (intro exI) (rule th_work.taking)
  next
    case (Cons f fl)
    obtain m n where f: "f = (m, n)" by fastforce
    have z: "0 < length (th_flight th)" "th_flight th ! 0 = (m, n)" by (simp_all add: Cons f)
    show ?thesis
    proof (cases n)
      case None
      have "\<exists>th'. th_number 0 th = Some th'" using z None by (simp add: th_number_def)
      then show ?thesis by (elim exE) (rule exI, rule th_work.numbering)
    next
      case (Some sq)
      then have z2: "th_flight th ! 0 = (m, Some sq)" using z by simp
      have "\<exists>th'. th_done os nf 0 th = Some th'" using th_at_done [OF os nf t at k z(1) z2] by blast
      then show ?thesis by (elim exE) (rule exI, rule th_work.publishing)
    qed
  qed
qed

lemma th_inv_works:
  assumes os: "os_progress os" and nf: "\<forall>n. bloom_wf (nf n)" and t: "block_target_bytes cfg < 2 ^ 32" and inv: "th_inv cfg k th cl"
  shows "(th_work os nf ^^ n) th th' \<Longrightarrow> k + n < 2 ^ 32 - 1 \<Longrightarrow> th_inv cfg (k + n) th' cl \<and> work_left th' + n \<le> work_left th"
proof (induction n arbitrary: th')
  case 0
  then show ?case using inv by simp
next
  case (Suc n)
  then obtain th1 where w: "(th_work os nf ^^ n) th th1" "th_work os nf th1 th'" by auto
  have i: "th_inv cfg (k + n) th1 cl" "work_left th1 + n \<le> work_left th" using Suc.IH [OF w(1)] Suc.prems(2) by simp_all
  have "k + n < 2 ^ 32 - 2" using Suc.prems(2) by simp
  from th_inv_work [OF os nf t i(1) this w(2)] th_work_decreases [OF w(2)] i(2) show ?case by simp
qed

section \<open>One flush in flight\<close>

lemma one_flight:
  assumes os: "os_good os" and nf: "\<forall>n. bloom_wf (nf n)" and t: "block_target_bytes cfg < 2 ^ 32"
    and at: "run_at cfg k st lg rm h act (es # imms) levs" and k: "k < 2 ^ 32 - 4"
  shows "\<exists>th1 th2 th3 h' levs'. th_take \<lparr>th_db = st, th_flight = []\<rparr> = Some th1 \<and> th_number 0 th1 = Some th2 \<and>
    th_done os nf 0 th2 = Some th3 \<and> th_flight th3 = [] \<and> db_holds (th_db th1) h act imms levs \<and>
    db_symbols (th_db th1) = db_symbols st \<and> db_closed (th_db th1) = db_closed st \<and>
    run_at cfg (k + 3) (th_db th3) lg rm h' act imms levs' \<and> db_symbols (th_db th3) = db_symbols st \<and>
    contents act imms levs' = contents act (es # imms) levs"
proof -
  let ?th = "\<lparr>th_db = st, th_flight = []\<rparr>"
  have op: "os_progress os" using os by (simp add: os_progress_def)
  have a0: "th_at cfg k ?th lg rm h act (es # imms) [] levs" by (rule th_start [OF at])
  have "list_all2 memtable_rel (db_imm st) (es # imms)" using at by (simp add: run_at_def db_holds_def)
  then obtain m ms where m: "db_imm st = m # ms" by (auto simp: list_all2_Cons2)
  let ?th1 = "\<lparr>th_db = st\<lparr>db_imm := ms\<rparr>, th_flight = [(m, None)]\<rparr>"
  have t1: "th_take ?th = Some ?th1" by (simp add: th_take_def m)
  have a1: "th_at cfg (k + 1) ?th1 lg rm h act imms [es] levs" using th_at_take [OF a0 t1] by auto
  let ?th2 = "\<lparr>th_db = st\<lparr>db_imm := ms, db_sst_seq := db_sst_seq st + 1\<rparr>, th_flight = [(m, Some (db_sst_seq st))]\<rparr>"
  have t2: "th_number 0 ?th1 = Some ?th2" by (simp add: th_number_def)
  have k1: "k + 1 < 2 ^ 32 - 2" "k + 1 + 1 < 2 ^ 32 - 2" using k by simp_all
  have a2: "th_at cfg (k + 1 + 1) ?th2 lg rm h act imms [es] levs" by (rule th_at_number [OF a1 t2 k1(1)])
  have f: "0 < length (th_flight ?th2)" "th_flight ?th2 ! 0 = (m, Some (db_sst_seq st))" by simp_all
  obtain th3 h' fes' levs' where d: "th_done os nf 0 ?th2 = Some th3" "th_at cfg (k + 1 + 1 + 1) th3 lg rm h' act imms fes' levs'"
      "length (th_flight th3) + 1 = length (th_flight ?th2)" "contents act (fes' @ imms) levs' = contents act ([es] @ imms) levs"
    using th_at_done [OF op nf t a2 k1(2) f] by (elim exE conjE) (rule that)
  have e: "th_flight th3 = []" using d(3) by simp
  then have fe: "fes' = []" "whole th3 = th_db th3" using d(2) by (simp_all add: th_at_def whole_def)
  have r: "run_at cfg (k + 3) (th_db th3) lg rm h' act imms levs'"
    using d(2) unfolding th_at_def fe by (simp add: numeral_eq_Suc)
  obtain st' where "do_flush os nf m (db_sst_seq st) (th_db ?th2) = Some (Inr (), st')" "th_db th3 = st'"
    using th_done_step [OF d(1)] by auto
  then have sy: "db_symbols (th_db th3) = db_symbols st" using do_flush_imm by fastforce
  show ?thesis
    using t1 t2 d(1,4) e r sy th_at_holds(1) [OF a1] unfolding fe by fastforce
qed

text \<open>Rows are not cut off by a limit that no content exceeds.\<close>

lemma selected_rows:
  assumes os: "os_good os" and st: "db_holds st h act imms levs" "\<not> db_closed st"
    and sid: "symtab_lookup (rq_symbol req) (db_symbols st) = Some sid" and l: "size (contents act imms levs) \<le> query_limit req"
  shows "\<exists>q st'. db_query os req st = Some (Inr q, st') \<and> set (qr_rows q) = {e \<in> set_mset (contents act imms levs). selects req sid e}"
proof -
  let ?all = "concat (sources act imms levs)"
  obtain q io where q: "db_query os req st = Some (Inr q, st\<lparr>db_io := io\<rparr>)" "qr_rows q = take (query_limit req) (filter (selects req sid) ?all)"
    using query_selects [OF os st sid] by blast
  have "length (filter (selects req sid) ?all) \<le> length ?all" by (rule length_filter_le)
  also have "\<dots> = size (contents act imms levs)" by (simp only: contents_def size_mset)
  finally have "qr_rows q = filter (selects req sid) ?all" using q(2) l by simp
  then show ?thesis using q(1) by (auto simp: contents_def)
qed

lemma only_once:
  assumes "run_at cfg k st lg rm h act (es # imms) levs" and "e \<in> set es" and "is_row e"
  shows "e \<notin># contents act imms levs"
proof
  assume n: "e \<in># contents act imms levs"
  have "contents act (es # imms) levs = mset es + contents act imms levs" by (simp add: contents_eq rest_of_def)
  then have "count (filter_mset is_row (contents act (es # imms) levs)) e = count (mset es) e + count (contents act imms levs) e"
    using assms(3) by simp
  moreover have "1 \<le> count (mset es) e" "1 \<le> count (contents act imms levs) e"
    using assms(2) n by (simp_all add: Suc_le_eq count_greater_zero_iff del: count_mset)
  ultimately have "2 \<le> count (filter_mset is_row (contents act (es # imms) levs)) e"
    by linarith
  also have "\<dots> \<le> count (mset (map snd lg)) e"
    using assms(1) by (intro mset_subset_eq_count) (simp add: run_at_def kept_def entries_of_def)
  also have "\<dots> \<le> 1"
    using entries_seqs(2) [of "entries_of st lg rm"] assms(1) by (simp add: run_at_def entries_of_def distinct_count_atmost_1)
  finally show False by simp
qed

section \<open>Properties\<close>

lemma th_inv_fresh:
  assumes "os_good os" and "db_open os rng cfg empty_disk = Some (Inr st0)"
  shows "th_inv cfg 0 \<lparr>th_db = st0, th_flight = []\<rparr> \<lparr>appended = [], removed = []\<rparr>"
proof -
  obtain st where "db_open os rng cfg empty_disk = Some (Inr st)" "run_at cfg 0 st [] [] [] [] [] [[], [], [], []]"
    using db_open_fresh [OF assms(1)] by blast
  then have "run_at cfg 0 st0 [] [] [] [] [] [[], [], [], []]" using assms(2) by simp
  from th_invI [OF th_start [OF this]] show ?thesis by simp
qed


text \<open>C18: Flushing ends: from every reachable state any sequence of steps of the flushing threads has
  at most \<open>work_left\<close> steps, and such a sequence can be continued exactly as long as a
  memtable waits or a flush is in flight.\<close>

theorem flushes_drain:
  assumes "os_good os" and "\<forall>n. bloom_wf (new_filter n)" and "block_target_bytes cfg < 2 ^ 32"
    and "db_open os rng cfg empty_disk = Some (Inr st0)"
    and "th_run os rng new_filter \<lparr>th_db = st0, th_flight = []\<rparr> labs th"
    and "(th_work os new_filter ^^ n) th th'" and "length labs + n < 2 ^ 32 - 2"
  shows "n \<le> work_left th \<and> ((\<exists>th''. th_work os new_filter th' th'') \<longleftrightarrow> \<not> idle th')"
proof -
  have op: "os_progress os" using assms(1) by (simp add: os_progress_def)
  have l: "length labs < 2 ^ 32 - 1" "length labs + n < 2 ^ 32 - 1" using assms(7) by simp_all
  have "th_inv cfg (length labs) th (log_of_run labs)"
    by (rule th_inv_run [OF assms(1-3) th_inv_fresh [OF assms(1,4)] assms(5) l(1)])
  from th_inv_works [OF op assms(2,3) this assms(6) l(2)]
  have i: "th_inv cfg (length labs + n) th' (log_of_run labs)" "n \<le> work_left th" by auto
  then show ?thesis using th_work_progress [OF op assms(2,3) i(1) assms(7)] by blast
qed

text \<open>C22: A query during a flush does not see the memtable in flight, which is in no list any more and
  not in a table yet: an event that a query returned before, and that nobody removed, is missing,
  and is back when the flush is done.\<close>

theorem query_misses_flight:
  assumes "os_good os" and "\<forall>n. bloom_wf (new_filter n)" and "block_target_bytes cfg < 2 ^ 32"
    and "run_at cfg k st lg rm h act (es # imms) levs" and "k < 2 ^ 32 - 4" and "k \<le> query_limit req"
    and "e \<in> set es" and "symtab_lookup (rq_symbol req) (db_symbols st) = Some (symbol_id e)" and "selects req (symbol_id e) e"
  shows "\<exists>q0 st0 th1 q1 st1 th2 th3 q3 st3. db_query os req st = Some (Inr q0, st0) \<and> e \<in> set (qr_rows q0) \<and>
    th_take \<lparr>th_db = st, th_flight = []\<rparr> = Some th1 \<and> db_query os req (th_db th1) = Some (Inr q1, st1) \<and> e \<notin> set (qr_rows q1) \<and>
    th_number 0 th1 = Some th2 \<and> th_done os new_filter 0 th2 = Some th3 \<and>
    db_query os req (th_db th3) = Some (Inr q3, st3) \<and> e \<in> set (qr_rows q3)"
proof -
  obtain th1 th2 th3 h' levs' where t: "th_take \<lparr>th_db = st, th_flight = []\<rparr> = Some th1" "th_number 0 th1 = Some th2"
      "th_done os new_filter 0 th2 = Some th3" "db_holds (th_db th1) h act imms levs" "db_symbols (th_db th1) = db_symbols st"
      "db_closed (th_db th1) = db_closed st" "run_at cfg (k + 3) (th_db th3) lg rm h' act imms levs'"
      "db_symbols (th_db th3) = db_symbols st" "contents act imms levs' = contents act (es # imms) levs"
    using one_flight [OF assms(1-5)] by (elim exE conjE) (rule that)
  have c: "contents act (es # imms) levs = mset es + contents act imms levs" by (simp add: contents_eq rest_of_def)
  have r: "\<not> db_closed st" "db_holds st h act (es # imms) levs" "size (contents act (es # imms) levs) \<le> query_limit req"
      "\<not> db_closed (th_db th3)" "db_holds (th_db th3) h' act imms levs'"
    using assms(4,6) t(7) by (simp_all add: run_at_def)
  have "is_row e" using assms(9) by (simp add: selects_def wanted_def is_row_def)
  then have once: "e \<notin># contents act imms levs" by (rule only_once [OF assms(4,7)])
  obtain q0 st0 where q0: "db_query os req st = Some (Inr q0, st0)" "set (qr_rows q0) = {x \<in> set_mset (contents act (es # imms) levs). selects req (symbol_id e) x}"
    using selected_rows [OF assms(1) r(2,1) assms(8) r(3)] by blast
  have l1: "size (contents act imms levs) \<le> query_limit req" using r(3) c by simp
  obtain q1 st1 where q1: "db_query os req (th_db th1) = Some (Inr q1, st1)" "set (qr_rows q1) = {x \<in> set_mset (contents act imms levs). selects req (symbol_id e) x}"
    using selected_rows [OF assms(1) t(4) _ _ l1] r(1) t(5,6) assms(8) by auto
  have l3: "size (contents act imms levs') \<le> query_limit req" using r(3) t(9) by simp
  obtain q3 st3 where q3: "db_query os req (th_db th3) = Some (Inr q3, st3)" "set (qr_rows q3) = {x \<in> set_mset (contents act imms levs'). selects req (symbol_id e) x}"
    using selected_rows [OF assms(1) r(5,4) _ l3] t(8) assms(8) by auto
  have "e \<in> set (qr_rows q0)" "e \<notin> set (qr_rows q1)" "e \<in> set (qr_rows q3)"
    using assms(7,9) c once t(9) by (simp_all add: q0(2) q1(2) q3(2))
  then show ?thesis using q0(1) q1(1) q3(1) t(1-3) by blast
qed

section \<open>A sample run\<close>

lemma run_at_rotate:
  assumes at: "run_at cfg k st lg rm h act imms levs"
  shows "run_at cfg (k + 1) (rotate_active st) lg rm h [] (imms @ (if act = [] then [] else [act])) levs"
proof -
  let ?imms = "imms @ (if act = [] then [] else [act])"
  have r: "db_holds (rotate_active st) h [] ?imms levs" "same_front st (rotate_active st)" "db_sst_seq (rotate_active st) = db_sst_seq st"
    using rotate_active_spec at unfolding run_at_def by blast+
  have c: "contents [] ?imms levs = contents act imms levs" by (simp add: contents_eq rest_of_def)
  show ?thesis
  proof (rule run_moved [OF at r(2,1)])
    show "size (contents [] ?imms levs) \<le> size (contents act imms levs)" unfolding c by simp
    show "kept (entries_of st lg rm) (contents [] ?imms levs)" unfolding c using at by (simp add: run_at_def)
  qed (use at r(3) in \<open>simp_all add: run_at_def\<close>)
qed

lemma sample_waiting:
  "\<exists>st0 r1 st1 e. db_open os_ok (\<lambda>_. 1) (sample_config wal) empty_disk = Some (Inr st0) \<and>
    db_append os_ok (\<lambda>_. 1) ''AAPL'' (sample_args 10) st0 = Some (Inr r1, st1) \<and>
    run_at (sample_config wal) 2 (rotate_active st1) [(''AAPL'', e)] [] [] [] [[e]] [[], [], [], []] \<and>
    symtab_lookup ''AAPL'' (db_symbols (rotate_active st1)) = Some (symbol_id e) \<and> e = append_event (sample_args 10) (symbol_id e) 1"
proof -
  have os: "os_good os_ok" by (simp add: os_good_def)
  obtain st0 where o: "db_open os_ok (\<lambda>_. 1) (sample_config wal) empty_disk = Some (Inr st0)"
      "run_at (sample_config wal) 0 st0 [] [] [] [] [] [[], [], [], []]"
    using db_open_fresh [OF os] by blast
  have ok: "op_ok (Op_append ''AAPL'' (sample_args 10))" by (simp add: sample_args_def)
  obtain r1 st1 e act imms where r: "ar_sequence_id r1 = word_of_nat (length ([] :: (string \<times> event) list) + 1)"
      "e = append_event (sample_args 10) (symbol_id e) (ar_sequence_id r1)" "symtab_lookup ''AAPL'' (db_symbols st1) = Some (symbol_id e)"
      "inserted e [] [] act imms" "run_at (sample_config wal) (0 + 1) st1 ([] @ [(''AAPL'', e)]) [] [] act imms [[], [], [], []]"
      "db_append os_ok (\<lambda>_. 1) ''AAPL'' (sample_args 10) st0 = Some (Inr r1, st1)"
    using run_at_append [OF os o(2) zero_less_small ok, of "\<lambda>_. 1"] by (elim exE conjE) (rule that, assumption+)
  have "imms @ (if act = [] then [] else [act]) = [[e]]" using r(4) by (auto simp: inserted_def event_upsert_def)
  then have "run_at (sample_config wal) 2 (rotate_active st1) [(''AAPL'', e)] [] [] [] [[e]] [[], [], [], []]"
    using run_at_rotate [OF r(5)] by (simp add: numeral_2_eq_2)
  moreover have "db_symbols (rotate_active st1) = db_symbols st1"
    by (simp add: rotate_active_def split: option.split)
  ultimately show ?thesis using o(1) r(1,2,3,6)
    by (intro exI [of _ st0] exI [of _ r1] exI [of _ st1] exI [of _ e]) simp
qed

lemma query_misses_flight_witness:
  "\<exists>st e q0 st0 th1 q1 st1 th2 th3 q3 st3. db_query os_ok sample_request st = Some (Inr q0, st0) \<and> e \<in> set (qr_rows q0) \<and>
    th_take \<lparr>th_db = st, th_flight = []\<rparr> = Some th1 \<and>
    db_query os_ok sample_request (th_db th1) = Some (Inr q1, st1) \<and> e \<notin> set (qr_rows q1) \<and>
    th_number 0 th1 = Some th2 \<and> th_done os_ok sample_filter 0 th2 = Some th3 \<and>
    db_query os_ok sample_request (th_db th3) = Some (Inr q3, st3) \<and> e \<in> set (qr_rows q3)"
proof -
  obtain st1 e where s: "run_at (sample_config True) 2 (rotate_active st1) [(''AAPL'', e)] [] [] [] [[e]] [[], [], [], []]"
      "symtab_lookup ''AAPL'' (db_symbols (rotate_active st1)) = Some (symbol_id e)" "e = append_event (sample_args 10) (symbol_id e) 1"
    using sample_waiting [of True] by (elim exE conjE) (rule that)
  have sel: "selects sample_request (symbol_id e) e"
    by (subst (2) s(3)) (simp add: selects_def in_range_query wanted_def sample_request_def append_event_def sample_args_def)
  have "\<exists>q0 st0 th1 q1 st1' th2 th3 q3 st3. db_query os_ok sample_request (rotate_active st1) = Some (Inr q0, st0) \<and> e \<in> set (qr_rows q0) \<and>
    th_take \<lparr>th_db = rotate_active st1, th_flight = []\<rparr> = Some th1 \<and>
    db_query os_ok sample_request (th_db th1) = Some (Inr q1, st1') \<and> e \<notin> set (qr_rows q1) \<and>
    th_number 0 th1 = Some th2 \<and> th_done os_ok sample_filter 0 th2 = Some th3 \<and>
    db_query os_ok sample_request (th_db th3) = Some (Inr q3, st3) \<and> e \<in> set (qr_rows q3)"
    by (rule query_misses_flight [OF _ _ _ s(1) _ _ _ _ sel])
      (use s(2) in \<open>simp_all add: os_good_def sample_filter_wf sample_config_def sample_request_def query_limit_def\<close>)
  then show ?thesis by blast
qed

text \<open>The run in which one event is appended, rotated out and flushed.\<close>

lemma sample_run:
  "\<exists>st0 r1 th th1 th2 th3. db_open os_ok (\<lambda>_. 1) (sample_config True) empty_disk = Some (Inr st0) \<and>
    th_run os_ok (\<lambda>_. 1) sample_filter \<lparr>th_db = st0, th_flight = []\<rparr> [Some (Op_append ''AAPL'' (sample_args 10), Wrote r1), None] th \<and>
    th_work os_ok sample_filter th th1 \<and> th_work os_ok sample_filter th1 th2 \<and> th_work os_ok sample_filter th2 th3 \<and> th_flight th3 = []"
proof -
  obtain st0 r1 st1 e where s: "db_open os_ok (\<lambda>_. 1) (sample_config True) empty_disk = Some (Inr st0)"
      "db_append os_ok (\<lambda>_. 1) ''AAPL'' (sample_args 10) st0 = Some (Inr r1, st1)"
      "run_at (sample_config True) 2 (rotate_active st1) [(''AAPL'', e)] [] [] [] [[e]] [[], [], [], []]"
    using sample_waiting [of True] by (elim exE conjE) (rule that)
  let ?fresh = "\<lparr>th_db = st0, th_flight = []\<rparr>" and ?op = "Op_append ''AAPL'' (sample_args 10)"
  let ?rot = "\<lparr>th_db = rotate_active st1, th_flight = []\<rparr>"
  have "client_op ?op" by (simp add: sample_args_def)
  moreover have "db_exec os_ok (\<lambda>_. 1) sample_filter ?op (th_db ?fresh) = Some (Wrote r1, st1)" by (simp add: s(2))
  ultimately have "th_step os_ok (\<lambda>_. 1) sample_filter ?fresh (Some (?op, Wrote r1)) (?fresh\<lparr>th_db := st1\<rparr>)"
    by (rule th_step.client)
  then have "th_run os_ok (\<lambda>_. 1) sample_filter ?fresh ([] @ [Some (?op, Wrote r1)]) (?fresh\<lparr>th_db := st1\<rparr>)"
    by (rule th_run.step [OF th_run.start])
  from th_run.step [OF this th_step.rotate]
  have run: "th_run os_ok (\<lambda>_. 1) sample_filter ?fresh [Some (?op, Wrote r1), None] ?rot" by simp
  have t: "block_target_bytes (sample_config True) < 2 ^ 32" by (simp add: sample_config_def)
  have os: "os_good os_ok" and k: "(2 :: nat) < 2 ^ 32 - 4" by (simp_all add: os_good_def)
  obtain th1 th2 th3 where w: "th_take ?rot = Some th1" "th_number 0 th1 = Some th2" "th_done os_ok sample_filter 0 th2 = Some th3"
      "th_flight th3 = []"
    using one_flight [OF os sample_filter_wf t s(3) k] by (elim exE conjE) (rule that)
  show ?thesis
    by (intro exI conjI, rule s(1), rule run, rule th_work.taking [OF w(1)], rule th_work.numbering [OF w(2)],
      rule th_work.publishing [OF w(3)], rule w(4))
qed


lemma flushes_drain_witness:
  "\<exists>th th'. (th_work os_ok sample_filter ^^ 3) th th' \<and> 3 \<le> work_left th \<and>
    ((\<exists>th''. th_work os_ok sample_filter th' th'') \<longleftrightarrow> \<not> idle th')"
proof -
  obtain st0 r1 th th1 th2 th3 where s: "db_open os_ok (\<lambda>_. 1) (sample_config True) empty_disk = Some (Inr st0)"
      "th_run os_ok (\<lambda>_. 1) sample_filter \<lparr>th_db = st0, th_flight = []\<rparr> [Some (Op_append ''AAPL'' (sample_args 10), Wrote r1), None] th"
      "th_work os_ok sample_filter th th1" "th_work os_ok sample_filter th1 th2" "th_work os_ok sample_filter th2 th3" "th_flight th3 = []"
    using sample_run by (elim exE conjE) (rule that)
  have w: "(th_work os_ok sample_filter ^^ 3) th th3" using s(3-5) by (auto simp: numeral_3_eq_3)
  have "3 \<le> work_left th \<and> ((\<exists>th''. th_work os_ok sample_filter th3 th'') \<longleftrightarrow> \<not> idle th3)"
    by (rule flushes_drain [OF _ sample_filter_wf _ s(1,2) w]) (simp_all add: os_good_def sample_config_def)
  then show ?thesis using w by blast
qed

end
