(* ===== verification/Synthetic.thy ===== *)
theory Synthetic
  imports DBThreads "HOL-Library.Signed_Division"
begin

text \<open>
  The generator of synthetic load (net/synthetic.hpp, net/synthetic.cpp): the life of its worker
  thread, and the round the worker repeats. Clock readings and random numbers are inputs of a
  round (\<open>draw\<close>); the doubles are rationals; the pauses between rounds are not modelled.
\<close>

section \<open>Configuration and state\<close>

datatype volatility_regime = Normal | HighVol | FlashCrash

record synthetic_config =
  num_symbols :: u32
  events_per_sec :: rat
  duration_seconds :: u32
  mix_trade :: rat
  mix_quote :: rat
  mix_add :: rat
  mix_modify :: rat
  mix_cancel :: rat
  volatility :: volatility_regime

definition synthetic_config_new :: synthetic_config where
  "synthetic_config_new =
     \<lparr>num_symbols = 100, events_per_sec = 100000, duration_seconds = 30, mix_trade = 1 / 5, mix_quote = 7 / 10,
      mix_add = 1 / 20, mix_modify = 3 / 100, mix_cancel = 1 / 50, volatility = Normal\<rparr>"

record job_status =
  js_job_id :: string
  js_running :: bool
  js_events_generated :: u64

text \<open>What the worker keeps on its stack, and the thread object: default constructed or joined, a
  thread that runs, or one that ended and was not joined.\<close>

record loop_locals =
  ll_symbols :: "string list"
  ll_cum :: "rat list"

datatype worker = No_thread | Live loop_locals | Ended

record generator =
  gn_job :: string
  gn_running :: bool
  gn_count :: u64
  gn_worker :: worker
  gn_config :: synthetic_config

definition generator_new :: generator where
  "generator_new = \<lparr>gn_job = '''', gn_running = False, gn_count = 0, gn_worker = No_thread, gn_config = synthetic_config_new\<rparr>"

text \<open>A call returns, throws, or ends the process: destroying or overwriting a \<^verbatim>\<open>std::thread\<close> that
  was not joined calls \<^verbatim>\<open>std::terminate\<close>.\<close>

datatype 'a outcome = Returned 'a | Raised exn | Terminated

section \<open>The worker\<close>

text \<open>The conversion \<^verbatim>\<open>%04u\<close>.\<close>

definition decimal04 :: "nat \<Rightarrow> string" where
  "decimal04 n = replicate (4 - length (decimal n)) (digit 0) @ decimal n"

definition symbol_names :: "synthetic_config \<Rightarrow> string list" where
  "symbol_names cfg = map (\<lambda>i. ''SYN'' @ decimal04 i) [0..<unat (num_symbols cfg)]"

fun cumulative :: "rat \<Rightarrow> rat \<Rightarrow> rat list \<Rightarrow> rat list" where
  "cumulative total_w running [] = []"
| "cumulative total_w running (w # ws) = (running + w / total_w) # cumulative total_w (running + w / total_w) ws"

definition mix_weights :: "synthetic_config \<Rightarrow> rat list" where
  "mix_weights cfg = [mix_trade cfg, mix_quote cfg, mix_add cfg, mix_modify cfg, mix_cancel cfg]"

text \<open>When the weights are all 0 every quotient is NaN, which compares as false with any number; the list of
  bounds is then empty. Weights are taken to be non-negative.\<close>

definition loop_init :: "synthetic_config \<Rightarrow> loop_locals" where
  "loop_init cfg =
     (let weights = mix_weights cfg; total_w = sum_list weights
      in \<lparr>ll_symbols = symbol_names cfg, ll_cum = (if total_w = 0 then [] else cumulative total_w 0 weights)\<rparr>)"

text \<open>The first type whose cumulative weight reaches the number that was drawn.\<close>

fun pick_type :: "rat \<Rightarrow> (rat \<times> event_type) list \<Rightarrow> event_type" where
  "pick_type r [] = Cancel"
| "pick_type r ((c, t) # cts) = (if r \<le> c then t else pick_type r cts)"

text \<open>What a round reads: whether the deadline has passed, the index of a symbol, a number in
  $[0, 1)$, a price already converted to an integer, the time, quantities and an order number.\<close>

record draw =
  dr_expired :: bool
  dr_sym :: u32
  dr_type :: rat
  dr_px :: i64
  dr_ts_ns :: u64
  dr_quantity :: u32
  dr_bid_qty :: u32
  dr_ask_qty :: u32
  dr_order_id :: u64

definition signed_max :: "i64 \<Rightarrow> i64 \<Rightarrow> i64" where
  "signed_max a b = (if sint a < sint b then b else a)"

definition round_args :: "loop_locals \<Rightarrow> draw \<Rightarrow> append_args" where
  "round_args ll d =
     (let etype = pick_type (dr_type d) (zip (ll_cum ll) [Trade, Quote, Add, Modify, Cancel]);
          px = signed_max 1 (dr_px d);
          spd = signed_max 1 (word_of_int (sint px sdiv 10000))
      in \<lparr>aa_timestamp_ns = dr_ts_ns d, aa_event_type = etype, aa_price_ticks = (if etype = Trade then px else 0),
          aa_bid_px_ticks = px - spd, aa_ask_px_ticks = px + spd, aa_quantity = dr_quantity d,
          aa_bid_qty = dr_bid_qty d, aa_ask_qty = dr_ask_qty d, aa_order_id = dr_order_id d\<rparr>)"

text \<open>One round of the loop, or its end. An exception of the append is swallowed and the event is
  counted all the same. The result is \<open>None\<close> where a symbol that does not exist would be read.\<close>

definition synthetic_round :: "os \<Rightarrow> (nat \<Rightarrow> u32) \<Rightarrow> draw \<Rightarrow> generator \<times> db \<Rightarrow> (generator \<times> db) option" where
  "synthetic_round os rng d s =
     (case s of (gn, st) \<Rightarrow>
        (case gn_worker gn of
           Live ll \<Rightarrow>
             if \<not> gn_running gn \<or> dr_expired d then Some (gn\<lparr>gn_running := False, gn_worker := Ended\<rparr>, st)
             else if unat (dr_sym d) < length (ll_symbols ll)
             then map_option (\<lambda>(_, st'). (gn\<lparr>gn_count := gn_count gn + 1\<rparr>, st'))
                    (db_append os rng (ll_symbols ll ! unat (dr_sym d)) (round_args ll d) st)
             else None
         | _ \<Rightarrow> Some (gn, st)))"

primrec synthetic_rounds :: "os \<Rightarrow> (nat \<Rightarrow> u32) \<Rightarrow> draw list \<Rightarrow> generator \<times> db \<Rightarrow> (generator \<times> db) option" where
  "synthetic_rounds os rng [] s = Some s"
| "synthetic_rounds os rng (d # ds) s = synthetic_round os rng d s \<bind> synthetic_rounds os rng ds"

section \<open>Control\<close>

definition synthetic_start :: "synthetic_config \<Rightarrow> generator \<Rightarrow> string outcome \<times> generator" where
  "synthetic_start cfg gn =
     (if gn_running gn then (Raised (Runtime_error ''generator already running''), gn)
      else let gn1 = gn\<lparr>gn_config := cfg, gn_job := ''synthetic-001'', gn_count := 0, gn_running := True\<rparr>
           in if gn_worker gn1 \<noteq> No_thread then (Terminated, gn1)
              else (Returned (gn_job gn1), gn1\<lparr>gn_worker := Live (loop_init cfg)\<rparr>))"

text \<open>Joining waits for the worker, which leaves its loop when it sees the flag.\<close>

definition synthetic_stop :: "string \<Rightarrow> generator \<Rightarrow> u64 outcome \<times> generator" where
  "synthetic_stop job gn =
     (if job \<noteq> gn_job gn then (Raised (Invalid_argument (''unknown job_id: '' @ job)), gn)
      else let gn1 = gn\<lparr>gn_running := False, gn_worker := No_thread\<rparr> in (Returned (gn_count gn1), gn1))"

definition synthetic_status :: "string \<Rightarrow> generator \<Rightarrow> job_status" where
  "synthetic_status job gn =
     (if job \<noteq> gn_job gn then \<lparr>js_job_id = job, js_running = False, js_events_generated = 0\<rparr>
      else \<lparr>js_job_id = gn_job gn, js_running = gn_running gn, js_events_generated = gn_count gn\<rparr>)"

text \<open>The destructor joins only a worker that was still running; then the thread object goes.\<close>

definition synthetic_destroy :: "generator \<Rightarrow> unit outcome" where
  "synthetic_destroy gn =
     (let gn1 = (if gn_running gn then gn\<lparr>gn_running := False, gn_worker := No_thread\<rparr> else gn)
      in if gn_worker gn1 \<noteq> No_thread then Terminated else Returned ())"

section \<open>Names and events\<close>

lemma length_decimal: "length (decimal n) \<le> n + 1"
proof (induction n rule: decimal.induct)
  case (1 n)
  then show ?case by (subst decimal.simps) auto
qed

lemma decimal_le_10: "n < 10 ^ k \<Longrightarrow> 0 < k \<Longrightarrow> length (decimal n) \<le> k"
proof (induction k arbitrary: n)
  case (Suc k)
  show ?case
  proof (cases "n < 10")
    case True
    then show ?thesis by (subst decimal.simps) simp
  next
    case False
    then have "0 < k" using Suc.prems(1) by (cases k) auto
    moreover have "n div 10 < 10 ^ k" using Suc.prems(1) by auto
    ultimately have "length (decimal (n div 10)) \<le> k" using Suc.IH by blast
    then show ?thesis using False by (subst decimal.simps) simp
  qed
qed simp

text \<open>A name fits into the buffer of 16 characters, with its terminator.\<close>

lemma symbol_name_fits:
  assumes "name \<in> set (symbol_names cfg)"
  shows "length name < 16"
proof -
  obtain i where i: "i < unat (num_symbols cfg)" "name = ''SYN'' @ decimal04 i" using assms by (auto simp: symbol_names_def)
  have "unat (num_symbols cfg) < 2 ^ 32" using unsigned_less [of "num_symbols cfg", where 'a = nat] by simp
  then have "i < 10 ^ 10" using i(1) by simp
  then have "length (decimal i) \<le> 10" by (rule decimal_le_10) simp
  then show ?thesis by (simp add: i(2) decimal04_def)
qed

lemma pick_type_mem: "pick_type r cts \<in> insert Cancel (snd ` set cts)"
proof (induction cts)
  case (Cons ct cts)
  then show ?case by (cases ct) auto
qed simp

lemma pick_type_cases: "pick_type r (zip cs [Trade, Quote, Add, Modify, Cancel]) \<in> {Trade, Quote, Add, Modify, Cancel}"
  using pick_type_mem [of r "zip cs [Trade, Quote, Add, Modify, Cancel]"] by (auto dest: set_zip_rightD)

lemma round_args_type: "aa_event_type (round_args ll d) \<in> {Trade, Quote, Add, Modify, Cancel}"
  using pick_type_cases [of "dr_type d" "ll_cum ll"] unfolding round_args_def Let_def by simp

lemma round_args_wf: "event_type_wf (aa_event_type (round_args ll d))"
  using round_args_type [of ll d] by auto

lemma sint_signed_max: "sint (signed_max a b) = max (sint a) (sint b)"
  by (simp add: signed_max_def max_def)

lemma sint_small_word: "- (2 ^ 63) \<le> x \<Longrightarrow> x < 2 ^ 63 \<Longrightarrow> sint (word_of_int x :: i64) = x"
  by (simp add: sint_sbintrunc' signed_take_bit_int_eq_self)

lemma sint_minus_small: "- (2 ^ 63) \<le> sint a - sint b \<Longrightarrow> sint a - sint b < 2 ^ 63 \<Longrightarrow> sint (a - b :: i64) = sint a - sint b"
  using sint_small_word [of "sint a - sint b"] by simp

lemma sint_plus_small: "- (2 ^ 63) \<le> sint a + sint b \<Longrightarrow> sint a + sint b < 2 ^ 63 \<Longrightarrow> sint (a + b :: i64) = sint a + sint b"
  using sint_small_word [of "sint a + sint b"] by simp

text \<open>The prices of a round, read as signed numbers.\<close>

lemma round_prices:
  assumes "sint (dr_px d) < 2 ^ 62"
  defines "p \<equiv> max 1 (sint (dr_px d))"
  shows "sint (aa_price_ticks (round_args ll d)) = (if aa_event_type (round_args ll d) = Trade then p else 0)"
    and "sint (aa_bid_px_ticks (round_args ll d)) = p - max 1 (p div 10000)"
    and "sint (aa_ask_px_ticks (round_args ll d)) = p + max 1 (p div 10000)"
proof -
  define px where "px = signed_max 1 (dr_px d)"
  define spd where "spd = signed_max 1 (word_of_int (sint px sdiv 10000))"
  have p: "1 \<le> p" "p < 2 ^ 62" using assms(1) by (simp_all add: p_def)
  have px: "sint px = p" by (simp add: sint_signed_max p_def px_def)
  have q: "0 \<le> p div 10000" "p div 10000 \<le> p" using p by (simp_all add: zdiv_mono2 [of p 1 10000, simplified])
  have "p sdiv 10000 = p div 10000" using p by (simp add: signed_divide_int_def sgn_if)
  then have sp: "sint spd = max 1 (p div 10000)"
    unfolding spd_def px using p q by (simp add: sint_signed_max sint_small_word)
  have "sint (px - spd) = p - max 1 (p div 10000)" "sint (px + spd) = p + max 1 (p div 10000)"
    using p q by (simp_all add: sint_minus_small sint_plus_small px sp)
  moreover have "aa_bid_px_ticks (round_args ll d) = px - spd" "aa_ask_px_ticks (round_args ll d) = px + spd"
    "aa_price_ticks (round_args ll d) = (if aa_event_type (round_args ll d) = Trade then px else 0)"
    by (simp_all add: round_args_def Let_def px_def spd_def)
  ultimately show "sint (aa_price_ticks (round_args ll d)) = (if aa_event_type (round_args ll d) = Trade then p else 0)"
    "sint (aa_bid_px_ticks (round_args ll d)) = p - max 1 (p div 10000)"
    "sint (aa_ask_px_ticks (round_args ll d)) = p + max 1 (p div 10000)"
    using px by simp_all
qed

section \<open>A job against the log of the database\<close>

definition draw_ok :: "synthetic_config \<Rightarrow> draw \<Rightarrow> bool" where
  "draw_ok cfg d \<longleftrightarrow> \<not> dr_expired d \<and> dr_sym d < num_symbols cfg"

text \<open>What a round hands to the database.\<close>

definition drawn :: "synthetic_config \<Rightarrow> draw \<Rightarrow> string \<times> append_args" where
  "drawn cfg d = (symbol_names cfg ! unat (dr_sym d), round_args (loop_init cfg) d)"

lemma synthetic_round_live:
  assumes "gn_worker gn = Live (loop_init cfg)" and "gn_running gn" and "draw_ok cfg d"
    and "db_append os rng (fst (drawn cfg d)) (snd (drawn cfg d)) st = Some (r, st')"
  shows "synthetic_round os rng d (gn, st) = Some (gn\<lparr>gn_count := gn_count gn + 1\<rparr>, st')"
  using assms by (simp add: synthetic_round_def draw_ok_def drawn_def loop_init_def symbol_names_def word_less_nat_alt Let_def)

lemma drawn_op_ok: "draw_ok cfg d \<Longrightarrow> op_ok (Op_append (fst (drawn cfg d)) (snd (drawn cfg d)))"
proof -
  assume "draw_ok cfg d"
  then have "unat (dr_sym d) < length (symbol_names cfg)" by (simp add: draw_ok_def symbol_names_def word_less_nat_alt)
  then have "symbol_names cfg ! unat (dr_sym d) \<in> set (symbol_names cfg)" by (rule nth_mem)
  from symbol_name_fits [OF this] show ?thesis using round_args_wf by (simp add: drawn_def)
qed

text \<open>The entries a job adds to the log of a client.\<close>

definition logged_draws :: "synthetic_config \<Rightarrow> draw list \<Rightarrow> nat \<Rightarrow> (string \<times> event) list" where
  "logged_draws cfg ds n =
     map (\<lambda>(d, i). (fst (drawn cfg d), append_event (snd (drawn cfg d)) 0 (word_of_nat i))) (zip ds [n + 1..<n + 1 + length ds])"

lemma logged_draws_Cons:
  "logged_draws cfg (d # ds) n = (fst (drawn cfg d), append_event (snd (drawn cfg d)) 0 (word_of_nat (n + 1))) # logged_draws cfg ds (n + 1)"
  unfolding logged_draws_def length_Cons add_Suc_right by (subst upt_conv_Cons) simp_all

lemma synthetic_rounds_live:
  assumes os: "os_good os"
  shows "run_inv cfg k st lg rm \<Longrightarrow> k + length ds < 2 ^ 32 - 2 \<Longrightarrow> gn_worker gn = Live (loop_init c) \<Longrightarrow> gn_running gn \<Longrightarrow>
    list_all (draw_ok c) ds \<Longrightarrow>
    \<exists>st' lg'. synthetic_rounds os rng ds (gn, st) = Some (gn\<lparr>gn_count := gn_count gn + word_of_nat (length ds)\<rparr>, st') \<and>
      run_inv cfg (k + length ds) st' lg' rm \<and> client lg' rm = client lg rm\<lparr>appended := map (apsnd erase) lg @ logged_draws c ds (length lg)\<rparr>"
proof (induction ds arbitrary: k st lg gn)
  case Nil
  then show ?case by (intro exI [of _ st] exI [of _ lg]) (simp add: logged_draws_def)
next
  case (Cons d ds)
  have k: "k < 2 ^ 32 - 2" "k + 1 + length ds < 2 ^ 32 - 2" using Cons.prems(2) by simp_all
  have ok: "draw_ok c d" "list_all (draw_ok c) ds" using Cons.prems(5) by simp_all
  obtain h act imms levs where at: "run_at cfg k st lg rm h act imms levs" using Cons.prems(1) unfolding run_inv_def by blast
  obtain res st1 e act' imms' where r: "db_append os rng (fst (drawn c d)) (snd (drawn c d)) st = Some (Inr res, st1)"
      "ar_sequence_id res = word_of_nat (length lg + 1)" "e = append_event (snd (drawn c d)) (symbol_id e) (ar_sequence_id res)"
      "run_at cfg (k + 1) st1 (lg @ [(fst (drawn c d), e)]) rm h act' imms' levs"
    using run_at_append [OF os at k(1) drawn_op_ok [OF ok(1)], of rng] by (elim exE conjE) (rule that, assumption+)
  let ?gn = "gn\<lparr>gn_count := gn_count gn + 1\<rparr>" and ?lg = "lg @ [(fst (drawn c d), e)]"
  have rd: "synthetic_round os rng d (gn, st) = Some (?gn, st1)" by (rule synthetic_round_live [OF Cons.prems(3,4) ok(1) r(1)])
  have "run_inv cfg (k + 1) st1 ?lg rm" using r(4) unfolding run_inv_def by blast
  then obtain st' lg' where IH: "synthetic_rounds os rng ds (?gn, st1) = Some (?gn\<lparr>gn_count := gn_count ?gn + word_of_nat (length ds)\<rparr>, st')"
      "run_inv cfg (k + 1 + length ds) st' lg' rm"
      "client lg' rm = client ?lg rm\<lparr>appended := map (apsnd erase) ?lg @ logged_draws c ds (length ?lg)\<rparr>"
    using Cons.IH [of "k + 1" st1 ?lg ?gn] k(2) Cons.prems(3,4) ok(2) by auto
  have er: "erase e = append_event (snd (drawn c d)) 0 (word_of_nat (length lg + 1))"
    unfolding r(2) [symmetric] by (subst r(3)) (simp add: erase_def append_event_def)
  have "map (apsnd erase) lg' = map (apsnd erase) lg @ logged_draws c (d # ds) (length lg)"
    using IH(3) er by (simp add: logged_draws_Cons)
  moreover have "synthetic_rounds os rng (d # ds) (gn, st) = Some (gn\<lparr>gn_count := gn_count gn + word_of_nat (length (d # ds))\<rparr>, st')"
    using rd IH(1) by (simp add: add.commute add.left_commute)
  moreover have "run_inv cfg (k + length (d # ds)) st' lg' rm" using IH(2) by simp
  ultimately show ?case by (intro exI [of _ st'] exI [of _ lg']) simp
qed

section \<open>Properties\<close>

text \<open>C12: A job that is stopped reports as many events as it has run rounds, and a database that was
  opened new answers every query from exactly the events of these rounds, each under the name and with the
  fields that were drawn and numbered in order; afterwards another job can be started.\<close>

theorem synthetic_job_stored:
  assumes "os_good os" and "gn_worker gn = No_thread" and "\<not> gn_running gn" and "list_all (draw_ok c) ds" and "length ds < 2 ^ 32 - 2"
  shows "\<exists>st0 gn1 gn2 st1 gn3 r st2. db_open os rng cfg empty_disk = Some (Inr st0) \<and>
    synthetic_start c gn = (Returned ''synthetic-001'', gn1) \<and> synthetic_rounds os rng ds (gn1, st0) = Some (gn2, st1) \<and>
    synthetic_stop ''synthetic-001'' gn2 = (Returned (word_of_nat (length ds)), gn3) \<and>
    db_query os req st1 = Some (Inr r, st2) \<and> answers req \<lparr>appended = logged_draws c ds 0, removed = []\<rparr> (qr_rows r) \<and>
    fst (synthetic_start c' gn3) = Returned ''synthetic-001''"
proof -
  obtain st0 where o: "db_open os rng cfg empty_disk = Some (Inr st0)" "run_inv cfg 0 st0 [] []"
    using db_open_fresh [OF assms(1)] unfolding run_inv_def by blast
  let ?gn1 = "gn\<lparr>gn_config := c, gn_job := ''synthetic-001'', gn_count := 0, gn_running := True, gn_worker := Live (loop_init c)\<rparr>"
  have s: "synthetic_start c gn = (Returned ''synthetic-001'', ?gn1)" using assms(2,3) by (simp add: synthetic_start_def Let_def)
  have g: "gn_worker ?gn1 = Live (loop_init c)" "gn_running ?gn1" by simp_all
  have l: "0 + length ds < 2 ^ 32 - 2" using assms(5) by simp
  obtain st1 lg where r: "synthetic_rounds os rng ds (?gn1, st0) = Some (?gn1\<lparr>gn_count := gn_count ?gn1 + word_of_nat (length ds)\<rparr>, st1)"
      "run_inv cfg (0 + length ds) st1 lg []" "client lg [] = client [] []\<lparr>appended := map (apsnd erase) [] @ logged_draws c ds (length ([] :: (string \<times> event) list))\<rparr>"
    using synthetic_rounds_live [OF assms(1) o(2) l g assms(4), of rng] by blast
  obtain h act imms levs where "run_at cfg (0 + length ds) st1 lg [] h act imms levs" using r(2) unfolding run_inv_def by blast
  from run_at_answers [OF assms(1) this]
  obtain q st2 where q: "db_query os req st1 = Some (Inr q, st2)" "answers req (client lg []) (qr_rows q)" by blast
  have "client lg [] = \<lparr>appended = logged_draws c ds 0, removed = []\<rparr>" unfolding r(3) by simp
  then show ?thesis using o(1) s r(1) q by (auto simp: synthetic_stop_def synthetic_start_def Let_def)
qed

definition sample_draw :: "u32 \<Rightarrow> u64 \<Rightarrow> draw" where
  "sample_draw i ts = \<lparr>dr_expired = False, dr_sym = i, dr_type = 1 / 2, dr_px = 1000100, dr_ts_ns = ts, dr_quantity = 7,
     dr_bid_qty = 8, dr_ask_qty = 9, dr_order_id = 10\<rparr>"

lemma synthetic_job_stored_witness:
  "\<exists>st0 gn1 gn2 st1 gn3 r st2. db_open os_ok (\<lambda>_. 1) (sample_config True) empty_disk = Some (Inr st0) \<and>
    synthetic_start synthetic_config_new generator_new = (Returned ''synthetic-001'', gn1) \<and>
    synthetic_rounds os_ok (\<lambda>_. 1) [sample_draw 3 10, sample_draw 99 20] (gn1, st0) = Some (gn2, st1) \<and>
    synthetic_stop ''synthetic-001'' gn2 = (Returned (word_of_nat (length [sample_draw 3 10, sample_draw 99 20])), gn3) \<and>
    db_query os_ok sample_request st1 = Some (Inr r, st2) \<and>
    answers sample_request \<lparr>appended = logged_draws synthetic_config_new [sample_draw 3 10, sample_draw 99 20] 0, removed = []\<rparr> (qr_rows r) \<and>
    fst (synthetic_start synthetic_config_new gn3) = Returned ''synthetic-001''"
  by (rule synthetic_job_stored)
    (simp_all add: os_good_def generator_new_def draw_ok_def sample_draw_def synthetic_config_new_def)

text \<open>C13: A job that reaches its deadline leaves a thread behind that nobody joined: its status says that it
  does not run, but starting the next job, or destroying the generator, ends the process. Only a
  stop in between helps.\<close>

theorem synthetic_restart_terminates:
  assumes "gn_worker gn = No_thread" and "\<not> gn_running gn" and "dr_expired d"
  shows "\<exists>gn1 gn2. synthetic_start c gn = (Returned ''synthetic-001'', gn1) \<and> synthetic_round os rng d (gn1, st) = Some (gn2, st) \<and>
    \<not> js_running (synthetic_status ''synthetic-001'' gn2) \<and> fst (synthetic_start c' gn2) = Terminated \<and>
    synthetic_destroy gn2 = Terminated \<and> fst (synthetic_start c' (snd (synthetic_stop ''synthetic-001'' gn2))) = Returned ''synthetic-001''"
  using assms by (simp add: synthetic_start_def synthetic_round_def synthetic_status_def synthetic_destroy_def synthetic_stop_def Let_def)

lemma synthetic_restart_terminates_witness:
  "\<exists>gn1 gn2. synthetic_start synthetic_config_new generator_new = (Returned ''synthetic-001'', gn1) \<and>
    synthetic_round os_ok (\<lambda>_. 1) (sample_draw 3 10\<lparr>dr_expired := True\<rparr>) (gn1, undefined) = Some (gn2, undefined) \<and>
    \<not> js_running (synthetic_status ''synthetic-001'' gn2) \<and> fst (synthetic_start synthetic_config_new gn2) = Terminated \<and>
    synthetic_destroy gn2 = Terminated \<and>
    fst (synthetic_start synthetic_config_new (snd (synthetic_stop ''synthetic-001'' gn2))) = Returned ''synthetic-001''"
  by (rule synthetic_restart_terminates) (simp_all add: generator_new_def)

text \<open>C36: Every event a round produces has one of the five market types and sane prices: the price is that drawn,
  at least 1, for trades and 0 for the rest, and the bid is not negative and lies strictly below
  it, the ask strictly above.\<close>

theorem synthetic_prices:
  assumes "sint (dr_px d) < 2 ^ 62"
  shows "let a = round_args ll d; p = max 1 (sint (dr_px d)) in
    aa_event_type a \<in> {Trade, Quote, Add, Modify, Cancel} \<and>
    sint (aa_price_ticks a) = (if aa_event_type a = Trade then p else 0) \<and>
    0 \<le> sint (aa_bid_px_ticks a) \<and> sint (aa_bid_px_ticks a) < p \<and> p < sint (aa_ask_px_ticks a)"
proof -
  define p where "p = max 1 (sint (dr_px d))"
  have p: "1 \<le> p" by (simp add: p_def)
  then have q: "0 \<le> p div 10000" "p div 10000 \<le> p" by (simp_all add: zdiv_mono2 [of p 1 10000, simplified])
  show ?thesis
    unfolding Let_def round_prices [OF assms, of ll] p_def [symmetric] using p q round_args_type [of ll d] by linarith
qed

lemma synthetic_prices_witness:
  "let a = round_args (loop_init synthetic_config_new) (sample_draw 3 10); p = max 1 (sint (dr_px (sample_draw 3 10))) in
    aa_event_type a \<in> {Trade, Quote, Add, Modify, Cancel} \<and>
    sint (aa_price_ticks a) = (if aa_event_type a = Trade then p else 0) \<and>
    0 \<le> sint (aa_bid_px_ticks a) \<and> sint (aa_bid_px_ticks a) < p \<and> p < sint (aa_ask_px_ticks a)"
  by (rule synthetic_prices) (simp add: sample_draw_def)

end
