(* ===== verification/Server.thy ===== *)
theory Server
  imports Synthetic "HOL-Library.Char_ord" "HOL-Library.List_Lexorder"
begin

text \<open>
  The HTTP interface (net/server.hpp, net/server.cpp): every route as a function from a request and
  the state of the server to a reply and the next state. The JSON library and what a handler reads
  from clocks are parameters; the HTTP library delivers requests one by one.
\<close>

section \<open>JSON values and the library\<close>

datatype json =
  J_null
| J_bool bool
| J_int int
| J_real rat
| J_string string
| J_array "json list"
| J_object "(string \<times> json) list"

text \<open>
  The functions of the JSON library that the handlers call. A left result is the text
  (\<^verbatim>\<open>what()\<close>) of the exception that was thrown; \<open>ex_length\<close> is the text of a \<^verbatim>\<open>std::length_error\<close>.
\<close>

record json_lib =
  jl_parse :: "string \<Rightarrow> json option"
  jl_dump :: "json \<Rightarrow> string + string"
  jl_dump2 :: "json \<Rightarrow> string + string"
  jl_at :: "json \<Rightarrow> string \<Rightarrow> string + json"
  jl_index :: "json \<Rightarrow> string \<Rightarrow> json"
  jl_contains :: "json \<Rightarrow> string \<Rightarrow> bool"
  jl_size :: "json \<Rightarrow> nat"
  jl_string :: "json \<Rightarrow> string + string"
  jl_u64 :: "json \<Rightarrow> string + u64"
  jl_value_u64 :: "json \<Rightarrow> string \<Rightarrow> u64 \<Rightarrow> string + u64"
  jl_value_u32 :: "json \<Rightarrow> string \<Rightarrow> u32 \<Rightarrow> string + u32"
  jl_value_i64 :: "json \<Rightarrow> string \<Rightarrow> i64 \<Rightarrow> string + i64"
  jl_value_real :: "json \<Rightarrow> string \<Rightarrow> rat \<Rightarrow> string + rat"
  jl_value_string :: "json \<Rightarrow> string \<Rightarrow> string \<Rightarrow> string + string"
  ex_length :: string

text \<open>A computation that may throw, followed by what uses its value.\<close>

definition ok_then :: "'e + 'a \<Rightarrow> ('a \<Rightarrow> 'e + 'b) \<Rightarrow> 'e + 'b" where
  "ok_then r f = (case r of Inl e \<Rightarrow> Inl e | Inr a \<Rightarrow> f a)"

lemma ok_then_simps [simp]: "ok_then (Inl e) f = Inl e" "ok_then (Inr a) f = f a"
  by (simp_all add: ok_then_def)

definition what :: "json_lib \<Rightarrow> exn \<Rightarrow> string" where
  "what lib ex = (case ex of Runtime_error s \<Rightarrow> s | Invalid_argument s \<Rightarrow> s | Length_error \<Rightarrow> ex_length lib)"

definition at_string :: "json_lib \<Rightarrow> json \<Rightarrow> string \<Rightarrow> string + string" where
  "at_string lib j k = ok_then (jl_at lib j k) (jl_string lib)"

definition at_u64 :: "json_lib \<Rightarrow> json \<Rightarrow> string \<Rightarrow> string + u64" where
  "at_u64 lib j k = ok_then (jl_at lib j k) (jl_u64 lib)"

definition J_word :: "'a::len word \<Rightarrow> json" where
  "J_word w = J_int (uint w)"

definition J_signed :: "'a::len word \<Rightarrow> json" where
  "J_signed w = J_int (sint w)"

section \<open>Requests and replies\<close>

datatype http_method = GET | POST | OPTIONS

record http_request =
  hq_method :: http_method
  hq_path :: string
  hq_body :: string

record http_response =
  rs_status :: "nat option"
  rs_headers :: "(string \<times> string) list"
  rs_content :: "(string \<times> string) option"

definition http_response_new :: http_response where
  "http_response_new = \<lparr>rs_status = None, rs_headers = [], rs_content = None\<rparr>"

text \<open>
  A handler fills in the response, lets an exception escape to the HTTP library, ends the
  process, or divides by zero; a request may also have no handler.
\<close>

datatype reply = Replied http_response | Escaped string | Process_ended | Undefined_behaviour | Not_routed

definition make_error :: "string \<Rightarrow> string \<Rightarrow> json" where
  "make_error code msg =
     J_object [(''ok'', J_bool False), (''error'', J_object [(''code'', J_string code), (''message'', J_string msg)])]"

definition add_cors :: "http_response \<Rightarrow> http_response" where
  "add_cors res =
     res\<lparr>rs_headers := rs_headers res @
       [(''Access-Control-Allow-Origin'', ''*''),
        (''Access-Control-Allow-Methods'', ''GET, POST, OPTIONS''),
        (''Access-Control-Allow-Headers'', ''Content-Type'')]\<rparr>"

definition respond_ok :: "json_lib \<Rightarrow> json \<Rightarrow> http_response \<Rightarrow> (string + unit) \<times> http_response" where
  "respond_ok lib body res =
     (let res1 = add_cors res
      in case jl_dump lib body of
           Inl e \<Rightarrow> (Inl e, res1)
         | Inr s \<Rightarrow> (Inr (), res1\<lparr>rs_content := Some (s, ''application/json'')\<rparr>))"

definition respond_err :: "json_lib \<Rightarrow> nat \<Rightarrow> string \<Rightarrow> string \<Rightarrow> http_response \<Rightarrow> reply" where
  "respond_err lib status code msg res =
     (let res1 = add_cors (res\<lparr>rs_status := Some status\<rparr>)
      in case jl_dump lib (make_error code msg) of
           Inl e \<Rightarrow> Escaped e
         | Inr s \<Rightarrow> Replied (res1\<lparr>rs_content := Some (s, ''application/json'')\<rparr>))"

definition parse_body :: "json_lib \<Rightarrow> http_request \<Rightarrow> http_response \<Rightarrow> reply + json" where
  "parse_body lib req res =
     (case jl_parse lib (hq_body req) of
        Some j \<Rightarrow> Inr j
      | None \<Rightarrow> Inl (respond_err lib 400 ''INVALID_JSON'' ''request body is not valid JSON'' res))"

text \<open>A body that was computed inside \<^verbatim>\<open>try\<close> and is sent there, or the handler of the exception.\<close>

definition reply_caught :: "json_lib \<Rightarrow> nat \<Rightarrow> string \<Rightarrow> string + json \<Rightarrow> http_response \<Rightarrow> reply" where
  "reply_caught lib status code r res =
     (case r of
        Inl msg \<Rightarrow> respond_err lib status code msg res
      | Inr body \<Rightarrow>
          (case respond_ok lib body res of
             (Inl msg, res1) \<Rightarrow> respond_err lib status code msg res1
           | (Inr _, res1) \<Rightarrow> Replied res1))"

text \<open>Outside \<^verbatim>\<open>try\<close>.\<close>

definition reply_uncaught :: "json_lib \<Rightarrow> json \<Rightarrow> http_response \<Rightarrow> reply" where
  "reply_uncaught lib body res = (case respond_ok lib body res of (Inl msg, res1) \<Rightarrow> Escaped msg | (Inr _, res1) \<Rightarrow> Replied res1)"

abbreviation (input) reply_400 :: "json_lib \<Rightarrow> string + json \<Rightarrow> reply" where
  "reply_400 lib r \<equiv> reply_caught lib 400 ''INVALID_REQUEST'' r http_response_new"

section \<open>The server\<close>

text \<open>\<open>sv_benchmark\<close> is the file the benchmark writes, \<open>sv_io_backend\<close> a field of the configuration
  that only the status reports.\<close>

record server =
  sv_db :: db
  sv_synth :: generator
  sv_io_backend :: string
  sv_benchmark :: "string option"

text \<open>What a request reads apart from its body: the measured durations, the global metrics that the
  database record does not carry, clock readings and what the demo directory holds.\<close>

record query_times =
  qt_total_latency_us :: u64
  qt_planning_us :: u64
  qt_index_lookup_us :: u64
  qt_block_read_us :: u64
  qt_decompression_us :: u64
  qt_filtering_us :: u64
  qt_serialization_us :: u64

record inputs =
  in_append_us :: rat
  in_query :: query_times
  in_uptime :: rat
  in_metrics :: "rat metrics"
  in_debt_bytes :: u64
  in_amp_x100 :: "u32 \<times> u32 \<times> u32"
  in_now_ns :: "u64 \<Rightarrow> u64"
  in_lap_us :: "u64 \<Rightarrow> u64"
  in_seconds :: rat
  in_now_ms :: u64
  in_demo_dir :: dir
  in_demo_ms :: rat

definition server_new :: "db \<Rightarrow> string \<Rightarrow> server" where
  "server_new st io = \<lparr>sv_db = st, sv_synth = generator_new, sv_io_backend = io, sv_benchmark = None\<rparr>"

section \<open>Reading handlers\<close>

definition get_status :: "json_lib \<Rightarrow> inputs \<Rightarrow> server \<Rightarrow> reply" where
  "get_status lib inp sv =
     (let st = sv_db sv
      in reply_uncaught lib (J_object
           [(''connected'', J_bool True),
            (''engine_name'', J_string ''KronosDB''),
            (''engine_version'', J_string ''0.1.0''),
            (''api_version'', J_string ''v1''),
            (''db_path'', J_string (cfg_path (db_cfg st))),
            (''io_backend'', J_string (sv_io_backend sv)),
            (''wal_enabled'', J_bool (wal_enabled (db_cfg st))),
            (''compression_hot'', J_string ''none''),
            (''compression_cold'', J_string ''none''),
            (''event_count'', J_word (event_count st)),
            (''disk_usage_bytes'', J_word (disk_usage_bytes st)),
            (''uptime_seconds'', J_real (in_uptime inp))]) http_response_new)"

definition megabytes :: "u64 \<Rightarrow> rat" where
  "megabytes n = of_nat (unat n) / (1024 * 1024)"

definition gigabytes :: "u64 \<Rightarrow> rat" where
  "gigabytes n = of_nat (unat n) / (1024 * 1024 * 1024)"

definition get_metrics :: "json_lib \<Rightarrow> (rat \<Rightarrow> u64 \<Rightarrow> u64) \<Rightarrow> inputs \<Rightarrow> server \<Rightarrow> reply" where
  "get_metrics lib mul inp sv =
     (let c = db_counters (sv_db sv); m = in_metrics inp; (w_amp, r_amp, s_amp) = in_amp_x100 inp
      in reply_uncaught lib (J_object
           [(''events_ingested_total'', J_word (events_ingested_total c)),
            (''events_per_sec'', J_real (t_ema (ingest_rate m))),
            (''wal_mb_per_sec'', J_real (t_ema (wal_rate m) / (1024 * 1024))),
            (''memtable_mb'', J_real (megabytes (memtable_bytes c))),
            (''flush_count'', J_word (flush_count c)),
            (''compaction_count'', J_word (compaction_count c)),
            (''compaction_debt_gb'', J_real (gigabytes (in_debt_bytes inp))),
            (''p50_append_us'', J_real (percentile mul (1 / 2) (append_latency_us m))),
            (''p90_append_us'', J_real (percentile mul (9 / 10) (append_latency_us m))),
            (''p99_append_us'', J_real (percentile mul (99 / 100) (append_latency_us m))),
            (''p999_append_us'', J_real (percentile mul (999 / 1000) (append_latency_us m))),
            (''p50_query_ms'', J_real (percentile mul (1 / 2) (query_latency_ms m))),
            (''p99_query_ms'', J_real (percentile mul (99 / 100) (query_latency_ms m))),
            (''block_cache_hit_rate'', J_real (block_cache_hit_rate m)),
            (''write_amplification'', J_real (of_nat (unat w_amp) / 100)),
            (''read_amplification'', J_real (of_nat (unat r_amp) / 100)),
            (''space_amplification'', J_real (of_nat (unat s_amp) / 100))]) http_response_new)"

text \<open>Strings are compared as \<^verbatim>\<open>std::string\<close> does, by the codes of their characters.\<close>

definition get_symbols :: "json_lib \<Rightarrow> ((string \<times> u32) list \<Rightarrow> (string \<times> u32) list) \<Rightarrow> server \<Rightarrow> reply" where
  "get_symbols lib order sv =
     (let names = sort (db_symbol_names order (sv_db sv))
      in reply_uncaught lib (J_object
           [(''ok'', J_bool True), (''count'', J_int (int (length names))), (''symbols'', J_array (map J_string names))])
           http_response_new)"

definition level_json :: "level_info \<Rightarrow> json" where
  "level_json li =
     J_object [(''level'', J_int (int (li_level li))), (''file_count'', J_word (li_file_count li)),
               (''size_bytes'', J_word (li_size_bytes li)), (''compaction_score'', J_real (li_compaction_score li))]"

definition get_levels :: "json_lib \<Rightarrow> server \<Rightarrow> reply" where
  "get_levels lib sv =
     (let (active_mb, immutable_count) = memtable_info (sv_db sv);
          lvls = filter (\<lambda>li. \<not> (li_file_count li = 0 \<and> li_size_bytes li = 0)) (level_infos (sv_db sv))
      in reply_uncaught lib (J_object
           [(''memtable'', J_object [(''active_mb'', J_real active_mb), (''immutable_count'', J_word immutable_count)]),
            (''levels'', J_array (map level_json lvls)),
            (''columnar_cold_tier'', J_object [(''file_count'', J_int 0), (''size_bytes'', J_int 0)])]) http_response_new)"

text \<open>The stream of metrics: the headers of the response, and one call of its content provider.\<close>

definition get_live :: reply where
  "get_live =
     (let res = add_cors http_response_new
      in Replied (res\<lparr>rs_headers := rs_headers res @ [(''Cache-Control'', ''no-cache''), (''X-Accel-Buffering'', ''no'')]\<rparr>))"

definition live_provider :: "json_lib \<Rightarrow> (rat \<Rightarrow> u64 \<Rightarrow> u64) \<Rightarrow> inputs \<Rightarrow> counters \<Rightarrow> (string \<Rightarrow> bool) \<Rightarrow> string + bool" where
  "live_provider lib mul inp c sink_write =
     (let m = in_metrics inp
      in map_sum id (\<lambda>s. sink_write (''data: '' @ s @ [CHR 0x0A, CHR 0x0A])) (jl_dump lib (J_object
           [(''type'', J_string ''metrics''),
            (''timestamp_ms'', J_word (in_now_ms inp)),
            (''events_per_sec'', J_real (t_ema (ingest_rate m))),
            (''wal_mb_per_sec'', J_real (t_ema (wal_rate m) / (1024 * 1024))),
            (''p99_append_us'', J_real (percentile mul (99 / 100) (append_latency_us m))),
            (''memtable_mb'', J_real (megabytes (memtable_bytes c))),
            (''flush_count'', J_word (flush_count c)),
            (''compaction_debt_gb'', J_real (gigabytes (in_debt_bytes inp)))])))"

section \<open>Handlers of events\<close>

text \<open>The arguments are read in the order in which they are written; C++ leaves the order open, which
  shows only in the choice of the message when several are wrong.\<close>

definition ingest_args :: "json_lib \<Rightarrow> json \<Rightarrow> string + string \<times> append_args" where
  "ingest_args lib body =
     ok_then (at_string lib body ''symbol'') (\<lambda>symbol.
     ok_then (at_u64 lib body ''timestamp_ns'') (\<lambda>ts.
     ok_then (at_string lib body ''event_type'') (\<lambda>ty_name.
     ok_then (map_sum (what lib) id (parse_event_type ty_name)) (\<lambda>ty.
     ok_then (jl_value_i64 lib body ''price_ticks'' 0) (\<lambda>price.
     ok_then (jl_value_i64 lib body ''bid_px_ticks'' 0) (\<lambda>bid.
     ok_then (jl_value_i64 lib body ''ask_px_ticks'' 0) (\<lambda>ask.
     ok_then (jl_value_u32 lib body ''quantity'' 0) (\<lambda>qty.
     ok_then (jl_value_u32 lib body ''bid_qty'' 0) (\<lambda>bid_q.
     ok_then (jl_value_u32 lib body ''ask_qty'' 0) (\<lambda>ask_q.
     ok_then (jl_value_u64 lib body ''order_id'' 0) (\<lambda>oid.
       Inr (symbol,
         \<lparr>aa_timestamp_ns = ts, aa_event_type = ty, aa_price_ticks = price, aa_bid_px_ticks = bid, aa_ask_px_ticks = ask,
          aa_quantity = qty, aa_bid_qty = bid_q, aa_ask_qty = ask_q, aa_order_id = oid\<rparr>))))))))))))"

definition append_json :: "inputs \<Rightarrow> append_result \<Rightarrow> json" where
  "append_json inp r =
     J_object [(''ok'', J_bool True), (''sequence_id'', J_word (ar_sequence_id r)),
               (''wal_offset'', J_word (ar_wal_offset r)), (''append_latency_us'', J_real (in_append_us inp))]"

definition post_ingest :: "json_lib \<Rightarrow> os \<Rightarrow> (nat \<Rightarrow> u32) \<Rightarrow> inputs \<Rightarrow> http_request \<Rightarrow> server \<Rightarrow> (reply \<times> server) option" where
  "post_ingest lib os rng inp req sv =
     (case parse_body lib req http_response_new of
        Inl r \<Rightarrow> Some (r, sv)
      | Inr body \<Rightarrow>
          (case ingest_args lib body of
             Inl msg \<Rightarrow> Some (reply_400 lib (Inl msg), sv)
           | Inr (symbol, a) \<Rightarrow> do {
               (r, st) \<leftarrow> db_append os rng symbol a (sv_db sv);
               Some (reply_400 lib (map_sum (what lib) (append_json inp) r), sv\<lparr>sv_db := st\<rparr>)
             }))"

definition delete_args :: "json_lib \<Rightarrow> json \<Rightarrow> string + string \<times> u64 \<times> u64" where
  "delete_args lib body =
     ok_then (at_string lib body ''symbol'') (\<lambda>symbol.
     ok_then (at_u64 lib body ''timestamp_ns'') (\<lambda>ts.
     ok_then (at_u64 lib body ''sequence_id'') (\<lambda>seq. Inr (symbol, ts, seq))))"

definition post_delete :: "json_lib \<Rightarrow> os \<Rightarrow> (nat \<Rightarrow> u32) \<Rightarrow> inputs \<Rightarrow> http_request \<Rightarrow> server \<Rightarrow> (reply \<times> server) option" where
  "post_delete lib os rng inp req sv =
     (case parse_body lib req http_response_new of
        Inl r \<Rightarrow> Some (r, sv)
      | Inr body \<Rightarrow>
          (case delete_args lib body of
             Inl msg \<Rightarrow> Some (reply_400 lib (Inl msg), sv)
           | Inr (symbol, ts, seq) \<Rightarrow> do {
               (r, st) \<leftarrow> db_remove os rng symbol ts seq (sv_db sv);
               Some (reply_400 lib (map_sum (what lib) (append_json inp) r), sv\<lparr>sv_db := st\<rparr>)
             }))"

definition query_type_arg :: "json_lib \<Rightarrow> json \<Rightarrow> string + event_type option" where
  "query_type_arg lib body =
     (if jl_contains lib body ''event_type'' \<and> jl_index lib body ''event_type'' \<noteq> J_null
      then ok_then (jl_string lib (jl_index lib body ''event_type'')) (\<lambda>ty_name.
             map_sum (what lib) Some (parse_event_type ty_name))
      else Inr None)"

definition query_args :: "json_lib \<Rightarrow> json \<Rightarrow> string + query_request" where
  "query_args lib body =
     ok_then (at_string lib body ''symbol'') (\<lambda>symbol.
     ok_then (jl_value_u64 lib body ''start_ns'' 0) (\<lambda>start_ns.
     ok_then (jl_value_u64 lib body ''end_ns'' (- 1)) (\<lambda>end_ns.
     ok_then (jl_value_u32 lib body ''limit'' 1000) (\<lambda>limit.
     ok_then (query_type_arg lib body) (\<lambda>ty.
       Inr \<lparr>rq_symbol = symbol, rq_start_ns = start_ns, rq_end_ns = end_ns, rq_event_type = ty, rq_limit = limit\<rparr>)))))"

definition row_json :: "string \<Rightarrow> event \<Rightarrow> json" where
  "row_json symbol e =
     J_object [(''timestamp_ns'', J_word (timestamp_ns e)), (''symbol'', J_string symbol),
               (''sequence_id'', J_word (sequence_id e)), (''event_type'', J_string (event_type_name (event_type e))),
               (''price_ticks'', J_signed (price_ticks e)), (''bid_px_ticks'', J_signed (bid_px_ticks e)),
               (''ask_px_ticks'', J_signed (ask_px_ticks e)), (''quantity'', J_word (quantity e)),
               (''bid_qty'', J_word (bid_qty e)), (''ask_qty'', J_word (ask_qty e)), (''order_id'', J_word (order_id e))]"

definition query_json :: "query_times \<Rightarrow> query_request \<Rightarrow> query_result \<Rightarrow> json" where
  "query_json t qr result =
     J_object
       [(''ok'', J_bool True),
        (''columns'', J_array (map J_string
           [''timestamp_ns'', ''symbol'', ''sequence_id'', ''event_type'', ''price_ticks'', ''bid_px_ticks'',
            ''ask_px_ticks'', ''quantity'', ''bid_qty'', ''ask_qty'', ''order_id''])),
        (''rows'', J_array (map (row_json (rq_symbol qr)) (qr_rows result))),
        (''stats'', J_object
           [(''total_latency_us'', J_word (qt_total_latency_us t)), (''planning_us'', J_word (qt_planning_us t)),
            (''index_lookup_us'', J_word (qt_index_lookup_us t)), (''block_read_us'', J_word (qt_block_read_us t)),
            (''decompression_us'', J_word (qt_decompression_us t)), (''filtering_us'', J_word (qt_filtering_us t)),
            (''serialization_us'', J_word (qt_serialization_us t)),
            (''files_considered'', J_word (qs_files_considered (qr_stats result))),
            (''files_skipped'', J_word (qs_files_skipped (qr_stats result))),
            (''blocks_read'', J_word (qs_blocks_read (qr_stats result))),
            (''rows_scanned'', J_word (qr_rows_scanned result)),
            (''rows_returned'', J_word (qr_rows_returned result))])]"

definition post_query :: "json_lib \<Rightarrow> os \<Rightarrow> inputs \<Rightarrow> http_request \<Rightarrow> server \<Rightarrow> (reply \<times> server) option" where
  "post_query lib os inp req sv =
     (case parse_body lib req http_response_new of
        Inl r \<Rightarrow> Some (r, sv)
      | Inr body \<Rightarrow>
          (case query_args lib body of
             Inl msg \<Rightarrow> Some (reply_400 lib (Inl msg), sv)
           | Inr qr \<Rightarrow> do {
               (r, st) \<leftarrow> db_query os qr (sv_db sv);
               Some (reply_400 lib (map_sum (what lib) (query_json (in_query inp) qr) r), sv\<lparr>sv_db := st\<rparr>)
             }))"

section \<open>Handlers of the generator\<close>

definition regime_of :: "string \<Rightarrow> volatility_regime" where
  "regime_of regime = (if regime = ''high_vol'' then HighVol else if regime = ''flash_crash'' then FlashCrash else Normal)"

definition mix_args :: "json_lib \<Rightarrow> json \<Rightarrow> synthetic_config \<Rightarrow> string + synthetic_config" where
  "mix_args lib body cfg =
     (if jl_contains lib body ''event_mix''
      then let mx = jl_index lib body ''event_mix''
           in ok_then (jl_value_real lib mx ''trade'' (1 / 5)) (\<lambda>t.
              ok_then (jl_value_real lib mx ''quote'' (7 / 10)) (\<lambda>q.
              ok_then (jl_value_real lib mx ''add'' (1 / 20)) (\<lambda>a.
              ok_then (jl_value_real lib mx ''modify'' (3 / 100)) (\<lambda>m.
              ok_then (jl_value_real lib mx ''cancel'' (1 / 50)) (\<lambda>c.
                Inr (cfg\<lparr>mix_trade := t, mix_quote := q, mix_add := a, mix_modify := m, mix_cancel := c\<rparr>))))))
      else Inr cfg)"

definition synthetic_args :: "json_lib \<Rightarrow> json \<Rightarrow> string + synthetic_config" where
  "synthetic_args lib body =
     ok_then (jl_value_u32 lib body ''symbols'' 100) (\<lambda>n.
     ok_then (jl_value_real lib body ''events_per_sec'' 100000) (\<lambda>rate.
     ok_then (jl_value_u32 lib body ''duration_seconds'' 30) (\<lambda>secs.
     ok_then (mix_args lib body
       (synthetic_config_new\<lparr>num_symbols := n, events_per_sec := rate, duration_seconds := secs\<rparr>)) (\<lambda>cfg.
     ok_then (jl_value_string lib body ''volatility_regime'' ''normal'') (\<lambda>regime.
       Inr (cfg\<lparr>volatility := regime_of regime\<rparr>))))))"

text \<open>The outcome of a call into the generator, rendered by \<open>f\<close> when it returns.\<close>

definition outcome_reply :: "json_lib \<Rightarrow> ('a \<Rightarrow> json) \<Rightarrow> 'a outcome \<Rightarrow> reply" where
  "outcome_reply lib f r =
     (case r of Returned a \<Rightarrow> reply_400 lib (Inr (f a)) | Raised ex \<Rightarrow> reply_400 lib (Inl (what lib ex)) | Terminated \<Rightarrow> Process_ended)"

definition post_synthetic_start :: "json_lib \<Rightarrow> http_request \<Rightarrow> server \<Rightarrow> reply \<times> server" where
  "post_synthetic_start lib req sv =
     (case parse_body lib req http_response_new of
        Inl r \<Rightarrow> (r, sv)
      | Inr body \<Rightarrow>
          (case synthetic_args lib body of
             Inl msg \<Rightarrow> (reply_400 lib (Inl msg), sv)
           | Inr cfg \<Rightarrow>
               let (r, gn) = synthetic_start cfg (sv_synth sv)
               in (outcome_reply lib (\<lambda>job. J_object [(''ok'', J_bool True), (''job_id'', J_string job)]) r, sv\<lparr>sv_synth := gn\<rparr>)))"

definition post_synthetic_stop :: "json_lib \<Rightarrow> http_request \<Rightarrow> server \<Rightarrow> reply \<times> server" where
  "post_synthetic_stop lib req sv =
     (case parse_body lib req http_response_new of
        Inl r \<Rightarrow> (r, sv)
      | Inr body \<Rightarrow>
          (case at_string lib body ''job_id'' of
             Inl msg \<Rightarrow> (reply_400 lib (Inl msg), sv)
           | Inr job \<Rightarrow>
               let (r, gn) = synthetic_stop job (sv_synth sv)
               in (outcome_reply lib (\<lambda>n. J_object [(''ok'', J_bool True), (''events_generated'', J_word n)]) r, sv\<lparr>sv_synth := gn\<rparr>)))"

section \<open>The benchmark and the recovery demonstration\<close>

definition bench_args :: "u64 \<Rightarrow> u64 \<Rightarrow> append_args" where
  "bench_args ts i =
     \<lparr>aa_timestamp_ns = ts, aa_event_type = Trade, aa_price_ticks = 100, aa_bid_px_ticks = 99, aa_ask_px_ticks = 101,
      aa_quantity = 100, aa_bid_qty = 200, aa_ask_qty = 200, aa_order_id = i\<rparr>"

definition bench_symbol :: "u64 \<Rightarrow> u32 \<Rightarrow> string" where
  "bench_symbol i symbols = ''BENCH'' @ decimal04 (unat i mod unat symbols)"

primrec bench_loop ::
  "os \<Rightarrow> (nat \<Rightarrow> u32) \<Rightarrow> inputs \<Rightarrow> u32 \<Rightarrow> u64 list \<Rightarrow> db \<Rightarrow> histogram \<Rightarrow> ((exn + histogram) \<times> db) option" where
  "bench_loop os rng inp symbols [] st hist = Some (Inr hist, st)"
| "bench_loop os rng inp symbols (i # ks) st hist = do {
     (r, st') \<leftarrow> db_append os rng (bench_symbol i symbols) (bench_args (in_now_ns inp i) i) st;
     case r of
       Inl ex \<Rightarrow> Some (Inl ex, st')
     | Inr _ \<Rightarrow> bench_loop os rng inp symbols ks st' (histogram_record (in_lap_us inp i) hist)
   }"

definition bench_fields :: "(rat \<Rightarrow> u64 \<Rightarrow> u64) \<Rightarrow> inputs \<Rightarrow> string \<Rightarrow> u64 \<Rightarrow> histogram \<Rightarrow> (string \<times> json) list" where
  "bench_fields mul inp bench_name events hist =
     [(''benchmark'', J_string bench_name), (''events'', J_word events),
      (''throughput_events_per_sec'', J_real (of_nat (unat events) / in_seconds inp)),
      (''p50_us'', J_real (percentile mul (1 / 2) hist)), (''p99_us'', J_real (percentile mul (99 / 100) hist))]"

text \<open>The remainder by 0 symbols is undefined as soon as the loop is entered. A file that cannot be
  written is not noticed.\<close>

definition run_benchmark ::
  "json_lib \<Rightarrow> os \<Rightarrow> (nat \<Rightarrow> u32) \<Rightarrow> (rat \<Rightarrow> u64 \<Rightarrow> u64) \<Rightarrow> inputs \<Rightarrow> string \<Rightarrow> u64 \<Rightarrow> u32 \<Rightarrow> server \<Rightarrow> (reply \<times> server) option" where
  "run_benchmark lib os rng mul inp bench_name events symbols sv =
     (let reply_500 = (\<lambda>r. reply_caught lib 500 ''INTERNAL'' r http_response_new)
      in if events \<noteq> 0 \<and> symbols = 0 then Some (Undefined_behaviour, sv)
         else do {
           (r, st) \<leftarrow> bench_loop os rng inp symbols (map word_of_nat [0..<unat events]) (sv_db sv) histogram_new;
           let sv1 = sv\<lparr>sv_db := st\<rparr>;
           case r of
             Inl ex \<Rightarrow> Some (reply_500 (Inl (what lib ex)), sv1)
           | Inr hist \<Rightarrow>
               (let fields = bench_fields mul inp bench_name events hist;
                    out_path = cfg_path (db_cfg st) @ ''/benchmarks/ingest_latest.json''
                in case jl_dump2 lib (J_object fields) of
                     Inl msg \<Rightarrow> Some (reply_500 (Inl msg), sv1)
                   | Inr s \<Rightarrow>
                       Some (reply_500 (Inr (J_object ((''ok'', J_bool True) # fields @ [(''output_path'', J_string out_path)]))),
                             sv1\<lparr>sv_benchmark := Some s\<rparr>))
         })"

definition post_benchmark ::
  "json_lib \<Rightarrow> os \<Rightarrow> (nat \<Rightarrow> u32) \<Rightarrow> (rat \<Rightarrow> u64 \<Rightarrow> u64) \<Rightarrow> inputs \<Rightarrow> http_request \<Rightarrow> server \<Rightarrow> (reply \<times> server) option" where
  "post_benchmark lib os rng mul inp req sv =
     (case parse_body lib req http_response_new of
        Inl r \<Rightarrow> Some (r, sv)
      | Inr body \<Rightarrow>
          (case ok_then (jl_value_string lib body ''benchmark'' ''ingest'') (\<lambda>bench_name.
                ok_then (jl_value_u64 lib body ''events'' 1000000) (\<lambda>events.
                ok_then (jl_value_u32 lib body ''symbols'' 100) (\<lambda>symbols. Inr (bench_name, events, symbols)))) of
             Inl msg \<Rightarrow> Some (reply_caught lib 500 ''INTERNAL'' (Inl msg) http_response_new, sv)
           | Inr (bench_name, events, symbols) \<Rightarrow>
               if bench_name \<noteq> ''ingest''
               then Some (respond_err lib 400 ''UNSUPPORTED''
                      ''only 'ingest' supported via API; use bench/ binaries for others'' http_response_new, sv)
               else run_benchmark lib os rng mul inp bench_name events symbols sv))"

definition demo_json :: "inputs \<Rightarrow> demo_result \<Rightarrow> json" where
  "demo_json inp r =
     (let rr = demo_recovery r
      in J_object
           [(''ok'', J_bool True), (''records_before_crash'', J_int (int (records_before_crash r))),
            (''records_recovered'', J_word (records_recovered rr)), (''torn_record_detected'', J_bool (rr_torn_detected rr)),
            (''corrupted_tail_bytes'', J_int (int (rr_torn_bytes rr))), (''recovery_time_ms'', J_real (in_demo_ms inp)),
            (''committed_records_lost'', J_int (int (committed_records_lost r)))])"

definition post_recovery_demo :: "json_lib \<Rightarrow> os \<Rightarrow> (nat \<Rightarrow> u32) \<Rightarrow> inputs \<Rightarrow> reply option" where
  "post_recovery_demo lib os rng inp =
     map_option (\<lambda>r. reply_caught lib 500 ''INTERNAL'' (map_sum (what lib) (demo_json inp) r) http_response_new)
       (recovery_demo os rng 100000 (in_demo_dir inp))"

section \<open>Routes\<close>

record server_env =
  cx_lib :: json_lib
  cx_os :: os
  cx_rng :: "nat \<Rightarrow> u32"
  cx_mul :: "rat \<Rightarrow> u64 \<Rightarrow> u64"
  cx_order :: "(string \<times> u32) list \<Rightarrow> (string \<times> u32) list"

definition route_get :: "server_env \<Rightarrow> inputs \<Rightarrow> string \<Rightarrow> server \<Rightarrow> reply" where
  "route_get cx inp path sv =
     (if path = ''/v1/status'' then get_status (cx_lib cx) inp sv
      else if path = ''/v1/metrics'' then get_metrics (cx_lib cx) (cx_mul cx) inp sv
      else if path = ''/v1/symbols'' then get_symbols (cx_lib cx) (cx_order cx) sv
      else if path = ''/v1/storage/levels'' then get_levels (cx_lib cx) sv
      else if path = ''/v1/live'' then get_live
      else Not_routed)"

definition route_post :: "server_env \<Rightarrow> inputs \<Rightarrow> http_request \<Rightarrow> server \<Rightarrow> (reply \<times> server) option" where
  "route_post cx inp req sv =
     (let lib = cx_lib cx; path = hq_path req
      in if path = ''/v1/ingest/event'' then post_ingest lib (cx_os cx) (cx_rng cx) inp req sv
         else if path = ''/v1/events/delete'' then post_delete lib (cx_os cx) (cx_rng cx) inp req sv
         else if path = ''/v1/ingest/synthetic/start'' then Some (post_synthetic_start lib req sv)
         else if path = ''/v1/ingest/synthetic/stop'' then Some (post_synthetic_stop lib req sv)
         else if path = ''/v1/query'' then post_query lib (cx_os cx) inp req sv
         else if path = ''/v1/benchmark/run'' then post_benchmark lib (cx_os cx) (cx_rng cx) (cx_mul cx) inp req sv
         else if path = ''/v1/recovery/demo''
         then map_option (\<lambda>r. (r, sv)) (post_recovery_demo lib (cx_os cx) (cx_rng cx) inp)
         else Some (Not_routed, sv))"

definition handle_request :: "server_env \<Rightarrow> inputs \<Rightarrow> http_request \<Rightarrow> server \<Rightarrow> (reply \<times> server) option" where
  "handle_request cx inp req sv =
     (case hq_method req of
        OPTIONS \<Rightarrow> Some (Replied ((add_cors http_response_new)\<lparr>rs_status := Some 204\<rparr>), sv)
      | GET \<Rightarrow> Some (route_get cx inp (hq_path req) sv, sv)
      | POST \<Rightarrow> route_post cx inp req sv)"

end
