(* ===== verification/ServerRun.thy ===== *)
theory ServerRun
  imports Server
begin

text \<open>
  A server seen by its HTTP clients: requests, rounds of the generator's worker and rounds of the
  background threads in any order, against the log of the events they append.
\<close>

section \<open>Steps of the process\<close>

datatype server_step =
  Request inputs http_request
| Worker draw
| Flush_step
| Compact_step

text \<open>An exception that leaves the function of a thread ends the process.\<close>

definition thread_reply :: "exn + unit \<Rightarrow> reply option" where
  "thread_reply r = (case r of Inl _ \<Rightarrow> Some Process_ended | Inr _ \<Rightarrow> None)"

definition server_do :: "server_env \<Rightarrow> (u32 \<Rightarrow> bloom) \<Rightarrow> server_step \<Rightarrow> server \<Rightarrow> (reply option \<times> server) option" where
  "server_do cx nf s sv =
     (case s of
        Request inp req \<Rightarrow> map_option (apfst Some) (handle_request cx inp req sv)
      | Worker d \<Rightarrow>
          map_option (\<lambda>(gn, st). (None, sv\<lparr>sv_db := st, sv_synth := gn\<rparr>))
            (synthetic_round (cx_os cx) (cx_rng cx) d (sv_synth sv, sv_db sv))
      | Flush_step \<Rightarrow>
          map_option (\<lambda>(r, st). (thread_reply r, sv\<lparr>sv_db := st\<rparr>)) (flush_round (cx_os cx) nf (sv_db sv))
      | Compact_step \<Rightarrow>
          (case compact_round (cx_os cx) nf False (sv_db sv) of (r, st) \<Rightarrow> Some (thread_reply r, sv\<lparr>sv_db := st\<rparr>)))"

primrec serve :: "server_env \<Rightarrow> (u32 \<Rightarrow> bloom) \<Rightarrow> server_step list \<Rightarrow> server \<Rightarrow> (reply list \<times> server) option" where
  "serve cx nf [] sv = Some ([], sv)"
| "serve cx nf (s # ss) sv = do {
     (r, sv1) \<leftarrow> server_do cx nf s sv;
     if r = Some Process_ended then Some ([Process_ended], sv1)
     else do {
       (rs, sv2) \<leftarrow> serve cx nf ss sv1;
       Some ((case r of None \<Rightarrow> rs | Some x \<Rightarrow> x # rs), sv2)
     }
   }"

section \<open>What a step asks of the database\<close>

text \<open>The operation that a request names, or why it names none.\<close>

definition data_op :: "json_lib \<Rightarrow> string \<Rightarrow> json \<Rightarrow> string + db_op" where
  "data_op lib path body =
     (if path = ''/v1/ingest/event'' then map_sum id (\<lambda>(symbol, a). Op_append symbol a) (ingest_args lib body)
      else if path = ''/v1/events/delete'' then map_sum id (\<lambda>(symbol, ts, seq). Op_remove symbol ts seq) (delete_args lib body)
      else map_sum id Op_query (query_args lib body))"

definition data_paths :: "string list" where
  "data_paths = [''/v1/ingest/event'', ''/v1/events/delete'', ''/v1/query'']"

definition synthetic_paths :: "string list" where
  "synthetic_paths = [''/v1/ingest/synthetic/start'', ''/v1/ingest/synthetic/stop'']"

definition step_op :: "json_lib \<Rightarrow> server_step \<Rightarrow> generator \<Rightarrow> db_op option" where
  "step_op lib s gn =
     (case s of
        Request inp req \<Rightarrow>
          if hq_path req \<in> set data_paths
          then (case jl_parse lib (hq_body req) of
                  None \<Rightarrow> None
                | Some body \<Rightarrow> (case data_op lib (hq_path req) body of Inl _ \<Rightarrow> None | Inr op \<Rightarrow> Some op))
          else None
      | Worker d \<Rightarrow>
          (case gn_worker gn of
             Live ll \<Rightarrow>
               if \<not> gn_running gn \<or> dr_expired d then None
               else Some (Op_append (ll_symbols ll ! unat (dr_sym d)) (round_args ll d))
           | _ \<Rightarrow> None)
      | Flush_step \<Rightarrow> Some Op_flush_round
      | Compact_step \<Rightarrow> Some Op_compact_round)"

text \<open>The generator does not depend on the database.\<close>

definition step_gen :: "json_lib \<Rightarrow> server_step \<Rightarrow> generator \<Rightarrow> generator" where
  "step_gen lib s gn =
     (case s of
        Request inp req \<Rightarrow>
          (case jl_parse lib (hq_body req) of
             None \<Rightarrow> gn
           | Some body \<Rightarrow>
               if hq_path req = ''/v1/ingest/synthetic/start''
               then (case synthetic_args lib body of Inl _ \<Rightarrow> gn | Inr cfg \<Rightarrow> snd (synthetic_start cfg gn))
               else if hq_path req = ''/v1/ingest/synthetic/stop''
               then (case at_string lib body ''job_id'' of Inl _ \<Rightarrow> gn | Inr job \<Rightarrow> snd (synthetic_stop job gn))
               else gn)
      | Worker d \<Rightarrow>
          (case gn_worker gn of
             Live ll \<Rightarrow>
               if \<not> gn_running gn \<or> dr_expired d then gn\<lparr>gn_running := False, gn_worker := Ended\<rparr>
               else gn\<lparr>gn_count := gn_count gn + 1\<rparr>
           | _ \<Rightarrow> gn)
      | _ \<Rightarrow> gn)"

section \<open>What a client is told\<close>

text \<open>The reply to an operation that was carried out, from its answer.\<close>

definition answer_reply :: "json_lib \<Rightarrow> inputs \<Rightarrow> db_op \<Rightarrow> db_answer \<Rightarrow> reply" where
  "answer_reply lib inp op an =
     reply_400 lib
       (case (op, an) of
          (_, Thrown ex) \<Rightarrow> Inl (what lib ex)
        | (_, Wrote r) \<Rightarrow> Inr (append_json inp r)
        | (Op_query qr, Rows q) \<Rightarrow> Inr (query_json (in_query inp) qr q)
        | _ \<Rightarrow> Inr J_null)"

text \<open>The reply to a request that names no operation.\<close>

definition refusal :: "json_lib \<Rightarrow> http_request \<Rightarrow> generator \<Rightarrow> reply" where
  "refusal lib req gn =
     (case jl_parse lib (hq_body req) of
        None \<Rightarrow> respond_err lib 400 ''INVALID_JSON'' ''request body is not valid JSON'' http_response_new
      | Some body \<Rightarrow>
          if hq_path req = ''/v1/ingest/synthetic/start''
          then (case synthetic_args lib body of
                  Inl msg \<Rightarrow> reply_400 lib (Inl msg)
                | Inr cfg \<Rightarrow> outcome_reply lib (\<lambda>job. J_object [(''ok'', J_bool True), (''job_id'', J_string job)])
                               (fst (synthetic_start cfg gn)))
          else if hq_path req = ''/v1/ingest/synthetic/stop''
          then (case at_string lib body ''job_id'' of
                  Inl msg \<Rightarrow> reply_400 lib (Inl msg)
                | Inr job \<Rightarrow> outcome_reply lib (\<lambda>n. J_object [(''ok'', J_bool True), (''events_generated'', J_word n)])
                               (fst (synthetic_stop job gn)))
          else reply_400 lib (map_sum id (\<lambda>_. J_null) (data_op lib (hq_path req) body)))"

fun step_reply :: "json_lib \<Rightarrow> server_step \<Rightarrow> generator \<Rightarrow> db_answer option \<Rightarrow> reply option" where
  "step_reply lib (Request inp req) gn None = Some (refusal lib req gn)"
| "step_reply lib (Request inp req) gn (Some an) =
     map_option (\<lambda>op. answer_reply lib inp op an) (step_op lib (Request inp req) gn)"
| "step_reply lib _ gn _ = None"

fun expected_ops :: "json_lib \<Rightarrow> server_step list \<Rightarrow> generator \<Rightarrow> db_op list" where
  "expected_ops lib [] gn = []"
| "expected_ops lib (s # ss) gn =
     (case step_op lib s gn of
        Some op \<Rightarrow> op # expected_ops lib ss (step_gen lib s gn)
      | None \<Rightarrow> if step_reply lib s gn None = Some Process_ended then [] else expected_ops lib ss (step_gen lib s gn))"

fun expected_replies :: "json_lib \<Rightarrow> server_step list \<Rightarrow> generator \<Rightarrow> db_answer list \<Rightarrow> reply list" where
  "expected_replies lib [] gn as = []"
| "expected_replies lib (s # ss) gn as =
     (case step_op lib s gn of
        Some op \<Rightarrow> (case step_reply lib s gn (Some (hd as)) of None \<Rightarrow> [] | Some r \<Rightarrow> [r]) @
                   expected_replies lib ss (step_gen lib s gn) (tl as)
      | None \<Rightarrow>
          if step_reply lib s gn None = Some Process_ended then [Process_ended]
          else (case step_reply lib s gn None of None \<Rightarrow> [] | Some r \<Rightarrow> [r]) @
               expected_replies lib ss (step_gen lib s gn) as)"

text \<open>The steps the properties are about: posts to the routes of events and of the generator, draws of a
  symbol that exists, and the background threads.\<close>

definition step_ok :: "server_step \<Rightarrow> generator \<Rightarrow> bool" where
  "step_ok s gn \<longleftrightarrow>
     (case s of
        Request inp req \<Rightarrow> hq_method req = POST \<and> hq_path req \<in> set (data_paths @ synthetic_paths)
      | Worker d \<Rightarrow> (case gn_worker gn of Live ll \<Rightarrow> unat (dr_sym d) < length (ll_symbols ll) | _ \<Rightarrow> True)
      | _ \<Rightarrow> True)"

fun steps_ok :: "json_lib \<Rightarrow> server_step list \<Rightarrow> generator \<Rightarrow> bool" where
  "steps_ok lib [] gn = True"
| "steps_ok lib (s # ss) gn =
     (step_ok s gn \<and> (step_op lib s gn = None \<and> step_reply lib s gn None = Some Process_ended \<or> steps_ok lib ss (step_gen lib s gn)))"

section \<open>A step is its operation\<close>

lemma reply_caught_not_ended [simp]: "reply_caught lib status code r res \<noteq> Process_ended"
  by (auto simp: reply_caught_def respond_err_def Let_def split: sum.splits prod.splits)

lemma respond_err_not_ended [simp]: "respond_err lib status code msg res \<noteq> Process_ended"
  by (auto simp: respond_err_def Let_def split: sum.splits)

lemma answer_reply_not_ended: "step_reply lib s gn (Some an) \<noteq> Some Process_ended"
  by (cases s) (auto simp: answer_reply_def)

lemma reply_thrown: "reply_400 lib (map_sum (what lib) (append_json inp) r) = answer_reply lib inp op (answer Wrote r)"
  by (cases r) (simp_all add: answer_reply_def split: db_op.splits)

lemma reply_rows: "reply_400 lib (map_sum (what lib) (query_json (in_query inp) qr) r) = answer_reply lib inp (Op_query qr) (answer Rows r)"
  by (cases r) (simp_all add: answer_reply_def)

lemmas path_defs = data_paths_def synthetic_paths_def

lemma request_op_ingest:
  "db_exec os rng nf (Op_append name a) st = Some (an, st') \<longleftrightarrow>
     (\<exists>r. db_append os rng name a st = Some (r, st') \<and> an = answer Wrote r)"
  by auto

lemma request_op_delete:
  "db_exec os rng nf (Op_remove name ts sq) st = Some (an, st') \<longleftrightarrow>
     (\<exists>r. db_remove os rng name ts sq st = Some (r, st') \<and> an = answer Wrote r)"
  by auto

lemma request_op_query:
  "db_exec os rng nf (Op_query qr) st = Some (an, st') \<longleftrightarrow> (\<exists>r. db_query os qr st = Some (r, st') \<and> an = answer Rows r)"
  by auto

text \<open>A request to one of the routes of events.\<close>

lemma data_request_op:
  assumes "step_op (cx_lib cx) (Request inp req) gn = Some op" and "hq_method req = POST"
    and "db_exec (cx_os cx) (cx_rng cx) nf op (sv_db sv) = Some (an, st')"
  shows "handle_request cx inp req sv = Some (answer_reply (cx_lib cx) inp op an, sv\<lparr>sv_db := st'\<rparr>)"
proof -
  have p: "hq_path req \<in> set data_paths" using assms(1) by (simp add: step_op_def split: if_splits)
  obtain body where b: "jl_parse (cx_lib cx) (hq_body req) = Some body" "data_op (cx_lib cx) (hq_path req) body = Inr op"
    using assms(1) by (auto simp: step_op_def split: if_splits option.splits sum.splits)
  consider (ingest) "hq_path req = ''/v1/ingest/event''" | (delete) "hq_path req = ''/v1/events/delete''"
    | (query) "hq_path req = ''/v1/query''" using p by (auto simp: data_paths_def)
  then show ?thesis
  proof cases
    case ingest
    then obtain name a where a: "ingest_args (cx_lib cx) body = Inr (name, a)" "op = Op_append name a"
      using b(2) by (cases "ingest_args (cx_lib cx) body") (auto simp: data_op_def)
    obtain r where r: "db_append (cx_os cx) (cx_rng cx) name a (sv_db sv) = Some (r, st')" "an = answer Wrote r"
      using assms(3) unfolding a(2) request_op_ingest by blast
    show ?thesis using ingest b(1) a(1) r assms(2)
      by (simp add: handle_request_def route_post_def post_ingest_def parse_body_def reply_thrown [of _ _ _ op])
  next
    case delete
    then obtain name ts sq where a: "delete_args (cx_lib cx) body = Inr (name, ts, sq)" "op = Op_remove name ts sq"
      using b(2) by (cases "delete_args (cx_lib cx) body") (auto simp: data_op_def)
    obtain r where r: "db_remove (cx_os cx) (cx_rng cx) name ts sq (sv_db sv) = Some (r, st')" "an = answer Wrote r"
      using assms(3) unfolding a(2) request_op_delete by blast
    show ?thesis using delete b(1) a(1) r assms(2)
      by (simp add: handle_request_def route_post_def post_delete_def parse_body_def reply_thrown [of _ _ _ op])
  next
    case query
    then obtain qr where a: "query_args (cx_lib cx) body = Inr qr" "op = Op_query qr"
      using b(2) by (cases "query_args (cx_lib cx) body") (auto simp: data_op_def)
    obtain r where r: "db_query (cx_os cx) qr (sv_db sv) = Some (r, st')" "an = answer Rows r"
      using assms(3) unfolding a(2) request_op_query by blast
    show ?thesis using query b(1) a r assms(2)
      by (simp add: handle_request_def route_post_def post_query_def parse_body_def reply_rows)
  qed
qed

lemma data_request_refused:
  assumes "step_op (cx_lib cx) (Request inp req) gn = None" and "hq_method req = POST" and p: "hq_path req \<in> set data_paths"
  shows "handle_request cx inp req sv = Some (refusal (cx_lib cx) req gn, sv)"
proof (cases "jl_parse (cx_lib cx) (hq_body req)")
  case None
  then show ?thesis using p assms(2)
    by (auto simp: data_paths_def handle_request_def route_post_def post_ingest_def post_delete_def post_query_def
        parse_body_def refusal_def)
next
  case (Some body)
  then obtain msg where m: "data_op (cx_lib cx) (hq_path req) body = Inl msg"
    using assms(1) p by (auto simp: step_op_def split: sum.splits)
  consider (ingest) "hq_path req = ''/v1/ingest/event''" | (delete) "hq_path req = ''/v1/events/delete''"
    | (query) "hq_path req = ''/v1/query''" using p by (auto simp: data_paths_def)
  then show ?thesis
  proof cases
    case ingest
    then have "ingest_args (cx_lib cx) body = Inl msg" using m by (cases "ingest_args (cx_lib cx) body") (auto simp: data_op_def)
    then show ?thesis using ingest Some assms(2) m
      by (simp add: handle_request_def route_post_def post_ingest_def parse_body_def refusal_def)
  next
    case delete
    then have "delete_args (cx_lib cx) body = Inl msg" using m by (cases "delete_args (cx_lib cx) body") (auto simp: data_op_def)
    then show ?thesis using delete Some assms(2) m
      by (simp add: handle_request_def route_post_def post_delete_def parse_body_def refusal_def)
  next
    case query
    then have "query_args (cx_lib cx) body = Inl msg" using m by (cases "query_args (cx_lib cx) body") (auto simp: data_op_def)
    then show ?thesis using query Some assms(2) m
      by (simp add: handle_request_def route_post_def post_query_def parse_body_def refusal_def)
  qed
qed

lemma synthetic_request:
  assumes "hq_method req = POST" and "hq_path req \<in> set synthetic_paths"
  shows "handle_request cx inp req sv =
    Some (refusal (cx_lib cx) req (sv_synth sv), sv\<lparr>sv_synth := step_gen (cx_lib cx) (Request inp req) (sv_synth sv)\<rparr>)"
  using assms
  by (auto simp: synthetic_paths_def handle_request_def route_post_def post_synthetic_start_def post_synthetic_stop_def
      parse_body_def refusal_def step_gen_def split: option.splits sum.splits prod.splits)

lemma server_do_op:
  assumes "step_op (cx_lib cx) s (sv_synth sv) = Some op" and "step_ok s (sv_synth sv)"
    and "db_exec (cx_os cx) (cx_rng cx) nf op (sv_db sv) = Some (an, st')" and "\<And>ex. an \<noteq> Thrown ex"
  shows "server_do cx nf s sv =
    Some (step_reply (cx_lib cx) s (sv_synth sv) (Some an), sv\<lparr>sv_db := st', sv_synth := step_gen (cx_lib cx) s (sv_synth sv)\<rparr>)"
proof (cases s)
  case (Request inp req)
  have m: "hq_method req = POST" and p: "hq_path req \<in> set data_paths"
    using assms(1,2) unfolding Request by (auto simp: step_ok_def step_op_def split: if_splits)
  have "step_gen (cx_lib cx) (Request inp req) (sv_synth sv) = sv_synth sv"
    using p by (auto simp: step_gen_def data_paths_def split: option.splits)
  then show ?thesis using data_request_op [OF assms(1) [unfolded Request] m assms(3)] assms(1)
    unfolding Request by (simp add: server_do_def)
next
  case (Worker d)
  then show ?thesis using assms
    by (auto simp: server_do_def step_op_def step_ok_def step_gen_def synthetic_round_def split: worker.splits if_splits)
next
  case Flush_step
  then obtain r where "flush_round (cx_os cx) nf (sv_db sv) = Some (r, st')" "an = answer (\<lambda>_. Finished) r"
    using assms(1,3) by (auto simp: step_op_def)
  then show ?thesis using Flush_step assms(4) by (cases r) (auto simp: server_do_def step_gen_def thread_reply_def)
next
  case Compact_step
  then obtain r where "compact_round (cx_os cx) nf False (sv_db sv) = (r, st')" "an = answer (\<lambda>_. Finished) r"
    using assms(1,3) by (cases "compact_round (cx_os cx) nf False (sv_db sv)") (auto simp: step_op_def)
  then show ?thesis using Compact_step assms(4) by (cases r) (auto simp: server_do_def step_gen_def thread_reply_def)
qed

lemma server_do_none:
  assumes "step_op (cx_lib cx) s (sv_synth sv) = None" and "step_ok s (sv_synth sv)"
  shows "server_do cx nf s sv =
    Some (step_reply (cx_lib cx) s (sv_synth sv) None, sv\<lparr>sv_synth := step_gen (cx_lib cx) s (sv_synth sv)\<rparr>)"
proof (cases s)
  case (Request inp req)
  have m: "hq_method req = POST" and p: "hq_path req \<in> set (data_paths @ synthetic_paths)"
    using assms(2) unfolding Request by (simp_all add: step_ok_def)
  show ?thesis
  proof (cases "hq_path req \<in> set data_paths")
    case True
    have "step_gen (cx_lib cx) (Request inp req) (sv_synth sv) = sv_synth sv"
      using True by (auto simp: step_gen_def data_paths_def split: option.splits)
    then show ?thesis using data_request_refused [OF assms(1) [unfolded Request] m True] unfolding Request by (simp add: server_do_def)
  next
    case False
    then show ?thesis using synthetic_request [OF m] p unfolding Request by (simp add: server_do_def)
  qed
next
  case (Worker d)
  then show ?thesis using assms
    by (auto simp: server_do_def step_op_def step_gen_def synthetic_round_def split: worker.splits if_splits)
qed (use assms in \<open>simp_all add: step_op_def\<close>)


section \<open>A run of the process\<close>

lemma answered_not_thrown: "answered op an cl cl' \<Longrightarrow> an \<noteq> Thrown ex"
proof
  assume a: "answered op an cl cl'" and t: "an = Thrown ex"
  have "log_spec cl' [] [] \<longrightarrow> log_spec cl [op] [an]" using a unfolding answered_def by blast
  then show False unfolding t by (cases op) simp_all
qed

text \<open>The expected replies and operations of a step with what follows.\<close>

lemma expected_step_op:
  assumes "step_op lib s gn = Some op"
  shows "expected_ops lib (s # ss) gn = op # expected_ops lib ss (step_gen lib s gn)"
    and "expected_replies lib (s # ss) gn (an # as) =
      (case step_reply lib s gn (Some an) of None \<Rightarrow> [] | Some r \<Rightarrow> [r]) @ expected_replies lib ss (step_gen lib s gn) as"
    and "steps_ok lib (s # ss) gn \<longleftrightarrow> step_ok s gn \<and> steps_ok lib ss (step_gen lib s gn)"
  using assms by simp_all

lemma expected_step_ended:
  assumes "step_op lib s gn = None" and "step_reply lib s gn None = Some Process_ended"
  shows "expected_ops lib (s # ss) gn = []" and "expected_replies lib (s # ss) gn as = [Process_ended]"
  using assms by simp_all

lemma expected_step_none:
  assumes "step_op lib s gn = None" and "step_reply lib s gn None \<noteq> Some Process_ended"
  shows "expected_ops lib (s # ss) gn = expected_ops lib ss (step_gen lib s gn)"
    and "expected_replies lib (s # ss) gn as =
      (case step_reply lib s gn None of None \<Rightarrow> [] | Some r \<Rightarrow> [r]) @ expected_replies lib ss (step_gen lib s gn) as"
    and "steps_ok lib (s # ss) gn \<longleftrightarrow> step_ok s gn \<and> steps_ok lib ss (step_gen lib s gn)"
  using assms by simp_all

lemma serve_Cons:
  assumes "server_do cx nf s sv = Some (r, sv1)" and "r \<noteq> Some Process_ended" and "serve cx nf ss sv1 = Some (rs, sv2)"
  shows "serve cx nf (s # ss) sv = Some ((case r of None \<Rightarrow> [] | Some x \<Rightarrow> [x]) @ rs, sv2)"
  using assms by (cases r) simp_all

lemma serve_all:
  assumes os: "os_good (cx_os cx)" and nf: "\<forall>n. bloom_wf (nf n)" and t: "block_target_bytes cfg < 2 ^ 32"
  shows "run_inv cfg k (sv_db sv) lg rm \<Longrightarrow> k + length ss < 2 ^ 32 - 2 \<Longrightarrow>
    one_output (sstable_target_bytes cfg) (k + length ss) \<Longrightarrow> steps_ok (cx_lib cx) ss (sv_synth sv) \<Longrightarrow>
    list_all op_ok (expected_ops (cx_lib cx) ss (sv_synth sv)) \<Longrightarrow>
    \<exists>as sv' k' lg' rm'. serve cx nf ss sv = Some (expected_replies (cx_lib cx) ss (sv_synth sv) as, sv') \<and>
      k' \<le> k + length ss \<and> run_inv cfg k' (sv_db sv') lg' rm' \<and>
      log_spec (client lg rm) (expected_ops (cx_lib cx) ss (sv_synth sv)) as"
proof (induction ss arbitrary: k sv lg rm)
  case Nil
  then show ?case by (intro exI [of _ "[]"] exI [of _ sv] exI [of _ k] exI [of _ lg] exI [of _ rm]) simp
next
  case (Cons s ss)
  let ?lib = "cx_lib cx" and ?gn = "sv_synth sv"
  have k: "k < 2 ^ 32 - 2" "k + 1 + length ss < 2 ^ 32 - 2" using Cons.prems(2) by simp_all
  have one: "one_output (sstable_target_bytes cfg) k" "one_output (sstable_target_bytes cfg) (k + 1 + length ss)"
    using Cons.prems(3) by (auto elim: one_output_mono)
  have ok: "step_ok s ?gn" using Cons.prems(4) by simp
  consider (op) op where "step_op ?lib s ?gn = Some op"
    | (ended) "step_op ?lib s ?gn = None" "step_reply ?lib s ?gn None = Some Process_ended"
    | (none) "step_op ?lib s ?gn = None" "step_reply ?lib s ?gn None \<noteq> Some Process_ended" by blast
  then show ?case
  proof cases
    case op
    note ex = expected_step_op [OF op]
    have oks: "op_ok op" "list_all op_ok (expected_ops ?lib ss (step_gen ?lib s ?gn))" using Cons.prems(5) unfolding ex(1) by simp_all
    obtain an st1 lg1 rm1 where s: "db_exec (cx_os cx) (cx_rng cx) nf op (sv_db sv) = Some (an, st1)" "run_inv cfg (k + 1) st1 lg1 rm1"
        "answered op an (client lg rm) (client lg1 rm1)"
      using run_step [OF os nf Cons.prems(1) k(1) t one(1) oks(1), of "cx_rng cx"] by blast
    let ?sv = "sv\<lparr>sv_db := st1, sv_synth := step_gen ?lib s ?gn\<rparr>"
    note do = server_do_op [OF op ok s(1) answered_not_thrown [OF s(3)]]
    have sok: "steps_ok ?lib ss (step_gen ?lib s ?gn)" using Cons.prems(4) unfolding ex(3) by blast
    obtain as sv' k' lg' rm' where r: "serve cx nf ss ?sv = Some (expected_replies ?lib ss (step_gen ?lib s ?gn) as, sv')"
        "k' \<le> k + 1 + length ss" "run_inv cfg k' (sv_db sv') lg' rm'"
        "log_spec (client lg1 rm1) (expected_ops ?lib ss (step_gen ?lib s ?gn)) as"
      using Cons.IH [of "k + 1" ?sv lg1 rm1] s(2) k(2) one(2) sok oks(2) by auto
    have "serve cx nf (s # ss) sv = Some (expected_replies ?lib (s # ss) ?gn (an # as), sv')"
      unfolding ex(2) by (rule serve_Cons [OF do answer_reply_not_ended r(1)])
    moreover have "log_spec (client lg rm) (expected_ops ?lib (s # ss) ?gn) (an # as)"
      unfolding ex(1) using s(3) r(4) unfolding answered_def by blast
    moreover have "k' \<le> k + length (s # ss)" using r(2) by simp
    ultimately show ?thesis using r(3) by blast
  next
    case ended
    have "serve cx nf (s # ss) sv = Some (expected_replies ?lib (s # ss) ?gn [], sv\<lparr>sv_synth := step_gen ?lib s ?gn\<rparr>)"
      unfolding expected_step_ended(2) [OF ended] using server_do_none [OF ended(1) ok] ended(2) by simp
    moreover have "log_spec (client lg rm) (expected_ops ?lib (s # ss) ?gn) []"
      unfolding expected_step_ended(1) [OF ended] by simp
    ultimately show ?thesis using Cons.prems(1)
      by (intro exI [of _ "[]"] exI [of _ "sv\<lparr>sv_synth := step_gen ?lib s ?gn\<rparr>"] exI [of _ k] exI [of _ lg] exI [of _ rm]) simp
  next
    case none
    note ex = expected_step_none [OF none]
    let ?sv = "sv\<lparr>sv_synth := step_gen ?lib s ?gn\<rparr>"
    note do = server_do_none [OF none(1) ok]
    obtain as sv' k' lg' rm' where r: "serve cx nf ss ?sv = Some (expected_replies ?lib ss (step_gen ?lib s ?gn) as, sv')"
        "k' \<le> k + length ss" "run_inv cfg k' (sv_db sv') lg' rm'"
        "log_spec (client lg rm) (expected_ops ?lib ss (step_gen ?lib s ?gn)) as"
      using Cons.IH [of k ?sv lg rm] Cons.prems k(2) one_output_mono [OF one(2), of "k + length ss"] unfolding ex by auto
    have "serve cx nf (s # ss) sv = Some (expected_replies ?lib (s # ss) ?gn as, sv')"
      unfolding ex(2) by (rule serve_Cons [OF do none(2) r(1)])
    moreover have "k' \<le> k + length (s # ss)" using r(2) by simp
    ultimately show ?thesis using r(3,4) unfolding ex(1) by blast
  qed
qed

end
