(* ===== verification/ServerApi.thy ===== *)
theory ServerApi
  imports ServerRun
begin

text \<open>
  What holds of the HTTP interface: all requests together against the log of the database, the
  reading of the objects that it writes itself, an event from its post to its query, and
  the request that ends the process.
\<close>

section \<open>The JSON library\<close>

text \<open>The documented behaviour of the accessors on objects, strings and integers in range.\<close>

definition json_laws :: "json_lib \<Rightarrow> bool" where
  "json_laws lib \<longleftrightarrow>
     (\<forall>m k v. map_of m k = Some v \<longrightarrow> jl_at lib (J_object m) k = Inr v \<and> jl_index lib (J_object m) k = v) \<and>
     (\<forall>m k. jl_contains lib (J_object m) k \<longleftrightarrow> map_of m k \<noteq> None) \<and>
     (\<forall>s. jl_string lib (J_string s) = Inr s) \<and>
     (\<forall>n. 0 \<le> n \<and> n < 2 ^ 64 \<longrightarrow> jl_u64 lib (J_int n) = Inr (word_of_int n)) \<and>
     (\<forall>m k d d'. map_of m k = None \<longrightarrow> jl_value_u64 lib (J_object m) k d = Inr d \<and>
        jl_value_u32 lib (J_object m) k d' = Inr d' \<and> jl_value_i64 lib (J_object m) k d = Inr d) \<and>
     (\<forall>m k d n. map_of m k = Some (J_int n) \<and> 0 \<le> n \<and> n < 2 ^ 64 \<longrightarrow> jl_value_u64 lib (J_object m) k d = Inr (word_of_int n)) \<and>
     (\<forall>m k d n. map_of m k = Some (J_int n) \<and> 0 \<le> n \<and> n < 2 ^ 32 \<longrightarrow> jl_value_u32 lib (J_object m) k d = Inr (word_of_int n)) \<and>
     (\<forall>m k d n. map_of m k = Some (J_int n) \<and> - (2 ^ 63) \<le> n \<and> n < 2 ^ 63 \<longrightarrow> jl_value_i64 lib (J_object m) k d = Inr (word_of_int n))"


text \<open>The laws one by one, on a word written by the server.\<close>

lemma json_laws_ranges:
  assumes "json_laws lib"
  shows "0 \<le> n \<Longrightarrow> n < 2 ^ 64 \<Longrightarrow> jl_u64 lib (J_int n) = Inr (word_of_int n)"
    and "map_of m k = Some (J_int n) \<Longrightarrow> 0 \<le> n \<Longrightarrow> n < 2 ^ 64 \<Longrightarrow> jl_value_u64 lib (J_object m) k d = Inr (word_of_int n)"
    and "map_of m k = Some (J_int n) \<Longrightarrow> 0 \<le> n \<Longrightarrow> n < 2 ^ 32 \<Longrightarrow> jl_value_u32 lib (J_object m) k d' = Inr (word_of_int n)"
    and "map_of m k = Some (J_int n) \<Longrightarrow> - (2 ^ 63) \<le> n \<Longrightarrow> n < 2 ^ 63 \<Longrightarrow> jl_value_i64 lib (J_object m) k d = Inr (word_of_int n)"
    and "jl_string lib (J_string s) = Inr s"
    and "map_of m k = Some v \<Longrightarrow> jl_at lib (J_object m) k = Inr v"
  using assms unfolding json_laws_def by (elim conjE, simp)+

lemma json_laws_word:
  assumes "json_laws lib"
  shows "map_of m k = Some (J_word (w :: u64)) \<Longrightarrow> jl_value_u64 lib (J_object m) k d = Inr w"
    and "map_of m k = Some (J_word (v :: u32)) \<Longrightarrow> jl_value_u32 lib (J_object m) k d' = Inr v"
    and "map_of m k = Some (J_signed (i :: i64)) \<Longrightarrow> jl_value_i64 lib (J_object m) k d = Inr i"
    and "map_of m k = Some (J_word (w :: u64)) \<Longrightarrow> at_u64 lib (J_object m) k = Inr w"
    and "map_of m k = Some (J_string s) \<Longrightarrow> at_string lib (J_object m) k = Inr s"
  using uint_lt2p [of w] uint_lt2p [of v] sint_greater_eq [of i] sint_less [of i]
  by (simp_all add: json_laws_ranges [OF assms] J_word_def J_signed_def at_u64_def at_string_def)

lemma json_laws_absent:
  assumes "json_laws lib" and "map_of m k = None"
  shows "jl_value_u64 lib (J_object m) k d = Inr d" and "jl_value_u32 lib (J_object m) k d' = Inr d'"
    and "jl_contains lib (J_object m) k = False"
  using assms unfolding json_laws_def by (elim conjE, simp)+

lemma json_laws_present:
  assumes "json_laws lib"
  shows "map_of m k = Some v \<Longrightarrow> jl_contains lib (J_object m) k" and "map_of m k = Some v \<Longrightarrow> jl_index lib (J_object m) k = v"
  using assms unfolding json_laws_def by (elim conjE, simp)+

section \<open>Rows as requests\<close>

lemma parse_event_type_of_name: "t \<notin> range Unnamed \<Longrightarrow> parse_event_type (event_type_name t) = Inr t"
  by (cases t) (simp_all add: parse_event_type_def)

definition args_of :: "event \<Rightarrow> append_args" where
  "args_of e =
     \<lparr>aa_timestamp_ns = timestamp_ns e, aa_event_type = event_type e, aa_price_ticks = price_ticks e,
      aa_bid_px_ticks = bid_px_ticks e, aa_ask_px_ticks = ask_px_ticks e, aa_quantity = quantity e,
      aa_bid_qty = bid_qty e, aa_ask_qty = ask_qty e, aa_order_id = order_id e\<rparr>"

text \<open>The number of the symbol is not part of a row.\<close>

lemma row_json_erase: "row_json name (erase e) = row_json name e"
  by (simp add: row_json_def erase_def)

lemma append_event_args_of: "append_event (args_of e) sid q = e\<lparr>symbol_id := sid, sequence_id := q\<rparr>"
  by (simp add: append_event_def args_of_def)

lemma ingest_args_row:
  assumes "json_laws lib" and "event_type e \<notin> range Unnamed"
  shows "ingest_args lib (row_json name e) = Inr (name, args_of e)"
  unfolding ingest_args_def row_json_def
  by (simp add: json_laws_word [OF assms(1)] parse_event_type_of_name [OF assms(2)] args_of_def)

lemma delete_args_row:
  assumes "json_laws lib"
  shows "delete_args lib (row_json name e) = Inr (name, timestamp_ns e, sequence_id e)"
  unfolding delete_args_def row_json_def by (simp add: json_laws_word [OF assms(1)])

lemma query_args_symbol:
  assumes "json_laws lib"
  shows "query_args lib (J_object [(''symbol'', J_string name)]) =
    Inr \<lparr>rq_symbol = name, rq_start_ns = 0, rq_end_ns = - 1, rq_event_type = None, rq_limit = 1000\<rparr>"
  unfolding query_args_def query_type_arg_def
  by (simp add: json_laws_word [OF assms(1)] json_laws_absent [OF assms(1)])

text \<open>A library for the examples: three bodies that parse, and every value is printed.\<close>

definition posted_event :: event where
  "posted_event =
     \<lparr>timestamp_ns = 10, symbol_id = 0, sequence_id = 0, event_type = Trade, price_ticks = - 5, bid_px_ticks = 99,
      ask_px_ticks = 101, quantity = 5, bid_qty = 1, ask_qty = 2, order_id = 7\<rparr>"

fun sample_parse :: "string \<Rightarrow> json option" where
  "sample_parse body =
     (if body = ''event'' then Some (row_json ''AAPL'' posted_event)
      else if body = ''symbol'' then Some (J_object [(''symbol'', J_string ''AAPL'')])
      else if body = ''none'' then Some (J_object [(''symbols'', J_int 0)])
      else None)"

fun fields :: "json \<Rightarrow> (string \<times> json) list" where
  "fields (J_object m) = m"
| "fields _ = []"

fun int_of :: "json \<Rightarrow> int option" where
  "int_of (J_int n) = Some n"
| "int_of _ = None"

definition sample_value :: "json \<Rightarrow> string \<Rightarrow> 'a::len word \<Rightarrow> string + 'a word" where
  "sample_value j k d =
     (case map_of (fields j) k of
        None \<Rightarrow> Inr d
      | Some v \<Rightarrow> (case int_of v of None \<Rightarrow> Inl ''type must be number'' | Some n \<Rightarrow> Inr (word_of_int n)))"

definition sample_lib :: json_lib where
  "sample_lib =
     \<lparr>jl_parse = sample_parse, jl_dump = (\<lambda>j. Inr ''json''), jl_dump2 = (\<lambda>j. Inr ''json''),
      jl_at = (\<lambda>j k. case map_of (fields j) k of None \<Rightarrow> Inl (''key not found: '' @ k) | Some v \<Rightarrow> Inr v),
      jl_index = (\<lambda>j k. case map_of (fields j) k of None \<Rightarrow> J_null | Some v \<Rightarrow> v),
      jl_contains = (\<lambda>j k. map_of (fields j) k \<noteq> None), jl_size = (\<lambda>j. length (fields j)),
      jl_string = (\<lambda>j. case j of J_string s \<Rightarrow> Inr s | _ \<Rightarrow> Inl ''type must be string''),
      jl_u64 = (\<lambda>j. case int_of j of None \<Rightarrow> Inl ''type must be number'' | Some n \<Rightarrow> Inr (word_of_int n)),
      jl_value_u64 = sample_value, jl_value_u32 = sample_value, jl_value_i64 = sample_value,
      jl_value_real = (\<lambda>j k d. Inr d), jl_value_string = (\<lambda>j k d. Inr d), ex_length = ''length''\<rparr>"

lemma sample_lib_laws: "json_laws sample_lib"
  by (simp add: json_laws_def sample_lib_def sample_value_def)

definition sample_inputs :: inputs where
  "sample_inputs =
     \<lparr>in_append_us = 3,
      in_query = \<lparr>qt_total_latency_us = 9, qt_planning_us = 1, qt_index_lookup_us = 2, qt_block_read_us = 0,
        qt_decompression_us = 0, qt_filtering_us = 1, qt_serialization_us = 0\<rparr>,
      in_uptime = 1,
      in_metrics = \<lparr>events_ingested_total = 0, wal_bytes_written = 0, memtable_bytes = 0, immutable_memtable_count = 0,
        flush_count = 0, compaction_count = 0, block_cache_hits = 0, block_cache_lookups = 0,
        append_latency_us = histogram_new, query_latency_ms = histogram_new,
        ingest_rate = \<lparr>t_ema = 0, t_last_ns = 0, t_pending = 0\<rparr>, wal_rate = \<lparr>t_ema = 0, t_last_ns = 0, t_pending = 0\<rparr>\<rparr>,
      in_debt_bytes = 0, in_amp_x100 = (100, 100, 100), in_now_ns = (\<lambda>i. 1000 + i), in_lap_us = (\<lambda>i. 3), in_seconds = 1,
      in_now_ms = 5, in_demo_dir = [], in_demo_ms = 2\<rparr>"

definition sample_env :: server_env where
  "sample_env = \<lparr>cx_lib = sample_lib, cx_os = os_ok, cx_rng = (\<lambda>_. 1), cx_mul = (\<lambda>p n. n), cx_order = (\<lambda>xs. xs)\<rparr>"

definition post :: "string \<Rightarrow> string \<Rightarrow> server_step" where
  "post path body = Request sample_inputs \<lparr>hq_method = POST, hq_path = path, hq_body = body\<rparr>"

lemma sample_step_ok:
  "step_ok (post path body) gn \<longleftrightarrow> path \<in> {''/v1/ingest/event'', ''/v1/events/delete'', ''/v1/query'',
     ''/v1/ingest/synthetic/start'', ''/v1/ingest/synthetic/stop''}"
  "step_ok Flush_step gn" "step_ok Compact_step gn"
  by (simp_all add: step_ok_def post_def data_paths_def synthetic_paths_def)

lemma sample_env_lib [simp]: "cx_lib sample_env = sample_lib"
  by (simp add: sample_env_def)

lemma sample_lib_parse [simp]: "jl_parse sample_lib = sample_parse"
  by (simp add: sample_lib_def)

lemma posted_event_named: "event_type posted_event \<notin> range Unnamed"
  by (auto simp: posted_event_def)

lemma sample_ops:
  "step_op sample_lib (post ''/v1/ingest/event'' ''event'') gn = Some (Op_append ''AAPL'' (args_of posted_event))"
  "step_op sample_lib (post ''/v1/query'' ''?'') gn = None"
  "step_op sample_lib (post ''/v1/query'' ''symbol'') gn =
     Some (Op_query \<lparr>rq_symbol = ''AAPL'', rq_start_ns = 0, rq_end_ns = - 1, rq_event_type = None, rq_limit = 1000\<rparr>)"
  "step_op sample_lib (post ''/v1/ingest/synthetic/start'' ''none'') gn = None"
  "step_op sample_lib Flush_step gn = Some Op_flush_round"
  "step_op sample_lib Compact_step gn = Some Op_compact_round"
  by (simp_all add: step_op_def post_def data_paths_def data_op_def ingest_args_row [OF sample_lib_laws posted_event_named]
      query_args_symbol [OF sample_lib_laws])

lemma sample_gens:
  "step_gen lib (post ''/v1/ingest/event'' body) gn = gn" "step_gen lib (post ''/v1/query'' body) gn = gn"
  "step_gen lib Flush_step gn = gn"
  by (simp_all add: step_gen_def post_def split: option.splits)

lemma sample_replies:
  "step_reply sample_lib (post ''/v1/query'' ''?'') gn None \<noteq> Some Process_ended"
  "step_reply sample_lib (post ''/v1/ingest/synthetic/start'' ''none'') generator_new None \<noteq> Some Process_ended"
  by (simp_all add: post_def refusal_def synthetic_start_def generator_new_def outcome_reply_def Let_def split: sum.splits)

lemmas sample_steps = sample_ops sample_gens sample_replies

section \<open>Answers to two operations\<close>

lemma log_spec_pair:
  assumes "log_spec (client [] []) [Op_append name a, Op_query qr] as"
  shows "\<exists>r q. as = [Wrote r, Rows q] \<and> ar_sequence_id r = 1 \<and>
    answers qr \<lparr>appended = [(name, append_event a 0 1)], removed = []\<rparr> (qr_rows q)"
proof -
  obtain x xs where x: "as = x # xs" using assms by (cases as) auto
  then obtain r where r: "x = Wrote r" using assms by (cases x) auto
  obtain y ys where y: "xs = y # ys" using assms unfolding x r by (cases xs) auto
  then obtain q where q: "y = Rows q" using assms unfolding x r by (cases y) auto
  have "ys = []" using assms unfolding x y r q by (cases ys) auto
  then show ?thesis using assms unfolding x y r q by (intro exI [of _ r] exI [of _ q]) auto
qed

lemma answers_single:
  assumes "answers req \<lparr>appended = [x], removed = []\<rparr> rows" and "matches req x" and "0 < query_limit req"
  shows "map erase rows = [snd x]"
proof -
  obtain es where es: "map erase rows = take (query_limit req) es" "mset es \<subseteq># {#snd x#}" "{#snd x#} \<subseteq># mset es"
    using assms(1,2) unfolding answers_def not_removed_def by (elim exE conjE) (rule that, simp_all)
  have "mset es = {#snd x#}" using es(2,3) by (rule subset_mset.order_antisym)
  then have "es = [snd x]" by simp
  then show ?thesis using es(1) assms(3) by simp
qed

section \<open>Properties\<close>




text \<open>A row of a query's reply can be posted again: read as an event to ingest it gives back the name and every
  field of the event, up to the numbers the database assigns, and read as a deletion it names
  exactly this event.\<close>

theorem row_reposted:
  assumes "json_laws lib" and "event_type e \<notin> range Unnamed"
  shows "(\<exists>a. ingest_args lib (row_json name e) = Inr (name, a) \<and> append_event a (symbol_id e) (sequence_id e) = e) \<and>
    delete_args lib (row_json name e) = Inr (name, timestamp_ns e, sequence_id e)"
  using ingest_args_row [OF assms, of name] delete_args_row [OF assms(1), of name e]
  by (simp_all add: append_event_args_of)

lemma row_reposted_witness:
  "(\<exists>a. ingest_args sample_lib (row_json ''AAPL'' posted_event) = Inr (''AAPL'', a) \<and>
     append_event a (symbol_id posted_event) (sequence_id posted_event) = posted_event) \<and>
   delete_args sample_lib (row_json ''AAPL'' posted_event) = Inr (''AAPL'', timestamp_ns posted_event, sequence_id posted_event)"
  using row_reposted [OF sample_lib_laws posted_event_named, of "''AAPL''"] .

text \<open>C11: An event that is posted to a new server is found by the next query for its symbol: both posts are
  accepted, the event gets number 1, and the one row of the second reply is the event with this number and
  every other field as posted.\<close>

theorem ingest_then_query:
  assumes "os_good (cx_os cx)" and "\<forall>n. bloom_wf (nf n)" and "json_laws (cx_lib cx)"
    and "event_type e \<notin> range Unnamed" and "event_type e \<noteq> Tombstone" and "length name < 2 ^ 16"
    and "jl_parse (cx_lib cx) body1 = Some (row_json name e)"
    and "jl_parse (cx_lib cx) body2 = Some (J_object [(''symbol'', J_string name)])"
    and "block_target_bytes cfg < 2 ^ 32" and "one_output (sstable_target_bytes cfg) 2"
  shows "\<exists>st r qr q sv. db_open (cx_os cx) (cx_rng cx) cfg empty_disk = Some (Inr st) \<and>
    serve cx nf [Request inp1 \<lparr>hq_method = POST, hq_path = ''/v1/ingest/event'', hq_body = body1\<rparr>,
                 Request inp2 \<lparr>hq_method = POST, hq_path = ''/v1/query'', hq_body = body2\<rparr>] (server_new st io) =
      Some ([reply_400 (cx_lib cx) (Inr (append_json inp1 r)),
             reply_400 (cx_lib cx) (Inr (query_json (in_query inp2) qr q))], sv) \<and>
    ar_sequence_id r = 1 \<and> map (row_json (rq_symbol qr)) (qr_rows q) = [row_json name (e\<lparr>sequence_id := 1\<rparr>)]"
proof -
  let ?lib = "cx_lib cx" and ?gn = generator_new
  let ?s1 = "Request inp1 \<lparr>hq_method = POST, hq_path = ''/v1/ingest/event'', hq_body = body1\<rparr>"
  let ?s2 = "Request inp2 \<lparr>hq_method = POST, hq_path = ''/v1/query'', hq_body = body2\<rparr>"
  define qr where "qr = \<lparr>rq_symbol = name, rq_start_ns = 0, rq_end_ns = - 1, rq_event_type = None, rq_limit = 1000\<rparr>"
  obtain st where o: "db_open (cx_os cx) (cx_rng cx) cfg empty_disk = Some (Inr st)" "run_inv cfg 0 st [] []"
    using db_open_fresh [OF assms(1)] unfolding run_inv_def by blast
  let ?sv = "server_new st io"
  have sv: "sv_db ?sv = st" "sv_synth ?sv = ?gn" by (simp_all add: server_new_def)
  have op: "step_op ?lib ?s1 gn = Some (Op_append name (args_of e))" "step_op ?lib ?s2 gn = Some (Op_query qr)"
      "step_gen ?lib ?s1 gn = gn" "step_ok ?s1 gn" "step_ok ?s2 gn" for gn
    using assms(7,8) by (simp_all add: step_op_def step_gen_def step_ok_def data_paths_def data_op_def qr_def
        ingest_args_row [OF assms(3,4)] query_args_symbol [OF assms(3)])
  have ops: "expected_ops ?lib [?s1, ?s2] ?gn = [Op_append name (args_of e), Op_query qr]" "steps_ok ?lib [?s1, ?s2] ?gn"
    using op by simp_all
  have "event_type_wf (event_type e)" using assms(4) by (cases "event_type e") auto
  then have ok: "list_all op_ok [Op_append name (args_of e), Op_query qr]" using assms(6) by (simp add: args_of_def)
  have two: "one_output (sstable_target_bytes cfg) (0 + length [?s1, ?s2])" "0 + length [?s1, ?s2] < 2 ^ 32 - 2"
    using assms(10) by (simp add: numeral_2_eq_2, simp)
  obtain as sv' where r: "serve cx nf [?s1, ?s2] ?sv = Some (expected_replies ?lib [?s1, ?s2] ?gn as, sv')"
      "log_spec (client [] []) [Op_append name (args_of e), Op_query qr] as"
    using serve_all [OF assms(1,2,9), of 0 ?sv "[]" "[]" "[?s1, ?s2]"] o(2) ok two ops unfolding sv by auto
  obtain r q where as: "as = [Wrote r, Rows q]" "ar_sequence_id r = 1"
      "answers qr \<lparr>appended = [(name, append_event (args_of e) 0 1)], removed = []\<rparr> (qr_rows q)"
    using log_spec_pair [OF r(2)] by auto
  have "map erase (qr_rows q) = [append_event (args_of e) 0 1]"
    using answers_single [OF as(3)] assms(5) by (simp add: matches_def wanted_def query_limit_def qr_def append_event_args_of)
  then have "map (row_json name) (map erase (qr_rows q)) = [row_json name (erase (e\<lparr>sequence_id := 1\<rparr>))]"
    by (simp add: append_event_args_of erase_def row_json_def)
  then have "map (row_json name) (qr_rows q) = [row_json name (e\<lparr>sequence_id := 1\<rparr>)]"
    by (simp add: row_json_erase comp_def)
  moreover have "expected_replies ?lib [?s1, ?s2] ?gn as =
      [reply_400 ?lib (Inr (append_json inp1 r)), reply_400 ?lib (Inr (query_json (in_query inp2) qr q))]"
    by (simp add: as(1) op answer_reply_def)
  ultimately show ?thesis using o(1) r(1) as(2) by (intro exI conjI) (assumption | simp add: qr_def)+
qed

lemma ingest_then_query_witness:
  "\<exists>st r qr q sv. db_open (cx_os sample_env) (cx_rng sample_env) (sample_config True) empty_disk = Some (Inr st) \<and>
    serve sample_env sample_filter
      [Request sample_inputs \<lparr>hq_method = POST, hq_path = ''/v1/ingest/event'', hq_body = ''event''\<rparr>,
       Request sample_inputs \<lparr>hq_method = POST, hq_path = ''/v1/query'', hq_body = ''symbol''\<rparr>] (server_new st ''pread'') =
      Some ([reply_400 (cx_lib sample_env) (Inr (append_json sample_inputs r)),
             reply_400 (cx_lib sample_env) (Inr (query_json (in_query sample_inputs) qr q))], sv) \<and>
    ar_sequence_id r = 1 \<and> map (row_json (rq_symbol qr)) (qr_rows q) = [row_json ''AAPL'' (posted_event\<lparr>sequence_id := 1\<rparr>)]"
  by (rule ingest_then_query)
    (simp_all add: os_good_def sample_filter_wf sample_lib_laws posted_event_named sample_env_def sample_config_def
      one_output_def event_kEncodedSize_def, simp_all add: posted_event_def)

text \<open>A benchmark over 0 symbols, which the route accepts, computes a remainder by zero in its first round: for any
  positive number of events the reply is undefined behaviour, however healthy the server is.\<close>

theorem benchmark_divides_by_zero:
  assumes "jl_parse (cx_lib cx) body = Some j" and "jl_value_string (cx_lib cx) j ''benchmark'' ''ingest'' = Inr ''ingest''"
    and "jl_value_u64 (cx_lib cx) j ''events'' 1000000 = Inr n" and "n \<noteq> 0"
    and "jl_value_u32 (cx_lib cx) j ''symbols'' 100 = Inr 0"
  shows "handle_request cx inp \<lparr>hq_method = POST, hq_path = ''/v1/benchmark/run'', hq_body = body\<rparr> sv = Some (Undefined_behaviour, sv)"
  using assms by (simp add: handle_request_def route_post_def post_benchmark_def parse_body_def run_benchmark_def)

lemma benchmark_divides_by_zero_witness:
  "handle_request sample_env sample_inputs \<lparr>hq_method = POST, hq_path = ''/v1/benchmark/run'', hq_body = ''none''\<rparr> undefined =
    Some (Undefined_behaviour, undefined)"
  by (rule benchmark_divides_by_zero [where j = "J_object [(''symbols'', J_int 0)]" and n = 1000000]) (simp_all add: sample_lib_def sample_value_def)

end
