(* ===== verification/Cli.thy ===== *)
theory Cli
  imports ServerApi
begin

text \<open>
  The command line programs (tools/kronosdb_cli.cpp, main_server.cpp, tools/generate_synthetic.cpp): how
  they read their arguments, and what the client sends, prints and returns. The HTTP client, the file
  system and the printing of doubles are parameters; the help texts and what goes to the error stream are
  not modelled.
\<close>

section \<open>Numbers in arguments\<close>

text \<open>What \<^verbatim>\<open>strtoull\<close> and its relatives accept: blanks, a sign, then digits; the rest is ignored.\<close>

definition read_sign :: "string \<Rightarrow> bool \<times> string" where
  "read_sign s =
     (case s of
        [] \<Rightarrow> (False, [])
      | c # cs \<Rightarrow> if c = CHR ''-'' then (True, cs) else if c = CHR ''+'' then (False, cs) else (False, s))"

definition read_integer :: "string \<Rightarrow> (bool \<times> nat) option" where
  "read_integer s =
     (let (neg, s1) = read_sign (dropWhile is_space s); ds = takeWhile is_digit s1
      in if ds = [] then None else Some (neg, digits_val 0 ds))"

text \<open>The conversions throw, here \<open>None\<close>, without digits and out of range. A negative number given for an
  unsigned one wraps around.\<close>

definition stoull :: "string \<Rightarrow> u64 option" where
  "stoull s =
     (case read_integer s of
        None \<Rightarrow> None
      | Some (neg, n) \<Rightarrow> if 2 ^ 64 \<le> n then None else Some (if neg then - word_of_nat n else word_of_nat n))"

definition signed_value :: "bool \<times> nat \<Rightarrow> int" where
  "signed_value v = (if fst v then - int (snd v) else int (snd v))"

definition stoll :: "string \<Rightarrow> i64 option" where
  "stoll s =
     (case read_integer s of
        None \<Rightarrow> None
      | Some v \<Rightarrow> if signed_value v < - (2 ^ 63) \<or> 2 ^ 63 \<le> signed_value v then None else Some (word_of_int (signed_value v)))"

definition stoi :: "string \<Rightarrow> int option" where
  "stoi s =
     (case read_integer s of
        None \<Rightarrow> None
      | Some v \<Rightarrow> if signed_value v < - (2 ^ 31) \<or> 2 ^ 31 \<le> signed_value v then None else Some (signed_value v))"

text \<open>\<^verbatim>\<open>std::stoul\<close> returns 64 bits, which the assignment to a \<^verbatim>\<open>uint32_t\<close> cuts.\<close>

definition stoul32 :: "string \<Rightarrow> u32 option" where
  "stoul32 s = map_option ucast (stoull s)"

section \<open>Options of the client\<close>

record cli_opts =
  co_host :: string
  co_port :: int
  co_db_path :: string
  co_symbol :: string
  co_event_type :: string
  co_timestamp_ns :: u64
  co_price :: i64
  co_bid :: i64
  co_ask :: i64
  co_qty :: u32
  co_start_ns :: u64
  co_end_ns :: u64
  co_filter_type :: string
  co_limit :: u32
  co_events :: u64
  co_symbols :: u32

definition cli_defaults :: cli_opts where
  "cli_defaults =
     \<lparr>co_host = ''127.0.0.1'', co_port = 7420, co_db_path = ''./data'', co_symbol = '''', co_event_type = ''trade'',
      co_timestamp_ns = 0, co_price = 0, co_bid = 0, co_ask = 0, co_qty = 100, co_start_ns = 0, co_end_ns = - 1,
      co_filter_type = '''', co_limit = 100, co_events = 1000000, co_symbols = 100\<rparr>"

text \<open>The option \<open>a\<close> with the argument \<open>v\<close>: \<open>None\<close> when it is none, \<open>Some None\<close> when its conversion throws.\<close>

definition cli_option :: "string \<Rightarrow> string \<Rightarrow> cli_opts \<Rightarrow> cli_opts option option" where
  "cli_option a v opt =
     (if a = ''--host'' then Some (Some (opt\<lparr>co_host := v\<rparr>))
      else if a = ''--port'' then Some (map_option (\<lambda>n. opt\<lparr>co_port := n\<rparr>) (stoi v))
      else if a = ''--db'' then Some (Some (opt\<lparr>co_db_path := v\<rparr>))
      else if a = ''--symbol'' then Some (Some (opt\<lparr>co_symbol := v\<rparr>))
      else if a = ''--event-type'' then Some (Some (opt\<lparr>co_event_type := v\<rparr>))
      else if a = ''--timestamp-ns'' then Some (map_option (\<lambda>n. opt\<lparr>co_timestamp_ns := n\<rparr>) (stoull v))
      else if a = ''--price'' then Some (map_option (\<lambda>n. opt\<lparr>co_price := n\<rparr>) (stoll v))
      else if a = ''--bid'' then Some (map_option (\<lambda>n. opt\<lparr>co_bid := n\<rparr>) (stoll v))
      else if a = ''--ask'' then Some (map_option (\<lambda>n. opt\<lparr>co_ask := n\<rparr>) (stoll v))
      else if a = ''--start-ns'' then Some (map_option (\<lambda>n. opt\<lparr>co_start_ns := n\<rparr>) (stoull v))
      else if a = ''--end-ns'' then Some (map_option (\<lambda>n. opt\<lparr>co_end_ns := n\<rparr>) (stoull v))
      else if a = ''--type'' then Some (Some (opt\<lparr>co_filter_type := v\<rparr>))
      else if a = ''--limit'' then Some (map_option (\<lambda>n. opt\<lparr>co_limit := n\<rparr>) (stoul32 v))
      else if a = ''--events'' then Some (map_option (\<lambda>n. opt\<lparr>co_events := n\<rparr>) (stoull v))
      else if a = ''--symbols'' then Some (map_option (\<lambda>n. opt\<lparr>co_symbols := n\<rparr>) (stoul32 v))
      else None)"

text \<open>The last word that is no option is the subcommand. \<open>None\<close>: an exception leaves \<^verbatim>\<open>main\<close>.\<close>

fun cli_parse :: "string list \<Rightarrow> cli_opts \<times> string \<Rightarrow> (cli_opts \<times> string) option" where
  "cli_parse [] s = Some s"
| "cli_parse [a] (opt, sub) = Some (opt, a)"
| "cli_parse (a # v # rest) (opt, sub) =
     (case cli_option a v opt of
        None \<Rightarrow> cli_parse (v # rest) (opt, a)
      | Some None \<Rightarrow> None
      | Some (Some opt') \<Rightarrow> cli_parse rest (opt', sub))"

section \<open>Commands of the client\<close>

type_synonym http_client = "string \<Rightarrow> int \<Rightarrow> http_request \<Rightarrow> string option"

definition connect_failed :: string where
  "connect_failed = ''{\"ok\":false,\"error\":{\"code\":\"CONNECT\",\"message\":\"connection failed\"}}''"

definition cli_get :: "http_client \<Rightarrow> cli_opts \<Rightarrow> string \<Rightarrow> string" where
  "cli_get net opt path =
     (case net (co_host opt) (co_port opt) \<lparr>hq_method = GET, hq_path = path, hq_body = ''''\<rparr> of
        None \<Rightarrow> connect_failed | Some body \<Rightarrow> body)"

definition cli_post :: "http_client \<Rightarrow> cli_opts \<Rightarrow> string \<Rightarrow> string \<Rightarrow> string" where
  "cli_post net opt path body =
     (case net (co_host opt) (co_port opt) \<lparr>hq_method = POST, hq_path = path, hq_body = body\<rparr> of
        None \<Rightarrow> connect_failed | Some body \<Rightarrow> body)"

text \<open>The exit code with the lines printed, or an exception that leaves \<^verbatim>\<open>main\<close>.\<close>

datatype cli_result = Exit int "string list" | Aborted

definition printed :: "string + string \<Rightarrow> (string \<Rightarrow> cli_result) \<Rightarrow> cli_result" where
  "printed r f = (case r of Inl _ \<Rightarrow> Aborted | Inr s \<Rightarrow> f s)"

text \<open>A text parsed without exceptions and printed; what cannot be parsed prints as a discarded value.\<close>

definition pretty :: "json_lib \<Rightarrow> string \<Rightarrow> string + string" where
  "pretty lib body = (case jl_parse lib body of None \<Rightarrow> Inr ''<discarded>'' | Some j \<Rightarrow> jl_dump2 lib j)"

definition print_pretty :: "json_lib \<Rightarrow> string \<Rightarrow> cli_result" where
  "print_pretty lib body = printed (pretty lib body) (\<lambda>s. Exit 0 [s])"

definition cmd_status :: "json_lib \<Rightarrow> http_client \<Rightarrow> cli_opts \<Rightarrow> cli_result" where
  "cmd_status lib net opt =
     (let body = cli_get net opt ''/v1/status''
      in case jl_parse lib body of None \<Rightarrow> Exit 1 [] | Some j \<Rightarrow> print_pretty lib body)"

definition append_body :: "cli_opts \<Rightarrow> json" where
  "append_body opt =
     J_object [(''symbol'', J_string (co_symbol opt)), (''timestamp_ns'', J_word (co_timestamp_ns opt)),
               (''event_type'', J_string (co_event_type opt)), (''price_ticks'', J_signed (co_price opt)),
               (''bid_px_ticks'', J_signed (co_bid opt)), (''ask_px_ticks'', J_signed (co_ask opt)),
               (''quantity'', J_word (co_qty opt))]"

definition cmd_append :: "json_lib \<Rightarrow> http_client \<Rightarrow> cli_opts \<Rightarrow> cli_result" where
  "cmd_append lib net opt =
     printed (jl_dump lib (append_body opt)) (\<lambda>req. print_pretty lib (cli_post net opt ''/v1/ingest/event'' req))"

definition query_body :: "cli_opts \<Rightarrow> json" where
  "query_body opt =
     J_object ([(''symbol'', J_string (co_symbol opt)), (''start_ns'', J_word (co_start_ns opt)),
                (''end_ns'', J_word (co_end_ns opt)), (''limit'', J_word (co_limit opt))] @
               (if co_filter_type opt \<noteq> '''' then [(''event_type'', J_string (co_filter_type opt))] else []))"

definition cmd_query :: "json_lib \<Rightarrow> http_client \<Rightarrow> cli_opts \<Rightarrow> cli_result" where
  "cmd_query lib net opt =
     printed (jl_dump lib (query_body opt)) (\<lambda>req.
       let body = cli_post net opt ''/v1/query'' req
       in case jl_parse lib body of
            None \<Rightarrow> Exit 1 []
          | Some j \<Rightarrow>
              if jl_contains lib j ''rows''
              then let line = ''Returned '' @ decimal (jl_size lib (jl_index lib j ''rows'')) @ '' row(s)''
                   in if jl_contains lib j ''stats''
                      then printed (jl_dump lib (jl_index lib j ''stats'')) (\<lambda>s. Exit 0 [line, ''Stats: '' @ s])
                      else Exit 0 [line]
              else print_pretty lib body)"

definition cmd_inspect_levels :: "json_lib \<Rightarrow> http_client \<Rightarrow> cli_opts \<Rightarrow> cli_result" where
  "cmd_inspect_levels lib net opt = print_pretty lib (cli_get net opt ''/v1/storage/levels'')"

text \<open>\<open>wal_of\<close> gives the log directory of a database directory, \<open>ms\<close> the duration as it is printed.\<close>

definition cmd_recover :: "(nat \<Rightarrow> u32) \<Rightarrow> (string \<Rightarrow> dir option) \<Rightarrow> string \<Rightarrow> cli_opts \<Rightarrow> cli_result option" where
  "cmd_recover rng wal_of ms opt = do {
     (r, m) \<leftarrow> recover rng (wal_of (co_db_path opt)) (memtable_new (64 * 1024 * 1024));
     Some (Exit 0
       [''Recovering WAL from: '' @ co_db_path opt,
        ''  records_recovered : '' @ decimal (unat (records_recovered r)),
        ''  torn_detected     : '' @ (if rr_torn_detected r then ''1'' else ''0''),
        ''  torn_bytes        : '' @ decimal (rr_torn_bytes r),
        ''  duration_ms       : '' @ ms])
   }"

definition bench_body :: "cli_opts \<Rightarrow> json" where
  "bench_body opt =
     J_object [(''benchmark'', J_string ''ingest''), (''events'', J_word (co_events opt)), (''symbols'', J_word (co_symbols opt))]"

definition cmd_bench_ingest :: "json_lib \<Rightarrow> http_client \<Rightarrow> cli_opts \<Rightarrow> cli_result" where
  "cmd_bench_ingest lib net opt =
     printed (jl_dump lib (bench_body opt)) (\<lambda>req. print_pretty lib (cli_post net opt ''/v1/benchmark/run'' req))"

definition cli_main ::
  "json_lib \<Rightarrow> http_client \<Rightarrow> (nat \<Rightarrow> u32) \<Rightarrow> (string \<Rightarrow> dir option) \<Rightarrow> string \<Rightarrow> string list \<Rightarrow> cli_result option" where
  "cli_main lib net rng wal_of ms argv =
     (case argv of
        [] \<Rightarrow> Some (Exit 1 [])
      | cmd # args \<Rightarrow>
          (case cli_parse args (cli_defaults, '''') of
             None \<Rightarrow> Some Aborted
           | Some (opt, sub) \<Rightarrow>
               if cmd = ''status'' then Some (cmd_status lib net opt)
               else if cmd = ''append'' then Some (cmd_append lib net opt)
               else if cmd = ''query'' then Some (cmd_query lib net opt)
               else if cmd = ''inspect-levels'' then Some (cmd_inspect_levels lib net opt)
               else if cmd = ''recover'' then cmd_recover rng wal_of ms opt
               else if cmd = ''bench'' \<and> sub = ''ingest'' then Some (cmd_bench_ingest lib net opt)
               else Some (Exit 1 [])))"

section \<open>Options of the server and of the load generator\<close>

text \<open>A program runs with its options, leaves with a code, or is left by an exception.\<close>

datatype 'a launch = Run 'a | Leave int | Thrown_out

record server_opts =
  so_db_path :: string
  so_host :: string
  so_port :: u16
  so_io_backend :: string
  so_wal :: bool

definition server_defaults :: server_opts where
  "server_defaults =
     \<lparr>so_db_path = ''./data'', so_host = ''127.0.0.1'', so_port = 7420, so_io_backend = ''pread'', so_wal = True\<rparr>"

fun server_parse :: "string list \<Rightarrow> server_opts \<Rightarrow> server_opts launch" where
  "server_parse [] opt = Run opt"
| "server_parse (a # rest) opt =
     (if a = ''--help'' then Leave 0
      else if a = ''--no-wal'' then server_parse rest (opt\<lparr>so_wal := False\<rparr>)
      else (case rest of
              [] \<Rightarrow> Leave 1
            | v # rest' \<Rightarrow>
                if a = ''--db'' then server_parse rest' (opt\<lparr>so_db_path := v\<rparr>)
                else if a = ''--port'' then
                  (case stoi v of None \<Rightarrow> Thrown_out | Some n \<Rightarrow> server_parse rest' (opt\<lparr>so_port := word_of_int n\<rparr>))
                else if a = ''--host'' then server_parse rest' (opt\<lparr>so_host := v\<rparr>)
                else if a = ''--io-backend'' then server_parse rest' (opt\<lparr>so_io_backend := v\<rparr>)
                else Leave 1))"

definition server_config_of :: "server_opts \<Rightarrow> db_config" where
  "server_config_of opt =
     \<lparr>cfg_path = so_db_path opt, wal_enabled = so_wal opt, memtable_flush_bytes = 64 * 1024 * 1024,
      wal_segment_bytes = 128 * 1024 * 1024, block_target_bytes = 64 * 1024, sstable_target_bytes = 64 * 1024 * 1024,
      background_compaction = True, block_cache_bytes = 64 * 1024 * 1024\<rparr>"

text \<open>The server as it is when \<^verbatim>\<open>main\<close> enters \<open>start\<close>.\<close>

definition server_main :: "os \<Rightarrow> (nat \<Rightarrow> u32) \<Rightarrow> disk \<Rightarrow> server_opts \<Rightarrow> (exn + server) option" where
  "server_main os rng dk opt =
     map_option (map_sum id (\<lambda>st. server_new st (so_io_backend opt))) (db_open os rng (server_config_of opt) dk)"

record load_opts =
  lo_db_path :: string
  lo_symbols :: u32
  lo_rate :: rat
  lo_duration :: u32
  lo_regime :: string
  lo_wal :: bool

definition load_defaults :: load_opts where
  "load_defaults =
     \<lparr>lo_db_path = ''./data'', lo_symbols = 100, lo_rate = 100000, lo_duration = 30, lo_regime = ''normal'', lo_wal = True\<rparr>"

text \<open>\<open>stod\<close> reads a double.\<close>

fun load_parse :: "(string \<Rightarrow> rat option) \<Rightarrow> string list \<Rightarrow> load_opts \<Rightarrow> load_opts launch" where
  "load_parse stod [] opt = Run opt"
| "load_parse stod (a # rest) opt =
     (if a = ''--no-wal'' then load_parse stod rest (opt\<lparr>lo_wal := False\<rparr>)
      else if a = ''--help'' then Leave 0
      else (case rest of
              [] \<Rightarrow> Leave 1
            | v # rest' \<Rightarrow>
                if a = ''--db'' then load_parse stod rest' (opt\<lparr>lo_db_path := v\<rparr>)
                else if a = ''--symbols'' then
                  (case stoul32 v of None \<Rightarrow> Thrown_out | Some n \<Rightarrow> load_parse stod rest' (opt\<lparr>lo_symbols := n\<rparr>))
                else if a = ''--rate'' then
                  (case stod v of None \<Rightarrow> Thrown_out | Some r \<Rightarrow> load_parse stod rest' (opt\<lparr>lo_rate := r\<rparr>))
                else if a = ''--duration'' then
                  (case stoul32 v of None \<Rightarrow> Thrown_out | Some n \<Rightarrow> load_parse stod rest' (opt\<lparr>lo_duration := n\<rparr>))
                else if a = ''--regime'' then load_parse stod rest' (opt\<lparr>lo_regime := v\<rparr>)
                else Leave 1))"

definition load_config :: "load_opts \<Rightarrow> synthetic_config" where
  "load_config opt =
     synthetic_config_new
       \<lparr>num_symbols := lo_symbols opt, events_per_sec := lo_rate opt,
        duration_seconds := (if lo_duration opt = 0 then 86400 else lo_duration opt),
        volatility := regime_of (lo_regime opt)\<rparr>"

text \<open>One pass of the watching loop follows the rounds the worker did meanwhile; the end of the list is the signal.\<close>

primrec load_watch :: "os \<Rightarrow> (nat \<Rightarrow> u32) \<Rightarrow> string \<Rightarrow> draw list list \<Rightarrow> generator \<times> db \<Rightarrow> (generator \<times> db) option" where
  "load_watch os rng job [] s = Some s"
| "load_watch os rng job (ds # dss) s = do {
     (gn, st) \<leftarrow> synthetic_rounds os rng ds s;
     if js_running (synthetic_status job gn) then load_watch os rng job dss (gn, st) else Some (gn, st)
   }"

definition load_main :: "os \<Rightarrow> (nat \<Rightarrow> u32) \<Rightarrow> load_opts \<Rightarrow> draw list list \<Rightarrow> db \<Rightarrow> (u64 outcome \<times> db) option" where
  "load_main os rng opt dss st =
     (case synthetic_start (load_config opt) generator_new of
        (Returned job, gn) \<Rightarrow> do {
          (gn', st') \<leftarrow> load_watch os rng job dss (gn, st);
          Some (fst (synthetic_stop job gn'), st')
        }
      | (Raised ex, gn) \<Rightarrow> Some (Raised ex, st)
      | (Terminated, gn) \<Rightarrow> Some (Terminated, st))"

section \<open>The load generator reports what it stored\<close>

lemma synthetic_rounds_append:
  "synthetic_rounds os rng (xs @ ys) s = synthetic_rounds os rng xs s \<bind> synthetic_rounds os rng ys"
proof (induction xs arbitrary: s)
  case (Cons x xs)
  then show ?case by (cases "synthetic_round os rng x s") simp_all
qed simp

lemma load_watch_live:
  assumes os: "os_good os"
  shows "run_inv cfg k st lg rm \<Longrightarrow> k + length (concat dss) < 2 ^ 32 - 2 \<Longrightarrow> gn_worker gn = Live (loop_init c) \<Longrightarrow> gn_running gn \<Longrightarrow>
    gn_job gn = job \<Longrightarrow> list_all (draw_ok c) (concat dss) \<Longrightarrow>
    load_watch os rng job dss (gn, st) = synthetic_rounds os rng (concat dss) (gn, st)"
proof (induction dss arbitrary: k st lg gn)
  case (Cons ds dss)
  have k: "k + length ds < 2 ^ 32 - 2" "k + length ds + length (concat dss) < 2 ^ 32 - 2"
    using Cons.prems(2) by (simp_all del: length_concat)
  have ok: "list_all (draw_ok c) ds" "list_all (draw_ok c) (concat dss)" using Cons.prems(6) by simp_all
  let ?gn = "gn\<lparr>gn_count := gn_count gn + word_of_nat (length ds)\<rparr>"
  obtain st' lg' where r: "synthetic_rounds os rng ds (gn, st) = Some (?gn, st')" "run_inv cfg (k + length ds) st' lg' rm"
    using synthetic_rounds_live [OF os Cons.prems(1) k(1) Cons.prems(3,4) ok(1), of rng] by blast
  have g: "gn_worker ?gn = Live (loop_init c)" "gn_running ?gn" "gn_job ?gn = job" using Cons.prems(3-5) by simp_all
  have "js_running (synthetic_status job ?gn)" using g by (simp add: synthetic_status_def)
  then show ?case using r(1) Cons.IH [OF r(2) k(2) g ok(2)] by (simp add: synthetic_rounds_append)
qed simp

lemma load_main_stored:
  assumes "os_good os" and "list_all (draw_ok (load_config opt)) (concat dss)" and "length (concat dss) < 2 ^ 32 - 2"
  shows "\<exists>st0 st1 lg. db_open os rng cfg empty_disk = Some (Inr st0) \<and>
    load_main os rng opt dss st0 = Some (Returned (word_of_nat (length (concat dss))), st1) \<and>
    run_inv cfg (length (concat dss)) st1 lg [] \<and> map (apsnd erase) lg = logged_draws (load_config opt) (concat dss) 0"
proof -
  let ?c = "load_config opt" and ?ds = "concat dss" and ?job = "''synthetic-001''"
  let ?gn = "generator_new\<lparr>gn_config := ?c, gn_job := ?job, gn_count := 0, gn_running := True, gn_worker := Live (loop_init ?c)\<rparr>"
  obtain st0 where o: "db_open os rng cfg empty_disk = Some (Inr st0)" "run_inv cfg 0 st0 [] []"
    using db_open_fresh [OF assms(1)] unfolding run_inv_def by blast
  have s: "synthetic_start ?c generator_new = (Returned ?job, ?gn)" by (simp add: synthetic_start_def generator_new_def Let_def)
  have g: "gn_worker ?gn = Live (loop_init ?c)" "gn_running ?gn" "gn_job ?gn = ?job" by simp_all
  have l: "0 + length ?ds < 2 ^ 32 - 2" using assms(3) by (simp del: length_concat)
  obtain st1 lg where r: "synthetic_rounds os rng ?ds (?gn, st0) = Some (?gn\<lparr>gn_count := gn_count ?gn + word_of_nat (length ?ds)\<rparr>, st1)"
      "run_inv cfg (0 + length ?ds) st1 lg []"
      "client lg [] = client [] []\<lparr>appended := map (apsnd erase) [] @ logged_draws ?c ?ds (length ([] :: (string \<times> event) list))\<rparr>"
    using synthetic_rounds_live [OF assms(1) o(2) l g(1,2) assms(2), of rng] by blast
  have "load_watch os rng ?job dss (?gn, st0) = Some (?gn\<lparr>gn_count := gn_count ?gn + word_of_nat (length ?ds)\<rparr>, st1)"
    using load_watch_live [OF assms(1) o(2) l g assms(2), of rng] r(1) by simp
  then have "load_main os rng opt dss st0 = Some (Returned (word_of_nat (length ?ds)), st1)"
    unfolding load_main_def s by (simp add: synthetic_stop_def Let_def del: length_concat)
  moreover have "map (apsnd erase) lg = logged_draws ?c ?ds 0" using r(3) by simp
  ultimately show ?thesis using o(1) r(2) by (intro exI [of _ st0] exI [of _ st1] exI [of _ lg]) simp
qed

section \<open>Reading numbers back\<close>

definition show_int :: "int \<Rightarrow> string" where
  "show_int i = (if i < 0 then CHR ''-'' # decimal (nat (- i)) else decimal (nat i))"

lemma decimal_first: "\<exists>c cs. decimal n = c # cs \<and> is_digit c"
  using digits_decimal [of n] by (cases "decimal n") auto

lemma is_digit_not: "is_digit c \<Longrightarrow> \<not> is_space c \<and> c \<noteq> CHR ''-'' \<and> c \<noteq> CHR ''+''"
  by (auto simp: is_digit_def is_space_def)

lemma takeWhile_decimal: "takeWhile is_digit (decimal n) = decimal n"
  using digits_decimal [of n] by (simp add: takeWhile_eq_all_conv)

lemma read_integer_decimal: "read_integer (decimal n) = Some (False, n)"
proof -
  obtain c cs where c: "decimal n = c # cs" "is_digit c" using decimal_first by blast
  have "dropWhile is_space (decimal n) = decimal n" using is_digit_not [OF c(2)] by (simp add: c(1))
  moreover have "read_sign (decimal n) = (False, decimal n)" using is_digit_not [OF c(2)] by (simp add: read_sign_def c(1))
  ultimately show ?thesis by (simp add: read_integer_def takeWhile_decimal digits_val_decimal)
qed

lemma read_integer_minus: "read_integer (CHR ''-'' # decimal n) = Some (True, n)"
  by (simp add: read_integer_def read_sign_def is_space_def takeWhile_decimal digits_val_decimal)

lemma stoull_decimal: "stoull (decimal (unat w)) = Some w"
  using unsigned_less [of w, where 'a = nat] by (simp add: stoull_def read_integer_decimal)

lemma stoul32_decimal: "stoul32 (decimal (unat w)) = Some w"
proof -
  have "unat (ucast w :: u64) = unat w"
    using unsigned_less [of w, where 'a = nat] by (simp add: unsigned_ucast_eq take_bit_nat_eq_self)
  then have "stoull (decimal (unat w)) = Some (ucast w)" using stoull_decimal [of "ucast w"] by simp
  moreover have "ucast (ucast w :: u64) = w" by (rule bit_word_eqI) (simp add: bit_simps)
  ultimately show ?thesis by (simp add: stoul32_def)
qed

lemma signed_value_show_int: "\<exists>v. read_integer (show_int i) = Some v \<and> signed_value v = i"
  by (cases "i < 0") (simp_all add: show_int_def read_integer_decimal read_integer_minus signed_value_def)

lemma stoll_show_int: "stoll (show_int (sint i)) = Some i"
proof -
  obtain v where v: "read_integer (show_int (sint i)) = Some v" "signed_value v = sint i" using signed_value_show_int by blast
  then show ?thesis using sint_greater_eq [of i] sint_less [of i] by (simp add: stoll_def)
qed

lemma stoi_show_int: "- (2 ^ 31) \<le> n \<Longrightarrow> n < 2 ^ 31 \<Longrightarrow> stoi (show_int n) = Some n"
  using signed_value_show_int [of n] by (auto simp: stoi_def)

section \<open>Properties\<close>

text \<open>The arguments that name all options.\<close>

definition cli_args :: "cli_opts \<Rightarrow> string list" where
  "cli_args opt =
     [''--host'', co_host opt, ''--port'', show_int (co_port opt), ''--db'', co_db_path opt, ''--symbol'', co_symbol opt,
      ''--event-type'', co_event_type opt, ''--timestamp-ns'', decimal (unat (co_timestamp_ns opt)),
      ''--price'', show_int (sint (co_price opt)), ''--bid'', show_int (sint (co_bid opt)), ''--ask'', show_int (sint (co_ask opt)),
      ''--start-ns'', decimal (unat (co_start_ns opt)), ''--end-ns'', decimal (unat (co_end_ns opt)), ''--type'', co_filter_type opt,
      ''--limit'', decimal (unat (co_limit opt)), ''--events'', decimal (unat (co_events opt)),
      ''--symbols'', decimal (unat (co_symbols opt))]"

text \<open>Options survive the command line: every setting of the client's options, written out as decimal numbers and
  strings, is read back exactly; the quantity, for which there is no option, is always 100.\<close>

theorem cli_options_roundtrip:
  assumes "- (2 ^ 31) \<le> co_port opt" and "co_port opt < 2 ^ 31" and "co_qty opt = 100"
  shows "cli_parse (cli_args opt) (cli_defaults, sub) = Some (opt, sub)"
  using assms unfolding cli_args_def
  by (simp add: cli_option_def stoull_decimal stoul32_decimal stoll_show_int stoi_show_int cli_defaults_def)

lemma cli_options_roundtrip_witness:
  "cli_parse (cli_args (cli_defaults\<lparr>co_port := 80, co_price := - 5\<rparr>)) (cli_defaults, ''ingest'') =
    Some (cli_defaults\<lparr>co_port := 80, co_price := - 5\<rparr>, ''ingest'')"
  by (rule cli_options_roundtrip) (simp_all add: cli_defaults_def)

text \<open>C35: The server understands what the client sends: the body of an append is read as exactly the event of the options
  with the fields the client does not send set to 0, and the body of a query as exactly the range, the limit
  and the filter of the options.\<close>

theorem cli_requests_read:
  assumes "json_laws lib" and "parse_event_type (co_event_type opt) = Inr ty"
    and "co_filter_type opt = '''' \<or> parse_event_type (co_filter_type opt) = Inr fty"
  shows "ingest_args lib (append_body opt) = Inr (co_symbol opt,
      \<lparr>aa_timestamp_ns = co_timestamp_ns opt, aa_event_type = ty, aa_price_ticks = co_price opt, aa_bid_px_ticks = co_bid opt,
       aa_ask_px_ticks = co_ask opt, aa_quantity = co_qty opt, aa_bid_qty = 0, aa_ask_qty = 0, aa_order_id = 0\<rparr>) \<and>
    query_args lib (query_body opt) = Inr
      \<lparr>rq_symbol = co_symbol opt, rq_start_ns = co_start_ns opt, rq_end_ns = co_end_ns opt,
       rq_event_type = (if co_filter_type opt = '''' then None else Some fty), rq_limit = co_limit opt\<rparr>"
proof
  show "ingest_args lib (append_body opt) = Inr (co_symbol opt,
      \<lparr>aa_timestamp_ns = co_timestamp_ns opt, aa_event_type = ty, aa_price_ticks = co_price opt, aa_bid_px_ticks = co_bid opt,
       aa_ask_px_ticks = co_ask opt, aa_quantity = co_qty opt, aa_bid_qty = 0, aa_ask_qty = 0, aa_order_id = 0\<rparr>)"
    unfolding ingest_args_def append_body_def
    by (simp add: json_laws_word [OF assms(1)] json_laws_absent [OF assms(1)] assms(2))
  show "query_args lib (query_body opt) = Inr
      \<lparr>rq_symbol = co_symbol opt, rq_start_ns = co_start_ns opt, rq_end_ns = co_end_ns opt,
       rq_event_type = (if co_filter_type opt = '''' then None else Some fty), rq_limit = co_limit opt\<rparr>"
    using assms(3) unfolding query_args_def query_body_def query_type_arg_def
    by (auto simp: json_laws_word [OF assms(1)] json_laws_absent [OF assms(1)] json_laws_present [OF assms(1)] json_laws_ranges(5) [OF assms(1)])
qed

lemma cli_requests_read_witness:
  "ingest_args sample_lib (append_body cli_defaults) = Inr (co_symbol cli_defaults,
      \<lparr>aa_timestamp_ns = co_timestamp_ns cli_defaults, aa_event_type = Trade, aa_price_ticks = co_price cli_defaults,
       aa_bid_px_ticks = co_bid cli_defaults, aa_ask_px_ticks = co_ask cli_defaults, aa_quantity = co_qty cli_defaults,
       aa_bid_qty = 0, aa_ask_qty = 0, aa_order_id = 0\<rparr>) \<and>
    query_args sample_lib (query_body cli_defaults) = Inr
      \<lparr>rq_symbol = co_symbol cli_defaults, rq_start_ns = co_start_ns cli_defaults, rq_end_ns = co_end_ns cli_defaults,
       rq_event_type = (if co_filter_type cli_defaults = '''' then None else Some Quote), rq_limit = co_limit cli_defaults\<rparr>"
  by (rule cli_requests_read) (simp_all add: sample_lib_laws cli_defaults_def parse_event_type_def)

end
