(* ===== verification/DBOverlap.thy ===== *)
theory DBOverlap
  imports DBThreads
begin

text \<open>
  Compaction of level 0 step by step: the snapshot of the level, the merge, the removal of the input
  files, the change of the levels. Run alone the steps are the compaction of the other theories; the
  code takes no lock over them, so other calls come in between, among them a second compaction.
\<close>

section \<open>The steps\<close>

record compacting =
  cp_files :: "sst_info list"
  cp_seq :: u64
  cp_new :: "sst_info list"

definition compact_begin :: "db \<Rightarrow> (compacting \<times> db) option" where
  "compact_begin st =
     (let l0_files = db_levels st ! 0
      in if l0_files = [] then None
         else Some (\<lparr>cp_files = l0_files, cp_seq = db_sst_seq st, cp_new = []\<rparr>, st\<lparr>db_sst_seq := db_sst_seq st + 1\<rparr>))"

definition compact_merge :: "os \<Rightarrow> (u32 \<Rightarrow> bloom) \<Rightarrow> compacting \<Rightarrow> db \<Rightarrow> (exn + compacting) \<times> db" where
  "compact_merge os nf c st =
     (case compaction_run os nf (cp_files c) (level_dir (db_cfg st) 1) 1 (cp_seq c) (sstable_target_bytes (db_cfg st)) (db_tables st) of
        (Inl ex, d) \<Rightarrow> (Inl ex, st\<lparr>db_tables := d\<rparr>)
      | (Inr (new_files, stats), d) \<Rightarrow> (Inr (c\<lparr>cp_new := new_files\<rparr>), st\<lparr>db_tables := d\<rparr>))"

definition compact_unlink :: "compacting \<Rightarrow> db \<Rightarrow> db" where
  "compact_unlink c st =
     (if cp_new c = [] then st else st\<lparr>db_tables := remove_files (map si_path (cp_files c)) (db_tables st)\<rparr>)"

definition compact_publish :: "compacting \<Rightarrow> db \<Rightarrow> db" where
  "compact_publish c st =
     (if cp_new c = [] then st
      else st\<lparr>db_levels := (db_levels st)
                 [0 := filter (\<lambda>info. si_path info \<notin> set (map si_path (cp_files c))) (db_levels st ! 0),
                  1 := sort_key info_seq (db_levels st ! 1 @ cp_new c)],
              db_counters := (db_counters st)\<lparr>compaction_count := compaction_count (db_counters st) + 1\<rparr>\<rparr>)"

text \<open>Without interleaving the steps are one call.\<close>

lemma compact_steps:
  "do_compact_l0 os nf st =
     (case compact_begin st of
        None \<Rightarrow> (Inr (), st)
      | Some (c, st1) \<Rightarrow>
          (case compact_merge os nf c st1 of
             (Inl ex, st2) \<Rightarrow> (Inl ex, st2)
           | (Inr c', st2) \<Rightarrow> (Inr (), compact_publish c' (compact_unlink c' st2))))"
  by (auto simp: do_compact_l0_def compact_begin_def compact_merge_def compact_publish_def compact_unlink_def Let_def
      split: sum.splits prod.splits)

section \<open>Merging one table of one event\<close>

lemma merge_one:
  assumes os: "os_progress os" and nf: "\<forall>n. bloom_wf (nf n)" and t: "table_on d r bs" "concat bs = [e]" and one: "one_output target 1"
  shows "\<exists>r1 bs1 cs d'. compaction_run os nf [sr_info r] dir 1 sq target d = (Inr ([sr_info r1], cs), d') \<and>
    table_on d' r1 bs1 \<and> concat bs1 = [e] \<and> sr_path r1 = make_path dir 1 sq \<and>
    (\<forall>p. p \<noteq> sr_path r1 \<longrightarrow> map_of d' p = map_of d p)"
proof -
  have ts: "tables_on d [(r, bs)]" using t(1) by (simp add: tables_on_def)
  let ?all = "concat (map tagged_input [(r, bs)])"
  have f: "map fst ?all = [e]" unfolding map_fst_tagged_inputs by (simp add: t(2))
  have "length (map fst ?all) = 1" unfolding f by simp
  then have len: "length ?all = 1" by (simp only: length_map)
  have "mset (merge_events 1 ?all) = mset [e]" using merge_distinct [of ?all] unfolding f by simp
  then have m: "merge_events 1 ?all = [e]" by simp
  have l: "length ?all < 2 ^ 32" unfolding len by simp
  obtain outs d' cs where run: "compaction_run os nf (infos_of [(r, bs)]) dir 1 sq target d = (Inr (infos_of outs, Some cs), d')"
      "tables_on d' outs" "events_of outs = split_outputs target [] (merge_events 1 ?all)"
      "paths_of outs = out_paths dir 1 sq (length outs)" "\<forall>p. p \<notin> set (paths_of outs) \<longrightarrow> map_of d' p = map_of d p"
    using compaction_run_spec [OF os nf _ ts l, of dir 1 sq target] by blast
  have "events_of outs = [[e]]" using run(3) split_one_output [of target "[]" "[e]"] one unfolding m by simp
  then obtain r1 bs1 where o: "outs = [(r1, bs1)]" "concat bs1 = [e]" by (auto simp: map_eq_Cons_conv)
  have "sr_path r1 = make_path dir 1 sq" using run(4) by (simp add: o(1))
  then show ?thesis using run(1,2,5) o by (intro exI [of _ r1] exI [of _ bs1] exI [of _ "Some cs"] exI [of _ d']) (auto simp: tables_on_def)
qed

section \<open>Two compactions of one table\<close>

text \<open>The last two steps together.\<close>

definition compact_finish :: "compacting \<Rightarrow> db \<Rightarrow> db" where
  "compact_finish c st = compact_publish c (compact_unlink c st)"

lemma one_table_begin:
  assumes "one_table cfg st name e r bs"
  shows "compact_begin (st\<lparr>db_sst_seq := s\<rparr>) = Some (\<lparr>cp_files = [sr_info r], cp_seq = s, cp_new = []\<rparr>, st\<lparr>db_sst_seq := s + 1\<rparr>)"
  using assms by (simp add: compact_begin_def one_table_def db_holds_def)

lemma two_events:
  assumes "mset xs = {#x, x#}"
  shows "xs = [x, x]"
proof -
  have "length xs = 2" "set xs = {x}" using arg_cong [OF assms, of size] arg_cong [OF assms, of set_mset] by simp_all
  then have "xs = replicate 2 x" by (intro replicate_eqI) simp_all
  then show ?thesis by (simp add: numeral_2_eq_2)
qed

text \<open>The state after both.\<close>

lemma overlapped_holds:
  assumes st: "one_table cfg st name e r bs"
    and t1: "table_on d2 r1 bs1" "concat bs1 = [e]" "sr_path r1 = make_path (level_dir cfg 1) 1 s1"
    and t2: "table_on d2 r2 bs2" "concat bs2 = [e]" "sr_path r2 = make_path (level_dir cfg 1) 1 s2" and ne: "s1 \<noteq> s2"
    and fr: "\<forall>p. p \<noteq> sr_path r1 \<and> p \<noteq> sr_path r2 \<longrightarrow> map_of d2 p = map_of (db_tables st) p" and ps: "set ps = {sr_path r}"
  defines "ts \<equiv> level1_history [(r1, bs1), (r2, bs2)]"
  shows "db_holds (st\<lparr>db_sst_seq := s, db_tables := remove_files ps (remove_files [sr_path r] d2),
      db_levels := [[], infos_of ts, [], []], db_counters := cn\<rparr>) [(r, bs), (r1, bs1), (r2, bs2)] [] [] [[], ts, [], []]"
proof -
  let ?st = "st\<lparr>db_sst_seq := s, db_tables := remove_files ps (remove_files [sr_path r] d2),
      db_levels := [[], infos_of ts, [], []], db_counters := cn\<rparr>"
  have i: "db_holds st [(r, bs)] [] [] [[(r, bs)], [], [], []]" "sr_path r = flush_path cfg 1" "db_cfg st = cfg"
    using st unfolding one_table_def by blast+
  have h: "history_ok [(r, bs)]" "io_backed [(r, bs)] (db_io st)" "dom (map_of (db_tables st)) = {sr_path r}"
    using i(1) unfolding db_holds_def by auto
  have df: "sr_path r1 \<noteq> sr_path r" "sr_path r2 \<noteq> sr_path r" "sr_path r2 \<noteq> sr_path r1"
    using ne unfolding i(2) t1(3) t2(3) by simp_all
  have h1: "history_ok ([(r, bs)] @ [(r1, bs1)])" by (rule history_add [OF h(1) t1(1)]) (use df in simp)
  have "history_ok (([(r, bs)] @ [(r1, bs1)]) @ [(r2, bs2)])" by (rule history_add [OF h1 t2(1)]) (use df in auto)
  then have hk: "history_ok [(r, bs), (r1, bs1), (r2, bs2)]" by simp
  have io: "io_backed [(r, bs), (r1, bs1), (r2, bs2)] (db_io st)" using io_backed_mono [OF h(2), of "[(r1, bs1), (r2, bs2)]"] by simp
  have set: "set ts = {(r1, bs1), (r2, bs2)}" by (simp add: ts_def)
  have tab: "map_of (db_tables ?st) p = (if p = sr_path r then None else map_of d2 p)" for p using ps by simp
  have on: "tables_on (db_tables ?st) ts"
    unfolding tables_on_def set using table_on_frame [OF t1(1), of "db_tables ?st"] table_on_frame [OF t2(1), of "db_tables ?st"] df tab by auto
  have "mset (paths_of ts) = mset [sr_path r1, sr_path r2]" by (simp add: ts_def)
  then have "distinct (paths_of ts) \<longleftrightarrow> distinct [sr_path r1, sr_path r2]" by (rule mset_eq_imp_distinct_iff)
  then have ds: "distinct (paths_of ts)" using df by simp
  have dom: "dom (map_of (db_tables ?st)) = set (paths_of ts)"
  proof (rule set_eqI)
    fix p
    have n: "map_of (db_tables st) p = None" if "p \<noteq> sr_path r" using that h(3) by (auto simp: domIff)
    have "map_of d2 (sr_path r1) \<noteq> None" "map_of d2 (sr_path r2) \<noteq> None" using t1(1) t2(1) by (simp_all add: table_on_def)
    then show "p \<in> dom (map_of (db_tables ?st)) \<longleftrightarrow> p \<in> set (paths_of ts)"
      unfolding domIff tab set_map set using df n fr by auto
  qed
  have pl: "placed (db_cfg ?st) [[], ts, [], []]"
    unfolding placed_def using t1(3) t2(3) i(3) by (auto simp: set)
  show ?thesis
    using i(1) hk io on ds dom pl set by (simp add: db_holds_def)
qed

lemma overlap_run:
  assumes os: "os_good os" and nf: "\<forall>n. bloom_wf (nf n)" and st: "one_table cfg st name e r bs"
    and one: "one_output (sstable_target_bytes cfg) 1"
  shows "\<exists>c1 st1 c2 st2 c1' st3 c2' st4 h ts. compact_begin st = Some (c1, st1) \<and> compact_begin st1 = Some (c2, st2) \<and>
    compact_merge os nf c1 st2 = (Inr c1', st3) \<and> compact_merge os nf c2 st3 = (Inr c2', st4) \<and>
    db_holds (compact_finish c2' (compact_finish c1' st4)) h [] [] [[], ts, [], []] \<and>
    concat (events_of ts) = [e, e] \<and> db_symbols (compact_finish c2' (compact_finish c1' st4)) = db_symbols st \<and>
    db_closed (compact_finish c2' (compact_finish c1' st4)) = db_closed st"
proof -
  have op: "os_progress os" using os by (simp add: os_progress_def)
  have i: "db_holds st [(r, bs)] [] [] [[(r, bs)], [], [], []]" "sr_path r = flush_path cfg 1" "db_cfg st = cfg" "concat bs = [e]"
    using st unfolding one_table_def by blast+
  let ?dir = "level_dir cfg 1" and ?s = "db_sst_seq st" and ?target = "sstable_target_bytes cfg"
  have t: "table_on (db_tables st) r bs" "db_levels st = [[sr_info r], [], [], []]" "si_path (sr_info r) = sr_path r"
    using i(1) by (simp_all add: db_holds_def tables_on_def table_on_def)
  let ?c1 = "\<lparr>cp_files = [sr_info r], cp_seq = ?s, cp_new = []\<rparr>" and ?c2 = "\<lparr>cp_files = [sr_info r], cp_seq = ?s + 1, cp_new = []\<rparr>"
  let ?st1 = "st\<lparr>db_sst_seq := ?s + 1\<rparr>" and ?st2 = "st\<lparr>db_sst_seq := ?s + 1 + 1\<rparr>"
  have b: "compact_begin st = Some (?c1, ?st1)" "compact_begin ?st1 = Some (?c2, ?st2)"
    using one_table_begin [OF st, of ?s] one_table_begin [OF st, of "?s + 1"] by simp_all
  obtain r1 bs1 cs1 d1 where m1: "compaction_run os nf [sr_info r] ?dir 1 ?s ?target (db_tables st) = (Inr ([sr_info r1], cs1), d1)"
      "table_on d1 r1 bs1" "concat bs1 = [e]" "sr_path r1 = make_path ?dir 1 ?s" "\<forall>p. p \<noteq> sr_path r1 \<longrightarrow> map_of d1 p = map_of (db_tables st) p"
    using merge_one [OF op nf t(1) i(4) one, of ?dir ?s] by blast
  have t1: "table_on d1 r bs" by (rule table_on_frame [OF t(1)]) (use m1(4,5) i(2) in simp)
  obtain r2 bs2 cs2 d2 where m2: "compaction_run os nf [sr_info r] ?dir 1 (?s + 1) ?target d1 = (Inr ([sr_info r2], cs2), d2)"
      "table_on d2 r2 bs2" "concat bs2 = [e]" "sr_path r2 = make_path ?dir 1 (?s + 1)" "\<forall>p. p \<noteq> sr_path r2 \<longrightarrow> map_of d2 p = map_of d1 p"
    using merge_one [OF op nf t1 i(4) one, of ?dir "?s + 1"] by blast
  have ne: "?s \<noteq> ?s + 1" by simp
  have t2: "table_on d2 r1 bs1" by (rule table_on_frame [OF m1(2)]) (use m1(4) m2(4,5) in simp)
  let ?c1' = "?c1\<lparr>cp_new := [sr_info r1]\<rparr>" and ?c2' = "?c2\<lparr>cp_new := [sr_info r2]\<rparr>"
  let ?st3 = "?st2\<lparr>db_tables := d1\<rparr>" and ?st4 = "?st2\<lparr>db_tables := d2\<rparr>"
  have g: "compact_merge os nf ?c1 ?st2 = (Inr ?c1', ?st3)" "compact_merge os nf ?c2 ?st3 = (Inr ?c2', ?st4)"
    using m1(1) m2(1) by (simp_all add: compact_merge_def i(3))
  let ?ts = "level1_history [(r1, bs1), (r2, bs2)]"
  have fr: "\<forall>p. p \<noteq> sr_path r1 \<and> p \<noteq> sr_path r2 \<longrightarrow> map_of d2 p = map_of (db_tables st) p" using m1(5) m2(5) by simp
  have "db_levels (compact_finish ?c2' (compact_finish ?c1' ?st4)) = [[], infos_of ?ts, [], []]"
    unfolding infos_level1_history by (simp add: compact_finish_def compact_unlink_def compact_publish_def t(2))
  then have f: "compact_finish ?c2' (compact_finish ?c1' ?st4) = st\<lparr>db_sst_seq := ?s + 1 + 1,
      db_tables := remove_files [sr_path r] (remove_files [sr_path r] d2), db_levels := [[], infos_of ?ts, [], []],
      db_counters := db_counters (compact_finish ?c2' (compact_finish ?c1' ?st4))\<rparr>"
    by (simp add: compact_finish_def compact_unlink_def compact_publish_def t(3))
  have ho: "db_holds (compact_finish ?c2' (compact_finish ?c1' ?st4)) [(r, bs), (r1, bs1), (r2, bs2)] [] [] [[], ?ts, [], []]"
    by (subst f) (rule overlapped_holds [OF st t2 m1(3,4) m2(2-4) ne fr], simp)
  have "mset (concat (events_of ?ts)) = {#e, e#}" unfolding mset_events_of by (simp add: m1(3) m2(3))
  then have ev: "concat (events_of ?ts) = [e, e]" by (rule two_events)
  have "db_symbols (compact_finish ?c2' (compact_finish ?c1' ?st4)) = db_symbols st"
      "db_closed (compact_finish ?c2' (compact_finish ?c1' ?st4)) = db_closed st" by (subst f, simp)+
  then show ?thesis using b g ho ev by blast
qed

section \<open>Between the removal of the files and the change of the levels\<close>

text \<open>A query skips a table whose file is gone.\<close>

lemma query_gone:
  assumes st: "one_table cfg st (rq_symbol req) e r bs" and d: "map_of d (sr_path r) = None"
  shows "\<exists>q st'. db_query os req (st\<lparr>db_sst_seq := s, db_tables := d\<rparr>) = Some (Inr q, st') \<and> qr_rows q = []"
proof -
  have i: "db_holds st [(r, bs)] [] [] [[(r, bs)], [], [], []]" "\<not> db_closed st"
      "symtab_lookup (rq_symbol req) (db_symbols st) = Some (symbol_id e)"
    using st unfolding one_table_def by blast+
  obtain m where m: "db_active st = Some m" "memtable_rel m []" using i(1) unfolding db_holds_def by blast
  have t: "db_imm st = []" "db_levels st = [[sr_info r], [], [], []]" "si_path (sr_info r) = sr_path r"
    using i(1) by (simp_all add: db_holds_def tables_on_def table_on_def)
  let ?lim = "query_limit req" and ?lo = "query_lo req (symbol_id e)" and ?hi = "query_hi req (symbol_id e)"
  let ?acc0 = "\<lparr>qa_rows = [], qa_rows_scanned = 0, qa_rows_returned = 0, qa_done = False\<rparr>"
  let ?cb = "filter_and_collect (rq_event_type req) ?lim"
  have mems: "list_all2 memtable_rel [m] [[]]" using m(2) by simp
  obtain acc1 where a1: "query_memtables [m] ?lo ?hi ?cb ?acc0 = Some acc1" "qa_rows acc1 = []"
    using query_memtables_spec [OF mems acc_ok_start [OF query_limit_pos], of ?lo ?hi "rq_event_type req" req] by auto
  have "sst_reader_new os (sr_path r) d = Inl (Runtime_error (''cannot open SSTable: '' @ sr_path r))"
    by (simp add: sst_reader_new_def d)
  then have "\<exists>qs' io'. query_files os d [sr_info r] ?lo ?hi ?cb (acc1, qs, db_io st) = (acc1, qs', io')" for qs
    by (simp add: t(3) Let_def)
  then obtain qs' io' where q: "query_files os d [sr_info r] ?lo ?hi ?cb
      (acc1, \<lparr>qs_files_considered = 0, qs_files_skipped = 0, qs_blocks_read = 0\<rparr>, db_io st) = (acc1, qs', io')" by blast
  show ?thesis
    using i(2,3) m(1) t(1,2) a1 q
    by (simp add: db_query_def Let_def query_lo_def query_hi_def del: query_memtables.simps query_files.simps)
qed

lemma compact_window:
  assumes os: "os_good os" and nf: "\<forall>n. bloom_wf (nf n)" and st: "one_table cfg st (rq_symbol req) e r bs"
    and one: "one_output (sstable_target_bytes cfg) 1" and m: "selects req (symbol_id e) e"
  shows "\<exists>c st1 c' st2 q st3 q' st4. compact_begin st = Some (c, st1) \<and> compact_merge os nf c st1 = (Inr c', st2) \<and>
    db_query os req (compact_unlink c' st2) = Some (Inr q, st3) \<and> qr_rows q = [] \<and>
    db_query os req (compact_publish c' (compact_unlink c' st2)) = Some (Inr q', st4) \<and> qr_rows q' = [e]"
proof -
  have op: "os_progress os" using os by (simp add: os_progress_def)
  have i: "db_holds st [(r, bs)] [] [] [[(r, bs)], [], [], []]" "sr_path r = flush_path cfg 1" "db_cfg st = cfg" "concat bs = [e]"
      "\<not> db_closed st" "symtab_lookup (rq_symbol req) (db_symbols st) = Some (symbol_id e)"
    using st unfolding one_table_def by blast+
  let ?dir = "level_dir cfg 1" and ?s = "db_sst_seq st" and ?target = "sstable_target_bytes cfg"
  let ?levs = "[[(r, bs)], [], [], []]"
  have t: "table_on (db_tables st) r bs" "db_levels st = [[sr_info r], [], [], []]" "si_path (sr_info r) = sr_path r"
    using i(1) by (simp_all add: db_holds_def tables_on_def table_on_def)
  let ?c = "\<lparr>cp_files = [sr_info r], cp_seq = ?s, cp_new = []\<rparr>" and ?st1 = "st\<lparr>db_sst_seq := ?s + 1\<rparr>"
  have b: "compact_begin st = Some (?c, ?st1)" using one_table_begin [OF st, of ?s] by simp
  obtain r1 bs1 cs d where g: "compaction_run os nf [sr_info r] ?dir 1 ?s ?target (db_tables st) = (Inr ([sr_info r1], cs), d)"
      "table_on d r1 bs1" "concat bs1 = [e]" "sr_path r1 = make_path ?dir 1 ?s" "\<forall>p. p \<noteq> sr_path r1 \<longrightarrow> map_of d p = map_of (db_tables st) p"
    using merge_one [OF op nf t(1) i(4) one, of ?dir ?s] by blast
  let ?c' = "?c\<lparr>cp_new := [sr_info r1]\<rparr>" and ?st2 = "?st1\<lparr>db_tables := d\<rparr>"
  have mg: "compact_merge os nf ?c ?st1 = (Inr ?c', ?st2)" using g(1) by (simp add: compact_merge_def i(3))
  have u: "compact_unlink ?c' ?st2 = st\<lparr>db_sst_seq := ?s + 1, db_tables := remove_files [sr_path r] d\<rparr>"
    by (simp add: compact_unlink_def t(3))
  obtain q st3 where q: "db_query os req (compact_unlink ?c' ?st2) = Some (Inr q, st3)" "qr_rows q = []"
    using query_gone [OF st, of "remove_files [sr_path r] d" os "?s + 1"] unfolding u by auto
  let ?cn = "(db_counters st)\<lparr>compaction_count := compaction_count (db_counters st) + 1\<rparr>"
  have f: "compact_publish ?c' (compact_unlink ?c' ?st2) = st\<lparr>db_sst_seq := ?s + 1, db_tables := remove_files (paths_of (hd ?levs)) d,
      db_levels := map infos_of (compact_history ?levs [(r1, bs1)]), db_counters := ?cn\<rparr>"
    unfolding u by (simp add: compact_publish_def compact_history_def t infos_level1_history)
  have fresh: "sr_path r1 \<notin> set (paths_of [(r, bs)])" using g(4) i(2) by simp
  have pl: "sr_path r1 \<in> range (make_path (level_dir (db_cfg st) 1) 1)" using g(4) i(3) by simp
  have ho: "db_holds (compact_publish ?c' (compact_unlink ?c' ?st2)) ([(r, bs)] @ [(r1, bs1)]) [] [] (compact_history ?levs [(r1, bs1)])"
    by (subst f) (rule compact_holds [OF i(1) fresh g(2,5) pl])
  have keep: "\<not> db_closed (compact_publish ?c' (compact_unlink ?c' ?st2))"
      "symtab_lookup (rq_symbol req) (db_symbols (compact_publish ?c' (compact_unlink ?c' ?st2))) = Some (symbol_id e)"
    using i(5,6) by (subst f, simp)+
  have "concat (sources [] [] (compact_history ?levs [(r1, bs1)])) = [e]"
    by (simp add: sources_def compact_history_def level1_history_def g(3))
  then obtain q' st4 where "db_query os req (compact_publish ?c' (compact_unlink ?c' ?st2)) = Some (Inr q', st4)" "qr_rows q' = [e]"
    using query_selects [OF os ho keep] m query_limit_pos [of req] by auto
  then show ?thesis using b mg q by blast
qed

section \<open>Properties\<close>

text \<open>C9: Compactions of level 0 do not exclude each other: when a second one, of a caller or of the
  background thread, takes its snapshot before the first has changed the levels, both write the same events
  to level 1, and from then on a query returns an event twice that was appended once.\<close>

theorem overlapping_compactions_repeat:
  assumes "os_good os" and "\<forall>n. bloom_wf (new_filter n)" and "block_target_bytes cfg < 2 ^ 32"
    and "length (rq_symbol req) < 2 ^ 16" and "event_type_wf (aa_event_type a)" and "one_output (sstable_target_bytes cfg) 1"
    and "matches req (rq_symbol req, append_event a 0 1)" and "2 \<le> query_limit req"
  shows "\<exists>st0 r1 st1 st2 c1 st3 c2 st4 c1' st5 c2' st6 q st7. db_open os rng cfg empty_disk = Some (Inr st0) \<and>
    db_append os rng (rq_symbol req) a st0 = Some (Inr r1, st1) \<and> flush_now os new_filter st1 = Some (Inr (), st2) \<and>
    compact_begin st2 = Some (c1, st3) \<and> compact_begin st3 = Some (c2, st4) \<and>
    compact_merge os new_filter c1 st4 = (Inr c1', st5) \<and> compact_merge os new_filter c2 st5 = (Inr c2', st6) \<and>
    db_query os req (compact_finish c2' (compact_finish c1' st6)) = Some (Inr q, st7) \<and>
    map erase (qr_rows q) = [append_event a 0 1, append_event a 0 1]"
proof -
  obtain st0 r1 st1 st2 e r bs where p: "db_open os rng cfg empty_disk = Some (Inr st0)"
      "db_append os rng (rq_symbol req) a st0 = Some (Inr r1, st1)" "flush_now os new_filter st1 = Some (Inr (), st2)"
      "one_table cfg st2 (rq_symbol req) e r bs" "e = append_event a (symbol_id e) 1"
    using append_then_flush [OF assms(1-5), of rng] by (elim exE conjE) (rule that, assumption+)
  obtain c1 st3 c2 st4 c1' st5 c2' st6 h ts where o: "compact_begin st2 = Some (c1, st3)" "compact_begin st3 = Some (c2, st4)"
      "compact_merge os new_filter c1 st4 = (Inr c1', st5)" "compact_merge os new_filter c2 st5 = (Inr c2', st6)"
      "db_holds (compact_finish c2' (compact_finish c1' st6)) h [] [] [[], ts, [], []]" "concat (events_of ts) = [e, e]"
      "db_symbols (compact_finish c2' (compact_finish c1' st6)) = db_symbols st2"
      "db_closed (compact_finish c2' (compact_finish c1' st6)) = db_closed st2"
    using overlap_run [OF assms(1,2) p(4) assms(6)] by (elim exE conjE) (rule that, assumption+)
  have i: "\<not> db_closed (compact_finish c2' (compact_finish c1' st6))"
      "symtab_lookup (rq_symbol req) (db_symbols (compact_finish c2' (compact_finish c1' st6))) = Some (symbol_id e)"
    using p(4) o(7,8) by (simp_all add: one_table_def)
  obtain q io where q: "db_query os req (compact_finish c2' (compact_finish c1' st6)) = Some (Inr q, io)"
      "qr_rows q = take (query_limit req) (filter (selects req (symbol_id e)) (concat (sources [] [] [[], ts, [], []])))"
    using query_selects [OF assms(1) o(5) i] by blast
  have er: "erase e = append_event a 0 1" by (subst p(5)) (simp add: erase_def append_event_def)
  then have s: "selects req (symbol_id e) e" using assms(7) matches_selects [of req e] by simp
  have "concat (sources [] [] [[], ts, [], []]) = [e, e]" using o(6) by (simp add: sources_def)
  then have "qr_rows q = [e, e]" using q(2) s assms(8) by (simp add: take_Cons' split: nat.split)
  then have m: "map erase (qr_rows q) = [append_event a 0 1, append_event a 0 1]" using er by simp
  show ?thesis
    by (intro exI conjI, rule p(1), rule p(2), rule p(3), rule o(1), rule o(2), rule o(3), rule o(4), rule q(1), rule m)
qed

lemma overlapping_compactions_repeat_witness:
  "\<exists>st0 r1 st1 st2 c1 st3 c2 st4 c1' st5 c2' st6 q st7. db_open os_ok (\<lambda>_. 1) (sample_config True) empty_disk = Some (Inr st0) \<and>
    db_append os_ok (\<lambda>_. 1) (rq_symbol sample_request) (sample_args 10) st0 = Some (Inr r1, st1) \<and>
    flush_now os_ok sample_filter st1 = Some (Inr (), st2) \<and>
    compact_begin st2 = Some (c1, st3) \<and> compact_begin st3 = Some (c2, st4) \<and>
    compact_merge os_ok sample_filter c1 st4 = (Inr c1', st5) \<and> compact_merge os_ok sample_filter c2 st5 = (Inr c2', st6) \<and>
    db_query os_ok sample_request (compact_finish c2' (compact_finish c1' st6)) = Some (Inr q, st7) \<and>
    map erase (qr_rows q) = [append_event (sample_args 10) 0 1, append_event (sample_args 10) 0 1]"
  by (rule overlapping_compactions_repeat)
    (simp_all add: os_good_def sample_filter_wf sample_config_def sample_args_def sample_request_def matches_def
      append_event_def wanted_def query_limit_def one_output_def event_kEncodedSize_def)

text \<open>C10: A compaction removes its input files before it enters its outputs into the levels: a query in
  between finds neither, so that an event that was flushed, and that nobody removed, is not returned, and is
  back when the compaction is done.\<close>

theorem query_misses_compaction:
  assumes "os_good os" and "\<forall>n. bloom_wf (new_filter n)" and "block_target_bytes cfg < 2 ^ 32"
    and "length (rq_symbol req) < 2 ^ 16" and "event_type_wf (aa_event_type a)" and "one_output (sstable_target_bytes cfg) 1"
    and "matches req (rq_symbol req, append_event a 0 1)"
  shows "\<exists>st0 r1 st1 st2 c st3 c' st4 q0 sq0 q1 sq1 q2 sq2. db_open os rng cfg empty_disk = Some (Inr st0) \<and>
    db_append os rng (rq_symbol req) a st0 = Some (Inr r1, st1) \<and> flush_now os new_filter st1 = Some (Inr (), st2) \<and>
    db_query os req st2 = Some (Inr q0, sq0) \<and> map erase (qr_rows q0) = [append_event a 0 1] \<and>
    compact_begin st2 = Some (c, st3) \<and> compact_merge os new_filter c st3 = (Inr c', st4) \<and>
    db_query os req (compact_unlink c' st4) = Some (Inr q1, sq1) \<and> qr_rows q1 = [] \<and>
    db_query os req (compact_publish c' (compact_unlink c' st4)) = Some (Inr q2, sq2) \<and> map erase (qr_rows q2) = [append_event a 0 1]"
proof -
  obtain st0 r1 st1 st2 e r bs where p: "db_open os rng cfg empty_disk = Some (Inr st0)"
      "db_append os rng (rq_symbol req) a st0 = Some (Inr r1, st1)" "flush_now os new_filter st1 = Some (Inr (), st2)"
      "one_table cfg st2 (rq_symbol req) e r bs" "e = append_event a (symbol_id e) 1"
    using append_then_flush [OF assms(1-5), of rng] by (elim exE conjE) (rule that, assumption+)
  have er: "erase e = append_event a 0 1" by (subst p(5)) (simp add: erase_def append_event_def)
  then have s: "selects req (symbol_id e) e" using assms(7) matches_selects [of req e] by simp
  obtain q0 sq0 where q0: "db_query os req st2 = Some (Inr q0, sq0)" "qr_rows q0 = [e]"
    using one_table_query [OF assms(1) p(4) s] by blast
  obtain c st3 c' st4 q1 sq1 q2 sq2 where w: "compact_begin st2 = Some (c, st3)" "compact_merge os new_filter c st3 = (Inr c', st4)"
      "db_query os req (compact_unlink c' st4) = Some (Inr q1, sq1)" "qr_rows q1 = []"
      "db_query os req (compact_publish c' (compact_unlink c' st4)) = Some (Inr q2, sq2)" "qr_rows q2 = [e]"
    using compact_window [OF assms(1,2) p(4) assms(6) s] by (elim exE conjE) (rule that, assumption+)
  have er: "map erase (qr_rows q0) = [append_event a 0 1]" "map erase (qr_rows q2) = [append_event a 0 1]"
    using q0(2) w(6) er by simp_all
  show ?thesis
    by (intro exI conjI, rule p(1), rule p(2), rule p(3), rule q0(1), rule er(1), rule w(1), rule w(2), rule w(3), rule w(4),
      rule w(5), rule er(2))
qed

lemma query_misses_compaction_witness:
  "\<exists>st0 r1 st1 st2 c st3 c' st4 q0 sq0 q1 sq1 q2 sq2. db_open os_ok (\<lambda>_. 1) (sample_config True) empty_disk = Some (Inr st0) \<and>
    db_append os_ok (\<lambda>_. 1) (rq_symbol sample_request) (sample_args 10) st0 = Some (Inr r1, st1) \<and>
    flush_now os_ok sample_filter st1 = Some (Inr (), st2) \<and>
    db_query os_ok sample_request st2 = Some (Inr q0, sq0) \<and> map erase (qr_rows q0) = [append_event (sample_args 10) 0 1] \<and>
    compact_begin st2 = Some (c, st3) \<and> compact_merge os_ok sample_filter c st3 = (Inr c', st4) \<and>
    db_query os_ok sample_request (compact_unlink c' st4) = Some (Inr q1, sq1) \<and> qr_rows q1 = [] \<and>
    db_query os_ok sample_request (compact_publish c' (compact_unlink c' st4)) = Some (Inr q2, sq2) \<and>
    map erase (qr_rows q2) = [append_event (sample_args 10) 0 1]"
  by (rule query_misses_compaction)
    (simp_all add: os_good_def sample_filter_wf sample_config_def sample_args_def sample_request_def matches_def
      append_event_def wanted_def one_output_def event_kEncodedSize_def)

end
