(* ===== verification/Memory.thy ===== *)
theory Memory
  imports MemTable
begin

text \<open>
  What a memtable costs (storage/memtable.cpp, storage/skiplist.hpp, storage/arena.hpp): the
  memory that \<^verbatim>\<open>should_flush\<close> compares with the threshold grows by whole blocks of the arena, and
  every insertion takes one value and at most one node out of them.
\<close>

section \<open>How full the blocks are\<close>

text \<open>
  The arena has handed out \<open>R\<close> bytes in pieces of at most 136. Every block but the last is full
  up to less than such a piece.
\<close>

definition arena_fill :: "nat \<Rightarrow> arena \<Rightarrow> bool" where
  "arena_fill R a \<longleftrightarrow>
     (\<exists>full. a_used a = 4096 * (full + 1) \<and> a_remaining a \<le> 4096 \<and>
        3961 * full + (4096 - a_remaining a) \<le> R \<and> R \<le> 4096 * full + (4096 - a_remaining a))"

lemma arena_fill_first: "0 < n \<Longrightarrow> n \<le> 4096 \<Longrightarrow> arena_fill n (snd (allocate n arena_new))"
  by (auto simp: arena_fill_def allocate_def slow_alloc_def Let_def arena_new_def kBlockSize_def intro: exI [of _ 0])

lemma arena_fill_allocate:
  assumes "arena_fill R a" and "n \<le> 136"
  shows "arena_fill (R + n) (snd (allocate n a))" and "memory_used (snd (allocate n a)) = memory_used a + (if n \<le> a_remaining a then 0 else 4096)"
proof -
  obtain full where f: "a_used a = 4096 * (full + 1)" "a_remaining a \<le> 4096"
      "3961 * full + (4096 - a_remaining a) \<le> R" "R \<le> 4096 * full + (4096 - a_remaining a)"
    using assms(1) unfolding arena_fill_def by blast
  show "memory_used (snd (allocate n a)) = memory_used a + (if n \<le> a_remaining a then 0 else 4096)"
    using assms(2) by (simp add: memory_used_def allocate_def slow_alloc_def Let_def kBlockSize_def)
  show "arena_fill (R + n) (snd (allocate n a))"
  proof (cases "n \<le> a_remaining a")
    case True
    then have "a_used (snd (allocate n a)) = 4096 * (full + 1) \<and> a_remaining (snd (allocate n a)) \<le> 4096 \<and>
        3961 * full + (4096 - a_remaining (snd (allocate n a))) \<le> R + n \<and>
        R + n \<le> 4096 * full + (4096 - a_remaining (snd (allocate n a)))"
      using f by (simp add: allocate_def) arith
    then show ?thesis unfolding arena_fill_def by blast
  next
    case False
    then have "a_used (snd (allocate n a)) = 4096 * ((full + 1) + 1) \<and> a_remaining (snd (allocate n a)) \<le> 4096 \<and>
        3961 * (full + 1) + (4096 - a_remaining (snd (allocate n a))) \<le> R + n \<and>
        R + n \<le> 4096 * (full + 1) + (4096 - a_remaining (snd (allocate n a)))"
      using f assms(2) by (simp add: allocate_def slow_alloc_def Let_def kBlockSize_def) arith
    then show ?thesis unfolding arena_fill_def by blast
  qed
qed

lemma align_up_event: "unat (align_up 80) = 80"
  using align_up_eq [of 80] by simp

lemma align_up_node:
  assumes "d \<le> 11"
  shows "unat (align_up (word_of_nat (48 + d * 8))) = 48 + d * 8"
proof -
  let ?n = "48 + d * 8"
  have u: "unat (word_of_nat ?n :: u64) = ?n" using assms by (simp only: unat_of_nat take_bit_eq_mod) simp
  have "unat (align_up (word_of_nat ?n)) = 8 * ((?n + 7) div 8)"
    using align_up_eq [of "word_of_nat ?n"] assms unfolding u by simp
  also have "\<dots> = ?n" by presburger
  finally show ?thesis .
qed

text \<open>An insertion takes one value, and a node of some height when the key is new.\<close>

lemma sl_insert_arena:
  assumes "sl_insert rng k v sl = Some sl'"
  shows "sl_arena sl' = snd (allocate 80 (sl_arena sl)) \<or>
    (\<exists>n. 48 \<le> n \<and> n \<le> 136 \<and> sl_arena sl' = snd (allocate n (snd (allocate 80 (sl_arena sl)))))"
proof -
  have v: "allocate_aligned sizeof_Event a = allocate 80 a" for a
    by (simp add: allocate_aligned_def sizeof_Event_def align_up_event)
  obtain h pos where h: "random_height rng (sl_rng sl) = (h, pos)" by fastforce
  have "1 \<le> h" "h \<le> 12" using random_height_bounds [of 1 rng "sl_rng sl"] h by (simp_all add: random_height_def kMaxHeight_def)
  then obtain d where d: "h = Suc d" "d \<le> 11" by (cases h) simp_all
  have n: "allocate_aligned (48 + d * 8) a = allocate (48 + d * 8) a" for a
    by (simp only: allocate_aligned_def align_up_node [OF d(2)])
  have "sl_arena sl' = snd (allocate 80 (sl_arena sl)) \<or> sl_arena sl' = snd (allocate (48 + d * 8) (snd (allocate 80 (sl_arena sl))))"
    using assms by (auto simp: sl_insert_def bind_eq_Some_conv Let_def alloc_value_def new_node_def h v d(1)
      sizeof_Node_def sizeof_ptr_def n split: if_splits)
  moreover have "48 \<le> 48 + d * 8" "48 + d * 8 \<le> 136" using d(2) by simp_all
  ultimately show ?thesis by blast
qed

lemma memtable_insert_arena:
  "memtable_insert rng e m = Some m' \<Longrightarrow>
     (\<exists>sl. sl_insert rng (event_key e) e (mt_sl m) = Some sl \<and> sl_arena (mt_sl m') = sl_arena sl) \<and> flush_threshold m' = flush_threshold m"
  by (auto simp: memtable_insert_def bind_eq_Some_conv Let_def split: if_splits)

section \<open>The memory of a memtable\<close>

text \<open>A memtable into which \<open>n\<close> events were inserted; the head node of the skip list takes 136 bytes.\<close>

definition memtable_fill :: "nat \<Rightarrow> memtable \<Rightarrow> bool" where
  "memtable_fill n m \<longleftrightarrow> (\<exists>R. arena_fill R (sl_arena (mt_sl m)) \<and> 136 + 80 * n \<le> R \<and> R \<le> 136 + 216 * n)"

lemma memtable_fill_new: "memtable_fill 0 (memtable_new t)"
proof -
  have "sl_arena (mt_sl (memtable_new t)) = snd (allocate 136 arena_new)"
    using align_up_node [of 11]
    by (simp add: memtable_new_def skiplist_new_def new_node_def Let_def kMaxHeight_def sizeof_Node_def sizeof_ptr_def allocate_aligned_def)
  then show ?thesis using arena_fill_first [of 136] by (auto simp: memtable_fill_def)
qed

lemma memory_new: "memtable_size_bytes (memtable_new t) = 4096"
  using align_up_node [of 11]
  by (simp add: memtable_size_bytes_def memory_used_def memtable_new_def skiplist_new_def new_node_def Let_def kMaxHeight_def
      sizeof_Node_def sizeof_ptr_def allocate_aligned_def allocate_def slow_alloc_def arena_new_def kBlockSize_def)

lemma memtable_fill_insert:
  assumes f: "memtable_fill n m" and i: "memtable_insert rng e m = Some m'"
  shows "memtable_fill (n + 1) m'" and "memtable_size_bytes m \<le> memtable_size_bytes m'"
    and "memtable_size_bytes m' \<le> memtable_size_bytes m + 4096"
proof -
  let ?a = "sl_arena (mt_sl m)" and ?a' = "sl_arena (mt_sl m')"
  let ?a1 = "snd (allocate 80 ?a)"
  obtain R where R: "arena_fill R ?a" "136 + 80 * n \<le> R" "R \<le> 136 + 216 * n" using f unfolding memtable_fill_def by blast
  note v = arena_fill_allocate [OF R(1), of 80, simplified]
  have a': "?a' = ?a1 \<or> (\<exists>j. 48 \<le> j \<and> j \<le> 136 \<and> ?a' = snd (allocate j ?a1))"
    using memtable_insert_arena [OF i] sl_insert_arena by metis
  have r: "80 \<le> a_remaining ?a \<or> 4016 \<le> a_remaining ?a1"
    by (simp add: allocate_def slow_alloc_def Let_def kBlockSize_def)
  have "\<exists>R'. arena_fill R' ?a' \<and> 136 + 80 * (n + 1) \<le> R' \<and> R' \<le> 136 + 216 * (n + 1) \<and>
      memory_used ?a \<le> memory_used ?a' \<and> memory_used ?a' \<le> memory_used ?a + 4096"
    using a'
  proof (elim disjE exE conjE)
    assume "?a' = ?a1"
    then show ?thesis using v R(2,3) by (intro exI [of _ "R + 80"]) simp
  next
    fix j assume j: "48 \<le> j" "j \<le> 136" "?a' = snd (allocate j ?a1)"
    show ?thesis using arena_fill_allocate [OF v(1) j(2)] v(2) r R(2,3) j(1,2)
      unfolding j(3) by (intro exI [of _ "R + 80 + j"]) auto
  qed
  then show "memtable_fill (n + 1) m'" "memtable_size_bytes m \<le> memtable_size_bytes m'"
      "memtable_size_bytes m' \<le> memtable_size_bytes m + 4096"
    by (auto simp: memtable_fill_def memtable_size_bytes_def)
qed

lemma memtable_fill_insert_all:
  "memtable_fill n m \<Longrightarrow> memtable_insert_all rng es m = Some m' \<Longrightarrow> memtable_fill (n + length es) m'"
proof (induction es arbitrary: n m)
  case (Cons e es)
  then obtain m1 where m1: "memtable_insert rng e m = Some m1" "memtable_insert_all rng es m1 = Some m'"
    by (auto simp: bind_eq_Some_conv)
  show ?case using Cons.IH [OF memtable_fill_insert(1) [OF Cons.prems(1) m1(1)] m1(2)] by simp
qed simp

lemma memtable_fill_bounds:
  assumes "memtable_fill n m"
  shows "136 + 80 * n \<le> memtable_size_bytes m" and "3961 * memtable_size_bytes m \<le> 4096 * (4097 + 216 * n)"
proof -
  obtain R where R: "136 + 80 * n \<le> R" "R \<le> 136 + 216 * n" "arena_fill R (sl_arena (mt_sl m))"
    using assms unfolding memtable_fill_def by blast
  obtain full c where "memtable_size_bytes m = 4096 * (full + 1)" "3961 * full + c \<le> R" "R \<le> 4096 * full + c" "c \<le> 4096"
    using R(3) diff_le_self unfolding arena_fill_def memtable_size_bytes_def memory_used_def by blast
  note b = this
  show "136 + 80 * n \<le> memtable_size_bytes m" using b R(1) by simp
  show "3961 * memtable_size_bytes m \<le> 4096 * (4097 + 216 * n)" using b R(2) by simp
qed

section \<open>Properties\<close>

text \<open>The memory of a memtable follows the number of insertions from both sides: whatever the events
  and whatever heights the generator draws, \<open>n\<close> insertions use at least \<open>136 + 80 n\<close> bytes, and at most
  223.4 bytes for each and 4237 more. So the memtable asks to be flushed after \<open>t / 80\<close> insertions at the
  latest, and not before the insertions could have filled the threshold \<open>t\<close>.\<close>

theorem memory_follows_count:
  assumes "memtable_insert_all rng es (memtable_new t) = Some m"
  shows "136 + 80 * length es \<le> memtable_size_bytes m \<and> 3961 * memtable_size_bytes m \<le> 4096 * (4097 + 216 * length es) \<and>
    (t \<le> 136 + 80 * length es \<longrightarrow> should_flush m) \<and>
    (4096 * (4097 + 216 * length es) < 3961 * t \<longrightarrow> \<not> should_flush m)"
proof -
  have "memtable_fill (length es) m" using memtable_fill_insert_all [OF memtable_fill_new assms] by simp
  note b = memtable_fill_bounds [OF this]
  obtain m' where "memtable_insert_all rng es (memtable_new t) = Some m'" "flush_threshold m' = flush_threshold (memtable_new t)"
    using memtable_insert_all_spec [OF memtable_rel_new] by blast
  then have "flush_threshold m = t" using assms by (simp add: memtable_new_def)
  then show ?thesis using b by (auto simp: should_flush_def memtable_size_bytes_def)
qed

lemma memory_follows_count_witness:
  "\<exists>m. memtable_insert_all (\<lambda>_. 1) [\<lparr>timestamp_ns = 10, symbol_id = 1, sequence_id = 1, event_type = Trade, price_ticks = 0,
      bid_px_ticks = 0, ask_px_ticks = 0, quantity = 0, bid_qty = 0, ask_qty = 0, order_id = 0\<rparr>] (memtable_new 200) = Some m \<and>
    216 \<le> memtable_size_bytes m \<and> should_flush m"
proof -
  let ?e = "\<lparr>timestamp_ns = 10, symbol_id = 1, sequence_id = 1, event_type = Trade, price_ticks = 0,
      bid_px_ticks = 0, ask_px_ticks = 0, quantity = 0, bid_qty = 0, ask_qty = 0, order_id = 0\<rparr>"
  obtain m where m: "memtable_insert_all (\<lambda>_. 1) [?e] (memtable_new 200) = Some m"
    using memtable_insert_all_spec [OF memtable_rel_new] by blast
  show ?thesis using memory_follows_count [OF m] m by (intro exI [of _ m]) simp
qed

end
