(* ===== verification/DBMemory.thy ===== *)
theory DBMemory
  imports DBRun Memory
begin

text \<open>
  The memory of a database in memtables: how large the active one and each immutable one can
  become in any run, on any machine, and what opening with a log does to it.
\<close>

section \<open>Bounded memtables\<close>

definition active_bounded :: "nat \<Rightarrow> memtable \<Rightarrow> bool" where
  "active_bounded t m \<longleftrightarrow> (\<exists>n. memtable_fill n m) \<and> flush_threshold m = t \<and> memtable_size_bytes m \<le> max t 4096"

definition memory_bounded :: "nat \<Rightarrow> db \<Rightarrow> bool" where
  "memory_bounded t st \<longleftrightarrow> memtable_flush_bytes (db_cfg st) = t \<and>
     (\<forall>m. db_active st = Some m \<longrightarrow> active_bounded t m) \<and>
     (\<forall>m \<in> set (db_imm st). memtable_size_bytes m \<le> max t 4096 + 4096)"

text \<open>An operation that leaves the memtables alone, or takes some away.\<close>

definition memory_kept :: "db \<Rightarrow> db \<Rightarrow> bool" where
  "memory_kept st st' \<longleftrightarrow> db_cfg st' = db_cfg st \<and> db_active st' = db_active st \<and> set (db_imm st') \<subseteq> set (db_imm st)"

lemma memory_kept_bounded: "memory_kept st st' \<Longrightarrow> memory_bounded t st \<Longrightarrow> memory_bounded t st'"
  by (auto simp: memory_kept_def memory_bounded_def)

lemma memory_kept_refl [simp]: "memory_kept st st"
  by (simp add: memory_kept_def)

lemma active_bounded_new: "active_bounded t (memtable_new t)"
  using memtable_fill_new by (auto simp: active_bounded_def memory_new) (simp add: memtable_new_def)

lemma memtable_insert_bounded:
  assumes "active_bounded t m" and "memtable_insert rng e m = Some m'"
  shows "memtable_size_bytes m' \<le> max t 4096 + 4096" and "\<not> should_flush m' \<Longrightarrow> active_bounded t m'"
proof -
  obtain n where n: "memtable_fill n m" "flush_threshold m = t" "memtable_size_bytes m \<le> max t 4096"
    using assms(1) unfolding active_bounded_def by blast
  show "memtable_size_bytes m' \<le> max t 4096 + 4096" using memtable_fill_insert(3) [OF n(1) assms(2)] n(3) by simp
  have t: "flush_threshold m' = t" using memtable_insert_arena [OF assms(2)] n(2) by blast
  assume "\<not> should_flush m'"
  then have "memtable_size_bytes m' < t" by (simp add: should_flush_def memtable_size_bytes_def t)
  then show "active_bounded t m'" using memtable_fill_insert(1) [OF n(1) assms(2)] t by (auto simp: active_bounded_def)
qed

lemma insert_active_bounded:
  assumes "memory_bounded t st" and "insert_active rng e st = Some st'"
  shows "memory_bounded t st'"
proof -
  obtain m m' where m: "db_active st = Some m" "memtable_insert rng e m = Some m'"
      "st' = (if should_flush m' then st\<lparr>db_imm := db_imm st @ [m'], db_active := Some (memtable_new (memtable_flush_bytes (db_cfg st)))\<rparr>
        else st\<lparr>db_active := Some m'\<rparr>)"
    using assms(2) by (auto simp: insert_active_def bind_eq_Some_conv)
  have a: "active_bounded t m" using assms(1) m(1) by (simp add: memory_bounded_def)
  show ?thesis
    using assms(1) active_bounded_new memtable_insert_bounded [OF a m(2)] by (auto simp: m(3) memory_bounded_def)
qed

lemma rotate_active_bounded: "memory_bounded t st \<Longrightarrow> memory_bounded t (rotate_active st)"
  using active_bounded_new by (auto simp: rotate_active_def memory_bounded_def active_bounded_def split: option.split)

lemma do_flush_kept: "do_flush os nf m sq st = Some (r, st') \<Longrightarrow> memory_kept st st' \<and> db_imm st' = db_imm st"
  by (auto simp: do_flush_def memory_kept_def bind_eq_Some_conv split: if_splits prod.splits sum.splits)

lemma drain_imm_kept: "drain_imm os nf ms st = Some (r, st') \<Longrightarrow> set ms \<subseteq> set (db_imm st) \<Longrightarrow> memory_kept st st'"
proof (induction ms arbitrary: st)
  case (Cons m ms)
  let ?st = "st\<lparr>db_imm := ms, db_sst_seq := db_sst_seq st + 1\<rparr>"
  obtain q st1 where q: "do_flush os nf m (db_sst_seq st) ?st = Some (q, st1)"
      "(case q of Inl ex \<Rightarrow> Some (Inl ex, st1) | Inr _ \<Rightarrow> drain_imm os nf ms st1) = Some (r, st')"
    using Cons.prems(1) by (auto simp: bind_eq_Some_conv)
  have k: "memory_kept ?st st1" "db_imm st1 = ms" using do_flush_kept [OF q(1)] by simp_all
  then have "memory_kept st st1" using Cons.prems(2) by (simp add: memory_kept_def)
  moreover have "memory_kept st1 st'" using q(2) Cons.IH [of st1] k(2) by (auto split: sum.splits)
  ultimately show ?case by (auto simp: memory_kept_def)
qed simp

lemma db_query_kept: "db_query os req st = Some (r, st') \<Longrightarrow> memory_kept st st'"
  by (auto simp: db_query_def memory_kept_def Let_def bind_eq_Some_conv case_prod_beta split: if_splits option.splits)

lemma do_compact_kept: "memory_kept st (snd (do_compact_l0 os nf st))"
  by (auto simp: do_compact_l0_def memory_kept_def Let_def split: sum.split prod.split)

lemma log_event_kept: "log_event os e st = (r, st') \<Longrightarrow> memory_kept st st'"
  by (auto simp: log_event_def memory_kept_def split: option.splits prod.splits sum.splits)

text \<open>An append and a removal change the memtables by one insertion, if they get that far.\<close>

lemma written_bounded:
  assumes "memory_bounded t st" and "memory_kept st st1"
    and "st' = st1 \<or> (\<exists>e st2. insert_active rng e st1 = Some st2 \<and> memory_kept st2 st')"
  shows "memory_bounded t st'"
  using assms memory_kept_bounded insert_active_bounded by blast

lemma db_append_bounded:
  assumes "db_append os rng name a st = Some (r, st')" and b: "memory_bounded t st"
  shows "memory_bounded t st'"
proof (cases "db_closed st")
  case True
  then show ?thesis using assms by (simp add: db_append_def)
next
  case False
  obtain i sy where i: "symtab_intern os name (db_symbols st) = (i, sy)" by fastforce
  show ?thesis
  proof (cases i)
    case (Inl ex)
    then show ?thesis using assms False i by (auto simp: db_append_def memory_bounded_def)
  next
    case (Inr sid)
    let ?e = "append_event a sid (db_next_seq st)" and ?st1 = "st\<lparr>db_symbols := sy, db_next_seq := db_next_seq st + 1\<rparr>"
    obtain q st2 where l: "log_event os ?e ?st1 = (q, st2)" by fastforce
    have "memory_kept st ?st1" by (simp add: memory_kept_def)
    then have k: "memory_kept st st2" using log_event_kept [OF l] by (simp add: memory_kept_def)
    have "st' = st2 \<or> (\<exists>e st3. insert_active rng e st2 = Some st3 \<and> memory_kept st3 st')"
      using assms(1) False i Inr l
      by (cases q) (auto simp: db_append_def Let_def bind_eq_Some_conv memory_kept_def intro!: exI [of _ ?e])
    then show ?thesis by (rule written_bounded [OF b k])
  qed
qed

lemma db_remove_bounded:
  assumes "db_remove os rng name ts sq st = Some (r, st')" and b: "memory_bounded t st"
  shows "memory_bounded t st'"
proof (cases "db_closed st")
  case True
  then show ?thesis using assms by (simp add: db_remove_def)
next
  case False
  obtain i sy where i: "symtab_intern os name (db_symbols st) = (i, sy)" by fastforce
  show ?thesis
  proof (cases i)
    case (Inl ex)
    then show ?thesis using assms False i by (auto simp: db_remove_def memory_bounded_def)
  next
    case (Inr sid)
    obtain q st2 where l: "log_event os (tombstone sid ts sq) (st\<lparr>db_symbols := sy\<rparr>) = (q, st2)" by fastforce
    have k: "memory_kept st st2" using log_event_kept [OF l] by (simp add: memory_kept_def)
    have "st' = st2 \<or> (\<exists>e st3. insert_active rng e st2 = Some st3 \<and> memory_kept st3 st')"
      using assms(1) False i Inr l
      by (cases q) (auto simp: db_remove_def Let_def bind_eq_Some_conv intro!: exI [of _ "tombstone sid ts sq"])
    then show ?thesis by (rule written_bounded [OF b k])
  qed
qed

lemma flush_now_bounded:
  "flush_now os nf st = Some (r, st') \<Longrightarrow> memory_bounded t st \<Longrightarrow> memory_bounded t st'"
  unfolding flush_now_def Let_def
  using drain_imm_kept [OF _ subset_refl] memory_kept_bounded rotate_active_bounded by blast

lemma db_exec_bounded:
  assumes "db_exec os rng nf op st = Some (an, st')" and "memory_bounded t st"
  shows "memory_bounded t st'"
proof (cases op)
  case (Op_append name a)
  then show ?thesis using assms db_append_bounded by fastforce
next
  case (Op_remove name ts sq)
  then show ?thesis using assms db_remove_bounded by fastforce
next
  case (Op_query req)
  then show ?thesis using assms db_query_kept memory_kept_bounded by fastforce
next
  case Op_flush
  then show ?thesis using assms flush_now_bounded by fastforce
next
  case Op_compact
  then have "memory_kept st st'" using assms(1) do_compact_kept [of st os nf] by (cases "do_compact_l0 os nf st") auto
  then show ?thesis using assms(2) memory_kept_bounded by blast
next
  case Op_flush_round
  then show ?thesis using assms drain_imm_kept [OF _ subset_refl] memory_kept_bounded by (fastforce simp: flush_round_def)
next
  case Op_compact_round
  then have "memory_kept st st'" using assms(1) do_compact_kept [of st os nf]
    by (cases "do_compact_l0 os nf st") (auto simp: compact_round_def split: if_splits)
  then show ?thesis using assms(2) memory_kept_bounded by blast
qed

lemma db_run_bounded:
  "db_run os rng nf ops st = Some (as, st') \<Longrightarrow> memory_bounded t st \<Longrightarrow> memory_bounded t st'"
proof (induction ops arbitrary: st as)
  case (Cons op ops)
  then obtain an st1 as' where "db_exec os rng nf op st = Some (an, st1)" "db_run os rng nf ops st1 = Some (as', st')"
    by (auto simp: bind_eq_Some_conv)
  then show ?case using Cons.IH Cons.prems(2) db_exec_bounded by blast
qed simp

lemma open_wal_new: "snd (open_wal os cfg None) = []"
  by (auto simp: open_wal_def split: prod.split sum.split)

lemma db_open_new:
  assumes "db_open os rng cfg empty_disk = Some (Inr st)"
  shows "db_active st = Some (memtable_new (memtable_flush_bytes cfg)) \<and> db_imm st = [] \<and> db_cfg st = cfg"
proof -
  obtain q recs where w: "open_wal os cfg None = (q, recs)" by fastforce
  then have "recs = []" using open_wal_new [of os cfg] by simp
  then show ?thesis using assms w by (auto simp: db_open_def empty_disk_def Let_def split: if_splits sum.splits)
qed

lemma db_open_bounded:
  "db_open os rng cfg empty_disk = Some (Inr st) \<Longrightarrow> memory_bounded (memtable_flush_bytes cfg) st"
  using db_open_new active_bounded_new by (fastforce simp: memory_bounded_def)

section \<open>Properties\<close>

text \<open>C17: The memory in memtables is bounded by the configuration: in every run of operations on a new
  database, on any machine and also when operations fail, the active memtable is never larger than
  the threshold (or the one block that an empty memtable takes), and no immutable one is larger
  than that by more than one block.\<close>

theorem memtables_bounded:
  assumes "db_open os rng cfg empty_disk = Some (Inr st0)" and "db_run os rng nf ops st0 = Some (as, st)"
  shows "(\<forall>m \<in> set_option (db_active st). memtable_size_bytes m \<le> max (memtable_flush_bytes cfg) 4096) \<and>
    (\<forall>m \<in> set (db_imm st). memtable_size_bytes m \<le> max (memtable_flush_bytes cfg) 4096 + 4096)"
proof -
  have "memory_bounded (memtable_flush_bytes cfg) st" by (rule db_run_bounded [OF assms(2) db_open_bounded [OF assms(1)]])
  then show ?thesis by (auto simp: memory_bounded_def active_bounded_def)
qed

lemma memtables_bounded_witness:
  "\<exists>st0 as st. db_open os_ok (\<lambda>_. 1) (sample_config True) empty_disk = Some (Inr st0) \<and>
    db_run os_ok (\<lambda>_. 1) sample_filter [Op_append ''AAPL'' (sample_args 10), Op_flush, Op_append ''AAPL'' (sample_args 20)] st0 = Some (as, st) \<and>
    (case db_active st of None \<Rightarrow> False | Some m \<Rightarrow> memtable_size_bytes m \<le> 67108864)"
proof -
  let ?ops = "[Op_append ''AAPL'' (sample_args 10), Op_flush, Op_append ''AAPL'' (sample_args 20)]"
  have os: "os_good os_ok" by (simp add: os_good_def)
  obtain st0 where o: "db_open os_ok (\<lambda>_. 1) (sample_config True) empty_disk = Some (Inr st0)" "run_inv (sample_config True) 0 st0 [] []"
    using db_open_fresh [OF os] unfolding run_inv_def by blast
  have t: "block_target_bytes (sample_config True) < 2 ^ 32" by (simp add: sample_config_def)
  have l: "0 + length ?ops < 2 ^ 32 - 2" "one_output (sstable_target_bytes (sample_config True)) (0 + length ?ops)" "list_all op_ok ?ops"
    by (simp_all add: one_output_def event_kEncodedSize_def sample_config_def sample_args_def)
  obtain as st lg rm where r: "db_run os_ok (\<lambda>_. 1) sample_filter ?ops st0 = Some (as, st)" "run_inv (sample_config True) (0 + length ?ops) st lg rm"
    using run_all [OF os sample_filter_wf t o(2) l, of "\<lambda>_. 1"] by (elim exE conjE) (rule that)
  obtain m where m: "db_active st = Some m" using r(2) unfolding run_inv_def run_at_def db_holds_def by blast
  have "memtable_size_bytes m \<le> 67108864"
    using memtables_bounded [OF o(1) r(1)] by (simp add: m sample_config_def)
  then show ?thesis using o(1) r(1) m by (intro exI [of _ st0] exI [of _ as] exI [of _ st] conjI) (assumption+, simp)
qed

text \<open>Opening with a log replays all of it into one memtable and does not look at the threshold: the
  memory grows with the log, whatever the configuration allows.\<close>

lemma replay_ignores_threshold:
  assumes "wal_enabled cfg" and "open_wal os cfg (dk_wal dk) = (Inr w, recs)" and "db_open os rng cfg dk = Some (Inr st)"
  shows "\<exists>m. db_active st = Some m \<and> 136 + 80 * length recs \<le> memtable_size_bytes m"
proof -
  obtain m where m: "memtable_insert_all rng (map rec_event recs) (memtable_new (memtable_flush_bytes cfg)) = Some m" "db_active st = Some m"
    using assms by (auto simp: db_open_def Let_def bind_eq_Some_conv)
  show ?thesis using memtable_fill_bounds(1) [OF memtable_fill_insert_all [OF memtable_fill_new m(1)]] m(2) by simp
qed

end
