(* ===== verification/DBAppends.thy ===== *)
theory DBAppends
  imports DBClose DBMemory
begin

text \<open>
  Appends in flight: a call of \<^verbatim>\<open>DB::append\<close> (db/db.cpp) is a sequence of critical sections, each
  under a lock of its own, and any number of client threads are between them at once. A call
  checks that the database is open, interns its symbol, fetches a number, writes the log,
  inserts into the active memtable, and reports. Between two of its sections other calls run,
  memtables are rotated and flushed, and queries are answered.
\<close>

section \<open>The critical sections of an append\<close>

text \<open>Where a call stands, with the local variables that are in scope there.\<close>

datatype call_point =
  Checked
| Interned u32
| Numbered event
| Logged event u64
| Inserted event u64
| Returned event append_result
| Threw exn

record call =
  cl_name :: string
  cl_args :: append_args
  cl_at :: call_point

definition call_enter :: "string \<Rightarrow> append_args \<Rightarrow> db \<Rightarrow> call" where
  "call_enter name a st =
     \<lparr>cl_name = name, cl_args = a,
      cl_at = (if db_closed st then Threw (Runtime_error ''DB is closed'') else Checked)\<rparr>"

text \<open>The next section of a call; a null pointer that is followed yields no state.\<close>

definition call_step :: "os \<Rightarrow> (nat \<Rightarrow> u32) \<Rightarrow> call \<Rightarrow> db \<Rightarrow> (call \<times> db) option" where
  "call_step os rng c st =
     (case cl_at c of
        Checked \<Rightarrow>
          (case symtab_intern os (cl_name c) (db_symbols st) of
             (Inl ex, sy) \<Rightarrow> Some (c\<lparr>cl_at := Threw ex\<rparr>, st\<lparr>db_symbols := sy\<rparr>)
           | (Inr sid, sy) \<Rightarrow> Some (c\<lparr>cl_at := Interned sid\<rparr>, st\<lparr>db_symbols := sy\<rparr>))
      | Interned sid \<Rightarrow>
          Some (c\<lparr>cl_at := Numbered (append_event (cl_args c) sid (db_next_seq st))\<rparr>,
                st\<lparr>db_next_seq := db_next_seq st + 1\<rparr>)
      | Numbered e \<Rightarrow>
          (case log_event os e st of
             (Inl ex, st2) \<Rightarrow> Some (c\<lparr>cl_at := Threw ex\<rparr>, st2)
           | (Inr off, st2) \<Rightarrow>
               Some (c\<lparr>cl_at := Logged e off\<rparr>,
                     case db_wal st2 of
                       None \<Rightarrow> st2
                     | Some _ \<Rightarrow> st2\<lparr>db_counters := (db_counters st2)\<lparr>wal_bytes_written :=
                         wal_bytes_written (db_counters st2) + word_of_nat (kWalHeaderSize + event_kEncodedSize)\<rparr>\<rparr>))
      | Logged e off \<Rightarrow> map_option (Pair (c\<lparr>cl_at := Inserted e off\<rparr>)) (insert_active rng e st)
      | Inserted e off \<Rightarrow>
          map_option (\<lambda>m. (c\<lparr>cl_at := Returned e \<lparr>ar_sequence_id = sequence_id e, ar_wal_offset = off\<rparr>\<rparr>,
             st\<lparr>db_counters := (db_counters st)
                \<lparr>events_ingested_total := events_ingested_total (db_counters st) + 1,
                 memtable_bytes := word_of_nat (memtable_size_bytes m),
                 immutable_memtable_count := word_of_nat (length (db_imm st))\<rparr>\<rparr>)) (db_active st)
      | Returned e r \<Rightarrow> None
      | Threw ex \<Rightarrow> None)"

fun call_finished :: "call_point \<Rightarrow> bool" where
  "call_finished (Returned e r) = True"
| "call_finished (Threw ex) = True"
| "call_finished _ = False"

fun call_result :: "call_point \<Rightarrow> exn + append_result" where
  "call_result (Returned e r) = Inr r"
| "call_result (Threw ex) = Inl ex"
| "call_result _ = Inl (Runtime_error ''not finished'')"

text \<open>A call that is run alone.\<close>

primrec call_runs :: "os \<Rightarrow> (nat \<Rightarrow> u32) \<Rightarrow> nat \<Rightarrow> call \<Rightarrow> db \<Rightarrow> (call \<times> db) option" where
  "call_runs os rng 0 c st = Some (c, st)"
| "call_runs os rng (Suc n) c st =
     (if call_finished (cl_at c) then Some (c, st)
      else call_step os rng c st \<bind> (\<lambda>(c', st'). call_runs os rng n c' st'))"

lemma call_runs_finished: "call_finished (cl_at c) \<Longrightarrow> call_runs os rng n c st = Some (c, st)"
  by (cases n) simp_all

lemma append_event_seq [simp]: "sequence_id (append_event a sid sq) = sq"
  by (simp add: append_event_def)

lemma insert_active_counters:
  "insert_active rng e (st\<lparr>db_counters := cn\<rparr>) = map_option (\<lambda>st. st\<lparr>db_counters := cn\<rparr>) (insert_active rng e st)"
  by (auto simp: insert_active_def split: bind_split)

lemma insert_active_frame:
  "insert_active rng e st = Some st' \<Longrightarrow> db_counters st' = db_counters st \<and> db_wal st' = db_wal st \<and> (\<exists>m. db_active st' = Some m)"
  by (auto simp: insert_active_def bind_eq_Some_conv split: if_splits)


section \<open>Calls in flight\<close>

record writers =
  wr_db :: db
  wr_calls :: "call list"

text \<open>
  A step of the system: a client calls, a call goes through its next section, the first section of
  \<^verbatim>\<open>flush_now\<close> rotates the active memtable, everything is flushed, or a query is answered.
\<close>

inductive wr_step ::
  "os \<Rightarrow> (nat \<Rightarrow> u32) \<Rightarrow> (u32 \<Rightarrow> bloom) \<Rightarrow> writers \<Rightarrow> writers \<Rightarrow> bool" for os rng nf where
  entering: "length name < 2 ^ 16 \<Longrightarrow> event_type_wf (aa_event_type a) \<Longrightarrow>
    wr_step os rng nf w (w\<lparr>wr_calls := wr_calls w @ [call_enter name a (wr_db w)]\<rparr>)"
| moving: "i < length (wr_calls w) \<Longrightarrow> call_step os rng (wr_calls w ! i) (wr_db w) = Some (c, st) \<Longrightarrow>
    wr_step os rng nf w \<lparr>wr_db = st, wr_calls = (wr_calls w)[i := c]\<rparr>"
| rotating: "wr_step os rng nf w (w\<lparr>wr_db := rotate_active (wr_db w)\<rparr>)"
| flushing: "flush_now os nf (wr_db w) = Some (r, st) \<Longrightarrow> wr_step os rng nf w (w\<lparr>wr_db := st\<rparr>)"
| querying: "db_query os req (wr_db w) = Some (r, st) \<Longrightarrow> wr_step os rng nf w (w\<lparr>wr_db := st\<rparr>)"

text \<open>The events of the calls that have fetched their number, written the log, and inserted.\<close>

fun numbered_event :: "call_point \<Rightarrow> event option" where
  "numbered_event (Numbered e) = Some e"
| "numbered_event (Logged e off) = Some e"
| "numbered_event (Inserted e off) = Some e"
| "numbered_event (Returned e r) = Some e"
| "numbered_event _ = None"

fun logged_event :: "call_point \<Rightarrow> event option" where
  "logged_event (Logged e off) = Some e"
| "logged_event (Inserted e off) = Some e"
| "logged_event (Returned e r) = Some e"
| "logged_event _ = None"

fun inserted_event :: "call_point \<Rightarrow> event option" where
  "inserted_event (Inserted e off) = Some e"
| "inserted_event (Returned e r) = Some e"
| "inserted_event _ = None"

definition calls_past :: "(call_point \<Rightarrow> event option) \<Rightarrow> call list \<Rightarrow> (string \<times> event) list" where
  "calls_past sel cs = concat (map (\<lambda>c. case sel (cl_at c) of None \<Rightarrow> [] | Some e \<Rightarrow> [(cl_name c, e)]) cs)"

text \<open>The log of a client that knows of these events and removed nothing.\<close>

definition appended_log :: "(call_point \<Rightarrow> event option) \<Rightarrow> writers \<Rightarrow> client_log" where
  "appended_log sel w = \<lparr>appended = map (apsnd erase) (calls_past sel (wr_calls w)), removed = []\<rparr>"

lemma calls_past_simps [simp]:
  "calls_past sel [] = []"
  "calls_past sel (c # cs) = (case sel (cl_at c) of None \<Rightarrow> [] | Some e \<Rightarrow> [(cl_name c, e)]) @ calls_past sel cs"
  "calls_past sel (cs @ cs') = calls_past sel cs @ calls_past sel cs'"
  by (simp_all add: calls_past_def)

section \<open>The invariant\<close>

definition call_ok :: "symtab \<Rightarrow> call \<Rightarrow> bool" where
  "call_ok sy c \<longleftrightarrow> length (cl_name c) < 2 ^ 16 \<and> event_type_wf (aa_event_type (cl_args c)) \<and>
     (case cl_at c of
        Checked \<Rightarrow> True
      | Interned sid \<Rightarrow> symtab_lookup (cl_name c) sy = Some sid
      | Threw ex \<Rightarrow> False
      | pt \<Rightarrow> (\<exists>sid sq. numbered_event pt = Some (append_event (cl_args c) sid sq) \<and> symtab_lookup (cl_name c) sy = Some sid))"

definition numbers_used :: "call list \<Rightarrow> u64 \<Rightarrow> bool" where
  "numbers_used cs nxt \<longleftrightarrow>
     (let n = length (calls_past numbered_event cs) in
      mset (map (sequence_id \<circ> snd) (calls_past numbered_event cs)) = mset (map word_of_nat [1..<n + 1]) \<and>
      nxt = word_of_nat (n + 1))"

text \<open>The memtables and the tables hold what the calls inserted, and the log what they logged.\<close>

definition wr_at ::
  "db_config \<Rightarrow> nat \<Rightarrow> writers \<Rightarrow> event list \<Rightarrow> history \<Rightarrow> event list \<Rightarrow> event list list \<Rightarrow> history list \<Rightarrow> bool" where
  "wr_at cfg k w es h act imms levs \<longleftrightarrow>
     db_cfg (wr_db w) = cfg \<and> \<not> db_closed (wr_db w) \<and>
     names_good (db_symbols (wr_db w)) \<and> unat (next_id (db_symbols (wr_db w))) \<le> k + 1 \<and>
     (\<forall>c \<in> set (wr_calls w). call_ok (db_symbols (wr_db w)) c) \<and> length (wr_calls w) \<le> k \<and>
     numbers_used (wr_calls w) (db_next_seq (wr_db w)) \<and>
     log_holds (db_wal (wr_db w)) es \<and> (db_wal (wr_db w) = None) = (\<not> wal_enabled cfg) \<and>
     mset es = mset (map snd (calls_past logged_event (wr_calls w))) \<and>
     db_holds (wr_db w) h act imms levs \<and>
     contents act imms levs = mset (map snd (calls_past inserted_event (wr_calls w))) \<and>
     numbered cfg (unat (db_sst_seq (wr_db w))) h \<and> unat (db_sst_seq (wr_db w)) + length imms \<le> k + 1"

lemma wr_atD:
  assumes "wr_at cfg k w es h act imms levs"
  shows "db_cfg (wr_db w) = cfg" and "\<not> db_closed (wr_db w)" and "names_good (db_symbols (wr_db w))"
    and "unat (next_id (db_symbols (wr_db w))) \<le> k + 1" and "\<forall>c \<in> set (wr_calls w). call_ok (db_symbols (wr_db w)) c"
    and "length (wr_calls w) \<le> k" and "numbers_used (wr_calls w) (db_next_seq (wr_db w))"
    and "log_holds (db_wal (wr_db w)) es" and "(db_wal (wr_db w) = None) = (\<not> wal_enabled cfg)"
    and "mset es = mset (map snd (calls_past logged_event (wr_calls w)))" and "db_holds (wr_db w) h act imms levs"
    and "contents act imms levs = mset (map snd (calls_past inserted_event (wr_calls w)))"
    and "numbered cfg (unat (db_sst_seq (wr_db w))) h" and "unat (db_sst_seq (wr_db w)) + length imms \<le> k + 1"
  using assms unfolding wr_at_def by blast+

lemma length_calls_past: "length (calls_past sel cs) \<le> length cs"
  by (induction cs) (auto split: option.split)

lemma logged_is_numbered: "logged_event pt = Some e \<Longrightarrow> numbered_event pt = Some e"
  by (cases pt) simp_all

lemma inserted_is_logged: "inserted_event pt = Some e \<Longrightarrow> logged_event pt = Some e"
  by (cases pt) simp_all

lemma in_calls_past: "(name, e) \<in> set (calls_past sel cs) \<longleftrightarrow> (\<exists>c \<in> set cs. cl_name c = name \<and> sel (cl_at c) = Some e)"
  by (induction cs) (auto split: option.split)

lemma calls_past_sub:
  "(\<And>pt e. sel pt = Some e \<Longrightarrow> sel' pt = Some e) \<Longrightarrow> mset (calls_past sel cs) \<subseteq># mset (calls_past sel' cs)"
proof (induction cs)
  case (Cons c cs)
  then show ?case using Cons.prems
    by (cases "sel (cl_at c)"; cases "sel' (cl_at c)") (auto intro: subset_mset.order_trans)
qed simp

text \<open>No two calls have one number, and the next one is free.\<close>

lemma word_of_nat_inj: "i < 2 ^ 64 \<Longrightarrow> j < 2 ^ 64 \<Longrightarrow> (word_of_nat i :: u64) = word_of_nat j \<longleftrightarrow> i = j"
  by (simp add: word_of_nat_eq_iff take_bit_eq_mod)

lemma numbers_used_distinct:
  assumes "numbers_used cs nxt" and "length cs < 2 ^ 32"
  shows "distinct (map (sequence_id \<circ> snd) (calls_past numbered_event cs))"
    and "nxt \<notin> (sequence_id \<circ> snd) ` set (calls_past numbered_event cs)"
proof -
  let ?n = "length (calls_past numbered_event cs)"
  have n: "?n < 2 ^ 32" using length_calls_past [of numbered_event cs] assms(2) by linarith
  have m: "mset (map (sequence_id \<circ> snd) (calls_past numbered_event cs)) = mset (map word_of_nat [1..<?n + 1])" "nxt = word_of_nat (?n + 1)"
    using assms(1) by (simp_all add: numbers_used_def Let_def)
  have inj: "inj_on (word_of_nat :: nat \<Rightarrow> u64) {..?n + 1}"
    using n by (intro inj_onI) (simp add: word_of_nat_inj)
  have "distinct (map (word_of_nat :: nat \<Rightarrow> u64) [1..<?n + 1])"
    unfolding distinct_map by (intro conjI distinct_upt inj_on_subset [OF inj]) auto
  then show "distinct (map (sequence_id \<circ> snd) (calls_past numbered_event cs))"
    using mset_eq_imp_distinct_iff [OF m(1)] by blast
  have "(sequence_id \<circ> snd) ` set (calls_past numbered_event cs) = word_of_nat ` {1..<?n + 1}"
    using mset_eq_setD [OF m(1)] by (simp only: set_map set_upt)
  moreover have "nxt \<notin> word_of_nat ` {1..<?n + 1}"
  proof
    assume "nxt \<in> word_of_nat ` {1..<?n + 1}"
    then obtain j where "j \<in> {1..<?n + 1}" "(word_of_nat j :: u64) = word_of_nat (?n + 1)" using m(2) by auto
    then show False using n by (subst (asm) word_of_nat_inj) auto
  qed
  ultimately show "nxt \<notin> (sequence_id \<circ> snd) ` set (calls_past numbered_event cs)" by simp
qed

section \<open>Every step keeps it\<close>

lemma db_holds_frame [simp]:
  "db_holds (st\<lparr>db_symbols := sy\<rparr>) h act imms levs = db_holds st h act imms levs"
  "db_holds (st\<lparr>db_next_seq := sq\<rparr>) h act imms levs = db_holds st h act imms levs"
  "db_holds (st\<lparr>db_wal := wl\<rparr>) h act imms levs = db_holds st h act imms levs"
  "db_holds (st\<lparr>db_counters := cn\<rparr>) h act imms levs = db_holds st h act imms levs"
  by (simp_all add: db_holds_def)

lemma call_ok_kept: "call_ok sy c \<Longrightarrow> names_kept sy sy' \<Longrightarrow> call_ok sy' c"
  by (auto simp: call_ok_def names_kept_def split: call_point.splits)

lemma calls_split:
  assumes "i < length cs"
  shows "\<exists>xs ys. cs = xs @ cs ! i # ys \<and> (\<forall>c. cs[i := c] = xs @ c # ys)"
  using id_take_nth_drop [OF assms] upd_conv_take_nth_drop [OF assms] by blast

lemma call_ok_event: "call_ok sy c \<Longrightarrow> numbered_event (cl_at c) = Some e \<Longrightarrow>
    event_wf e \<and> symtab_lookup (cl_name c) sy = Some (symbol_id e)"
  by (auto simp: call_ok_def append_event_def event_wf_def split: call_point.splits)

lemma call_ok_returned:
  "call_ok sy \<lparr>cl_name = name, cl_args = a, cl_at = Returned (append_event b sid sq) r\<rparr> \<Longrightarrow> symtab_lookup name sy = Some sid"
  by (auto simp: call_ok_def append_event_def)

text \<open>An event with a new key is added to what is there.\<close>

lemma contents_added:
  assumes "inserted e act imms act' imms'" and "sorted_events act" and "\<forall>x \<in> set act. event_key x \<noteq> event_key e"
  shows "contents act' imms' levs = add_mset e (contents act imms levs)"
proof -
  have "filter_mset (\<lambda>x. event_key x \<noteq> event_key e) (mset act) = mset act"
    using assms(3) by (simp add: filter_mset_eq_conv)
  then show ?thesis
    unfolding contents_inserted [OF assms(1)] mset_event_upsert [OF assms(2)] contents_eq [of act imms levs] by simp
qed

lemma inserted_other_numbers:
  assumes "numbers_used (xs @ c # ys) nxt" and "length (xs @ c # ys) < 2 ^ 32"
    and "numbered_event (cl_at c) = Some e" and "x \<in> snd ` set (calls_past inserted_event (xs @ ys))"
  shows "event_key x \<noteq> event_key e"
proof -
  have "set (calls_past inserted_event zs) \<subseteq> set (calls_past numbered_event zs)" for zs
    using calls_past_sub [of inserted_event numbered_event zs] inserted_is_logged logged_is_numbered
    by (meson mset_subset_eqD subsetI set_mset_mset in_multiset_in_set)
  then have "x \<in> snd ` set (calls_past numbered_event (xs @ ys))" using assms(4) by blast
  then have "sequence_id x \<in> (sequence_id \<circ> snd) ` set (calls_past numbered_event (xs @ ys))" by (auto simp: image_iff)
  moreover have "sequence_id e \<notin> (sequence_id \<circ> snd) ` set (calls_past numbered_event (xs @ ys))"
    using numbers_used_distinct(1) [OF assms(1,2)] assms(3) by auto
  ultimately show ?thesis by (metis key_fields)
qed

lemma wr_at_checked:
  assumes os: "os_good os" and at: "wr_at cfg k w es h act imms levs" and k: "k < 2 ^ 32 - 2"
    and cs: "wr_calls w = xs @ c # ys" and c: "cl_at c = Checked"
  shows "\<exists>sid sy. call_step os rng c (wr_db w) = Some (c\<lparr>cl_at := Interned sid\<rparr>, (wr_db w)\<lparr>db_symbols := sy\<rparr>) \<and>
    wr_at cfg (k + 1) \<lparr>wr_db = (wr_db w)\<lparr>db_symbols := sy\<rparr>, wr_calls = xs @ c\<lparr>cl_at := Interned sid\<rparr> # ys\<rparr> es h act imms levs"
proof -
  note d = wr_atD [OF at]
  have ok: "call_ok (db_symbols (wr_db w)) c" using d(5) cs by simp
  have nx: "unat (next_id (db_symbols (wr_db w))) < 2 ^ 32 - 1" using d(4) k by simp
  obtain sid sy where s: "symtab_intern os (cl_name c) (db_symbols (wr_db w)) = (Inr sid, sy)" "names_good sy"
      "names_kept (db_symbols (wr_db w)) sy" "symtab_lookup (cl_name c) sy = Some sid"
    using intern_spec [OF os d(3) _ nx] ok unfolding call_ok_def by blast
  have "call_ok sy (c\<lparr>cl_at := Interned sid\<rparr>)" using ok s(4) by (simp add: call_ok_def)
  then have "wr_at cfg (k + 1) \<lparr>wr_db = (wr_db w)\<lparr>db_symbols := sy\<rparr>, wr_calls = xs @ c\<lparr>cl_at := Interned sid\<rparr> # ys\<rparr> es h act imms levs"
    using d s(2,3) call_ok_kept [OF _ s(3)] c
    unfolding wr_at_def cs by (auto simp: numbers_used_def names_kept_def)
  then show ?thesis using s(1) c by (intro exI [of _ sid] exI [of _ sy]) (simp add: call_step_def)
qed

lemma wr_at_interned:
  assumes at: "wr_at cfg k w es h act imms levs" and k: "k < 2 ^ 32 - 2"
    and cs: "wr_calls w = xs @ c # ys" and c: "cl_at c = Interned sid"
  shows "let st = wr_db w; c' = c\<lparr>cl_at := Numbered (append_event (cl_args c) sid (db_next_seq st))\<rparr>; st' = st\<lparr>db_next_seq := db_next_seq st + 1\<rparr> in
    call_step os rng c st = Some (c', st') \<and> wr_at cfg (k + 1) \<lparr>wr_db = st', wr_calls = xs @ c' # ys\<rparr> es h act imms levs"
proof -
  note d = wr_atD [OF at]
  let ?st = "wr_db w" and ?n = "length (calls_past numbered_event (wr_calls w))"
  let ?c = "c\<lparr>cl_at := Numbered (append_event (cl_args c) sid (db_next_seq ?st))\<rparr>"
  have ok: "call_ok (db_symbols ?st) c" using d(5) cs by simp
  then have "call_ok (db_symbols ?st) ?c" using c by (auto simp: call_ok_def)
  moreover have "numbers_used (xs @ ?c # ys) (db_next_seq ?st + 1)"
    using d(7) c unfolding cs by (auto simp: numbers_used_def Let_def)
  ultimately have "wr_at cfg (k + 1) \<lparr>wr_db = ?st\<lparr>db_next_seq := db_next_seq ?st + 1\<rparr>, wr_calls = xs @ ?c # ys\<rparr> es h act imms levs"
    using d c unfolding wr_at_def cs by auto
  then show ?thesis using c by (simp add: call_step_def Let_def)
qed

lemma wr_at_numbered:
  assumes os: "os_good os" and at: "wr_at cfg k w es h act imms levs"
    and cs: "wr_calls w = xs @ c # ys" and c: "cl_at c = Numbered e"
  shows "\<exists>off st. call_step os rng c (wr_db w) = Some (c\<lparr>cl_at := Logged e off\<rparr>, st) \<and>
    wr_at cfg (k + 1) \<lparr>wr_db = st, wr_calls = xs @ c\<lparr>cl_at := Logged e off\<rparr> # ys\<rparr> (es @ [e]) h act imms levs"
proof -
  note d = wr_atD [OF at]
  let ?st = "wr_db w"
  have ok: "call_ok (db_symbols ?st) c" using d(5) cs by simp
  then have e: "event_wf e" using call_ok_event [of _ c e] c by simp
  obtain off w' where l: "log_event os e ?st = (Inr off, ?st\<lparr>db_wal := w'\<rparr>)" "log_holds w' (es @ [e])"
      "(w' = None) = (db_wal ?st = None)"
    using log_event_spec [OF os d(8) e] by (elim exE conjE) (rule that, assumption+)
  define st where "st = (case w' of None \<Rightarrow> ?st\<lparr>db_wal := w'\<rparr>
    | Some _ \<Rightarrow> ?st\<lparr>db_wal := w', db_counters := (db_counters ?st)\<lparr>wal_bytes_written :=
        wal_bytes_written (db_counters ?st) + word_of_nat (kWalHeaderSize + event_kEncodedSize)\<rparr>\<rparr>)"
  have st: "\<exists>cn. st = ?st\<lparr>db_wal := w', db_counters := cn\<rparr>"
    unfolding st_def by (cases w') (auto intro: exI [of _ "db_counters ?st"])
  have "call_ok (db_symbols ?st) (c\<lparr>cl_at := Logged e off\<rparr>)" using ok c by (simp add: call_ok_def)
  then have "wr_at cfg (k + 1) \<lparr>wr_db = st, wr_calls = xs @ c\<lparr>cl_at := Logged e off\<rparr> # ys\<rparr> (es @ [e]) h act imms levs"
    using d l(2,3) c st unfolding wr_at_def cs by (auto simp: numbers_used_def)
  moreover have "call_step os rng c ?st = Some (c\<lparr>cl_at := Logged e off\<rparr>, st)"
    using l(1) c by (simp add: call_step_def st_def split: option.split)
  ultimately show ?thesis by blast
qed

lemma wr_at_logged:
  assumes at: "wr_at cfg k w es h act imms levs" and k: "k < 2 ^ 32 - 2"
    and cs: "wr_calls w = xs @ c # ys" and c: "cl_at c = Logged e off"
  shows "\<exists>st act' imms'. call_step os rng c (wr_db w) = Some (c\<lparr>cl_at := Inserted e off\<rparr>, st) \<and>
    wr_at cfg (k + 1) \<lparr>wr_db = st, wr_calls = xs @ c\<lparr>cl_at := Inserted e off\<rparr> # ys\<rparr> es h act' imms' levs"
proof -
  note d = wr_atD [OF at]
  let ?st = "wr_db w" and ?c = "c\<lparr>cl_at := Inserted e off\<rparr>"
  have ok: "call_ok (db_symbols ?st) c" using d(5) cs by simp
  then have e: "event_wf e" using call_ok_event [of _ c e] c by simp
  obtain m ms act' imms' where i: "insert_active rng e ?st = Some (?st\<lparr>db_active := Some m, db_imm := ms\<rparr>)"
      "db_holds (?st\<lparr>db_active := Some m, db_imm := ms\<rparr>) h act' imms' levs" "inserted e act imms act' imms'"
    using insert_active_spec [OF d(11) e, of rng] by (elim exE conjE) (rule that, assumption+)
  have l: "length (xs @ c # ys) < 2 ^ 32" using d(6) k cs by simp
  have "x \<in> snd ` set (calls_past inserted_event (xs @ ys))" if "x \<in> set act" for x
  proof -
    have "x \<in># contents act imms levs" using that by (simp add: contents_def sources_def)
    then show ?thesis unfolding d(12) cs using c by auto
  qed
  then have "\<forall>x \<in> set act. event_key x \<noteq> event_key e"
    using inserted_other_numbers [OF d(7) [unfolded cs] l] c by simp
  note ca = contents_added [OF i(3) act_sorted [OF d(11)] this]
  have "call_ok (db_symbols ?st) ?c" using ok c by (simp add: call_ok_def)
  moreover have "unat (db_sst_seq ?st) + length imms' \<le> (k + 1) + 1" using d(14) length_inserted [OF i(3)] by linarith
  moreover have "numbers_used (xs @ ?c # ys) (db_next_seq ?st)" using d(7) c unfolding cs by (simp add: numbers_used_def)
  ultimately have "wr_at cfg (k + 1) \<lparr>wr_db = ?st\<lparr>db_active := Some m, db_imm := ms\<rparr>, wr_calls = xs @ ?c # ys\<rparr> es h act' imms' levs"
    using d(1-6,8-13) i(2) c unfolding wr_at_def cs by (simp add: ca)
  moreover have "call_step os rng c ?st = Some (?c, ?st\<lparr>db_active := Some m, db_imm := ms\<rparr>)"
    using i(1) c by (simp add: call_step_def)
  ultimately show ?thesis by blast
qed

lemma wr_at_inserted:
  assumes at: "wr_at cfg k w es h act imms levs" and cs: "wr_calls w = xs @ c # ys" and c: "cl_at c = Inserted e off"
  shows "\<exists>r st. ar_sequence_id r = sequence_id e \<and> call_step os rng c (wr_db w) = Some (c\<lparr>cl_at := Returned e r\<rparr>, st) \<and>
    wr_at cfg (k + 1) \<lparr>wr_db = st, wr_calls = xs @ c\<lparr>cl_at := Returned e r\<rparr> # ys\<rparr> es h act imms levs"
proof -
  note d = wr_atD [OF at]
  let ?st = "wr_db w" and ?r = "\<lparr>ar_sequence_id = sequence_id e, ar_wal_offset = off\<rparr>"
  obtain m where m: "db_active ?st = Some m" using d(11) unfolding db_holds_def by blast
  have ok: "call_ok (db_symbols ?st) c" using d(5) cs by simp
  then have "call_ok (db_symbols ?st) (c\<lparr>cl_at := Returned e ?r\<rparr>)" using c by (simp add: call_ok_def)
  then have "wr_at cfg (k + 1) \<lparr>wr_db = ?st\<lparr>db_counters := cn\<rparr>, wr_calls = xs @ c\<lparr>cl_at := Returned e ?r\<rparr> # ys\<rparr> es h act imms levs" for cn
    using d c unfolding wr_at_def cs by (auto simp: numbers_used_def)
  then show ?thesis using m c
    by (intro exI [of _ ?r] exI conjI) (simp, simp add: call_step_def, assumption?)
qed

text \<open>Every call that is not finished can go on, and keeps the invariant.\<close>

lemma wr_at_move:
  assumes os: "os_good os" and at: "wr_at cfg k w es h act imms levs" and k: "k < 2 ^ 32 - 2"
    and i: "i < length (wr_calls w)" "\<not> call_finished (cl_at (wr_calls w ! i))"
  shows "\<exists>c st es' act' imms'. call_step os rng (wr_calls w ! i) (wr_db w) = Some (c, st) \<and>
    wr_at cfg (k + 1) \<lparr>wr_db = st, wr_calls = (wr_calls w)[i := c]\<rparr> es' h act' imms' levs"
proof -
  obtain xs ys where cs: "wr_calls w = xs @ wr_calls w ! i # ys" "\<And>c. (wr_calls w)[i := c] = xs @ c # ys"
    using calls_split [OF i(1)] by blast
  show ?thesis
  proof (cases "cl_at (wr_calls w ! i)")
    case Checked
    then show ?thesis using wr_at_checked [OF os at k cs(1)] unfolding cs(2) by blast
  next
    case (Interned sid)
    then show ?thesis using wr_at_interned [OF at k cs(1) Interned] unfolding cs(2) Let_def by blast
  next
    case (Numbered e)
    then show ?thesis using wr_at_numbered [OF os at cs(1)] unfolding cs(2) by blast
  next
    case (Logged e off)
    then show ?thesis using wr_at_logged [OF at k cs(1)] unfolding cs(2) by blast
  next
    case (Inserted e off)
    then show ?thesis using wr_at_inserted [OF at cs(1)] unfolding cs(2) by blast
  qed (use i(2) in simp_all)
qed

lemma wr_at_enter:
  assumes at: "wr_at cfg k w es h act imms levs" and ok: "length name < 2 ^ 16" "event_type_wf (aa_event_type a)"
  shows "wr_at cfg (k + 1) (w\<lparr>wr_calls := wr_calls w @ [call_enter name a (wr_db w)]\<rparr>) es h act imms levs"
  using wr_atD [OF at] ok unfolding wr_at_def by (auto simp: call_enter_def call_ok_def numbers_used_def)

text \<open>Moving events between memtables and tables.\<close>

lemma wr_at_moved:
  assumes at: "wr_at cfg k w es h act imms levs" and f: "same_front (wr_db w) st" and st: "db_holds st h' act' imms' levs'"
    and c: "contents act' imms' levs' = contents act imms levs" and n: "numbered cfg (unat (db_sst_seq st)) h'"
    and b: "unat (db_sst_seq st) + length imms' \<le> unat (db_sst_seq (wr_db w)) + length imms + 1"
  shows "wr_at cfg (k + 1) (w\<lparr>wr_db := st\<rparr>) es h' act' imms' levs'"
  using wr_atD [OF at] f st c n b unfolding wr_at_def by (auto simp: same_front_def)

lemma wr_at_rotate:
  assumes at: "wr_at cfg k w es h act imms levs"
  shows "\<exists>act' imms'. wr_at cfg (k + 1) (w\<lparr>wr_db := rotate_active (wr_db w)\<rparr>) es h act' imms' levs"
proof -
  let ?imms = "imms @ (if act = [] then [] else [act])" and ?st = "rotate_active (wr_db w)"
  have r: "db_holds ?st h [] ?imms levs" "same_front (wr_db w) ?st" "db_sst_seq ?st = db_sst_seq (wr_db w)"
    using rotate_active_spec [OF wr_atD(11) [OF at]] by blast+
  have c: "contents [] ?imms levs = contents act imms levs" by (simp add: contents_eq rest_of_def)
  have b: "unat (db_sst_seq ?st) + length ?imms \<le> unat (db_sst_seq (wr_db w)) + length imms + 1" unfolding r(3) by simp
  have n: "numbered cfg (unat (db_sst_seq ?st)) h" unfolding r(3) by (rule wr_atD(13) [OF at])
  show ?thesis using wr_at_moved [OF at r(2,1) c n b] by blast
qed

lemma wr_at_flush:
  assumes os: "os_good os" and nf: "\<forall>n. bloom_wf (nf n)" and t: "block_target_bytes cfg < 2 ^ 32"
    and at: "wr_at cfg k w es h act imms levs" and k: "k < 2 ^ 32 - 2"
  shows "\<exists>ts st. flush_now os nf (wr_db w) = Some (Inr (), st) \<and>
    wr_at cfg (k + 1) (w\<lparr>wr_db := st\<rparr>) es (h @ ts) [] [] (flush_history levs ts)"
proof -
  note d = wr_atD [OF at]
  have op: "os_progress os" using os by (simp add: os_progress_def)
  have "length (concat (sources act imms levs)) \<le> k"
    using arg_cong [OF d(12), of size] length_calls_past [of inserted_event "wr_calls w"] d(6)
    unfolding contents_def by simp
  moreover have "\<forall>es \<in> set (act # imms). length es \<le> length (concat (sources act imms levs))"
    by (auto simp: sources_def dest!: split_list)
  ultimately have l: "\<forall>es \<in> set (act # imms). length es < 2 ^ 32" using k by fastforce
  have b: "unat (db_sst_seq (wr_db w)) + length imms + 1 < 2 ^ 64" using d(14) k by simp
  obtain ts st where f: "flush_now os nf (wr_db w) = Some (Inr (), st)" "db_holds st (h @ ts) [] [] (flush_history levs ts)"
      "numbered (db_cfg st) (unat (db_sst_seq st)) (h @ ts)" "events_of ts = filter (\<lambda>es. es \<noteq> []) (imms @ [act])"
      "same_front (wr_db w) st" "unat (db_sst_seq st) \<le> unat (db_sst_seq (wr_db w)) + length imms + 1"
    using flush_now_spec [OF op nf d(11) _ b _ l] d(1,13) t by blast
  have ne: "levs \<noteq> []" using db_holds_length [OF d(11)] by blast
  have c: "contents [] [] (flush_history levs ts) = contents act imms levs"
    unfolding contents_eq rest_flush_history [OF ne] f(4) concat_nonempty by (simp add: rest_of_def)
  have n: "numbered cfg (unat (db_sst_seq st)) (h @ ts)" using f(3,5) d(1) by (simp add: same_front_def)
  have b': "unat (db_sst_seq st) + length ([] :: event list list) \<le> unat (db_sst_seq (wr_db w)) + length imms + 1" using f(6) by simp
  show ?thesis using f(1) wr_at_moved [OF at f(5,2) c n b'] by blast
qed

lemma wr_at_query:
  assumes os: "os_good os" and at: "wr_at cfg k w es h act imms levs" and q: "db_query os req (wr_db w) = Some (r, st)"
  shows "wr_at cfg (k + 1) (w\<lparr>wr_db := st\<rparr>) es h act imms levs"
proof -
  note d = wr_atD [OF at]
  obtain io where st: "st = (wr_db w)\<lparr>db_io := io\<rparr>" "db_holds st h act imms levs"
  proof (cases "symtab_lookup (rq_symbol req) (db_symbols (wr_db w))")
    case None
    obtain res where "db_query os req (wr_db w) = Some (Inr res, (wr_db w)\<lparr>db_io := db_io (wr_db w)\<rparr>)"
      using query_unknown [OF d(2) None] by blast
    then show ?thesis using q d(11) that [of "db_io (wr_db w)"] by simp
  next
    case (Some sid)
    then show ?thesis using query_selects [OF os d(11,2) Some] q that by auto
  qed
  have "same_front (wr_db w) st" "db_sst_seq st = db_sst_seq (wr_db w)" using st(1) by (simp_all add: same_front_def)
  then show ?thesis using wr_at_moved [OF at _ st(2) refl] d(13) by simp
qed

text \<open>All steps together.\<close>

definition wr_inv :: "db_config \<Rightarrow> nat \<Rightarrow> writers \<Rightarrow> bool" where
  "wr_inv cfg k w \<longleftrightarrow> (\<exists>es h act imms levs. wr_at cfg k w es h act imms levs)"

lemma wr_inv_step:
  assumes os: "os_good os" and nf: "\<forall>n. bloom_wf (nf n)" and t: "block_target_bytes cfg < 2 ^ 32"
    and inv: "wr_inv cfg k w" and k: "k < 2 ^ 32 - 2" and s: "wr_step os rng nf w w'"
  shows "wr_inv cfg (k + 1) w'"
proof -
  obtain es h act imms levs where at: "wr_at cfg k w es h act imms levs" using inv unfolding wr_inv_def by blast
  from s show ?thesis
  proof cases
    case (entering name a)
    show ?thesis using wr_at_enter [OF at entering(2,3)] unfolding wr_inv_def entering(1) by blast
  next
    case (moving i c st)
    have "\<not> call_finished (cl_at (wr_calls w ! i))"
      using moving(3) by (cases "cl_at (wr_calls w ! i)") (simp_all add: call_step_def)
    from wr_at_move [OF os at k moving(2) this, of rng] obtain c' st' es' act' imms' where
        "call_step os rng (wr_calls w ! i) (wr_db w) = Some (c', st')"
        "wr_at cfg (k + 1) \<lparr>wr_db = st', wr_calls = (wr_calls w)[i := c']\<rparr> es' h act' imms' levs" by blast
    then have "wr_at cfg (k + 1) w' es' h act' imms' levs" using moving(1,3) by simp
    then show ?thesis unfolding wr_inv_def by blast
  next
    case rotating
    show ?thesis using wr_at_rotate [OF at] unfolding wr_inv_def rotating by blast
  next
    case (flushing r st)
    obtain ts st' where f: "flush_now os nf (wr_db w) = Some (Inr (), st')"
        "wr_at cfg (k + 1) (w\<lparr>wr_db := st'\<rparr>) es (h @ ts) [] [] (flush_history levs ts)"
      using wr_at_flush [OF os nf t at k] by blast
    moreover have "st = st'" using f(1) flushing(2) by simp
    ultimately show ?thesis unfolding wr_inv_def flushing(1) by blast
  next
    case (querying req r st)
    show ?thesis using wr_at_query [OF os at querying(2)] unfolding wr_inv_def querying(1) by blast
  qed
qed

lemma wr_inv_steps:
  assumes os: "os_good os" and nf: "\<forall>n. bloom_wf (nf n)" and t: "block_target_bytes cfg < 2 ^ 32" and w0: "wr_inv cfg 0 w0"
  shows "(wr_step os rng nf ^^ n) w0 w \<Longrightarrow> n < 2 ^ 32 - 1 \<Longrightarrow> wr_inv cfg n w"
proof (induction n arbitrary: w)
  case 0
  then show ?case using w0 by simp
next
  case (Suc n)
  then obtain w1 where w1: "(wr_step os rng nf ^^ n) w0 w1" "wr_step os rng nf w1 w" by auto
  have "wr_inv cfg n w1" using Suc.IH [OF w1(1)] Suc.prems(2) by simp
  moreover have "n < 2 ^ 32 - 2" using Suc.prems(2) by simp
  ultimately show ?case using wr_inv_step [OF os nf t _ _ w1(2)] by fastforce
qed

lemma wr_at_fresh:
  assumes "os_good os" and "db_open os rng cfg empty_disk = Some (Inr st0)"
  shows "wr_at cfg 0 \<lparr>wr_db = st0, wr_calls = []\<rparr> [] [] [] [] [[], [], [], []]"
proof -
  obtain st where "db_open os rng cfg empty_disk = Some (Inr st)" "run_at cfg 0 st [] [] [] [] [] [[], [], [], []]"
    using db_open_fresh [OF assms(1)] by blast
  then have r: "run_at cfg 0 st0 [] [] [] [] [] [[], [], [], []]" using assms(2) by simp
  then have "\<exists>es. log_holds (db_wal st0) es \<and> length es = 0" by (auto simp: run_at_def logged_def)
  then have "log_holds (db_wal st0) []" by auto
  then show ?thesis using r by (auto simp: wr_at_def run_at_def logged_def numbers_used_def contents_def)
qed

lemma wr_inv_fresh:
  "os_good os \<Longrightarrow> db_open os rng cfg empty_disk = Some (Inr st0) \<Longrightarrow> wr_inv cfg 0 \<lparr>wr_db = st0, wr_calls = []\<rparr>"
  unfolding wr_inv_def using wr_at_fresh by blast

section \<open>What queries return\<close>

lemma calls_past_named:
  assumes "\<forall>c \<in> set cs. call_ok sy c" and "\<And>pt e. sel pt = Some e \<Longrightarrow> numbered_event pt = Some e"
  shows "\<forall>(name, e) \<in> set (calls_past sel cs). symtab_lookup name sy = Some (symbol_id e)"
  using assms call_ok_event by (fastforce simp: in_calls_past)

lemma named_matching:
  assumes "\<forall>(name, e) \<in> set lg. symtab_lookup name sy = Some (symbol_id e)" and "names_good sy"
    and "symtab_lookup (rq_symbol req) sy = Some sid"
  shows "mset (map snd (filter (matches req) (map (apsnd erase) lg))) = image_mset erase (filter_mset (selects req sid) (mset (map snd lg)))"
proof -
  have "filter (matches req \<circ> apsnd erase) lg = filter (selects req sid \<circ> snd) lg"
  proof (rule filter_cong [OF refl])
    fix x assume "x \<in> set lg"
    then have "symtab_lookup (fst x) sy = Some (symbol_id (snd x))" using assms(1) by (cases x) auto
    then have "fst x = rq_symbol req \<longleftrightarrow> symbol_id (snd x) = sid" using assms(3) names_good_inj [OF assms(2)] by auto
    then show "(matches req \<circ> apsnd erase) x \<longleftrightarrow> (selects req sid \<circ> snd) x"
      by (auto simp: matches_def selects_def in_range_query)
  qed
  then show ?thesis by (simp add: filter_map filter_mset_image_mset image_mset.compositionality comp_def flip: mset_filter)
qed

lemma unnamed_matching:
  assumes "\<forall>(name, e) \<in> set lg. symtab_lookup name sy = Some (symbol_id e)" and "symtab_lookup (rq_symbol req) sy = None"
  shows "filter (matches req) (map (apsnd erase) lg) = []"
  using assms by (auto simp: filter_empty_conv matches_def)

abbreviation keeping_all :: "(string \<times> event) list \<Rightarrow> client_log" where
  "keeping_all lg \<equiv> \<lparr>appended = map (apsnd erase) lg, removed = []\<rparr>"

lemma named_answers:
  assumes lg: "\<forall>(name, e) \<in> set lg. symtab_lookup name sy = Some (symbol_id e)" "names_good sy"
    and sid: "symtab_lookup (rq_symbol req) sy = Some sid"
    and rows: "rows = take (query_limit req) (filter (selects req sid) rest)"
  shows "mset rest = mset (map snd lg) \<Longrightarrow> answers req (keeping_all lg) rows"
    and "mset (map snd lg) \<subseteq># mset rest \<Longrightarrow> mset rest \<subseteq># mset (map snd lg) + mset (map snd lg) \<Longrightarrow>
      answers_twice req (keeping_all lg) rows"
proof -
  let ?es = "map erase (filter (selects req sid) rest)"
  have t: "map erase rows = take (query_limit req) ?es" by (simp add: rows take_map)
  have es: "mset ?es = image_mset erase (filter_mset (selects req sid) (mset rest))" by simp
  have nr: "(\<lambda>x. matches req x \<and> not_removed (keeping_all lg) x) = matches req" by (simp add: not_removed_def)
  note m = named_matching [OF lg sid]
  show "answers req (keeping_all lg) rows" if "mset rest = mset (map snd lg)"
    unfolding answers_def nr using t m es that by (intro exI [of _ ?es]) (simp del: mset_map mset_filter)
  assume a: "mset (map snd lg) \<subseteq># mset rest" "mset rest \<subseteq># mset (map snd lg) + mset (map snd lg)"
  show "answers_twice req (keeping_all lg) rows"
    unfolding answers_twice_def nr Let_def client_log.simps m
  proof (intro exI [of _ ?es] conjI t)
    show "image_mset erase (filter_mset (selects req sid) (mset (map snd lg))) \<subseteq># mset ?es"
      unfolding es by (intro image_mset_subseteq_mono multiset_filter_mono a(1))
    show "mset ?es \<subseteq># image_mset erase (filter_mset (selects req sid) (mset (map snd lg))) +
        image_mset erase (filter_mset (selects req sid) (mset (map snd lg)))"
      using image_mset_subseteq_mono [OF multiset_filter_mono [OF a(2), of "selects req sid"], of erase] unfolding es by simp
  qed
qed

lemma wr_at_answers:
  assumes os: "os_good os" and at: "wr_at cfg k w es h act imms levs"
  shows "\<exists>r st. db_query os req (wr_db w) = Some (Inr r, st) \<and> answers req (appended_log inserted_event w) (qr_rows r)"
proof -
  note d = wr_atD [OF at]
  let ?sy = "db_symbols (wr_db w)" and ?lg = "calls_past inserted_event (wr_calls w)"
  have lg: "\<forall>(name, e) \<in> set ?lg. symtab_lookup name ?sy = Some (symbol_id e)"
    by (rule calls_past_named [OF d(5)]) (simp add: inserted_is_logged logged_is_numbered)
  show ?thesis
  proof (cases "symtab_lookup (rq_symbol req) ?sy")
    case None
    then have "answers req (appended_log inserted_event w) []"
      using unnamed_matching [OF lg None] unfolding answers_def appended_log_def
      by (intro exI [of _ "[]"]) (simp flip: filter_filter)
    then show ?thesis using query_unknown [OF d(2) None] by fastforce
  next
    case (Some sid)
    obtain res io where q: "db_query os req (wr_db w) = Some (Inr res, (wr_db w)\<lparr>db_io := io\<rparr>)"
        "qr_rows res = take (query_limit req) (filter (selects req sid) (concat (sources act imms levs)))"
      using query_selects [OF os d(11,2) Some] by blast
    have "mset (concat (sources act imms levs)) = mset (map snd ?lg)" using d(12) by (simp add: contents_def)
    then show ?thesis using named_answers(1) [OF lg d(3) Some q(2)] q(1) unfolding appended_log_def by blast
  qed
qed

lemma fold_upsert_distinct:
  "distinct (map event_key es) \<Longrightarrow> mset (fold event_upsert es []) = mset es"
proof (induction es rule: rev_induct)
  case (snoc e es)
  then have "mset (fold event_upsert es []) = mset es" "event_key e \<notin> event_key ` set es" by auto
  moreover from this have "filter_mset (\<lambda>x. event_key x \<noteq> event_key e) (mset es) = mset es"
    by (simp add: filter_mset_eq_conv image_iff) metis
  ultimately show ?case by (simp add: mset_event_upsert [OF sorted_fold_upsert] del: mset_filter)
qed simp

lemma distinct_sub_mset: "distinct ys \<Longrightarrow> mset xs \<subseteq># mset ys \<Longrightarrow> distinct xs"
proof -
  assume d: "distinct ys" and "mset xs \<subseteq># mset ys"
  then obtain M where "mset ys = mset xs + M" by (auto simp: mset_subset_eq_exists_conv)
  moreover obtain zs where "M = mset zs" using ex_mset by metis
  ultimately have "mset ys = mset (xs @ zs)" by simp
  then have "distinct (xs @ zs)" using d mset_eq_imp_distinct_iff by blast
  then show ?thesis by simp
qed

lemma wr_at_reopen:
  assumes os: "os_good os" and at: "wr_at cfg k w es h act imms levs" and k: "k < 2 ^ 32 - 1" and wal: "wal_enabled cfg"
  shows "\<exists>st levs'. db_open os rng cfg (disk_of (wr_db w)) = Some (Inr st) \<and> reopened (wr_db w) es (wr_db w) levs' st \<and>
    length levs' = 4 \<and> (\<forall>l < 4. mset (levs' ! l) = mset (levs ! l)) \<and>
    mset (fold event_upsert es []) = mset (map snd (calls_past logged_event (wr_calls w)))"
proof -
  note d = wr_atD [OF at]
  have "length (wr_calls w) < 2 ^ 32" using d(6) k by simp
  from numbers_used_distinct(1) [OF d(7) this]
  have "distinct (map (sequence_id \<circ> snd) (calls_past numbered_event (wr_calls w)))" .
  moreover have "mset (map (sequence_id \<circ> snd) (calls_past logged_event (wr_calls w))) \<subseteq>#
      mset (map (sequence_id \<circ> snd) (calls_past numbered_event (wr_calls w)))"
    unfolding mset_map by (intro image_mset_subseteq_mono calls_past_sub logged_is_numbered)
  moreover have "mset (map sequence_id es) = mset (map (sequence_id \<circ> snd) (calls_past logged_event (wr_calls w)))"
    using d(10) by (simp add: multiset.map_comp)
  ultimately have "distinct (map sequence_id es)" using distinct_sub_mset by metis
  then have "distinct (map event_key es)"
    by (auto simp: distinct_map inj_on_def event_key_def)
  then have f: "mset (fold event_upsert es []) = mset (map snd (calls_past logged_event (wr_calls w)))"
    using fold_upsert_distinct d(10) by simp
  have c: "wal_enabled (db_cfg (wr_db w))" "(db_wal (wr_db w) = None) = (\<not> wal_enabled (db_cfg (wr_db w)))"
    using d(1,9) wal by simp_all
  have "dk_tables (disk_of (wr_db w)) = db_tables (wr_db w)" by (simp add: disk_of_def)
  from db_reopen_spec [OF os d(11) disk_names [OF os d(3)] this disk_replays [OF c d(8)], of rng]
  show ?thesis using f unfolding d(1) by blast
qed

lemma wr_at_crash_answers:
  assumes os: "os_good os" and at: "wr_at cfg k w es h act imms levs" and k: "k < 2 ^ 32 - 1" and wal: "wal_enabled cfg"
  shows "\<exists>st1 r st2. db_open os rng cfg (disk_of (wr_db w)) = Some (Inr st1) \<and> db_query os req st1 = Some (Inr r, st2) \<and>
    answers_twice req (appended_log logged_event w) (qr_rows r)"
proof -
  note d = wr_atD [OF at]
  let ?sy = "db_symbols (wr_db w)" and ?lg = "calls_past logged_event (wr_calls w)"
  have lg: "\<forall>(name, e) \<in> set ?lg. symtab_lookup name ?sy = Some (symbol_id e)"
    by (rule calls_past_named [OF d(5) logged_is_numbered])
  obtain st1 levs' where re: "db_open os rng cfg (disk_of (wr_db w)) = Some (Inr st1)" "reopened (wr_db w) es (wr_db w) levs' st1"
      "length levs' = 4" "\<forall>l < 4. mset (levs' ! l) = mset (levs ! l)" "mset (fold event_upsert es []) = mset (map snd ?lg)"
    using wr_at_reopen [OF os at k wal, of rng] by (elim exE conjE) (rule that)
  have r: "db_holds st1 (concat levs') (fold event_upsert es []) [] levs'" "\<not> db_closed st1"
      "symtab_lookup (rq_symbol req) (db_symbols st1) = symtab_lookup (rq_symbol req) ?sy"
    using re(2) by (simp_all add: reopened_def)
  show ?thesis
  proof (cases "symtab_lookup (rq_symbol req) ?sy")
    case None
    then have "answers_twice req (appended_log logged_event w) []"
      using unnamed_matching [OF lg None] unfolding answers_twice_def appended_log_def Let_def
      by (intro exI [of _ "[]"]) (simp flip: filter_filter)
    then show ?thesis using query_unknown [OF r(2), of req os] None r(3) re(1) by fastforce
  next
    case (Some sid)
    let ?rest = "concat (sources (fold event_upsert es []) [] levs')"
    obtain res io where q: "db_query os req st1 = Some (Inr res, st1\<lparr>db_io := io\<rparr>)"
        "qr_rows res = take (query_limit req) (filter (selects req sid) ?rest)"
      using query_selects [OF os r(1,2)] Some r(3) by fastforce
    have l: "length levs = 4" using d(11) by (simp add: db_holds_def)
    let ?T = "mset (concat (events_of (concat levs)))"
    have rest: "mset ?rest = mset (map snd ?lg) + ?T"
      using contents_reopened [OF l re(3,4), of "fold event_upsert es []"] re(5) by (simp add: contents_def)
    have "?T \<subseteq># contents act imms levs" by (simp add: contents_eq rest_of_def)
    also have "\<dots> \<subseteq># mset (map snd ?lg)"
      unfolding d(12) mset_map by (intro image_mset_subseteq_mono calls_past_sub inserted_is_logged)
    finally have "mset (map snd ?lg) \<subseteq># mset ?rest" "mset ?rest \<subseteq># mset (map snd ?lg) + mset (map snd ?lg)"
      unfolding rest by simp_all
    from named_answers(2) [OF lg d(3) Some q(2) this] show ?thesis
      using q(1) re(1) unfolding appended_log_def by blast
  qed
qed

section \<open>One call at a time\<close>

lemma wr_moves:
  assumes "wr_calls w = xs @ c # ys" and "call_step os rng c (wr_db w) = Some (c', st)"
  shows "wr_step os rng nf w \<lparr>wr_db = st, wr_calls = xs @ c' # ys\<rparr>"
  using wr_step.moving [of "length xs" w os rng c' st nf] assms by simp

lemma next_number:
  "wr_at cfg k w es h act imms levs \<Longrightarrow> db_next_seq (wr_db w) = word_of_nat (length (calls_past numbered_event (wr_calls w)) + 1)"
  by (simp add: wr_at_def numbers_used_def Let_def)

lemma call_step_active:
  "call_step os rng c st = Some (c', st') \<Longrightarrow> \<forall>e off. cl_at c \<noteq> Logged e off \<Longrightarrow> db_active st' = db_active st"
  by (auto simp: call_step_def log_event_def split: call_point.splits prod.splits sum.splits option.splits)

lemma call_step_inserts:
  "call_step os rng c st = Some (c', st') \<Longrightarrow> cl_at c = Logged e off \<Longrightarrow> db_active st = Some m \<Longrightarrow>
    memtable_insert rng e m = Some m' \<Longrightarrow> \<not> should_flush m' \<Longrightarrow> db_active st' = Some m'"
  by (auto simp: call_step_def insert_active_def)

text \<open>A call up to its number, and from its number to its end.\<close>

lemma number_call:
  assumes os: "os_good os" and at: "wr_at cfg k w es h act imms levs" and k: "k < 2 ^ 32 - 4"
    and cs: "wr_calls w = xs @ c # ys" and c: "cl_at c = Checked"
  shows "\<exists>w' sid. (wr_step os rng nf ^^ 2) w w' \<and> wr_at cfg (k + 2) w' es h act imms levs \<and> db_active (wr_db w') = db_active (wr_db w) \<and>
    wr_calls w' = xs @ c\<lparr>cl_at := Numbered (append_event (cl_args c) sid (db_next_seq (wr_db w)))\<rparr> # ys"
proof -
  have k': "k < 2 ^ 32 - 2" "k + 1 < 2 ^ 32 - 2" using k by simp_all
  obtain sid sy where s: "call_step os rng c (wr_db w) = Some (c\<lparr>cl_at := Interned sid\<rparr>, (wr_db w)\<lparr>db_symbols := sy\<rparr>)"
      "wr_at cfg (k + 1) \<lparr>wr_db = (wr_db w)\<lparr>db_symbols := sy\<rparr>, wr_calls = xs @ c\<lparr>cl_at := Interned sid\<rparr> # ys\<rparr> es h act imms levs"
    using wr_at_checked [OF os at k'(1) cs c, of rng] by blast
  let ?w1 = "\<lparr>wr_db = (wr_db w)\<lparr>db_symbols := sy\<rparr>, wr_calls = xs @ c\<lparr>cl_at := Interned sid\<rparr> # ys\<rparr>"
  have cs1: "wr_calls ?w1 = xs @ c\<lparr>cl_at := Interned sid\<rparr> # ys" by simp
  note n = wr_at_interned [OF s(2) k'(2) cs1, of sid, simplified Let_def, simplified]
  let ?w2 = "\<lparr>wr_db = (wr_db w)\<lparr>db_symbols := sy, db_next_seq := db_next_seq (wr_db w) + 1\<rparr>,
      wr_calls = xs @ c\<lparr>cl_at := Numbered (append_event (cl_args c) sid (db_next_seq (wr_db w)))\<rparr> # ys\<rparr>"
  have "wr_step os rng nf w ?w1" by (rule wr_moves [OF cs s(1)])
  moreover from n have "wr_step os rng nf ?w1 ?w2" using wr_moves [OF cs1, of os rng] by simp
  ultimately have "(wr_step os rng nf ^^ 2) w ?w2" by (auto simp: numeral_2_eq_2 relcompp_apply)
  then show ?thesis using n by (intro exI [of _ ?w2] exI [of _ sid]) simp
qed

lemma finish_call:
  assumes os: "os_good os" and at: "wr_at cfg k w es h act imms levs" and k: "k < 2 ^ 32 - 5"
    and cs: "wr_calls w = xs @ c # ys" and c: "cl_at c = Numbered e"
  shows "\<exists>w' r act' imms'. (wr_step os rng nf ^^ 3) w w' \<and> wr_at cfg (k + 3) w' (es @ [e]) h act' imms' levs \<and>
    ar_sequence_id r = sequence_id e \<and> wr_calls w' = xs @ c\<lparr>cl_at := Returned e r\<rparr> # ys \<and>
    (\<forall>m m'. db_active (wr_db w) = Some m \<longrightarrow> memtable_insert rng e m = Some m' \<longrightarrow> \<not> should_flush m' \<longrightarrow> db_active (wr_db w') = Some m')"
proof -
  have k': "k + 1 < 2 ^ 32 - 2" using k by simp
  obtain off st1 where l: "call_step os rng c (wr_db w) = Some (c\<lparr>cl_at := Logged e off\<rparr>, st1)"
      "wr_at cfg (k + 1) \<lparr>wr_db = st1, wr_calls = xs @ c\<lparr>cl_at := Logged e off\<rparr> # ys\<rparr> (es @ [e]) h act imms levs"
    using wr_at_numbered [OF os at cs c, of rng] by blast
  let ?w1 = "\<lparr>wr_db = st1, wr_calls = xs @ c\<lparr>cl_at := Logged e off\<rparr> # ys\<rparr>"
  obtain st2 act' imms' where i: "call_step os rng (c\<lparr>cl_at := Logged e off\<rparr>) st1 = Some (c\<lparr>cl_at := Inserted e off\<rparr>, st2)"
      "wr_at cfg (k + 1 + 1) \<lparr>wr_db = st2, wr_calls = xs @ c\<lparr>cl_at := Inserted e off\<rparr> # ys\<rparr> (es @ [e]) h act' imms' levs"
    using wr_at_logged [OF l(2) k', of xs "c\<lparr>cl_at := Logged e off\<rparr>" ys e off os rng] by auto
  let ?w2 = "\<lparr>wr_db = st2, wr_calls = xs @ c\<lparr>cl_at := Inserted e off\<rparr> # ys\<rparr>"
  obtain r st3 where f: "ar_sequence_id r = sequence_id e"
      "call_step os rng (c\<lparr>cl_at := Inserted e off\<rparr>) st2 = Some (c\<lparr>cl_at := Returned e r\<rparr>, st3)"
      "wr_at cfg (k + 1 + 1 + 1) \<lparr>wr_db = st3, wr_calls = xs @ c\<lparr>cl_at := Returned e r\<rparr> # ys\<rparr> (es @ [e]) h act' imms' levs"
    using wr_at_inserted [OF i(2), of xs "c\<lparr>cl_at := Inserted e off\<rparr>" ys e off os rng] by auto
  let ?w3 = "\<lparr>wr_db = st3, wr_calls = xs @ c\<lparr>cl_at := Returned e r\<rparr> # ys\<rparr>"
  have "wr_step os rng nf w ?w1" "wr_step os rng nf ?w1 ?w2" "wr_step os rng nf ?w2 ?w3"
    using wr_moves [OF cs l(1)] wr_moves [of ?w1 xs "c\<lparr>cl_at := Logged e off\<rparr>" ys os rng] i(1)
      wr_moves [of ?w2 xs "c\<lparr>cl_at := Inserted e off\<rparr>" ys os rng] f(2) by simp_all
  then have "(wr_step os rng nf ^^ 3) w ?w3" by (auto simp: numeral_3_eq_3 relcompp_apply)
  moreover have "wr_at cfg (k + 3) ?w3 (es @ [e]) h act' imms' levs" using f(3) by (simp add: numeral_3_eq_3)
  moreover have "db_active (wr_db ?w3) = Some m'" if "db_active (wr_db w) = Some m" "memtable_insert rng e m = Some m'" "\<not> should_flush m'" for m m'
    using call_step_active [OF l(1)] call_step_inserts [OF i(1)] call_step_active [OF f(2)] that c by simp
  ultimately show ?thesis using f(1) by (intro exI [of _ ?w3] exI [of _ r]) auto
qed

section \<open>Properties of concurrent appends\<close>



text \<open>Two calls at once: the second one overtakes the first between their numbers and the log.\<close>

lemma overtaking_calls:
  assumes os: "os_good os" and o: "db_open os rng cfg empty_disk = Some (Inr st0)"
    and ok: "length name < 2 ^ 16" "event_type_wf (aa_event_type a)" "event_type_wf (aa_event_type b)"
  shows "\<exists>w ea ra eb rb act imms. (wr_step os rng nf ^^ 12) \<lparr>wr_db = st0, wr_calls = []\<rparr> w \<and>
    map cl_at (wr_calls w) = [Returned ea ra, Returned eb rb] \<and> ar_sequence_id ra = 1 \<and> ar_sequence_id rb = 2 \<and>
    (\<exists>sid. ea = append_event a sid 1 \<and> eb = append_event b sid 2 \<and> symtab_lookup name (db_symbols (wr_db w)) = Some sid) \<and>
    wr_at cfg 12 w [eb, ea] [] act imms [[], [], [], []]"
proof -
  let ?w0 = "\<lparr>wr_db = st0, wr_calls = []\<rparr>" and ?R = "wr_step os rng nf" and ?levs = "[[], [], [], []] :: history list"
  let ?a = "\<lparr>cl_name = name, cl_args = a, cl_at = Checked\<rparr>" and ?b = "\<lparr>cl_name = name, cl_args = b, cl_at = Checked\<rparr>"
  have at0: "wr_at cfg 0 ?w0 [] [] [] [] ?levs" by (rule wr_at_fresh [OF os o])
  have nc: "\<not> db_closed st0" using wr_atD(2) [OF at0] by simp
  let ?w1 = "\<lparr>wr_db = st0, wr_calls = [?a]\<rparr>" and ?w2 = "\<lparr>wr_db = st0, wr_calls = [?a, ?b]\<rparr>"
  have "?R ?w0 ?w1" "?R ?w1 ?w2"
    using wr_step.entering [OF ok(1,2), of os rng nf ?w0] wr_step.entering [OF ok(1,3), of os rng nf ?w1] nc
    by (simp_all add: call_enter_def)
  then have s2: "(?R ^^ 2) ?w0 ?w2" by (auto simp: numeral_2_eq_2 relcompp_apply)
  have at2: "wr_at cfg 2 ?w2 [] [] [] [] ?levs"
    using wr_at_enter [OF wr_at_enter [OF at0 ok(1,2)] ok(1,3)] nc by (simp add: call_enter_def numeral_2_eq_2)
  have k: "(2 :: nat) < 2 ^ 32 - 4" "(2 + 2 :: nat) < 2 ^ 32 - 4" "(2 + 2 + 2 :: nat) < 2 ^ 32 - 5" "(2 + 2 + 2 + 3 :: nat) < 2 ^ 32 - 5"
    by simp_all
  have ck: "cl_at ?a = Checked" "cl_at ?b = Checked" by simp_all
  have c2: "wr_calls ?w2 = [] @ ?a # [?b]" by simp
  obtain w4 sa where w4: "(?R ^^ 2) ?w2 w4" "wr_at cfg (2 + 2) w4 [] [] [] [] ?levs"
      "wr_calls w4 = [] @ ?a\<lparr>cl_at := Numbered (append_event (cl_args ?a) sa (db_next_seq (wr_db ?w2)))\<rparr> # [?b]"
    using number_call [OF os at2 k(1) c2 ck(1), of rng nf] by (elim exE conjE) (rule that, assumption+)
  have "db_next_seq (wr_db ?w2) = 1" using next_number [OF at2] by simp
  then have c4: "wr_calls w4 = [?a\<lparr>cl_at := Numbered (append_event a sa 1)\<rparr>] @ ?b # []" using w4(3) by simp
  obtain w6 sb where w6: "(?R ^^ 2) w4 w6" "wr_at cfg (2 + 2 + 2) w6 [] [] [] [] ?levs"
      "wr_calls w6 = [?a\<lparr>cl_at := Numbered (append_event a sa 1)\<rparr>] @ ?b\<lparr>cl_at := Numbered (append_event (cl_args ?b) sb (db_next_seq (wr_db w4)))\<rparr> # []"
    using number_call [OF os w4(2) k(2) c4 ck(2), of rng nf] by (elim exE conjE) (rule that, assumption+)
  have "db_next_seq (wr_db w4) = 2" using next_number [OF w4(2)] unfolding c4 by simp
  then have c6: "wr_calls w6 = [?a\<lparr>cl_at := Numbered (append_event a sa 1)\<rparr>] @ ?b\<lparr>cl_at := Numbered (append_event b sb 2)\<rparr> # []"
    using w6(3) by simp
  obtain w9 rb act imms where w9: "(?R ^^ 3) w6 w9" "wr_at cfg (2 + 2 + 2 + 3) w9 ([] @ [append_event b sb 2]) [] act imms ?levs"
      "ar_sequence_id rb = 2" "wr_calls w9 = [] @ ?a\<lparr>cl_at := Numbered (append_event a sa 1)\<rparr> # [?b\<lparr>cl_at := Returned (append_event b sb 2) rb\<rparr>]"
    using finish_call [OF os w6(2) k(3) c6, of "append_event b sb 2" rng nf] by auto
  obtain w ra act' imms' where w: "(?R ^^ 3) w9 w" "wr_at cfg (2 + 2 + 2 + 3 + 3) w (([] @ [append_event b sb 2]) @ [append_event a sa 1]) [] act' imms' ?levs"
      "ar_sequence_id ra = 1" "wr_calls w = [?a\<lparr>cl_at := Returned (append_event a sa 1) ra\<rparr>, ?b\<lparr>cl_at := Returned (append_event b sb 2) rb\<rparr>]"
    using finish_call [OF os w9(2) k(4) w9(4), of "append_event a sa 1" rng nf] by auto
  have "(?R ^^ (2 + 2 + 2 + 3 + 3)) ?w0 w"
    using s2 w4(1) w6(1) w9(1) w(1) by (blast intro: relpowp_trans)
  then have R: "(?R ^^ 12) ?w0 w" by simp
  have "symtab_lookup name (db_symbols (wr_db w)) = Some sa" "symtab_lookup name (db_symbols (wr_db w)) = Some sb"
    using wr_atD(5) [OF w(2)] unfolding w(4) by (auto dest: call_ok_returned)
  then show ?thesis using R w w9(3)
    by (intro exI [of _ w] exI [of _ "append_event a sa 1"] exI [of _ ra] exI [of _ "append_event b sb 2"] exI [of _ rb] exI [of _ act'] exI [of _ imms'])
      auto
qed

text \<open>C14: The number of an acknowledged append can be given away again: two appends run at once, the
  first one fetches number 1 and the second one number 2, but the second one writes the log first.
  Both return. After a restart the numbers go on after the last record of the log, which is number 1, so the
  next append gets number 2 again; when it is for the same symbol and time, it takes the place of the
  second event, which no query finds any more.\<close>

theorem concurrent_numbers_repeat:
  assumes "os_good os" and "db_open os rng cfg empty_disk = Some (Inr st0)" and "wal_enabled cfg" and "length name < 2 ^ 16"
    and "event_type_wf (aa_event_type (a :: append_args))" and "event_type_wf (aa_event_type (b :: append_args))" and "event_type_wf (aa_event_type (c :: append_args))"
    and "aa_timestamp_ns c = aa_timestamp_ns b" and "c \<noteq> b"
  shows "\<exists>w ea ra eb rb st1 rc st2 q st3. (wr_step os rng nf ^^ 12) \<lparr>wr_db = st0, wr_calls = []\<rparr> w \<and>
    map cl_at (wr_calls w) = [Returned ea ra, Returned eb rb] \<and> ar_sequence_id ra = 1 \<and> ar_sequence_id rb = 2 \<and>
    db_open os rng cfg (disk_of (wr_db w)) = Some (Inr st1) \<and> db_append os rng name c st1 = Some (Inr rc, st2) \<and>
    ar_sequence_id rc = 2 \<and> db_query os req st2 = Some (Inr q, st3) \<and> eb \<notin> set (qr_rows q)"
proof -
  let ?levs = "[[], [], [], []] :: history list"
  obtain w ea ra eb rb act imms sid where w: "(wr_step os rng nf ^^ 12) \<lparr>wr_db = st0, wr_calls = []\<rparr> w"
      "map cl_at (wr_calls w) = [Returned ea ra, Returned eb rb]" "ar_sequence_id ra = 1" "ar_sequence_id rb = 2"
      "ea = append_event a sid 1" "eb = append_event b sid 2" "symtab_lookup name (db_symbols (wr_db w)) = Some sid"
      "wr_at cfg 12 w [eb, ea] [] act imms ?levs"
    using overtaking_calls [OF assms(1,2,4-6), of nf] by (elim exE conjE) (rule that, assumption+)
  obtain st1 levs' where re: "db_open os rng cfg (disk_of (wr_db w)) = Some (Inr st1)" "reopened (wr_db w) [eb, ea] (wr_db w) levs' st1"
      "length levs' = 4" "\<forall>l < 4. mset (levs' ! l) = mset (?levs ! l)"
    using wr_at_reopen [OF assms(1) w(8) _ assms(3), of rng] by auto
  let ?act1 = "fold event_upsert [eb, ea] []"
  have i: "db_holds st1 (concat levs') ?act1 [] levs'" "\<not> db_closed st1" "log_holds (db_wal st1) [eb, ea]" "names_good (db_symbols st1)"
      "symtab_lookup name (db_symbols st1) = Some sid" "db_next_seq st1 = 2" "unat (next_id (db_symbols st1)) \<le> 13"
    using re(2) w(5,7) wr_atD(4) [OF w(8)] by (simp_all add: reopened_def next_seq_after_def)
  have nx: "unat (next_id (db_symbols st1)) < 2 ^ 32 - 1" using i(7) by simp
  obtain rc st2 sc act2 imms2 where r: "db_append os rng name c st1 = Some (Inr rc, st2)" "ar_sequence_id rc = db_next_seq st1"
      "symtab_lookup name (db_symbols st2) = Some sc" "wrote (append_event c sc (db_next_seq st1)) st1 st2"
      "db_holds st2 (concat levs') act2 imms2 levs'" "inserted (append_event c sc (db_next_seq st1)) ?act1 [] act2 imms2"
    using db_append_spec [OF assms(1) i(1-4) assms(4) nx assms(7), of rng] by (elim exE conjE) (rule that, assumption+)
  have "names_kept (db_symbols st1) (db_symbols st2)" "db_closed st2 = db_closed st1" using r(4) by (simp_all add: wrote_def)
  then have sc: "sc = sid" "\<not> db_closed st2" using i(2,5) r(3) by (auto simp: names_kept_def)
  let ?ec = "append_event c sid 2"
  have "rest_of [] levs' = {#}"
    using contents_reopened [OF _ re(3,4), of "[]"] by (simp add: contents_eq rest_of_def)
  then have "contents act2 imms2 levs' = mset (event_upsert ?ec ?act1)"
    using contents_inserted [OF r(6), of levs'] i(6) by (simp add: sc(1))
  moreover have "eb \<noteq> ?ec" using assms(9) by (auto simp: w(6) append_event_def)
  moreover have "event_key eb = event_key ?ec" using assms(8) by (simp add: w(6) append_event_def event_key_def)
  ultimately have lost: "eb \<notin># contents act2 imms2 levs'"
    using set_event_upsert [OF sorted_fold_upsert [of "[eb, ea]"], of ?ec] by simp
  have "\<exists>q st3. db_query os req st2 = Some (Inr q, st3) \<and> eb \<notin> set (qr_rows q)"
  proof (cases "symtab_lookup (rq_symbol req) (db_symbols st2)")
    case None
    then show ?thesis using query_unknown [OF sc(2) None] by fastforce
  next
    case (Some s)
    then show ?thesis using query_selects [OF assms(1) r(5) sc(2) Some] lost
      by (fastforce simp: contents_def dest: in_set_takeD)
  qed
  then show ?thesis using w(1-4) re(1) r(1,2) i(6) by metis
qed

text \<open>C15: Closing does not wait for the appends that run: when \<^verbatim>\<open>close\<close> runs between the log and the insertion of
  one, it takes the active memtable away and leaves no other, unless it was empty; the append, which
  checked whether the database is open before, then follows a null pointer.\<close>

theorem append_races_close:
  assumes "os_good os" and "\<forall>n. bloom_wf (new_filter n)" and "block_target_bytes cfg < 2 ^ 32"
    and "db_open os rng cfg empty_disk = Some (Inr st0)"
    and "(wr_step os rng new_filter ^^ n) \<lparr>wr_db = st0, wr_calls = []\<rparr> w" and "n < 2 ^ 32 - 2"
    and "c \<in> set (wr_calls w)" and "cl_at c = Logged e off" and "db_active (wr_db w) = Some m" and "\<not> memtable_empty m"
  shows "\<exists>c' st' st. call_step os rng c (wr_db w) = Some (c', st') \<and> cl_at c' = Inserted e off \<and>
    db_close os new_filter order (wr_db w) = Some (Inr (), st) \<and> call_step os rng c st = None"
proof -
  obtain es h act imms levs where at: "wr_at cfg n w es h act imms levs"
    using wr_inv_steps [OF assms(1-3) wr_inv_fresh [OF assms(1,4)] assms(5)] assms(6) unfolding wr_inv_def by auto
  obtain xs ys where cs: "wr_calls w = xs @ c # ys" using split_list [OF assms(7)] by blast
  obtain st' where "call_step os rng c (wr_db w) = Some (c\<lparr>cl_at := Inserted e off\<rparr>, st')"
    using wr_at_logged [OF at assms(6) cs assms(8), of os rng] by blast
  moreover obtain ts stf where f: "flush_now os new_filter (wr_db w) = Some (Inr (), stf)"
    using wr_at_flush [OF assms(1-3) at assms(6)] by blast
  note cl = db_close_flush [OF assms(1) wr_atD(2) [OF at] assms(9) f, of order]
  have "insert_active rng e ((front (if memtable_empty m then Some m else None) True stf)
      \<lparr>db_wal := map_option wal_close (db_wal stf), db_symbols := snd (symtab_flush os order (db_symbols stf))\<rparr>) = None"
    using assms(10) by (simp add: insert_active_def)
  then have "call_step os rng c ((front (if memtable_empty m then Some m else None) True stf)
      \<lparr>db_wal := map_option wal_close (db_wal stf), db_symbols := snd (symtab_flush os order (db_symbols stf))\<rparr>) = None"
    using assms(8) by (simp add: call_step_def)
  ultimately show ?thesis using cl by (intro exI conjI) (assumption, simp, assumption+)
qed

section \<open>Sample runs\<close>

lemma sample_wf: "event_type_wf (aa_event_type (sample_args ts))" "length ''AAPL'' < 2 ^ 16"
    "block_target_bytes (sample_config True) < 2 ^ 32" "wal_enabled (sample_config True)" "os_good os_ok"
  by (simp_all add: sample_args_def sample_config_def os_good_def)

lemma sample_open: "\<exists>st0. db_open os_ok (\<lambda>_. 1) (sample_config True) empty_disk = Some (Inr st0)"
  using db_open_fresh [OF sample_wf(5)] by blast

lemma sample_overtaking:
  "\<exists>st0 w. db_open os_ok (\<lambda>_. 1) (sample_config True) empty_disk = Some (Inr st0) \<and>
    (wr_step os_ok (\<lambda>_. 1) sample_filter ^^ 12) \<lparr>wr_db = st0, wr_calls = []\<rparr> w \<and> length (wr_calls w) = 2"
proof -
  obtain st0 where o: "db_open os_ok (\<lambda>_. 1) (sample_config True) empty_disk = Some (Inr st0)" using sample_open by blast
  obtain w ea ra eb rb where w: "(wr_step os_ok (\<lambda>_. 1) sample_filter ^^ 12) \<lparr>wr_db = st0, wr_calls = []\<rparr> w"
      "map cl_at (wr_calls w) = [Returned ea ra, Returned eb rb]"
    using overtaking_calls [OF sample_wf(5) o sample_wf(2,1,1), of sample_filter 10 20] by (elim exE conjE) (rule that)
  have "length (wr_calls w) = 2" using arg_cong [OF w(2), of length] by simp
  then show ?thesis using o w(1) by blast
qed



lemma concurrent_numbers_repeat_witness:
  "\<exists>st0 w ea ra eb rb st1 rc st2 q st3. db_open os_ok (\<lambda>_. 1) (sample_config True) empty_disk = Some (Inr st0) \<and>
    (wr_step os_ok (\<lambda>_. 1) sample_filter ^^ 12) \<lparr>wr_db = st0, wr_calls = []\<rparr> w \<and>
    map cl_at (wr_calls w) = [Returned ea ra, Returned eb rb] \<and> ar_sequence_id ra = 1 \<and> ar_sequence_id rb = 2 \<and>
    db_open os_ok (\<lambda>_. 1) (sample_config True) (disk_of (wr_db w)) = Some (Inr st1) \<and>
    db_append os_ok (\<lambda>_. 1) ''AAPL'' ((sample_args 20)\<lparr>aa_quantity := 77\<rparr>) st1 = Some (Inr rc, st2) \<and> ar_sequence_id rc = 2 \<and>
    db_query os_ok sample_request st2 = Some (Inr q, st3) \<and> eb \<notin> set (qr_rows q)"
proof -
  let ?c = "(sample_args 20)\<lparr>aa_quantity := 77\<rparr>"
  obtain st0 where o: "db_open os_ok (\<lambda>_. 1) (sample_config True) empty_disk = Some (Inr st0)" using sample_open by blast
  have c: "event_type_wf (aa_event_type ?c)" "aa_timestamp_ns ?c = aa_timestamp_ns (sample_args 20)" "?c \<noteq> sample_args 20"
    by (simp_all add: sample_args_def)
  from concurrent_numbers_repeat [OF sample_wf(5) o sample_wf(4,2,1,1) c, where nf = sample_filter and req = sample_request]
  show ?thesis by (elim exE conjE) (intro exI conjI, rule o, assumption+)
qed

text \<open>One append has returned.\<close>

lemma sample_returned:
  "\<exists>st0 w e act imms m. db_open os_ok (\<lambda>_. 1) (sample_config True) empty_disk = Some (Inr st0) \<and>
    (wr_step os_ok (\<lambda>_. 1) sample_filter ^^ 6) \<lparr>wr_db = st0, wr_calls = []\<rparr> w \<and>
    wr_at (sample_config True) 6 w [e] [] act imms [[], [], [], []] \<and> db_active (wr_db w) = Some m \<and> \<not> memtable_empty m"
proof -
  let ?R = "wr_step os_ok (\<lambda>_. 1) sample_filter" and ?cfg = "sample_config True" and ?levs = "[[], [], [], []] :: history list"
  let ?t = "memtable_flush_bytes ?cfg" and ?c = "\<lparr>cl_name = ''AAPL'', cl_args = sample_args 10, cl_at = Checked\<rparr>"
  note os = sample_wf(5)
  obtain st0 where o: "db_open os_ok (\<lambda>_. 1) ?cfg empty_disk = Some (Inr st0)" using sample_open by blast
  have a0: "db_active st0 = Some (memtable_new ?t)" using db_open_new [OF o] by blast
  let ?w0 = "\<lparr>wr_db = st0, wr_calls = []\<rparr>" and ?w1 = "\<lparr>wr_db = st0, wr_calls = [?c]\<rparr>"
  have at0: "wr_at ?cfg 0 ?w0 [] [] [] [] ?levs" by (rule wr_at_fresh [OF os o])
  have nc: "\<not> db_closed st0" using wr_atD(2) [OF at0] by simp
  have r1: "?R ?w0 ?w1" using wr_step.entering [OF sample_wf(2,1), of os_ok "\<lambda>_. 1" sample_filter ?w0 10] nc by (simp add: call_enter_def)
  have at1: "wr_at ?cfg 1 ?w1 [] [] [] [] ?levs"
    using wr_at_enter [OF at0 sample_wf(2,1), of 10] nc by (simp add: call_enter_def)
  have k: "(1 :: nat) < 2 ^ 32 - 4" "(1 + 2 :: nat) < 2 ^ 32 - 5" by simp_all
  have c1: "wr_calls ?w1 = [] @ ?c # []" "cl_at ?c = Checked" by simp_all
  obtain w2 sid where w2: "(?R ^^ 2) ?w1 w2" "wr_at ?cfg (1 + 2) w2 [] [] [] [] ?levs" "db_active (wr_db w2) = db_active (wr_db ?w1)"
      "wr_calls w2 = [] @ ?c\<lparr>cl_at := Numbered (append_event (cl_args ?c) sid (db_next_seq (wr_db ?w1)))\<rparr> # []"
    using number_call [OF os at1 k(1) c1, of "\<lambda>_. 1" sample_filter] by (elim exE conjE) (rule that, assumption+)
  let ?e = "append_event (cl_args ?c) sid (db_next_seq (wr_db ?w1))"
  obtain w3 r act imms where w3: "(?R ^^ 3) w2 w3" "wr_at ?cfg (1 + 2 + 3) w3 ([] @ [?e]) [] act imms ?levs"
      "wr_calls w3 = [?c\<lparr>cl_at := Returned ?e r\<rparr>]"
      "\<forall>m m'. db_active (wr_db w2) = Some m \<longrightarrow> memtable_insert (\<lambda>_. 1) ?e m = Some m' \<longrightarrow> \<not> should_flush m' \<longrightarrow> db_active (wr_db w3) = Some m'"
    using finish_call [OF os w2(2) k(2) w2(4), of ?e "\<lambda>_. 1" sample_filter] by auto
  obtain m where m: "memtable_insert (\<lambda>_. 1) ?e (memtable_new ?t) = Some m" "memtable_rel m (event_upsert ?e [])"
    using memtable_insert_spec [OF memtable_rel_new] by blast
  have "flush_threshold m = 67108864" using memtable_insert_arena [OF m(1)] by (simp add: memtable_new_def sample_config_def)
  then have "\<not> should_flush m"
    using memtable_fill_insert(3) [OF memtable_fill_new m(1)] memory_new [of ?t]
    by (simp add: should_flush_def flip: memtable_size_bytes_def)
  then have a3: "db_active (wr_db w3) = Some m" "\<not> memtable_empty m"
    using w3(4) w2(3) a0 m(1) memtable_empty_spec [OF m(2)] by simp_all
  have "(?R ^^ (1 + 2 + 3)) ?w0 w3"
    by (rule relpowp_trans [OF relpowp_trans [OF _ w2(1)] w3(1)]) (simp only: relpowp_1 r1)
  then have "(?R ^^ 6) ?w0 w3" "wr_at ?cfg 6 w3 [?e] [] act imms ?levs" using w3(2) by simp_all
  then show ?thesis using o a3 by (intro exI conjI)
qed

text \<open>Another one has just written the log.\<close>

lemma sample_logged:
  "\<exists>st0 w c e off m. db_open os_ok (\<lambda>_. 1) (sample_config True) empty_disk = Some (Inr st0) \<and>
    (wr_step os_ok (\<lambda>_. 1) sample_filter ^^ 10) \<lparr>wr_db = st0, wr_calls = []\<rparr> w \<and>
    c \<in> set (wr_calls w) \<and> cl_at c = Logged e off \<and> db_active (wr_db w) = Some m \<and> \<not> memtable_empty m"
proof -
  let ?R = "wr_step os_ok (\<lambda>_. 1) sample_filter" and ?cfg = "sample_config True" and ?levs = "[[], [], [], []] :: history list"
  let ?c = "\<lparr>cl_name = ''AAPL'', cl_args = sample_args 10, cl_at = Checked\<rparr>"
  note os = sample_wf(5)
  obtain st0 w3 e act imms m where o: "db_open os_ok (\<lambda>_. 1) ?cfg empty_disk = Some (Inr st0)"
      and w3: "(?R ^^ 6) \<lparr>wr_db = st0, wr_calls = []\<rparr> w3" "wr_at ?cfg 6 w3 [e] [] act imms ?levs"
      and a3: "db_active (wr_db w3) = Some m" "\<not> memtable_empty m"
    using sample_returned by (elim exE conjE) (rule that)
  let ?w0 = "\<lparr>wr_db = st0, wr_calls = []\<rparr>"
  have k: "(6 + 1 :: nat) < 2 ^ 32 - 4" and ck: "cl_at ?c = Checked" by simp_all
  let ?w4 = "w3\<lparr>wr_calls := wr_calls w3 @ [?c]\<rparr>"
  have r4: "?R w3 ?w4" and at4: "wr_at ?cfg (6 + 1) ?w4 [e] [] act imms ?levs"
    using wr_step.entering [OF sample_wf(2,1), of os_ok "\<lambda>_. 1" sample_filter w3 10] wr_at_enter [OF w3(2) sample_wf(2,1), of 10]
      wr_atD(2) [OF w3(2)] by (simp_all add: call_enter_def)
  have c4: "wr_calls ?w4 = wr_calls w3 @ ?c # []" by simp
  obtain w5 sid' where w5: "(?R ^^ 2) ?w4 w5" "wr_at ?cfg (6 + 1 + 2) w5 [e] [] act imms ?levs" "db_active (wr_db w5) = db_active (wr_db ?w4)"
      "wr_calls w5 = wr_calls w3 @ ?c\<lparr>cl_at := Numbered (append_event (cl_args ?c) sid' (db_next_seq (wr_db ?w4)))\<rparr> # []"
    using number_call [OF os at4 k c4 ck, of "\<lambda>_. 1" sample_filter] by (elim exE conjE) (rule that, assumption+)
  let ?c5 = "?c\<lparr>cl_at := Numbered (append_event (cl_args ?c) sid' (db_next_seq (wr_db ?w4)))\<rparr>"
  obtain off st where l: "call_step os_ok (\<lambda>_. 1) ?c5 (wr_db w5) = Some (?c5\<lparr>cl_at := Logged (append_event (cl_args ?c) sid' (db_next_seq (wr_db ?w4))) off\<rparr>, st)"
    using wr_at_numbered [OF os w5(2,4), of "append_event (cl_args ?c) sid' (db_next_seq (wr_db ?w4))" "\<lambda>_. 1"] by auto
  have a6: "db_active st = Some m" using call_step_active [OF l] w5(3) a3 by simp
  let ?fin = "\<lparr>wr_db = st, wr_calls = wr_calls w3 @ ?c5\<lparr>cl_at := Logged (append_event (cl_args ?c) sid' (db_next_seq (wr_db ?w4))) off\<rparr> # []\<rparr>"
  have "?R w5 ?fin"
    by (rule wr_moves [OF w5(4) l])
  moreover have "(?R ^^ (6 + 1 + 2)) ?w0 w5"
    by (rule relpowp_trans [OF relpowp_trans [OF w3(1)] w5(1)]) (simp only: relpowp_1 r4)
  ultimately have "(?R ^^ 10) ?w0 ?fin" using relpowp_Suc_I [of 9 ?R ?w0 w5 ?fin] by simp
  then show ?thesis using o a3(2) a6
    by (intro exI [of _ st0] exI [of _ ?fin] exI) (intro conjI, assumption+, auto)
qed

lemma append_races_close_witness:
  "\<exists>st0 w c e off c' st' st. db_open os_ok (\<lambda>_. 1) (sample_config True) empty_disk = Some (Inr st0) \<and>
    (wr_step os_ok (\<lambda>_. 1) sample_filter ^^ 10) \<lparr>wr_db = st0, wr_calls = []\<rparr> w \<and> c \<in> set (wr_calls w) \<and>
    call_step os_ok (\<lambda>_. 1) c (wr_db w) = Some (c', st') \<and> cl_at c' = Inserted e off \<and>
    db_close os_ok sample_filter (\<lambda>xs. xs) (wr_db w) = Some (Inr (), st) \<and> call_step os_ok (\<lambda>_. 1) c st = None"
proof -
  obtain st0 w c e off m where w: "db_open os_ok (\<lambda>_. 1) (sample_config True) empty_disk = Some (Inr st0)"
      "(wr_step os_ok (\<lambda>_. 1) sample_filter ^^ 10) \<lparr>wr_db = st0, wr_calls = []\<rparr> w"
      "c \<in> set (wr_calls w)" "cl_at c = Logged e off" "db_active (wr_db w) = Some m" "\<not> memtable_empty m"
    using sample_logged by (elim exE conjE) (rule that)
  have n: "(10 :: nat) < 2 ^ 32 - 2" by simp
  show ?thesis
    using append_races_close [OF sample_wf(5) sample_filter_wf sample_wf(3) w(1,2) n w(3-6), of "\<lambda>xs. xs"] w(1-3) by blast
qed

end
