(* ===== verification/DBProgress.thy ===== *)
theory DBProgress
  imports DBThreads
begin

text \<open>
  The flush thread (\<^verbatim>\<open>DB::flush_loop\<close> of db/db.cpp) makes progress: whatever the clients do between
  its steps, a memtable that waits for it is on disk after a number of its own steps that
  depends only on the place of the memtable in the queue.
\<close>

section \<open>One flush thread among clients\<close>

text \<open>The next step of the thread; it has at most one flush in flight.\<close>

definition flush_turn :: "os \<Rightarrow> (u32 \<Rightarrow> bloom) \<Rightarrow> threads \<Rightarrow> threads option" where
  "flush_turn os nf th =
     (case th_flight th of
        [] \<Rightarrow> th_take th
      | (m, None) # fl \<Rightarrow> th_number 0 th
      | (m, Some sq) # fl \<Rightarrow> th_done os nf 0 th)"

text \<open>A run with the number of the thread's own steps and that of all steps.\<close>

inductive flush_run ::
  "os \<Rightarrow> (nat \<Rightarrow> u32) \<Rightarrow> (u32 \<Rightarrow> bloom) \<Rightarrow> threads \<Rightarrow> nat \<Rightarrow> nat \<Rightarrow> threads \<Rightarrow> bool" for os rng nf th0 where
  start: "flush_run os rng nf th0 0 0 th0"
| own: "flush_run os rng nf th0 i k th \<Longrightarrow> flush_turn os nf th = Some th' \<Longrightarrow> flush_run os rng nf th0 (i + 1) (k + 1) th'"
| client: "flush_run os rng nf th0 i k th \<Longrightarrow> client_op op \<Longrightarrow> db_exec os rng nf op (th_db th) = Some (an, st) \<Longrightarrow>
    flush_run os rng nf th0 i (k + 1) (th\<lparr>th_db := st\<rparr>)"
| rotate: "flush_run os rng nf th0 i k th \<Longrightarrow> flush_run os rng nf th0 i (k + 1) (th\<lparr>th_db := rotate_active (th_db th)\<rparr>)"

text \<open>Own steps until a flush in flight is published.\<close>

fun flight_turns :: "(memtable \<times> u64 option) list \<Rightarrow> nat" where
  "flight_turns [] = 0"
| "flight_turns ((m, None) # fl) = 2"
| "flight_turns ((m, Some sq) # fl) = 1"

section \<open>Clients leave the queue in front alone\<close>

definition queue_grows :: "db \<Rightarrow> db \<Rightarrow> bool" where
  "queue_grows st st' \<longleftrightarrow> (\<exists>ms. db_imm st' = db_imm st @ ms)"

lemma queue_grows_refl [simp]: "db_imm st' = db_imm st \<Longrightarrow> queue_grows st st'"
  by (simp add: queue_grows_def)

lemma log_event_imm: "log_event os e st = (r, st') \<Longrightarrow> db_imm st' = db_imm st"
  by (auto simp: log_event_def split: option.splits prod.splits sum.splits)

lemma insert_active_grows: "insert_active rng e st = Some st' \<Longrightarrow> queue_grows st st'"
  by (auto simp: insert_active_def bind_eq_Some_conv queue_grows_def split: if_splits)

lemma rotate_active_grows: "queue_grows st (rotate_active st)"
  by (auto simp: rotate_active_def queue_grows_def split: option.split)

lemma db_append_grows: "db_append os rng name a st = Some (r, st') \<Longrightarrow> queue_grows st st'"
  by (auto simp: db_append_def Let_def bind_eq_Some_conv queue_grows_def
      split: if_splits prod.splits sum.splits dest!: log_event_imm insert_active_grows)

lemma db_remove_grows: "db_remove os rng name ts sq st = Some (r, st') \<Longrightarrow> queue_grows st st'"
  by (auto simp: db_remove_def Let_def bind_eq_Some_conv queue_grows_def
      split: if_splits prod.splits sum.splits dest!: log_event_imm insert_active_grows)

lemma db_query_imm: "db_query os req st = Some (r, st') \<Longrightarrow> db_imm st' = db_imm st"
  by (auto simp: db_query_def Let_def bind_eq_Some_conv case_prod_beta split: if_splits option.splits)

lemma client_grows:
  "client_op op \<Longrightarrow> db_exec os rng nf op st = Some (an, st') \<Longrightarrow> queue_grows st st'"
  by (cases op) (auto dest: db_append_grows db_remove_grows db_query_imm)

lemma th_at_client:
  assumes os: "os_good os" and at: "th_at cfg k th lg rm h act imms fes levs" and k: "k < 2 ^ 32 - 2"
    and c: "client_op op" "db_exec os rng nf op (th_db th) = Some (an, st)"
  shows "\<exists>lg' rm' act' imms'. th_at cfg (k + 1) (th\<lparr>th_db := st\<rparr>) lg' rm' h act' imms' fes levs"
proof (cases op)
  case (Op_append name a)
  then obtain r where "db_append os rng name a (th_db th) = Some (r, st)" "op_ok (Op_append name a)" using c by auto
  then show ?thesis using th_at_append [OF os at k] by blast
next
  case (Op_remove name ts sq)
  then obtain r where "db_remove os rng name ts sq (th_db th) = Some (r, st)" "op_ok (Op_remove name ts sq)" using c by auto
  then show ?thesis using th_at_remove [OF os at k] by blast
next
  case (Op_query req)
  then obtain r where "db_query os req (th_db th) = Some (r, st)" using c by auto
  then show ?thesis using th_at_query [OF os at] by blast
qed (use c in auto)

section \<open>Following one memtable\<close>

text \<open>
  The memtable \<open>m\<close> waits in the queue or is in flight, and the thread is to be published with
  its \<open>D\<close>-th own step, of which \<open>i\<close> are done; afterwards its events are in tables.
\<close>

definition waits :: "memtable \<Rightarrow> nat \<Rightarrow> nat \<Rightarrow> threads \<Rightarrow> bool" where
  "waits m D i th \<longleftrightarrow>
     (\<exists>p < length (db_imm (th_db th)). db_imm (th_db th) ! p = m \<and> D = i + 3 * (p + 1) + flight_turns (th_flight th)) \<or>
     (\<exists>n. th_flight th = [(m, n)] \<and> D = i + flight_turns (th_flight th))"

definition in_tables :: "event list \<Rightarrow> history list \<Rightarrow> bool" where
  "in_tables es levs \<longleftrightarrow> mset es \<subseteq># mset (concat (events_of (concat levs)))"

definition followed :: "db_config \<Rightarrow> memtable \<Rightarrow> event list \<Rightarrow> nat \<Rightarrow> nat \<Rightarrow> nat \<Rightarrow> threads \<Rightarrow> bool" where
  "followed cfg m es D i k th \<longleftrightarrow>
     (\<exists>lg rm h act imms fes levs. th_at cfg k th lg rm h act imms fes levs \<and> length (th_flight th) \<le> 1 \<and>
        (waits m D i th \<or> D \<le> i \<and> in_tables es levs))"

lemma followedI:
  "th_at cfg k th lg rm h act imms fes levs \<Longrightarrow> length (th_flight th) \<le> 1 \<Longrightarrow> waits m D i th \<or> D \<le> i \<and> in_tables es levs \<Longrightarrow>
    followed cfg m es D i k th"
  unfolding followed_def by blast

lemma waits_grows: "waits m D i th \<Longrightarrow> queue_grows (th_db th) st \<Longrightarrow> waits m D i (th\<lparr>th_db := st\<rparr>)"
  by (auto simp: waits_def queue_grows_def nth_append)

lemma followed_grows:
  assumes f: "followed cfg m es D i k th" and g: "queue_grows (th_db th) st"
    and at: "\<And>lg rm h act imms fes levs. th_at cfg k th lg rm h act imms fes levs \<Longrightarrow>
      \<exists>lg' rm' act' imms'. th_at cfg (k + 1) (th\<lparr>th_db := st\<rparr>) lg' rm' h act' imms' fes levs"
  shows "followed cfg m es D i (k + 1) (th\<lparr>th_db := st\<rparr>)"
proof -
  obtain lg rm h act imms fes levs where t: "th_at cfg k th lg rm h act imms fes levs" "length (th_flight th) \<le> 1"
      "waits m D i th \<or> D \<le> i \<and> in_tables es levs" using f unfolding followed_def by blast
  moreover obtain lg' rm' act' imms' where "th_at cfg (k + 1) (th\<lparr>th_db := st\<rparr>) lg' rm' h act' imms' fes levs" using at [OF t(1)] by blast
  ultimately show ?thesis unfolding followed_def using waits_grows [OF _ g] by fastforce
qed

lemma in_tables_published:
  assumes "contents act (fes' @ imms) levs' = contents act (fes @ imms) levs" and "fes' = take i fes @ drop (Suc i) fes" and "i < length fes"
  shows "mset (concat (events_of (concat levs'))) = mset (fes ! i) + mset (concat (events_of (concat levs)))"
proof -
  have "mset (concat fes) = mset (concat (take i fes @ fes ! i # drop (Suc i) fes))"
    using id_take_nth_drop [OF assms(3)] by simp
  then have "mset (concat fes) = mset (fes ! i) + mset (concat fes')" by (simp add: assms(2) ac_simps)
  then show ?thesis using assms(1) by (simp add: contents_eq rest_of_def)
qed

text \<open>A step of the thread.\<close>

lemma followed_own:
  assumes os: "os_progress os" and nf: "\<forall>n. bloom_wf (nf n)" and b: "block_target_bytes cfg < 2 ^ 32"
    and m: "to_sorted_events m = Some es" and f: "followed cfg m es D i k th" and k: "k < 2 ^ 32 - 2"
    and t: "flush_turn os nf th = Some th'"
  shows "followed cfg m es D (i + 1) (k + 1) th'"
proof -
  obtain lg rm h act imms fes levs where at: "th_at cfg k th lg rm h act imms fes levs" "length (th_flight th) \<le> 1"
      "waits m D i th \<or> D \<le> i \<and> in_tables es levs" using f unfolding followed_def by blast
  show ?thesis
  proof (cases "th_flight th")
    case Nil
    then have tk: "th_take th = Some th'" using t by (simp add: flush_turn_def)
    then obtain m' ms where q: "db_imm (th_db th) = m' # ms"
        "th' = \<lparr>th_db = (th_db th)\<lparr>db_imm := ms\<rparr>, th_flight = [(m', None)]\<rparr>"
      using Nil by (auto simp: th_take_def split: list.splits)
    have "waits m D (i + 1) th' \<or> D \<le> i + 1 \<and> in_tables es levs"
      using at(3)
    proof
      assume "waits m D i th"
      then obtain p where p: "p < length (m' # ms)" "(m' # ms) ! p = m" "D = i + 3 * (p + 1)" using Nil by (auto simp: waits_def q(1))
      then show ?thesis by (cases p) (auto simp: waits_def q(2))
    qed auto
    moreover obtain es' imms' where "th_at cfg (k + 1) th' lg rm h act imms' (fes @ [es']) levs"
      using th_at_take [OF at(1) tk] by blast
    ultimately show ?thesis using followedI by (fastforce simp: q(2))
  next
    case (Cons fl rest)
    obtain m' n where fl: "th_flight th = [(m', n)]" using Cons at(2) by (cases fl; cases rest) auto
    have z: "0 < length (th_flight th)" "th_flight th ! 0 = (m', n)" by (simp_all add: fl)
    show ?thesis
    proof (cases n)
      case None
      then have nu: "th_number 0 th = Some th'" using t fl by (simp add: flush_turn_def)
      then have q: "th' = \<lparr>th_db = (th_db th)\<lparr>db_sst_seq := db_sst_seq (th_db th) + 1\<rparr>, th_flight = [(m', Some (db_sst_seq (th_db th)))]\<rparr>"
        using fl None by (simp add: th_number_def)
      have "waits m D (i + 1) th' \<or> D \<le> i + 1 \<and> in_tables es levs" using at(3) fl None by (auto simp: waits_def q)
      then show ?thesis using followedI [OF th_at_number [OF at(1) nu k]] by (simp add: q)
    next
      case (Some sq)
      have dn: "th_done os nf 0 th = Some th'" using t fl Some by (simp add: flush_turn_def)
      have z2: "th_flight th ! 0 = (m', Some sq)" using z(2) Some by simp
      obtain th2 h' fes' levs' where d: "th_done os nf 0 th = Some th2" "th_at cfg (k + 1) th2 lg rm h' act imms fes' levs'"
          "contents act (fes' @ imms) levs' = contents act (fes @ imms) levs" "fes' = take 0 fes @ drop (Suc 0) fes"
        using th_at_done [OF os nf b at(1) k z(1) z2] by blast
      have e: "th2 = th'" using d(1) dn by simp
      obtain x where x: "fes = [x]" using at(1) fl by (auto simp: th_at_def length_Suc_conv)
      have xe: "to_sorted_events m' = Some x"
        using th_at_holds(2) [OF at(1)] by (simp add: fl x to_sorted_events_spec)
      have tb: "mset (concat (events_of (concat levs'))) = mset x + mset (concat (events_of (concat levs)))"
        using in_tables_published [OF d(3,4)] by (simp add: x)
      obtain st where st: "th_db th' = st" "th_flight th' = []" "db_imm st = db_imm (th_db th)"
        using th_done_step [OF dn] do_flush_imm fl by fastforce
      have "waits m D (i + 1) th' \<or> D \<le> i + 1 \<and> in_tables es levs'"
        using at(3)
      proof
        assume "waits m D i th"
        then consider p where "p < length (db_imm (th_db th))" "db_imm (th_db th) ! p = m" "D = i + 3 * (p + 1) + 1" | "m' = m" "D = i + 1"
          using fl Some by (auto simp: waits_def)
        then show ?thesis
        proof cases
          case 1
          then show ?thesis by (auto simp: waits_def st)
        next
          case 2
          then have "x = es" using xe m by simp
          then show ?thesis using 2 by (simp add: in_tables_def tb)
        qed
      qed (auto simp: in_tables_def tb intro: subset_mset.order_trans)
      then show ?thesis using followedI [OF d(2) [unfolded e]] st(2) by simp
    qed
  qed
qed

lemma followed_run:
  assumes os: "os_good os" and nf: "\<forall>n. bloom_wf (nf n)" and b: "block_target_bytes cfg < 2 ^ 32"
    and m: "to_sorted_events m = Some es"
  shows "flush_run os rng nf th0 i k th \<Longrightarrow> followed cfg m es D i0 k0 th0 \<Longrightarrow> k0 + k < 2 ^ 32 - 1 \<Longrightarrow>
    followed cfg m es D (i0 + i) (k0 + k) th"
proof (induction i k th rule: flush_run.induct)
  case (own i k th th')
  have op: "os_progress os" using os by (simp add: os_progress_def)
  have "k0 + k < 2 ^ 32 - 2" using own.prems(2) by simp
  from followed_own [OF op nf b m _ this own.hyps(2)] own show ?case by simp
next
  case (client i k th op an st)
  then have f: "followed cfg m es D (i0 + i) (k0 + k) th" and k: "k0 + k < 2 ^ 32 - 2" by simp_all
  show ?case using followed_grows [OF f client_grows [OF client.hyps(2,3)]] th_at_client [OF os _ k client.hyps(2,3)] by simp
next
  case (rotate i k th)
  then have f: "followed cfg m es D (i0 + i) (k0 + k) th" by simp
  have r: "\<exists>lg' rm' act' imms'. th_at cfg (k0 + k + 1) (th\<lparr>th_db := rotate_active (th_db th)\<rparr>) lg' rm' h act' imms' fes levs"
    if "th_at cfg (k0 + k) th lg rm h act imms fes levs" for lg rm h act imms fes levs using th_at_rotate [OF that] by blast
  show ?case using followed_grows [OF f rotate_active_grows r] by simp
qed simp

text \<open>As long as there is work the thread has a next step.\<close>

lemma flush_turn_enabled:
  assumes os: "os_progress os" and nf: "\<forall>n. bloom_wf (nf n)" and b: "block_target_bytes cfg < 2 ^ 32"
    and at: "th_at cfg k th lg rm h act imms fes levs" and k: "k < 2 ^ 32 - 2" and w: "waits m D i th"
  shows "flush_turn os nf th \<noteq> None"
proof (cases "th_flight th")
  case Nil
  then show ?thesis using w by (auto simp: waits_def flush_turn_def th_take_def split: list.split)
next
  case (Cons fl rest)
  obtain m' n where fl: "fl = (m', n)" by fastforce
  have z: "0 < length (th_flight th)" "th_flight th ! 0 = (m', n)" by (simp_all add: Cons fl)
  show ?thesis
  proof (cases n)
    case None
    then show ?thesis using z by (simp add: Cons fl flush_turn_def th_number_def)
  next
    case (Some sq)
    then have z2: "th_flight th ! 0 = (m', Some sq)" using z(2) by simp
    obtain th2 where "th_done os nf 0 th = Some th2" using th_at_done [OF os nf b at k z(1) z2] by blast
    then show ?thesis by (simp add: Cons fl Some flush_turn_def)
  qed
qed

text \<open>What is in tables outlives the process.\<close>

lemma tables_survive:
  assumes os: "os_good os" and at: "th_at cfg k th lg rm h act imms fes levs" and nw: "\<not> wal_enabled cfg"
    and e: "e \<in> set es" "in_tables es levs" "symtab_lookup (rq_symbol req) (db_symbols (th_db th)) = Some (symbol_id e)"
      "selects req (symbol_id e) e" "k \<le> query_limit req"
  shows "\<exists>st1 r st2. db_open os rng cfg (disk_of (th_db th)) = Some (Inr st1) \<and> db_query os req st1 = Some (Inr r, st2) \<and> e \<in> set (qr_rows r)"
proof -
  let ?st = "th_db th"
  have h: "db_holds ?st h act imms levs" "db_cfg ?st = cfg" using th_at_holds [OF at] by blast+
  have w: "names_good (db_symbols ?st)" "size (contents act (fes @ imms) levs) \<le> k"
    using at by (simp_all add: th_at_def run_at_def)
  have rp: "replays (db_cfg ?st) (disk_of ?st) []" using nw h(2) by (simp add: replays_def)
  have "dk_tables (disk_of ?st) = db_tables ?st" by (simp add: disk_of_def)
  from db_reopen_spec [OF os h(1) disk_names [OF os w(1)] this rp, of rng] obtain st1 levs' where
      re: "db_open os rng cfg (disk_of ?st) = Some (Inr st1)" "reopened ?st [] ?st levs' st1" "length levs' = 4"
        "\<forall>l < 4. mset (levs' ! l) = mset (levs ! l)" unfolding h(2) by blast
  have r: "db_holds st1 (concat levs') [] [] levs'" "\<not> db_closed st1"
      "symtab_lookup (rq_symbol req) (db_symbols st1) = Some (symbol_id e)"
    using re(2) e(3) by (simp_all add: reopened_def)
  have l: "length levs = 4" using h(1) by (simp add: db_holds_def)
  have c: "contents [] [] levs' = mset (concat (events_of (concat levs)))" using contents_reopened [OF l re(3,4), of "[]"] by simp
  have "contents [] [] levs' \<subseteq># contents act (fes @ imms) levs" unfolding c by (simp add: contents_eq rest_of_def)
  then have "size (contents [] [] levs') \<le> size (contents act (fes @ imms) levs)" by (rule size_mset_mono)
  then have "size (contents [] [] levs') \<le> query_limit req" using w(2) e(5) by simp
  from selected_rows [OF os r this] obtain q st2 where q: "db_query os req st1 = Some (Inr q, st2)"
      "set (qr_rows q) = {x \<in> set_mset (contents [] [] levs'). selects req (symbol_id e) x}" by blast
  have "e \<in># contents [] [] levs'" using e(1) mset_subset_eqD [OF e(2) [unfolded in_tables_def], of e] unfolding c by simp
  then show ?thesis using re(1) q e(4) by blast
qed

lemma followed_fresh:
  assumes "os_good os" and "db_open os rng cfg empty_disk = Some (Inr st0)"
  shows "followed cfg m [] 0 0 0 \<lparr>th_db = st0, th_flight = []\<rparr>"
proof -
  obtain st where "db_open os rng cfg empty_disk = Some (Inr st)" "run_at cfg 0 st [] [] [] [] [] [[], [], [], []]"
    using db_open_fresh [OF assms(1)] by blast
  then have "run_at cfg 0 st0 [] [] [] [] [] [[], [], [], []]" using assms(2) by simp
  from followedI [OF th_start [OF this]] show ?thesis by (simp add: in_tables_def)
qed

section \<open>Property\<close>

text \<open>C6: The flush thread always gets to a waiting memtable: when one stands at place \<open>p\<close> of the queue, then
  whatever clients append, remove, query and rotate between the steps of the thread, it has a
  next step until it has done \<open>3 (p + 1)\<close> steps, and those of a flush it was in; and from then on
  every event of the memtable is on disk: without a log, and when the process dies at any later
  moment, the next opening of the directory finds it.\<close>

theorem flush_thread_publishes:
  assumes "os_good os" and "\<forall>n. bloom_wf (new_filter n)" and "block_target_bytes cfg < 2 ^ 32" and "\<not> wal_enabled cfg"
    and "db_open os rng cfg empty_disk = Some (Inr st0)" and "flush_run os rng new_filter \<lparr>th_db = st0, th_flight = []\<rparr> i0 k0 th"
    and "p < length (db_imm (th_db th))" and "to_sorted_events (db_imm (th_db th) ! p) = Some es" and "e \<in> set es"
    and "flush_run os rng new_filter th i k th'" and "k0 + k < 2 ^ 32 - 2" and "k0 + k \<le> query_limit req"
    and "symtab_lookup (rq_symbol req) (db_symbols (th_db th')) = Some (symbol_id e)" and "selects req (symbol_id e) e"
  defines "turns \<equiv> 3 * (p + 1) + flight_turns (th_flight th)"
  shows "i < turns \<and> flush_turn os new_filter th' \<noteq> None \<or>
    turns \<le> i \<and> (\<exists>st1 r st2. db_open os rng cfg (disk_of (th_db th')) = Some (Inr st1) \<and>
      db_query os req st1 = Some (Inr r, st2) \<and> e \<in> set (qr_rows r))"
proof -
  have op: "os_progress os" using assms(1) by (simp add: os_progress_def)
  have new: "to_sorted_events (memtable_new 0) = Some []" using to_sorted_events_spec [OF memtable_rel_new] .
  have "followed cfg (memtable_new 0) [] 0 i0 k0 th"
    using followed_run [OF assms(1-3) new assms(6) followed_fresh [OF assms(1,5)]] assms(11) by simp
  then obtain lg rm h act imms fes levs where "th_at cfg k0 th lg rm h act imms fes levs" "length (th_flight th) \<le> 1"
    unfolding followed_def by blast
  then have "followed cfg (db_imm (th_db th) ! p) es turns 0 k0 th"
    by (rule followedI) (use assms(7) in \<open>auto simp: waits_def turns_def\<close>)
  then have "followed cfg (db_imm (th_db th) ! p) es turns i (k0 + k) th'"
    using followed_run [OF assms(1-3,8,10)] assms(11) by fastforce
  then obtain lg rm h act imms fes levs where at: "th_at cfg (k0 + k) th' lg rm h act imms fes levs"
      "waits (db_imm (th_db th) ! p) turns i th' \<or> turns \<le> i \<and> in_tables es levs"
    unfolding followed_def by blast
  from at(2) show ?thesis
  proof
    assume w: "waits (db_imm (th_db th) ! p) turns i th'"
    have "0 < flight_turns [(m', n)]" for m' n by (cases n) simp_all
    then have "i < turns" using w by (fastforce simp: waits_def)
    then show ?thesis using flush_turn_enabled [OF op assms(2,3) at(1) assms(11) w] by blast
  next
    assume "turns \<le> i \<and> in_tables es levs"
    then show ?thesis using tables_survive [OF assms(1) at(1) assms(4,9) _ assms(13,14,12)] by blast
  qed
qed

lemma flush_thread_publishes_witness:
  "\<exists>st0 th th' e st1 r st2. db_open os_ok (\<lambda>_. 1) (sample_config False) empty_disk = Some (Inr st0) \<and>
    flush_run os_ok (\<lambda>_. 1) sample_filter \<lparr>th_db = st0, th_flight = []\<rparr> 0 2 th \<and> th_flight th = [] \<and>
    flush_run os_ok (\<lambda>_. 1) sample_filter th 3 3 th' \<and>
    db_open os_ok (\<lambda>_. 1) (sample_config False) (disk_of (th_db th')) = Some (Inr st1) \<and>
    db_query os_ok sample_request st1 = Some (Inr r, st2) \<and> e \<in> set (qr_rows r)"
proof -
  let ?cfg = "sample_config False" and ?run = "flush_run os_ok (\<lambda>_. 1) sample_filter"
  have os: "os_good os_ok" by (simp add: os_good_def)
  have cfg: "block_target_bytes ?cfg < 2 ^ 32" "\<not> wal_enabled ?cfg" by (simp_all add: sample_config_def)
  obtain st0 r1 st1 e where s: "db_open os_ok (\<lambda>_. 1) ?cfg empty_disk = Some (Inr st0)"
      "db_append os_ok (\<lambda>_. 1) ''AAPL'' (sample_args 10) st0 = Some (Inr r1, st1)"
      "run_at ?cfg 2 (rotate_active st1) [(''AAPL'', e)] [] [] [] [[e]] [[], [], [], []]"
      "symtab_lookup ''AAPL'' (db_symbols (rotate_active st1)) = Some (symbol_id e)" "e = append_event (sample_args 10) (symbol_id e) 1"
    using sample_waiting [of False] by (elim exE conjE) (rule that)
  let ?start = "\<lparr>th_db = st0, th_flight = []\<rparr>" and ?th = "\<lparr>th_db = rotate_active st1, th_flight = []\<rparr>"
  have "?run ?start 0 (0 + 1) (?start\<lparr>th_db := st1\<rparr>)"
    by (rule flush_run.client [OF flush_run.start, where op = "Op_append ''AAPL'' (sample_args 10)" and an = "Wrote r1"])
      (use s(2) in \<open>simp_all add: sample_args_def\<close>)
  from flush_run.rotate [OF this] have r0: "?run ?start 0 2 ?th" by (simp add: numeral_2_eq_2)
  obtain th1 th2 th3 h' levs' where t: "th_take ?th = Some th1" "th_number 0 th1 = Some th2" "th_done os_ok sample_filter 0 th2 = Some th3"
      "run_at ?cfg (2 + 3) (th_db th3) [(''AAPL'', e)] [] h' [] [] levs'" "db_symbols (th_db th3) = db_symbols (rotate_active st1)"
    using one_flight [OF os sample_filter_wf cfg(1) s(3)] by auto
  obtain m where m: "db_imm (rotate_active st1) = [m]" "memtable_rel m [e]"
    using s(3) by (auto simp: run_at_def db_holds_def list_all2_Cons2)
  have f1: "th1 = \<lparr>th_db = (rotate_active st1)\<lparr>db_imm := []\<rparr>, th_flight = [(m, None)]\<rparr>" using t(1) m(1) by (simp add: th_take_def)
  have f2: "\<exists>sq. th_flight th2 = [(m, Some sq)]" using t(2) by (auto simp: f1 th_number_def)
  have "flush_turn os_ok sample_filter ?th = Some th1" "flush_turn os_ok sample_filter th1 = Some th2" "flush_turn os_ok sample_filter th2 = Some th3"
    using t(1-3) f2 by (auto simp: flush_turn_def f1)
  then have r3: "?run ?th 3 3 th3"
    using flush_run.own [OF flush_run.own [OF flush_run.own [OF flush_run.start]]] by (fastforce simp: numeral_3_eq_3)
  have sel: "selects sample_request (symbol_id e) e"
    by (subst (2) s(5)) (simp add: selects_def in_range_query wanted_def sample_request_def append_event_def sample_args_def)
  have p: "0 < length (db_imm (th_db ?th))" "to_sorted_events (db_imm (th_db ?th) ! 0) = Some [e]" "e \<in> set [e]"
    using m to_sorted_events_spec [OF m(2)] by simp_all
  have b: "(2 + 3 :: nat) < 2 ^ 32 - 2" "2 + 3 \<le> query_limit sample_request" by (simp_all add: query_limit_def sample_request_def)
  have sy: "symtab_lookup (rq_symbol sample_request) (db_symbols (th_db th3)) = Some (symbol_id e)"
    using s(4) t(5) by (simp add: sample_request_def)
  have "\<exists>st1 r st2. db_open os_ok (\<lambda>_. 1) ?cfg (disk_of (th_db th3)) = Some (Inr st1) \<and>
      db_query os_ok sample_request st1 = Some (Inr r, st2) \<and> e \<in> set (qr_rows r)"
    using flush_thread_publishes [OF os sample_filter_wf cfg s(1) r0 p r3 b sy sel] by simp
  then show ?thesis using s(1) r0 r3 by - (rule exI [of _ st0], rule exI [of _ ?th], rule exI [of _ th3], rule exI [of _ e], simp)
qed

end
