(* ===== verification/BenchIo.thy ===== *)
theory BenchIo
  imports SSTable "HOL-Library.Signed_Division" "HOL-Library.Sublist"
begin

text \<open>
  The benchmarks of table files (bench/bench_io_backend.cpp): what each body does to the
  temporary directory and what it reports. The library that repeats the bodies is a parameter:
  the number of iterations, and what a body passes to it.
\<close>

section \<open>What a body reports\<close>

record bench_report =
  items_processed :: int
  bytes_processed :: int
  skip_message :: "string option"

definition bench_report_new :: bench_report where
  "bench_report_new = \<lparr>items_processed = 0, bytes_processed = 0, skip_message = None\<rparr>"

text \<open>\<^verbatim>\<open>std::filesystem::remove_all\<close> of a directory.\<close>

definition remove_all :: "string \<Rightarrow> dir \<Rightarrow> dir" where
  "remove_all dir d = filter (\<lambda>(p, f). \<not> prefix (dir @ ''/'') p) d"

lemma map_of_remove_all: "map_of (remove_all dir d) p = (if prefix (dir @ ''/'') p then None else map_of d p)"
  by (induction d) (auto simp: remove_all_def)

section \<open>Building a table\<close>

definition bench_event :: "i64 \<Rightarrow> nat \<Rightarrow> event" where
  "bench_event price i =
     \<lparr>timestamp_ns = word_of_nat i * 1000, symbol_id = 1, sequence_id = word_of_nat i, event_type = Trade,
      price_ticks = price, bid_px_ticks = 0, ask_px_ticks = 0, quantity = 0, bid_qty = 0, ask_qty = 0, order_id = 0\<rparr>"

definition build_sst :: "os \<Rightarrow> (u32 \<Rightarrow> bloom) \<Rightarrow> string \<Rightarrow> nat \<Rightarrow> dir \<Rightarrow> (exn + sst_info) \<times> dir" where
  "build_sst os new_filter path n d = write_table os new_filter path 0 1 (64 * 1024) 0 (map (bench_event 100) [0..<n]) d"

section \<open>The scan\<close>

definition count_rows :: "event \<Rightarrow> nat \<Rightarrow> bool \<times> nat" where
  "count_rows e count = (True, count + 1)"

definition pread_scan :: "os \<Rightarrow> string \<Rightarrow> dir \<Rightarrow> exn + nat" where
  "pread_scan os path d =
     (case sst_reader_new os path d of
        Inl ex \<Rightarrow> Inl ex
      | Inr reader \<Rightarrow>
          (case sst_scan reader \<lparr>key_symbol_id = 1, key_timestamp_ns = 0, key_sequence_id = 0\<rparr>
                  \<lparr>key_symbol_id = 1, key_timestamp_ns = - 1, key_sequence_id = - 1\<rparr> count_rows 0 (fresh_io None) of
             (Inl ex, _) \<Rightarrow> Inl ex
           | (Inr _, count, _) \<Rightarrow> Inr count))"

text \<open>The iterations; the last count is the one that is reported.\<close>

primrec pread_scans :: "os \<Rightarrow> string \<Rightarrow> dir \<Rightarrow> nat \<Rightarrow> bench_report \<Rightarrow> exn + bench_report" where
  "pread_scans os path d 0 rep = Inr rep"
| "pread_scans os path d (Suc k) rep =
     bind_sum (pread_scan os path d) (\<lambda>count. pread_scans os path d k (rep\<lparr>items_processed := int count\<rparr>))"

definition kPreadEvents :: nat where
  "kPreadEvents = 500000"

text \<open>The body, with the value of its static variable \<open>built\<close> and the files before and after.\<close>

definition BM_PreadScan ::
  "os \<Rightarrow> (u32 \<Rightarrow> bloom) \<Rightarrow> string \<Rightarrow> nat \<Rightarrow> bool \<times> dir \<Rightarrow> (exn + bench_report) \<times> bool \<times> dir" where
  "BM_PreadScan os new_filter dir iters s =
     (case s of (built, d) \<Rightarrow>
       (let path = dir @ ''/pread_bench.sst'';
            (r, d1) = (if built then (Inr (), d)
                       else apfst (map_sum id (\<lambda>_. ())) (build_sst os new_filter path kPreadEvents d))
        in case r of
             Inl ex \<Rightarrow> (Inl ex, built, d1)
           | Inr _ \<Rightarrow>
               (case pread_scans os path d1 iters bench_report_new of
                  Inl ex \<Rightarrow> (Inl ex, True, d1)
                | Inr rep \<Rightarrow> (Inr rep, True, remove_all dir d1))))"

section \<open>The mapped file\<close>

function mmap_sum :: "bytes \<Rightarrow> nat \<Rightarrow> u64 \<Rightarrow> u64" where
  "mmap_sum p i s = (if i < length p then mmap_sum p (i + 64) (s + ucast (p ! i)) else s)"
  by pat_completeness auto
termination
  by (relation "measure (\<lambda>(p, i, s). length p - i)") auto

declare mmap_sum.simps [simp del]

primrec mmap_scans :: "os \<Rightarrow> string \<Rightarrow> dir \<Rightarrow> nat \<Rightarrow> string option \<times> u64 list" where
  "mmap_scans os path d 0 = (None, [])"
| "mmap_scans os path d (Suc k) =
     (case (if os_open os path then map_of d path else None) of
        None \<Rightarrow> (Some ''open failed'', [])
      | Some file \<Rightarrow> apsnd (Cons (mmap_sum file 0 0)) (mmap_scans os path d k))"

definition kMmapEvents :: nat where
  "kMmapEvents = 500000"

definition BM_MmapScan :: "os \<Rightarrow> (u32 \<Rightarrow> bloom) \<Rightarrow> string \<Rightarrow> nat \<Rightarrow> dir \<Rightarrow> (exn + bench_report) \<times> u64 list \<times> dir" where
  "BM_MmapScan os new_filter dir iters d =
     (let path = dir @ ''/mmap_bench.sst''
      in case write_table os new_filter path 0 1 (64 * 1024) 0 (map (bench_event 0) [0..<kMmapEvents]) d of
           (Inl ex, d1) \<Rightarrow> (Inl ex, [], d1)
         | (Inr _, d1) \<Rightarrow>
             (case mmap_scans os path d1 iters of
                (Some msg, sums) \<Rightarrow> (Inr (bench_report_new\<lparr>skip_message := Some msg\<rparr>), sums, d1)
              | (None, sums) \<Rightarrow> (Inr bench_report_new, sums, remove_all dir d1)))"

section \<open>Small reads\<close>

text \<open>
  The offset of read \<open>i\<close> of an iteration, for the size that \<^verbatim>\<open>fstat\<close> gave. A file that was not
  opened has size 0 here and every read fails; a size of 78, a division by zero, is excluded by
  \<open>table_file_size\<close>.
\<close>

definition small_offset :: "int \<Rightarrow> int \<Rightarrow> int" where
  "small_offset sz i = (i * 78) smod (sz - 78)"

definition small_reads :: "bytes \<Rightarrow> bytes option list" where
  "small_reads file =
     map (\<lambda>i. pread file (word_of_int (small_offset (int (length file)) (int i) + 13)) 65) [0..<100]"

definition kSmallEvents :: nat where
  "kSmallEvents = 10000"

definition BM_PreadVsMmapSmallBlock ::
  "os \<Rightarrow> (u32 \<Rightarrow> bloom) \<Rightarrow> string \<Rightarrow> nat \<Rightarrow> dir \<Rightarrow> (exn + bytes option list list) \<times> dir" where
  "BM_PreadVsMmapSmallBlock os new_filter dir iters d =
     (let path = dir @ ''/rnd_bench.sst''
      in case build_sst os new_filter path kSmallEvents d of
           (Inl ex, d1) \<Rightarrow> (Inl ex, d1)
         | (Inr _, d1) \<Rightarrow>
             (Inr (replicate iters (case (if os_open os path then map_of d1 path else None) of
                 None \<Rightarrow> replicate 100 None
               | Some file \<Rightarrow> small_reads file)), remove_all dir d1))"

section \<open>Tables of ascending events\<close>

lemma bench_key_less:
  assumes "i < j" and "j < 2 ^ 54"
  shows "event_key (bench_event p i) < event_key (bench_event p j)"
proof -
  have "unat (word_of_nat k * 1000 :: u64) = k * 1000" if "k < 2 ^ 54" for k
    using that by (simp add: unat_word_ariths unat_of_nat take_bit_eq_mod)
  then have "(word_of_nat i * 1000 :: u64) < word_of_nat j * 1000"
    using assms by (simp add: word_less_nat_alt)
  then show ?thesis by (simp add: key_less_iff event_key_def bench_event_def)
qed

lemma bench_events_sorted: "n \<le> 2 ^ 54 \<Longrightarrow> sorted_events (map (bench_event p) [0..<n])"
  unfolding sorted_wrt_map by (rule sorted_wrt_mono_rel [OF _ sorted_wrt_upt]) (auto intro: bench_key_less)

lemma bench_events_wf: "list_all event_wf (map (bench_event p) [0..<n])"
  by (simp add: list_all_iff event_wf_def bench_event_def)

lemma bench_in_range:
  "in_range \<lparr>key_symbol_id = 1, key_timestamp_ns = 0, key_sequence_id = 0\<rparr>
     \<lparr>key_symbol_id = 1, key_timestamp_ns = - 1, key_sequence_id = - 1\<rparr> (bench_event p i)"
  by (simp add: in_range_def event_key_def bench_event_def key_less_iff not_less [symmetric])

lemma run_count_rows: "run_cb count_rows es s = (True, s + length es)"
  by (induction es arbitrary: s) (simp_all add: count_rows_def)

lemma table_file_size:
  assumes "reader_blocks r bs"
  shows "65 * length (concat bs) \<le> length (sr_file r)"
proof -
  have "65 * length (concat bs) \<le> length (blocks_bytes bs)"
    by (induction bs) (simp_all add: length_enc_block encoded_block_size_def)
  then show ?thesis using assms unfolding reader_blocks_def by auto
qed

lemma full_scan_counts:
  assumes "reader_blocks r bs"
  shows "\<exists>io. sst_scan r \<lparr>key_symbol_id = 0, key_timestamp_ns = 0, key_sequence_id = 0\<rparr>
      \<lparr>key_symbol_id = - 1, key_timestamp_ns = - 1, key_sequence_id = - 1\<rparr> count_rows 0 (fresh_io None) = (Inr (), length (concat bs), io)"
proof -
  let ?lo = "\<lparr>key_symbol_id = 0, key_timestamp_ns = 0, key_sequence_id = 0\<rparr>" and ?hi = "\<lparr>key_symbol_id = - 1, key_timestamp_ns = - 1, key_sequence_id = - 1\<rparr>"
  have "in_range ?lo ?hi e" for e by (simp add: in_range_def key_less_iff not_less [symmetric])
  then have "filter (in_range ?lo ?hi) (concat bs) = concat bs" by (simp add: filter_id_conv)
  then show ?thesis
    using sst_scan_spec [OF assms reader_source_self [OF assms] fresh_io_ok [of _ None], where cb = count_rows and s = 0]
    by (metis add_0 run_count_rows snd_conv)
qed

text \<open>The table that is built holds the events, and a scan counts them.\<close>

lemma build_sst_spec:
  assumes os: "os_progress os" and nf: "\<forall>n. bloom_wf (new_filter n)" and n: "n < 2 ^ 32"
  shows "\<exists>r bs. build_sst os new_filter path n d = (Inr (sr_info r), AList.update path (sr_file r) d) \<and>
    sst_reader_new os path (AList.update path (sr_file r) d) = Inr r \<and> reader_blocks r bs \<and> concat bs = map (bench_event 100) [0..<n]"
proof -
  have es: "sorted_events (map (bench_event 100) [0..<n])" "length (map (bench_event 100) [0..<n]) < 2 ^ 32"
    using bench_events_sorted [of n 100] n by simp_all
  obtain r bs where "build_sst os new_filter path n d = (Inr (sr_info r), AList.update path (sr_file r) d)"
      "load_footer_and_index path (sr_file r) = Inr r" "reader_blocks r bs" "concat bs = map (bench_event 100) [0..<n]"
    using write_table_spec [OF os es(1) bench_events_wf es(2), of "64 * 1024" new_filter path 0 1 0 d] nf
    unfolding build_sst_def by auto
  moreover have "sst_reader_new os path (AList.update path (sr_file r) d) = load_footer_and_index path (sr_file r)"
    using os by (simp add: sst_reader_new_def update_conv os_progress_def)
  ultimately show ?thesis by auto
qed

lemma pread_scan_counts:
  assumes "sst_reader_new os path d = Inr r" and "reader_blocks r bs" and "concat bs = map (bench_event p) [0..<n]"
  shows "pread_scan os path d = Inr n"
proof -
  have "filter (in_range \<lparr>key_symbol_id = 1, key_timestamp_ns = 0, key_sequence_id = 0\<rparr>
     \<lparr>key_symbol_id = 1, key_timestamp_ns = - 1, key_sequence_id = - 1\<rparr>) (concat bs) = concat bs"
    unfolding assms(3) by (simp add: filter_map comp_def bench_in_range)
  then obtain io' where "sst_scan r \<lparr>key_symbol_id = 1, key_timestamp_ns = 0, key_sequence_id = 0\<rparr>
     \<lparr>key_symbol_id = 1, key_timestamp_ns = - 1, key_sequence_id = - 1\<rparr> count_rows 0 (fresh_io None) = (Inr (), length (concat bs), io')"
    using sst_scan_spec [OF assms(2) reader_source_self [OF assms(2)] fresh_io_ok [of _ None], where cb = count_rows and s = 0]
    by (metis add_0 run_count_rows snd_conv)
  then show ?thesis by (simp add: pread_scan_def assms(1,3))
qed

lemma pread_scans_count:
  "pread_scan os path d = Inr n \<Longrightarrow> pread_scans os path d (Suc k) rep = Inr (rep\<lparr>items_processed := int n\<rparr>)"
proof (induction k arbitrary: rep)
  case (Suc k)
  then have "pread_scans os path d (Suc k) (rep\<lparr>items_processed := int n\<rparr>) = Inr (rep\<lparr>items_processed := int n\<rparr>)"
    by (metis bench_report.select_convs(1) bench_report.surjective bench_report.update_convs(1))
  then show ?case using Suc.prems by simp
qed simp

text \<open>The mapped file is read at every multiple of 64.\<close>

lemma mmap_sum_spec:
  "mmap_sum p i s = s + sum_list (map (\<lambda>k. ucast (p ! (i + 64 * k))) [0..<(length p - i + 63) div 64])"
proof (induction p i s rule: mmap_sum.induct)
  case (1 p i s)
  show ?case
  proof (cases "i < length p")
    case True
    then obtain m where m: "length p = Suc (i + m)" using less_imp_Suc_add [OF True] by blast
    have "(m + 64) div 64 = Suc ((Suc m - 64 + 63) div 64)" by (cases "m < 63") simp_all
    then have n: "(length p - i + 63) div 64 = Suc ((length p - (i + 64) + 63) div 64)" by (simp add: m)
    have "[0..<Suc ((length p - (i + 64) + 63) div 64)] = 0 # map Suc [0..<(length p - (i + 64) + 63) div 64]"
      by (simp only: upt_conv_Cons zero_less_Suc map_Suc_upt)
    then have "sum_list (map (\<lambda>k. ucast (p ! (i + 64 * k)) :: u64) [0..<Suc ((length p - (i + 64) + 63) div 64)]) =
        ucast (p ! i) + sum_list (map (\<lambda>k. ucast (p ! (i + 64 + 64 * k))) [0..<(length p - (i + 64) + 63) div 64])"
      by (simp only: list.map map_map comp_def sum_list.Cons) (simp add: add.assoc)
    moreover have "mmap_sum p i s = mmap_sum p (i + 64) (s + ucast (p ! i))" using True by (subst mmap_sum.simps) simp
    ultimately show ?thesis using 1 [OF True] unfolding n by (simp only: add.assoc)
  qed (subst mmap_sum.simps, simp)
qed

lemma mmap_scans_same:
  "os_open os path \<Longrightarrow> map_of d path = Some file \<Longrightarrow> mmap_scans os path d k = (None, replicate k (mmap_sum file 0 0))"
  by (induction k) simp_all

text \<open>The offsets of the small reads, and the reads.\<close>

lemma small_offset_nonneg: "78 < sz \<Longrightarrow> small_offset sz (int i) = (int i * 78) mod (sz - 78)"
  by (simp add: small_offset_def signed_modulo_int_def signed_divide_int_def minus_div_mult_eq_mod sgn_if)

lemma small_reads_full:
  assumes "78 < length file" and "length file < 2 ^ 63"
  shows "\<forall>b \<in> set (small_reads file). \<exists>x. b = Some x \<and> length x = 65"
proof -
  let ?sz = "int (length file)"
  have "\<exists>x. pread file (word_of_int (small_offset ?sz (int i) + 13)) 65 = Some x \<and> length x = 65" for i
  proof -
    let ?o = "small_offset ?sz (int i)"
    have o: "0 \<le> ?o" "?o < ?sz - 78" using assms(1) by (simp_all add: small_offset_nonneg)
    then have "uint (word_of_int (?o + 13) :: u64) = ?o + 13"
      using assms(2) unfolding uint_word_of_int by (intro mod_pos_pos_trivial) simp_all
    then have u: "unat (word_of_int (?o + 13) :: u64) = nat (?o + 13)" by (simp add: unat_eq_nat_uint)
    show ?thesis using o assms(2) unfolding pread_def u by simp
  qed
  then show ?thesis unfolding small_reads_def by auto
qed

section \<open>Properties\<close>

text \<open>The body of the benchmark that scans a table builds the table only once per process, and
  removes its directory at the end of every call. The first call reports 500000 rows; a second
  call, as for repetitions, throws in its first iteration because there is no table.\<close>

theorem pread_scan_runs_once:
  assumes "os_progress os" and "\<forall>n. bloom_wf (new_filter n)" and "0 < iters"
  shows "\<exists>d'. BM_PreadScan os new_filter dir iters (False, d) = (Inr (bench_report_new\<lparr>items_processed := 500000\<rparr>), True, d') \<and>
    BM_PreadScan os new_filter dir iters (True, d') =
      (Inl (Runtime_error (''cannot open SSTable: '' @ dir @ ''/pread_bench.sst'')), True, d')"
proof -
  let ?p = "dir @ ''/pread_bench.sst''"
  obtain k where k: "iters = Suc k" using assms(3) by (cases iters) auto
  have n: "kPreadEvents < 2 ^ 32" by (simp add: kPreadEvents_def)
  obtain r bs where b: "build_sst os new_filter ?p kPreadEvents d = (Inr (sr_info r), AList.update ?p (sr_file r) d)"
      "sst_reader_new os ?p (AList.update ?p (sr_file r) d) = Inr r" "reader_blocks r bs" "concat bs = map (bench_event 100) [0..<kPreadEvents]"
    using build_sst_spec [OF assms(1,2) n, of ?p d] by blast
  let ?d = "remove_all dir (AList.update ?p (sr_file r) d)"
  have "BM_PreadScan os new_filter dir iters (False, d) = (Inr (bench_report_new\<lparr>items_processed := int kPreadEvents\<rparr>), True, ?d)"
    using pread_scans_count [OF pread_scan_counts [OF b(2-4)], of k bench_report_new] unfolding k
    by (simp add: BM_PreadScan_def b(1) del: pread_scans.simps)
  moreover have "map_of ?d ?p = None" by (simp add: map_of_remove_all prefix_def)
  then have "sst_reader_new os ?p ?d = Inl (Runtime_error (''cannot open SSTable: '' @ ?p))" by (simp add: sst_reader_new_def)
  then have "BM_PreadScan os new_filter dir iters (True, ?d) = (Inl (Runtime_error (''cannot open SSTable: '' @ ?p)), True, ?d)"
    by (simp add: BM_PreadScan_def k pread_scan_def Let_def)
  ultimately show ?thesis by (simp add: kPreadEvents_def del: append_assoc)
qed

lemma pread_scan_runs_once_witness:
  "\<exists>d'. BM_PreadScan os_ok sample_filter ''tmp'' 5 (False, []) = (Inr (bench_report_new\<lparr>items_processed := 500000\<rparr>), True, d') \<and>
    BM_PreadScan os_ok sample_filter ''tmp'' 5 (True, d') =
      (Inl (Runtime_error (''cannot open SSTable: '' @ ''tmp'' @ ''/pread_bench.sst'')), True, d')"
  by (rule pread_scan_runs_once [OF os_ok_progress sample_filter_wf]) simp

text \<open>All small reads lie inside the table, which is larger than all offsets together.\<close>

lemma small_block_reads:
  assumes "os_progress os" and "\<forall>n. bloom_wf (new_filter n)"
  shows "\<exists>file d'. BM_PreadVsMmapSmallBlock os new_filter dir iters d = (Inr (replicate iters (small_reads file)), d') \<and>
    list_all (\<lambda>b. \<exists>x. b = Some x \<and> length x = 65) (small_reads file)"
proof -
  let ?p = "dir @ ''/rnd_bench.sst''"
  have n: "kSmallEvents < 2 ^ 32" by (simp add: kSmallEvents_def)
  obtain r bs where b: "build_sst os new_filter ?p kSmallEvents d = (Inr (sr_info r), AList.update ?p (sr_file r) d)"
      "reader_blocks r bs" "concat bs = map (bench_event 100) [0..<kSmallEvents]"
    using build_sst_spec [OF assms n, of ?p d] by blast
  have "78 < length (sr_file r)" "length (sr_file r) < 2 ^ 63"
    using table_file_size [OF b(2)] b(2) unfolding b(3) by (simp_all add: kSmallEvents_def reader_blocks_def)
  then have "list_all (\<lambda>b. \<exists>x. b = Some x \<and> length x = 65) (small_reads (sr_file r))"
    unfolding list_all_iff by (rule small_reads_full)
  moreover have "BM_PreadVsMmapSmallBlock os new_filter dir iters d =
      (Inr (replicate iters (small_reads (sr_file r))), remove_all dir (AList.update ?p (sr_file r) d))"
    using assms(1) by (simp add: BM_PreadVsMmapSmallBlock_def b(1) os_progress_def update_conv Let_def)
  ultimately show ?thesis by blast
qed

text \<open>Every iteration over the mapped file reads the same bytes.\<close>

lemma mmap_scan_sums:
  assumes "os_progress os" and "\<forall>n. bloom_wf (new_filter n)"
  shows "\<exists>file d'. BM_MmapScan os new_filter dir iters d = (Inr bench_report_new, replicate iters (mmap_sum file 0 0), d') \<and>
    65 * kMmapEvents \<le> length file"
proof -
  let ?p = "dir @ ''/mmap_bench.sst''" and ?es = "map (bench_event 0) [0..<kMmapEvents]"
  have es: "sorted_events ?es" "length ?es < 2 ^ 32" using bench_events_sorted [of kMmapEvents 0] by (simp_all add: kMmapEvents_def del: upt_rec_numeral)
  obtain r bs where b: "write_table os new_filter ?p 0 1 (64 * 1024) 0 ?es d = (Inr (sr_info r), AList.update ?p (sr_file r) d)"
      "reader_blocks r bs" "concat bs = ?es"
    using write_table_spec [OF assms(1) es(1) bench_events_wf es(2), of "64 * 1024" new_filter ?p 0 1 0 d] assms(2) by auto
  have "65 * kMmapEvents \<le> length (sr_file r)" using table_file_size [OF b(2)] unfolding b(3) by simp
  moreover have "mmap_scans os ?p (AList.update ?p (sr_file r) d) iters = (None, replicate iters (mmap_sum (sr_file r) 0 0))"
    using assms(1) by (intro mmap_scans_same) (simp_all add: os_progress_def update_conv)
  ultimately show ?thesis using b(1) by (auto simp: BM_MmapScan_def Let_def intro!: exI [of _ "sr_file r"])
qed

end
