(* ===== verification/BenchWal.thy ===== *)
theory BenchWal
  imports Recovery BenchIo
begin

text \<open>
  The benchmarks of the log (bench/bench_recovery.cpp): writing records, reading them back, and
  recovering them into a memtable. The directory is removed before each body writes and after it
  has finished, so that bodies start from an empty one.
\<close>

section \<open>Writing\<close>

definition kBenchSegmentBytes :: nat where
  "kBenchSegmentBytes = 128 * 1024 * 1024"

definition wal_bench_event :: "u32 \<Rightarrow> nat \<Rightarrow> event" where
  "wal_bench_event sid i = (bench_event 100 i)\<lparr>symbol_id := sid\<rparr>"

definition write_wal :: "os \<Rightarrow> nat \<Rightarrow> exn + dir" where
  "write_wal os count =
     (case and_then (wal_writer os kBenchSegmentBytes [])
             (\<lambda>_. wal_append_all os (map (\<lambda>i. wal_bench_event (word_of_nat (i mod 100)) i) [0..<count])) of
        (Inl ex, w) \<Rightarrow> Inl ex
      | (Inr _, w) \<Rightarrow> Inr (wal_dir (wal_close w)))"

definition BM_WALAppend :: "os \<Rightarrow> nat \<Rightarrow> exn + bench_report" where
  "BM_WALAppend os iters =
     (case and_then (wal_writer os kBenchSegmentBytes []) (\<lambda>_. wal_append_all os (map (wal_bench_event 1) [0..<iters])) of
        (Inl ex, w) \<Rightarrow> Inl ex
      | (Inr _, w) \<Rightarrow> Inr (bench_report_new\<lparr>items_processed := int iters,
          bytes_processed := int iters * int (kWalHeaderSize + event_kEncodedSize)\<rparr>))"

section \<open>Reading back\<close>

text \<open>The iterations of a body with the numbers that each computes: the records that are read, or
  the entries of a memtable that was recovered.\<close>

primrec recoveries :: "(nat \<Rightarrow> u32) \<Rightarrow> dir \<Rightarrow> nat \<Rightarrow> nat list option" where
  "recoveries rng d 0 = Some []"
| "recoveries rng d (Suc k) = do {
     (rr, m) \<leftarrow> recover rng (Some d) (memtable_new (64 * 1024 * 1024));
     ns \<leftarrow> recoveries rng d k;
     Some (memtable_count m # ns)
   }"

definition bench_recovery :: "os \<Rightarrow> (nat \<Rightarrow> u32) \<Rightarrow> nat \<Rightarrow> nat \<Rightarrow> (exn + nat list \<times> bench_report) option" where
  "bench_recovery os rng count iters =
     (case write_wal os count of
        Inl ex \<Rightarrow> Some (Inl ex)
      | Inr d \<Rightarrow> map_option (\<lambda>ns. Inr (ns, bench_report_new\<lparr>items_processed := int iters * int count\<rparr>)) (recoveries rng d iters))"

definition BM_Recovery100K :: "os \<Rightarrow> (nat \<Rightarrow> u32) \<Rightarrow> nat \<Rightarrow> (exn + nat list \<times> bench_report) option" where
  "BM_Recovery100K os rng iters = bench_recovery os rng 100000 iters"

definition BM_Recovery1M :: "os \<Rightarrow> (nat \<Rightarrow> u32) \<Rightarrow> nat \<Rightarrow> (exn + nat list \<times> bench_report) option" where
  "BM_Recovery1M os rng iters = bench_recovery os rng 1000000 iters"

definition BM_WALRead :: "os \<Rightarrow> nat \<Rightarrow> exn + nat list \<times> bench_report" where
  "BM_WALRead os iters =
     bind_sum (write_wal os 100000)
       (\<lambda>d. Inr (replicate iters (length (rs_records (fst (read_all d)))),
                bench_report_new\<lparr>items_processed := int iters * 100000\<rparr>))"

section \<open>What they do\<close>

lemma wal_append_all_good:
  assumes "opens os" and "os_write os 78 = 78"
  shows "wal_inv w segs \<Longrightarrow> list_all event_wf es \<Longrightarrow>
    \<exists>w' segs'. wal_append_all os es w = (Inr (), w') \<and> wal_inv w' segs' \<and> concat segs' = concat segs @ es"
proof (induction es arbitrary: w segs)
  case Nil
  then show ?case by auto
next
  case (Cons e es)
  have wf: "event_wf e" "list_all event_wf es" using Cons.prems(2) by simp_all
  note app = wal_append_good [OF Cons.prems(1) assms wf(1)]
  let ?w = "snd (wal_append os e w)"
  have c: "concat (segments_append (max_segment_bytes w) segs e) = concat segs @ [e]"
    using wal_inv_nonempty [OF Cons.prems(1)] by simp
  have "wal_append os e w = (Inr \<lparr>file_offset = 78 * length (last segs), result_segment_id = length segs\<rparr>, ?w)"
    using app(1) by (metis prod.collapse)
  then have "wal_append_all os (e # es) w = wal_append_all os es ?w" by (metis and_then_simps(2) wal_append_all.simps(2))
  then show ?case using Cons.IH [OF app(2) wf(2)] c by simp
qed

lemma write_wal_events:
  assumes "opens os" and "os_write os 78 = 78" and "list_all event_wf es"
  shows "\<exists>w. and_then (wal_writer os m []) (\<lambda>_. wal_append_all os es) = (Inr (), w) \<and> wal_events (wal_dir w) = es"
proof -
  obtain r w where w: "wal_writer os m [] = (r, w)" by fastforce
  have f: "r = Inr ()" "wal_inv w [[]]" using wal_writer_fresh [OF assms(1), of m] unfolding w by simp_all
  obtain w' segs where "wal_append_all os es w = (Inr (), w')" "wal_inv w' segs" "concat segs = es"
    using wal_append_all_good [OF assms(1,2) f(2) assms(3)] by auto
  then show ?thesis using wal_events_inv [of w' segs] by (auto simp: w f(1))
qed

lemma wal_bench_wf: "event_wf (wal_bench_event sid i)"
  by (simp add: wal_bench_event_def event_wf_def bench_event_def)

lemma write_wal_spec:
  assumes "opens os" and "os_write os 78 = 78"
  shows "\<exists>d. write_wal os count = Inr d \<and> wal_events d = map (\<lambda>i. wal_bench_event (word_of_nat (i mod 100)) i) [0..<count]"
  using write_wal_events [OF assms, of "map (\<lambda>i. wal_bench_event (word_of_nat (i mod 100)) i) [0..<count]" kBenchSegmentBytes]
  by (auto simp: write_wal_def list_all_iff wal_bench_wf wal_close_def split: option.split)

lemma length_event_upsert:
  assumes "sorted_events es" and "event_key e \<notin> event_key ` set es"
  shows "length (event_upsert e es) = Suc (length es)"
proof -
  have d: "distinct (event_upsert e es)" "distinct es"
    using sorted_events_distinct [OF sorted_event_upsert [OF assms(1)], of e] sorted_events_distinct [OF assms(1)]
    by (simp_all add: distinct_map)
  have "set (event_upsert e es) = insert e (set es)" "e \<notin> set es" using set_event_upsert [OF assms(1), of e] assms(2) by (auto simp: image_iff)
  then show ?thesis using distinct_card [OF d(1)] distinct_card [OF d(2)] by simp
qed

lemma length_fold_upsert:
  "sorted_events acc \<Longrightarrow> distinct (map event_key (acc @ es)) \<Longrightarrow> length (fold event_upsert es acc) = length acc + length es"
proof (induction es arbitrary: acc)
  case (Cons e es)
  have k: "event_key e \<notin> event_key ` set acc" using Cons.prems(2) by auto
  have s: "sorted_events (event_upsert e acc)" using Cons.prems(1) by (rule sorted_event_upsert)
  have "set (event_upsert e acc) = insert e (set acc)" using set_event_upsert [OF Cons.prems(1), of e] k by (auto simp: image_iff)
  then have "distinct (map event_key (event_upsert e acc @ es))"
    using sorted_events_distinct [OF s] Cons.prems(2) by auto
  then show ?case using Cons.IH [OF s] length_event_upsert [OF Cons.prems(1) k] by simp
qed simp

lemma wal_bench_keys: "n \<le> 2 ^ 64 \<Longrightarrow> distinct (map (\<lambda>i. event_key (wal_bench_event (f i) i)) [0..<n])"
  by (auto simp: distinct_map inj_on_def event_key_def wal_bench_event_def bench_event_def word_of_nat_eq_iff take_bit_eq_mod)

lemma recoveries_counts:
  assumes "wal_events d = map (\<lambda>i. wal_bench_event (f i) i) [0..<n]" and "n \<le> 2 ^ 64"
  shows "recoveries rng d k = Some (replicate k n)"
proof -
  obtain st c where rd: "read_all d = (st, c)" by fastforce
  let ?es = "map (\<lambda>i. wal_bench_event (f i) i) [0..<n]"
  have es: "map rec_event (rs_records st) = ?es" using assms(1) by (simp add: wal_events_def rd)
  obtain rr m where m: "recover rng (Some d) (memtable_new 67108864) = Some (rr, m)" "memtable_rel m (fold event_upsert ?es [])"
    using recover_spec [OF rd] unfolding es by blast
  have "memtable_count m = n"
    unfolding memtable_count_spec [OF m(2)]
    using length_fold_upsert [of "[]" ?es] wal_bench_keys [OF assms(2), of f] by (simp add: comp_def)
  then show ?thesis by (induction k) (simp_all add: m(1))
qed

text \<open>A recovery benchmark puts every record it wrote into the memtable, in every iteration.\<close>

lemma bench_recovery_counts:
  assumes "opens os" and "os_write os 78 = 78" and "count \<le> 2 ^ 64"
  shows "bench_recovery os rng count iters =
    Some (Inr (replicate iters count, bench_report_new\<lparr>items_processed := int iters * int count\<rparr>))"
proof -
  obtain d where d: "write_wal os count = Inr d" "wal_events d = map (\<lambda>i. wal_bench_event (word_of_nat (i mod 100)) i) [0..<count]"
    using write_wal_spec [OF assms(1,2)] by blast
  show ?thesis using recoveries_counts [OF d(2) assms(3), of rng iters] d(1) by (simp add: bench_recovery_def)
qed

lemma wal_read_counts:
  assumes "opens os" and "os_write os 78 = 78"
  shows "BM_WALRead os iters = Inr (replicate iters 100000, bench_report_new\<lparr>items_processed := int iters * 100000\<rparr>)"
proof -
  obtain d where d: "write_wal os 100000 = Inr d" "wal_events d = map (\<lambda>i. wal_bench_event (word_of_nat (i mod 100)) i) [0..<100000]"
    using write_wal_spec [OF assms] by blast
  have "length (rs_records (fst (read_all d))) = 100000"
    using arg_cong [OF d(2), of length] by (simp only: wal_events_def length_map length_upt)
  then show ?thesis using d(1) by (simp add: BM_WALRead_def)
qed

lemma wal_append_reports:
  assumes "opens os" and "os_write os 78 = 78"
  shows "BM_WALAppend os iters =
    Inr (bench_report_new\<lparr>items_processed := int iters, bytes_processed := int iters * 78\<rparr>)"
proof -
  obtain w where "and_then (wal_writer os kBenchSegmentBytes []) (\<lambda>_. wal_append_all os (map (wal_bench_event 1) [0..<iters])) = (Inr (), w)"
    using write_wal_events [OF assms, of "map (wal_bench_event 1) [0..<iters]" kBenchSegmentBytes] by (auto simp: list_all_iff wal_bench_wf)
  then show ?thesis by (simp add: BM_WALAppend_def kWalHeaderSize_def event_kEncodedSize_def)
qed

end
