(* ===== verification/BenchIngest.thy ===== *)
theory BenchIngest
  imports Synthetic DBMemory BenchWal
begin

text \<open>
  The benchmarks of appends (bench/bench_ingest.cpp). Each body opens a database in an empty
  temporary directory, appends one event per iteration, removes the directory and then destroys
  the database, whose destructor closes it.
\<close>

section \<open>The bodies\<close>

definition bench_config :: "string \<Rightarrow> bool \<Rightarrow> db_config" where
  "bench_config dir wal =
     \<lparr>cfg_path = dir, wal_enabled = wal, memtable_flush_bytes = 256 * 1024 * 1024, wal_segment_bytes = 128 * 1024 * 1024,
      block_target_bytes = 64 * 1024, sstable_target_bytes = 64 * 1024 * 1024, background_compaction = False,
      block_cache_bytes = 64 * 1024 * 1024\<rparr>"

definition bench_trade :: "nat \<Rightarrow> append_args" where
  "bench_trade s = \<lparr>aa_timestamp_ns = word_of_nat s * 1000, aa_event_type = Trade, aa_price_ticks = 100, aa_bid_px_ticks = 99,
     aa_ask_px_ticks = 101, aa_quantity = 100, aa_bid_qty = 200, aa_ask_qty = 200, aa_order_id = word_of_nat s\<rparr>"

definition bench_quote :: "nat \<Rightarrow> append_args" where
  "bench_quote s = \<lparr>aa_timestamp_ns = word_of_nat s * 1000, aa_event_type = Quote, aa_price_ticks = 0, aa_bid_px_ticks = 100,
     aa_ask_px_ticks = 102, aa_quantity = 0, aa_bid_qty = 200, aa_ask_qty = 300, aa_order_id = word_of_nat s\<rparr>"

text \<open>The \<open>k\<close> iterations that are left, the next of which is the one with number \<open>i\<close>.\<close>

primrec append_loop ::
  "os \<Rightarrow> (nat \<Rightarrow> u32) \<Rightarrow> (nat \<Rightarrow> string \<times> append_args) \<Rightarrow> nat \<Rightarrow> nat \<Rightarrow> db \<Rightarrow> ((exn + unit) \<times> db) option" where
  "append_loop os rng f 0 i st = Some (Inr (), st)"
| "append_loop os rng f (Suc k) i st = do {
     (r, st1) \<leftarrow> db_append os rng (fst (f i)) (snd (f i)) st;
     case r of
       Inl ex \<Rightarrow> Some (Inl ex, st1)
     | Inr _ \<Rightarrow> append_loop os rng f k (i + 1) st1
   }"

text \<open>The database after its directory was removed: what it has open stays usable but has no name.\<close>

definition unlinked :: "db \<Rightarrow> db" where
  "unlinked st = st\<lparr>db_tables := [], db_symbols := (db_symbols st)\<lparr>st_file := None\<rparr>\<rparr>"

text \<open>
  A body with its report and the files that are left in the directory. An exception that leaves the body, and one
  that leaves the destructor, end the process. There is at least one iteration: without any the
  destructor would not create the directory again, in which it then opens the symbol file.
\<close>

definition bench_append ::
  "os \<Rightarrow> (nat \<Rightarrow> u32) \<Rightarrow> (u32 \<Rightarrow> bloom) \<Rightarrow> ((string \<times> u32) list \<Rightarrow> (string \<times> u32) list) \<Rightarrow> db_config
     \<Rightarrow> (nat \<Rightarrow> string \<times> append_args) \<Rightarrow> bench_report \<Rightarrow> nat \<Rightarrow> (bench_report outcome \<times> disk) option" where
  "bench_append os rng nf order cfg f report iters =
     db_open os rng cfg empty_disk \<bind> (\<lambda>q. case q of
       Inl ex \<Rightarrow> Some (Raised ex, empty_disk)
     | Inr st \<Rightarrow> append_loop os rng f iters 0 st \<bind> (\<lambda>(r, st1). case r of
         Inl ex \<Rightarrow> Some (Raised ex, disk_of st1)
       | Inr _ \<Rightarrow> db_close os nf order (unlinked st1) \<bind> (\<lambda>(c, st2).
           Some (case c of Inl ex \<Rightarrow> Terminated | Inr _ \<Rightarrow> Returned report, (disk_of st2)\<lparr>dk_wal := None\<rparr>))))"

definition BM_AppendSingleThread ::
  "os \<Rightarrow> (nat \<Rightarrow> u32) \<Rightarrow> (u32 \<Rightarrow> bloom) \<Rightarrow> ((string \<times> u32) list \<Rightarrow> (string \<times> u32) list) \<Rightarrow> string \<Rightarrow> nat
     \<Rightarrow> (bench_report outcome \<times> disk) option" where
  "BM_AppendSingleThread os rng nf order dir iters =
     bench_append os rng nf order (bench_config dir True) (\<lambda>s. (''AAPL'', bench_trade s))
       (bench_report_new\<lparr>items_processed := int iters, bytes_processed := int iters * int event_kEncodedSize\<rparr>) iters"

definition BM_AppendNoWAL ::
  "os \<Rightarrow> (nat \<Rightarrow> u32) \<Rightarrow> (u32 \<Rightarrow> bloom) \<Rightarrow> ((string \<times> u32) list \<Rightarrow> (string \<times> u32) list) \<Rightarrow> string \<Rightarrow> nat
     \<Rightarrow> (bench_report outcome \<times> disk) option" where
  "BM_AppendNoWAL os rng nf order dir iters =
     bench_append os rng nf order (bench_config dir False) (\<lambda>s. (''AAPL'', bench_trade s))
       (bench_report_new\<lparr>items_processed := int iters\<rparr>) iters"

definition BM_AppendMultipleSymbols ::
  "os \<Rightarrow> (nat \<Rightarrow> u32) \<Rightarrow> (u32 \<Rightarrow> bloom) \<Rightarrow> ((string \<times> u32) list \<Rightarrow> (string \<times> u32) list) \<Rightarrow> string \<Rightarrow> nat
     \<Rightarrow> (bench_report outcome \<times> disk) option" where
  "BM_AppendMultipleSymbols os rng nf order dir iters =
     bench_append os rng nf order (bench_config dir False) (\<lambda>s. (''SYM'' @ decimal04 (s mod 100), bench_quote s))
       (bench_report_new\<lparr>items_processed := int iters\<rparr>) iters"

section \<open>The memtable is never full\<close>

lemma insert_active_fills:
  assumes "insert_active rng e st = Some st'" and "db_active st = Some m" and "memtable_fill n m" and "flush_threshold m = t"
    and "4096 * (4097 + 216 * (n + 1)) < 3961 * t"
  shows "\<exists>m'. db_active st' = Some m' \<and> memtable_fill (n + 1) m' \<and> flush_threshold m' = t \<and> db_imm st' = db_imm st"
proof -
  obtain m' where m': "memtable_insert rng e m = Some m'"
      "st' = (if should_flush m' then st\<lparr>db_imm := db_imm st @ [m'], db_active := Some (memtable_new (memtable_flush_bytes (db_cfg st)))\<rparr>
        else st\<lparr>db_active := Some m'\<rparr>)"
    using assms(1,2) by (auto simp: insert_active_def bind_eq_Some_conv)
  have f: "memtable_fill (n + 1) m'" by (rule memtable_fill_insert(1) [OF assms(3) m'(1)])
  have t: "flush_threshold m' = t" using memtable_insert_arena [OF m'(1)] assms(4) by blast
  have "\<not> should_flush m'" using memtable_fill_bounds(2) [OF f] assms(5) by (simp add: should_flush_def memtable_size_bytes_def t)
  then show ?thesis using f t m'(2) by simp
qed

lemma db_append_fills:
  assumes "db_append os rng name a st = Some (Inr res, st')" and "db_active st = Some m" and "memtable_fill n m"
    and "flush_threshold m = t" and "4096 * (4097 + 216 * (n + 1)) < 3961 * t"
  shows "\<exists>m'. db_active st' = Some m' \<and> memtable_fill (n + 1) m' \<and> flush_threshold m' = t \<and> db_imm st' = db_imm st"
proof -
  have c: "\<not> db_closed st" using assms(1) by (auto simp: db_append_def)
  obtain sid sy where i: "symtab_intern os name (db_symbols st) = (Inr sid, sy)"
    using assms(1) c by (cases "symtab_intern os name (db_symbols st)") (auto simp: db_append_def split: sum.splits)
  let ?e = "append_event a sid (db_next_seq st)" and ?st1 = "st\<lparr>db_symbols := sy, db_next_seq := db_next_seq st + 1\<rparr>"
  obtain q st2 where l: "log_event os ?e ?st1 = (Inr q, st2)"
    using assms(1) c i by (cases "log_event os ?e ?st1") (auto simp: db_append_def Let_def split: sum.splits)
  have k: "db_active st2 = db_active st" "db_imm st2 = db_imm st"
    using l by (auto simp: log_event_def split: option.splits prod.splits sum.splits)
  obtain st3 where s: "insert_active rng ?e st2 = Some st3" "db_active st' = db_active st3" "db_imm st' = db_imm st3"
    using assms(1) c i l by (auto simp: db_append_def Let_def bind_eq_Some_conv)
  have "db_active st2 = Some m" using k(1) assms(2) by simp
  from insert_active_fills [OF s(1) this assms(3-5)] show ?thesis using s(2,3) k(2) by auto
qed

section \<open>The state of an iteration\<close>

definition bench_log :: "(nat \<Rightarrow> string \<times> append_args) \<Rightarrow> nat \<Rightarrow> (string \<times> event) list" where
  "bench_log f n = map (\<lambda>i. (fst (f i), append_event (snd (f i)) 0 (word_of_nat (i + 1)))) [0..<n]"

definition bench_at :: "db_config \<Rightarrow> (nat \<Rightarrow> string \<times> append_args) \<Rightarrow> nat \<Rightarrow> db \<Rightarrow> bool" where
  "bench_at cfg f n st \<longleftrightarrow>
     (\<exists>lg act m. run_at cfg n st lg [] [] act [] [[], [], [], []] \<and> map (apsnd erase) lg = bench_log f n \<and> length lg = n \<and>
        db_active st = Some m \<and> memtable_fill n m \<and> flush_threshold m = 268435456)"

lemma append_loop_spec:
  assumes os: "os_good os" and f: "\<And>i. op_ok (Op_append (fst (f i)) (snd (f i)))"
  shows "bench_at cfg f i st \<Longrightarrow> i + k \<le> 1000000 \<Longrightarrow>
    \<exists>st'. append_loop os rng f k i st = Some (Inr (), st') \<and> bench_at cfg f (i + k) st'"
proof (induction k arbitrary: i st)
  case (Suc k)
  obtain lg act m where at: "run_at cfg i st lg [] [] act [] [[], [], [], []]" "map (apsnd erase) lg = bench_log f i" "length lg = i"
      "db_active st = Some m" "memtable_fill i m" "flush_threshold m = 268435456"
    using Suc.prems(1) unfolding bench_at_def by blast
  have n: "i < 2 ^ 32 - 2" "4096 * (4097 + 216 * (i + 1)) < 3961 * (268435456 :: nat)" using Suc.prems(2) by simp_all
  obtain res st1 e act' imms' where r: "db_append os rng (fst (f i)) (snd (f i)) st = Some (Inr res, st1)"
      "ar_sequence_id res = word_of_nat (length lg + 1)" "e = append_event (snd (f i)) (symbol_id e) (ar_sequence_id res)"
      "run_at cfg (i + 1) st1 (lg @ [(fst (f i), e)]) [] [] act' imms' [[], [], [], []]"
    using run_at_append [OF os at(1) n(1) f [of i], of rng] by (elim exE conjE) (rule that)
  obtain m' where m': "db_active st1 = Some m'" "memtable_fill (i + 1) m'" "flush_threshold m' = 268435456" "db_imm st1 = db_imm st"
    using db_append_fills [OF r(1) at(4-6) n(2)] by blast
  have "db_imm st1 = []" using at(1) m'(4) by (simp add: run_at_def db_holds_def)
  moreover have "list_all2 memtable_rel (db_imm st1) imms'" using r(4) unfolding run_at_def db_holds_def by blast
  ultimately have "imms' = []" by simp
  moreover have "erase e = append_event (snd (f i)) 0 (word_of_nat (i + 1))"
    by (subst r(3)) (simp add: r(2) at(3) erase_def append_event_def)
  then have "map (apsnd erase) (lg @ [(fst (f i), e)]) = bench_log f (i + 1)" using at(2) by (simp add: bench_log_def)
  ultimately have "bench_at cfg f (i + 1) st1" using r(4) m'(1-3) at(3) unfolding bench_at_def by fastforce
  from Suc.IH [OF this] show ?case using r(1) Suc.prems(2) by simp
qed simp

text \<open>The memtable then holds exactly the appended events.\<close>

lemma kept_all_rows:
  assumes k: "kept en M" and en: "entries_ok en" and rm: "en_removed en = []" and rows: "\<forall>e \<in> snd ` set (en_log en). is_row e"
  shows "M = mset (map snd (en_log en))"
proof (rule subset_mset.antisym)
  have nr: "\<not> entry_removed en e" for e by (simp add: entry_removed_def rm)
  then have "\<forall>e \<in># M. is_row e" using k rows unfolding kept_def by blast
  then have "filter_mset is_row M = M" by (simp add: filter_mset_eq_conv)
  then show "M \<subseteq># mset (map snd (en_log en))" using k unfolding kept_def by metis
  show "mset (map snd (en_log en)) \<subseteq># M"
  proof (rule distinct_mset_subset)
    show "distinct (map snd (en_log en))" by (rule entries_seqs(2) [OF en])
    show "set (map snd (en_log en)) \<subseteq> set_mset M" using k rows nr unfolding kept_def by auto
  qed
qed

lemma bench_at_count:
  assumes "bench_at cfg f n st" and "\<And>i. aa_event_type (snd (f i)) \<noteq> Tombstone"
  shows "\<exists>lg act. run_at cfg n st lg [] [] act [] [[], [], [], []] \<and> map (apsnd erase) lg = bench_log f n \<and>
    mset act = mset (map snd lg) \<and> length act = n"
proof -
  obtain lg act where at: "run_at cfg n st lg [] [] act [] [[], [], [], []]" "map (apsnd erase) lg = bench_log f n" "length lg = n"
    using assms(1) unfolding bench_at_def by blast
  have i: "kept (entries_of st lg []) (contents act [] [[], [], [], []])" "entries_ok (entries_of st lg [])"
    using at(1) unfolding run_at_def by blast+
  have "is_row e" if e: "e \<in> snd ` set lg" for e
  proof -
    obtain name where "(name, e) \<in> set lg" using e by auto
    then have "apsnd erase (name, e) \<in> set (bench_log f n)" unfolding at(2) [symmetric] by (simp only: set_map image_eqI)
    then have "event_type (erase e) \<noteq> Tombstone" using assms(2) by (auto simp: bench_log_def append_event_def)
    then show ?thesis by (simp add: is_row_def erase_def)
  qed
  then have "contents act [] [[], [], [], []] = mset (map snd lg)"
    using kept_all_rows [OF i] by (simp add: entries_of_def)
  then have m: "mset act = mset (map snd lg)" by (simp add: contents_def sources_def)
  then have "length act = n" using at(3) by (metis length_map size_mset)
  then show ?thesis using at(1,2) m by blast
qed

lemma db_open_bench:
  assumes "os_good os" and "memtable_flush_bytes cfg = 268435456"
  shows "\<exists>st. db_open os rng cfg empty_disk = Some (Inr st) \<and> bench_at cfg f 0 st"
proof -
  obtain st where o: "db_open os rng cfg empty_disk = Some (Inr st)" "run_at cfg 0 st [] [] [] [] [] [[], [], [], []]"
    using db_open_fresh [OF assms(1)] by blast
  have "db_active st = Some (memtable_new 268435456)" using db_open_new [OF o(1)] assms(2) by simp
  moreover have "flush_threshold (memtable_new 268435456) = 268435456" by (simp add: memtable_new_def)
  ultimately have "bench_at cfg f 0 st"
    using o(2) memtable_fill_new unfolding bench_at_def
    by (intro exI [of _ "[]"] exI [of _ "memtable_new 268435456"] conjI) (simp_all add: bench_log_def)
  then show ?thesis using o(1) by blast
qed

section \<open>What is left behind\<close>

lemma unlinked_fields [simp]:
  "db_cfg (unlinked st) = db_cfg st" "db_closed (unlinked st) = db_closed st" "db_active (unlinked st) = db_active st"
  "db_sst_seq (unlinked st) = db_sst_seq st" "db_tables (unlinked st) = []"
  by (simp_all add: unlinked_def)

lemma unlinked_holds:
  "db_holds st [] act [] [[], [], [], []] \<Longrightarrow> db_holds (unlinked st) [] act [] [[], [], [], []]"
  by (simp add: db_holds_def unlinked_def)

lemma bench_append_leaves:
  assumes os: "os_good os" and nf: "\<forall>n. bloom_wf (nf n)" and n: "0 < n" "n \<le> 1000000"
    and cfg: "memtable_flush_bytes cfg = 268435456" "block_target_bytes cfg < 2 ^ 32"
    and f: "\<And>i. op_ok (Op_append (fst (f i)) (snd (f i)))" "\<And>i. aa_event_type (snd (f i)) \<noteq> Tombstone"
  shows "\<exists>dk r bs. bench_append os rng nf order cfg f report n = Some (Returned report, dk) \<and>
    dom (map_of (dk_tables dk)) = {sr_path r} \<and> table_on (dk_tables dk) r bs \<and> length (concat bs) = n"
proof -
  have op: "os_progress os" using os by (simp add: os_progress_def)
  obtain st0 where o: "db_open os rng cfg empty_disk = Some (Inr st0)" "bench_at cfg f 0 st0"
    using db_open_bench [OF os cfg(1)] by blast
  obtain st where l: "append_loop os rng f n 0 st0 = Some (Inr (), st)" "bench_at cfg f n st"
    using append_loop_spec [OF os f(1) o(2), of n] n(2) by auto
  obtain lg act where at: "run_at cfg n st lg [] [] act [] [[], [], [], []]" "length act = n"
    using bench_at_count [OF l(2) f(2)] by blast
  have i: "db_cfg st = cfg" "\<not> db_closed st" "db_holds st [] act [] [[], [], [], []]" "unat (db_sst_seq st) \<le> n + 1"
    using at(1) unfolding run_at_def by auto
  let ?u = "unlinked st"
  have h: "db_holds ?u [] act [] [[], [], [], []]" by (rule unlinked_holds [OF i(3)])
  then obtain m where m: "db_active ?u = Some m" unfolding db_holds_def by blast
  have b: "unat (db_sst_seq ?u) + length ([] :: event list list) + 1 < 2 ^ 64" "\<forall>es \<in> set [act]. length es < 2 ^ 32"
    using i(4) at(2) n(2) by simp_all
  obtain ts st' where fl: "flush_now os nf ?u = Some (Inr (), st')" "db_holds st' ts [] [] (flush_history [[], [], [], []] ts)"
      "events_of ts = filter (\<lambda>es. es \<noteq> []) [act]"
    using flush_now_spec [OF op nf h _ b(1) _ b(2)] i(1) cfg(2) by (auto simp: numbered_def)
  obtain r bs where ts: "ts = [(r, bs)]" "concat bs = act" using fl(3) at(2) n(1) by (cases ts) auto
  have t: "dom (map_of (db_tables st')) = {sr_path r}" "table_on (db_tables st') r bs"
    using fl(2) unfolding db_holds_def by (simp_all add: ts(1) flush_history_def)
  have "\<not> db_closed ?u" using i(2) by simp
  from db_close_flush [OF os this m fl(1), of order]
  obtain st2 where c: "db_close os nf order ?u = Some (Inr (), st2)" "db_tables st2 = db_tables st'" by simp
  have "bench_append os rng nf order cfg f report n = Some (Returned report, (disk_of st2)\<lparr>dk_wal := None\<rparr>)"
    by (simp add: bench_append_def o(1) l(1) c(1))
  moreover have "dk_tables ((disk_of st2)\<lparr>dk_wal := None\<rparr>) = db_tables st'" by (simp add: disk_of_def c(2))
  ultimately show ?thesis using t ts(2) at(2) by (metis (no_types, lifting))
qed

text \<open>C38: The benchmarks of appends remove their directory before the database is destroyed, and the destructor
  writes it again: whatever the number of iterations up to the million that is configured, the
  body reports its numbers and leaves a table file with all events in the directory.\<close>

theorem append_benchmark_leaves_table:
  assumes "os_good os" and "\<forall>n. bloom_wf (new_filter n)" and "0 < iters" and "iters \<le> 1000000"
  shows "\<exists>dk r io. BM_AppendSingleThread os rng new_filter order dir iters =
      Some (Returned \<lparr>items_processed = int iters, bytes_processed = int iters * 65, skip_message = None\<rparr>, dk) \<and>
    dom (map_of (dk_tables dk)) = {sr_path r} \<and> sst_reader_new os (sr_path r) (dk_tables dk) = Inr r \<and>
    sst_scan r \<lparr>key_symbol_id = 0, key_timestamp_ns = 0, key_sequence_id = 0\<rparr>
      \<lparr>key_symbol_id = - 1, key_timestamp_ns = - 1, key_sequence_id = - 1\<rparr> count_rows 0 (fresh_io None) = (Inr (), iters, io)"
proof -
  let ?rep = "bench_report_new\<lparr>items_processed := int iters, bytes_processed := int iters * int event_kEncodedSize\<rparr>"
  obtain dk r bs where b: "BM_AppendSingleThread os rng new_filter order dir iters = Some (Returned ?rep, dk)"
      "dom (map_of (dk_tables dk)) = {sr_path r}" "table_on (dk_tables dk) r bs" "length (concat bs) = iters"
    using bench_append_leaves [OF assms(1-4), of "bench_config dir True" "\<lambda>s. (''AAPL'', bench_trade s)" rng order ?rep]
    by (auto simp: BM_AppendSingleThread_def bench_config_def bench_trade_def)
  have rb: "reader_blocks r bs" "sst_reader_new os (sr_path r) (dk_tables dk) = Inr r"
    using b(3) table_on_open [OF b(3)] assms(1) by (simp_all add: table_on_def)
  obtain io where "sst_scan r \<lparr>key_symbol_id = 0, key_timestamp_ns = 0, key_sequence_id = 0\<rparr>
      \<lparr>key_symbol_id = - 1, key_timestamp_ns = - 1, key_sequence_id = - 1\<rparr> count_rows 0 (fresh_io None) = (Inr (), iters, io)"
    using full_scan_counts [OF rb(1)] b(4) by blast
  then show ?thesis using b(1,2) rb(2) by (auto simp: bench_report_new_def event_kEncodedSize_def)
qed

lemma append_benchmark_leaves_table_witness:
  "\<exists>dk r io. BM_AppendSingleThread os_ok (\<lambda>_. 1) sample_filter rev ''tmp'' 1000000 =
      Some (Returned \<lparr>items_processed = int 1000000, bytes_processed = int 1000000 * 65, skip_message = None\<rparr>, dk) \<and>
    dom (map_of (dk_tables dk)) = {sr_path r} \<and> sst_reader_new os_ok (sr_path r) (dk_tables dk) = Inr r \<and>
    sst_scan r \<lparr>key_symbol_id = 0, key_timestamp_ns = 0, key_sequence_id = 0\<rparr>
      \<lparr>key_symbol_id = - 1, key_timestamp_ns = - 1, key_sequence_id = - 1\<rparr> count_rows 0 (fresh_io None) = (Inr (), 1000000, io)"
  by (rule append_benchmark_leaves_table) (simp_all add: os_good_def sample_filter_wf)

end
