(* ===== verification/BenchScan.thy ===== *)
theory BenchScan
  imports BenchIngest
begin

text \<open>
  The benchmarks of queries (bench/bench_scan.cpp): a database that is built once per process,
  queries of one symbol, and a scan of its table file.
\<close>

section \<open>The fixture\<close>

definition scan_trade :: "nat \<Rightarrow> append_args" where
  "scan_trade i = \<lparr>aa_timestamp_ns = word_of_nat i * 1000, aa_event_type = Trade, aa_price_ticks = 100, aa_bid_px_ticks = 99,
     aa_ask_px_ticks = 101, aa_quantity = 10, aa_bid_qty = 10, aa_ask_qty = 10, aa_order_id = word_of_nat i\<rparr>"

definition kFixtureEvents :: nat where
  "kFixtureEvents = 1000000"

definition fixture_event :: "nat \<Rightarrow> string \<times> append_args" where
  "fixture_event i = (''SYM'' @ decimal04 (i mod 10), scan_trade i)"

definition scan_fixture ::
  "os \<Rightarrow> (nat \<Rightarrow> u32) \<Rightarrow> (u32 \<Rightarrow> bloom) \<Rightarrow> string \<Rightarrow> (exn + db) option" where
  "scan_fixture os rng nf dir =
     db_open os rng (bench_config dir False) empty_disk \<bind> (\<lambda>q. case q of
       Inl ex \<Rightarrow> Some (Inl ex)
     | Inr st \<Rightarrow> append_loop os rng fixture_event kFixtureEvents 0 st \<bind> (\<lambda>(r, st1). case r of
         Inl ex \<Rightarrow> Some (Inl ex)
       | Inr _ \<Rightarrow> map_option (\<lambda>(r2, st2). map_sum id (\<lambda>_. st2) r2) (flush_now os nf st1)))"

text \<open>The destructor of the fixture: an exception of the closing ends the process; then all files are removed.\<close>

definition scan_fixture_drop ::
  "os \<Rightarrow> (u32 \<Rightarrow> bloom) \<Rightarrow> ((string \<times> u32) list \<Rightarrow> (string \<times> u32) list) \<Rightarrow> db \<Rightarrow> (unit outcome \<times> disk) option" where
  "scan_fixture_drop os nf order st =
     map_option (\<lambda>(r, st'). case r of Inl ex \<Rightarrow> (Terminated, disk_of st') | Inr _ \<Rightarrow> (Returned (), empty_disk)) (db_close os nf order st)"

section \<open>The queries\<close>

text \<open>The iterations of a body with the number of rows that each query returns.\<close>

primrec query_loop :: "os \<Rightarrow> query_request \<Rightarrow> nat \<Rightarrow> db \<Rightarrow> ((exn + nat list) \<times> db) option" where
  "query_loop os req 0 st = Some (Inr [], st)"
| "query_loop os req (Suc k) st = do {
     (r, st1) \<leftarrow> db_query os req st;
     case r of
       Inl ex \<Rightarrow> Some (Inl ex, st1)
     | Inr result \<Rightarrow> map_option (apfst (map_sum id (Cons (length (qr_rows result))))) (query_loop os req k st1)
   }"

definition BM_FullSymbolScan :: "os \<Rightarrow> nat \<Rightarrow> db \<Rightarrow> ((exn + nat list) \<times> bench_report \<times> db) option" where
  "BM_FullSymbolScan os iters st =
     map_option (\<lambda>(r, st'). (r, bench_report_new\<lparr>items_processed := int iters * 100000\<rparr>, st'))
       (query_loop os \<lparr>rq_symbol = ''SYM0000'', rq_start_ns = 0, rq_end_ns = - 1, rq_event_type = None, rq_limit = 10000\<rparr> iters st)"

definition BM_NarrowRangeScan :: "os \<Rightarrow> nat \<Rightarrow> db \<Rightarrow> ((exn + nat list) \<times> bench_report \<times> db) option" where
  "BM_NarrowRangeScan os iters st =
     map_option (\<lambda>(r, st'). (r, bench_report_new\<lparr>items_processed := int iters\<rparr>, st'))
       (query_loop os \<lparr>rq_symbol = ''SYM0001'', rq_start_ns = 1000000, rq_end_ns = 2000000, rq_event_type = None, rq_limit = 10000\<rparr>
          iters st)"

definition BM_ScanWithEventTypeFilter :: "os \<Rightarrow> nat \<Rightarrow> db \<Rightarrow> ((exn + nat list) \<times> bench_report \<times> db) option" where
  "BM_ScanWithEventTypeFilter os iters st =
     map_option (\<lambda>(r, st'). (r, bench_report_new\<lparr>items_processed := int iters\<rparr>, st'))
       (query_loop os \<lparr>rq_symbol = ''SYM0002'', rq_start_ns = 0, rq_end_ns = - 1, rq_event_type = Some Trade, rq_limit = 1000\<rparr>
          iters st)"

section \<open>The table file\<close>

definition count_to_10000 :: "event \<Rightarrow> nat \<Rightarrow> bool \<times> nat" where
  "count_to_10000 e n = (n + 1 < 10000, n + 1)"

definition direct_scan :: "os \<Rightarrow> string \<Rightarrow> dir \<Rightarrow> exn + nat" where
  "direct_scan os path d =
     bind_sum (sst_reader_new os path d) (\<lambda>reader.
       (case sst_scan reader \<lparr>key_symbol_id = 0, key_timestamp_ns = 0, key_sequence_id = 0\<rparr>
               \<lparr>key_symbol_id = - 1, key_timestamp_ns = - 1, key_sequence_id = - 1\<rparr> count_to_10000 0 (fresh_io None) of
          (Inl ex, _) \<Rightarrow> Inl ex
        | (Inr _, n, _) \<Rightarrow> Inr n))"

text \<open>\<open>listing\<close> has the files of the directory in the order in which the iterator finds them.\<close>

definition BM_SSTableDirectScan :: "os \<Rightarrow> string list \<Rightarrow> nat \<Rightarrow> db \<Rightarrow> bench_report \<times> (exn + nat) list" where
  "BM_SSTableDirectScan os listing iters st =
     (case find (suffix ''.sst'') listing of
        None \<Rightarrow> (bench_report_new\<lparr>skip_message := Some ''no SSTable found''\<rparr>, [])
      | Some path \<Rightarrow> (bench_report_new, replicate iters (direct_scan os path (db_tables st))))"

section \<open>Counting\<close>

lemma one_residue:
  assumes "c < 10"
  shows "length (filter (\<lambda>i. i mod 10 = c) [0..<10]) = 1"
proof -
  have "filter (\<lambda>i. i mod 10 = c) [0..<10] = filter (\<lambda>i. i = c) [0..<10]" by (rule filter_cong) auto
  moreover have "length (filter (\<lambda>i. i = c) [0..<n]) = (if c < n then 1 else 0)" for n by (induction n) auto
  ultimately show ?thesis using assms by simp
qed

lemma count_residue: "c < 10 \<Longrightarrow> length (filter (\<lambda>i. i mod 10 = c) [10 * a..<10 * (a + k)]) = k"
proof (induction k)
  case (Suc k)
  let ?b = "10 * (a + k)"
  have "[10 * a..<10 * (a + Suc k)] = [10 * a..<?b] @ [?b..<?b + 10]"
    using upt_add_eq_append [of "10 * a" ?b 10] by (simp add: algebra_simps)
  moreover have "[?b..<?b + 10] = map (\<lambda>i. i + ?b) [0..<10]" by (simp only: map_add_upt add.commute)
  moreover have "length (filter (\<lambda>i. i mod 10 = c) (map (\<lambda>i. i + ?b) [0..<10])) = 1"
    unfolding filter_map comp_def length_map mod_mult_self2 by (rule one_residue [OF Suc.prems])
  ultimately show ?case using Suc by simp
qed simp

lemma digits_val_decimal04: "digits_val 0 (decimal04 n) = n"
  by (simp add: decimal04_def digits_val_zeros digits_val_decimal)

lemma fixture_symbol: "''SYM'' @ decimal04 i = ''SYM'' @ decimal04 j \<longleftrightarrow> i = j"
  using digits_val_decimal04 by (metis same_append_eq)

lemma fixture_names:
  "''SYM0000'' = ''SYM'' @ decimal04 0" "''SYM0001'' = ''SYM'' @ decimal04 1" "''SYM0002'' = ''SYM'' @ decimal04 2"
  by code_simp+

text \<open>What the queries of the fixture match.\<close>

lemma word_times_1000: "i < 2 ^ 54 \<Longrightarrow> unat (word_of_nat i * 1000 :: u64) = i * 1000"
  by (simp add: unat_word_ariths unat_of_nat take_bit_eq_mod)

lemma fixture_matches:
  assumes "rq_symbol req = ''SYM'' @ decimal04 c" and "rq_event_type req \<in> {None, Some Trade}" and "i < 2 ^ 54"
  shows "matches req (fst (fixture_event i), append_event (snd (fixture_event i)) 0 q) \<longleftrightarrow>
    i mod 10 = c \<and> unat (rq_start_ns req) \<le> i * 1000 \<and> i * 1000 \<le> unat (rq_end_ns req)"
  using assms(1,2) word_times_1000 [OF assms(3)] fixture_symbol [of "i mod 10" c]
  by (auto simp: matches_def fixture_event_def append_event_def scan_trade_def wanted_def word_le_nat_alt)

lemma fixture_matching:
  assumes "rq_symbol req = ''SYM'' @ decimal04 c" and "rq_event_type req \<in> {None, Some Trade}" and "n < 2 ^ 54"
  shows "length (filter (matches req) (bench_log fixture_event n)) =
    length (filter (\<lambda>i. i mod 10 = c \<and> unat (rq_start_ns req) \<le> i * 1000 \<and> i * 1000 \<le> unat (rq_end_ns req)) [0..<n])"
proof -
  have "filter (\<lambda>i. matches req (fst (fixture_event i), append_event (snd (fixture_event i)) 0 (word_of_nat (i + 1)))) [0..<n] =
      filter (\<lambda>i. i mod 10 = c \<and> unat (rq_start_ns req) \<le> i * 1000 \<and> i * 1000 \<le> unat (rq_end_ns req)) [0..<n]"
    using fixture_matches [OF assms(1,2)] assms(3) by (intro filter_cong) auto
  then show ?thesis by (simp add: bench_log_def filter_map comp_def)
qed

lemma fixture_all:
  assumes "c < 10" and "10 * k \<le> 2 ^ 54"
  shows "length (filter (\<lambda>i. i mod 10 = c \<and> unat (0 :: u64) \<le> i * 1000 \<and> i * 1000 \<le> unat (- 1 :: u64)) [0..<10 * k]) = k"
proof -
  have "unat (- 1 :: u64) = 2 ^ 64 - 1" by (simp add: unsigned_minus_1_eq_mask mask_eq_exp_minus_1)
  then have "filter (\<lambda>i. i mod 10 = c \<and> unat (0 :: u64) \<le> i * 1000 \<and> i * 1000 \<le> unat (- 1 :: u64)) [0..<10 * k] =
      filter (\<lambda>i. i mod 10 = c) [0..<10 * k]"
    using assms(2) by (intro filter_cong) auto
  then show ?thesis using count_residue [OF assms(1), of 0 k] by simp
qed

lemma fixture_narrow:
  assumes "2000 \<le> n"
  shows "length (filter (\<lambda>i. i mod 10 = 1 \<and> unat (1000000 :: u64) \<le> i * 1000 \<and> i * 1000 \<le> unat (2000000 :: u64)) [0..<n]) = 100"
proof -
  let ?P = "\<lambda>i. i mod 10 = 1 \<and> unat (1000000 :: u64) \<le> i * 1000 \<and> i * 1000 \<le> unat (2000000 :: u64)"
  obtain d where d: "n = 2000 + d" using le_Suc_ex [OF assms] by blast
  have s: "[0..<n] = [0..<1000] @ [1000..<2000] @ [2000..<n]"
    using upt_add_eq_append [of 0 1000 1000] upt_add_eq_append [of 0 2000 d] unfolding d
    by (simp only: append_assoc le0 add_0 numeral_plus_numeral semiring_norm(5)) simp
  have below: "filter ?P [0..<b] = []" if "b \<le> 1000" for b using that by (auto simp: filter_empty_conv)
  have no: "\<not> ?P i" if "2000 \<le> i" for i
  proof
    assume p: "?P i"
    have i: "i = 2000" using p that by simp
    from p show False unfolding i by simp
  qed
  have above: "filter ?P [b..<n] = []" if "2000 \<le> b" for b
    unfolding filter_empty_conv
  proof
    fix i assume "i \<in> set [b..<n]"
    then have "2000 \<le> i" using that by simp
    then show "\<not> ?P i" by (rule no)
  qed
  have "filter ?P [1000..<2000] = filter (\<lambda>i. i mod 10 = 1) [1000..<2000]" by (rule filter_cong) (auto simp del: upt_rec_numeral)
  moreover have "length (filter (\<lambda>i. i mod 10 = 1) [1000..<2000]) = 100"
    using count_residue [of 1 100 100] by (simp del: upt_rec_numeral)
  ultimately show ?thesis
    unfolding s filter_append below [OF order_refl] above [OF order_refl] by (simp only: append_Nil append_Nil2)
qed

section \<open>The rows of a query\<close>

text \<open>When nothing was removed, a query returns as many rows as match, up to its limit.\<close>

lemma answers_count:
  assumes "answers req \<lparr>appended = xs, removed = []\<rparr> rows"
  shows "length rows = min (query_limit req) (length (filter (matches req) xs))"
proof -
  have n: "not_removed \<lparr>appended = xs, removed = []\<rparr> x" for x by (simp add: not_removed_def)
  obtain es where es: "map erase rows = take (query_limit req) es" "mset es \<subseteq># mset (map snd (filter (matches req) xs))"
      "mset (map snd (filter (matches req) xs)) \<subseteq># mset es"
    using assms unfolding answers_def by (auto simp: n)
  have "mset es = mset (map snd (filter (matches req) xs))" using es(2,3) by (rule subset_mset.antisym)
  then have "length es = length (filter (matches req) xs)" by (metis length_map size_mset)
  then show ?thesis using arg_cong [OF es(1), of length] by (simp add: min.commute)
qed

lemma query_loop_rows:
  assumes os: "os_good os"
  shows "run_inv cfg k st lg [] \<Longrightarrow> \<exists>st'. query_loop os req j st =
    Some (Inr (replicate j (min (query_limit req) (length (filter (matches req) (map (apsnd erase) lg))))), st')"
proof (induction j arbitrary: k st)
  case (Suc j)
  obtain an st1 where q: "db_exec os (\<lambda>_. 1) sample_filter (Op_query req) st = Some (an, st1)" "run_inv cfg (k + 1) st1 lg []"
      "answered (Op_query req) an (client lg []) (client lg [])"
    using run_query [OF os Suc.prems, of "\<lambda>_. 1" sample_filter req] by blast
  then obtain r where r: "db_query os req st = Some (r, st1)" "an = answer Rows r" by auto
  have "log_spec (client lg []) [Op_query req] [an]" using q(3) unfolding answered_def by simp
  then obtain res where res: "r = Inr res" "answers req (client lg []) (qr_rows res)" using r(2) by (cases r) auto
  obtain st' where "query_loop os req j st1 =
      Some (Inr (replicate j (min (query_limit req) (length (filter (matches req) (map (apsnd erase) lg))))), st')"
    using Suc.IH [OF q(2)] by blast
  then show ?case using r(1) res(1) answers_count [OF res(2)] by simp
qed simp

section \<open>The fixture holds its events\<close>

lemma scan_fixture_spec:
  assumes os: "os_good os" and nf: "\<forall>n. bloom_wf (new_filter n)"
  shows "\<exists>st lg r bs. scan_fixture os rng new_filter dir = Some (Inr st) \<and>
    run_inv (bench_config dir False) (kFixtureEvents + 1) st lg [] \<and> map (apsnd erase) lg = bench_log fixture_event kFixtureEvents \<and>
    dom (map_of (db_tables st)) = {sr_path r} \<and> table_on (db_tables st) r bs \<and> length (concat bs) = kFixtureEvents"
proof -
  let ?cfg = "bench_config dir False"
  have op: "os_progress os" using os by (simp add: os_progress_def)
  have cfg: "memtable_flush_bytes ?cfg = 268435456" "block_target_bytes ?cfg < 2 ^ 32" by (simp_all add: bench_config_def)
  have f: "op_ok (Op_append (fst (fixture_event i)) (snd (fixture_event i)))" "aa_event_type (snd (fixture_event i)) \<noteq> Tombstone" for i
  proof -
    have "length (decimal04 (i mod 10)) \<le> 4 + length (decimal (i mod 10))" by (simp add: decimal04_def)
    moreover have "length (decimal (i mod 10)) = 1" by (subst decimal.simps) simp
    ultimately show "op_ok (Op_append (fst (fixture_event i)) (snd (fixture_event i)))"
      by (simp add: fixture_event_def scan_trade_def)
  qed (simp add: fixture_event_def scan_trade_def)
  have n: "0 + kFixtureEvents \<le> 1000000" by (simp add: kFixtureEvents_def)
  obtain st0 where o: "db_open os rng ?cfg empty_disk = Some (Inr st0)" "bench_at ?cfg fixture_event 0 st0"
    using db_open_bench [OF os cfg(1)] by blast
  obtain st1 where l: "append_loop os rng fixture_event kFixtureEvents 0 st0 = Some (Inr (), st1)"
      "bench_at ?cfg fixture_event kFixtureEvents st1"
    using append_loop_spec [OF os f(1) o(2) n, of rng] by auto
  obtain lg act where at: "run_at ?cfg kFixtureEvents st1 lg [] [] act [] [[], [], [], []]"
      "map (apsnd erase) lg = bench_log fixture_event kFixtureEvents" "length act = kFixtureEvents"
    using bench_at_count [OF l(2) f(2)] by blast
  have k: "kFixtureEvents < 2 ^ 32 - 2" by (simp add: kFixtureEvents_def)
  obtain ts st where fl: "flush_now os new_filter st1 = Some (Inr (), st)"
      "run_at ?cfg (kFixtureEvents + 1) st lg [] ts [] [] (flush_history [[], [], [], []] ts)"
      "events_of ts = filter (\<lambda>es. es \<noteq> []) [act]"
    using run_at_flush [OF op nf at(1) k cfg(2)] by auto
  have "act \<noteq> []" using at(3) by (auto simp: kFixtureEvents_def)
  then obtain r bs where ts: "ts = [(r, bs)]" "concat bs = act" using fl(3) by (cases ts) auto
  have "db_holds st ts [] [] (flush_history [[], [], [], []] ts)" using fl(2) unfolding run_at_def by blast
  then have "dom (map_of (db_tables st)) = {sr_path r}" "table_on (db_tables st) r bs"
    unfolding db_holds_def by (simp_all add: ts(1) flush_history_def)
  moreover have "scan_fixture os rng new_filter dir = Some (Inr st)" by (simp add: scan_fixture_def o(1) l(1) fl(1))
  moreover have "run_inv ?cfg (kFixtureEvents + 1) st lg []" using fl(2) unfolding run_inv_def by blast
  ultimately show ?thesis using at(2,3) ts(2) by metis
qed

text \<open>The scan of the table file stops at 10000 events.\<close>

lemma run_count_to_10000: "m < 10000 \<Longrightarrow> snd (run_cb count_to_10000 es m) = min 10000 (m + length es)"
  by (induction es arbitrary: m) (simp_all add: count_to_10000_def split: bool.split)

lemma direct_scan_count:
  assumes "os_good os" and "table_on d r bs" and "10000 \<le> length (concat bs)"
  shows "direct_scan os (sr_path r) d = Inr 10000"
proof -
  have rb: "reader_blocks r bs" "sst_reader_new os (sr_path r) d = Inr r"
    using assms(1,2) table_on_open [OF assms(2)] by (simp_all add: table_on_def)
  let ?lo = "\<lparr>key_symbol_id = 0, key_timestamp_ns = 0, key_sequence_id = 0\<rparr>" and ?hi = "\<lparr>key_symbol_id = - 1, key_timestamp_ns = - 1, key_sequence_id = - 1\<rparr>"
  have "in_range ?lo ?hi e" for e by (simp add: in_range_def key_less_iff not_less [symmetric])
  then have all: "filter (in_range ?lo ?hi) (concat bs) = concat bs" by (simp add: filter_id_conv)
  obtain io where s: "sst_scan r ?lo ?hi count_to_10000 0 (fresh_io None) = (Inr (), snd (run_cb count_to_10000 (concat bs) 0), io)"
    using sst_scan_spec [OF rb(1) reader_source_self [OF rb(1)] fresh_io_ok [of _ None], where cb = count_to_10000 and s = 0 and lo = ?lo and hi = ?hi]
    unfolding all by blast
  have "snd (run_cb count_to_10000 (concat bs) 0) = 10000" using run_count_to_10000 [of 0 "concat bs"] assms(3) by simp
  then show ?thesis using s rb(2) by (simp add: direct_scan_def)
qed

lemma direct_scan_benchmark:
  assumes "os_good os" and "\<forall>n. bloom_wf (new_filter n)"
  shows "\<exists>st path. scan_fixture os rng new_filter dir = Some (Inr st) \<and> dom (map_of (db_tables st)) = {path} \<and>
    (suffix ''.sst'' path \<longrightarrow> BM_SSTableDirectScan os [path] iters st = (bench_report_new, replicate iters (Inr 10000)))"
proof -
  obtain st lg r bs where f: "scan_fixture os rng new_filter dir = Some (Inr st)"
      "dom (map_of (db_tables st)) = {sr_path r}" "table_on (db_tables st) r bs" "length (concat bs) = kFixtureEvents"
    using scan_fixture_spec [OF assms, of rng dir] by (elim exE conjE) (rule that)
  have "10000 \<le> length (concat bs)" unfolding f(4) by (simp add: kFixtureEvents_def)
  then have "direct_scan os (sr_path r) (db_tables st) = Inr 10000" by (rule direct_scan_count [OF assms(1) f(3)])
  then show ?thesis using f(1,2) by (intro exI [of _ st] exI [of _ "sr_path r"]) (simp add: BM_SSTableDirectScan_def)
qed

section \<open>Properties\<close>

text \<open>C37: What the benchmarks of queries measure, on a database of a million events of ten symbols: a
  query over a whole symbol stops at its limit and returns 10000 rows, but is counted as 100000
  items; the narrow range is exactly 100 rows; the query with a type returns 1000.\<close>

theorem scan_benchmarks_rows:
  assumes "os_good os" and "\<forall>n. bloom_wf (new_filter n)"
  shows "\<exists>st st1 st2 st3 rep. scan_fixture os rng new_filter dir = Some (Inr st) \<and>
    BM_FullSymbolScan os iters st = Some (Inr (replicate iters 10000), bench_report_new\<lparr>items_processed := 100000 * int iters\<rparr>, st1) \<and>
    BM_NarrowRangeScan os iters st = Some (Inr (replicate iters 100), rep, st2) \<and>
    BM_ScanWithEventTypeFilter os iters st = Some (Inr (replicate iters 1000), rep, st3)"
proof -
  obtain st lg where f: "scan_fixture os rng new_filter dir = Some (Inr st)"
      "run_inv (bench_config dir False) (kFixtureEvents + 1) st lg []" "map (apsnd erase) lg = bench_log fixture_event kFixtureEvents"
    using scan_fixture_spec [OF assms, of rng dir] by (elim exE conjE) (rule that)
  have n: "kFixtureEvents < 2 ^ 54" "2000 \<le> kFixtureEvents" "kFixtureEvents = 10 * 100000" "10 * 100000 \<le> (2 ^ 54 :: nat)"
    by (simp_all add: kFixtureEvents_def)
  let ?full = "\<lparr>rq_symbol = ''SYM0000'', rq_start_ns = 0, rq_end_ns = - 1, rq_event_type = None, rq_limit = 10000\<rparr>"
  let ?narrow = "\<lparr>rq_symbol = ''SYM0001'', rq_start_ns = 1000000, rq_end_ns = 2000000, rq_event_type = None, rq_limit = 10000\<rparr>"
  let ?typed = "\<lparr>rq_symbol = ''SYM0002'', rq_start_ns = 0, rq_end_ns = - 1, rq_event_type = Some Trade, rq_limit = 1000\<rparr>"
  note rows = query_loop_rows [OF assms(1) f(2), of _ iters, unfolded f(3)]
  have "length (filter (matches ?full) (bench_log fixture_event kFixtureEvents)) = 100000"
    using fixture_matching [of ?full 0 kFixtureEvents] n(1) fixture_names(1) fixture_all [OF _ n(4), of 0] unfolding n(3) by simp
  moreover have "length (filter (matches ?typed) (bench_log fixture_event kFixtureEvents)) = 100000"
    using fixture_matching [of ?typed 2 kFixtureEvents] n(1) fixture_names(3) fixture_all [OF _ n(4), of 2] unfolding n(3) by simp
  moreover have "length (filter (matches ?narrow) (bench_log fixture_event kFixtureEvents)) = 100"
    using fixture_matching [of ?narrow 1 kFixtureEvents] n(1) fixture_names(2) fixture_narrow [OF n(2)] by simp
  moreover obtain st1 st2 st3 where
      "query_loop os ?full iters st = Some (Inr (replicate iters (min (query_limit ?full) (length (filter (matches ?full) (bench_log fixture_event kFixtureEvents))))), st1)"
      "query_loop os ?narrow iters st = Some (Inr (replicate iters (min (query_limit ?narrow) (length (filter (matches ?narrow) (bench_log fixture_event kFixtureEvents))))), st2)"
      "query_loop os ?typed iters st = Some (Inr (replicate iters (min (query_limit ?typed) (length (filter (matches ?typed) (bench_log fixture_event kFixtureEvents))))), st3)"
    using rows [of ?full] rows [of ?narrow] rows [of ?typed] by blast
  ultimately show ?thesis using f(1)
    by (simp add: BM_FullSymbolScan_def BM_NarrowRangeScan_def BM_ScanWithEventTypeFilter_def query_limit_def mult.commute)
qed

lemma scan_benchmarks_rows_witness:
  "\<exists>st st1 st2 st3 rep. scan_fixture os_ok (\<lambda>_. 1) sample_filter ''tmp'' = Some (Inr st) \<and>
    BM_FullSymbolScan os_ok 3 st = Some (Inr (replicate 3 10000), bench_report_new\<lparr>items_processed := 100000 * int 3\<rparr>, st1) \<and>
    BM_NarrowRangeScan os_ok 3 st = Some (Inr (replicate 3 100), rep, st2) \<and>
    BM_ScanWithEventTypeFilter os_ok 3 st = Some (Inr (replicate 3 1000), rep, st3)"
  by (rule scan_benchmarks_rows) (simp_all add: os_good_def sample_filter_wf)

end
